(* ===== verification/Prelude.thy ===== *)
theory Prelude
  imports Main "HOL-Library.Word" "HOL-Library.Monad_Syntax"
begin

text \<open>
  Shared vocabulary of the development: the machine integer types of the AArch64 C code
  (\<open>unsigned char\<close>, \<open>unsigned short\<close>, \<open>unsigned int\<close>, \<open>unsigned long\<close>), nullable pointers,
  linked lists in a store (the predicate \<open>chain\<close>, used for every intrusive list of the
  kernel), byte buffers, and the collections of rewrite rules the component theories feed.
\<close>

unbundle bit_operations_syntax

section \<open>Types and collections\<close>

type_synonym u8 = "8 word"
type_synonym u16 = "16 word"
type_synonym u32 = "32 word"
type_synonym u64 = "64 word"
type_synonym bytes = "u8 list"

named_theorems word_nat_simps \<open>reading word operations as operations on nat\<close>
named_theorems chain_simps \<open>linked lists in a store\<close>
named_theorems segm_simps \<open>reading segments of buffers after writes\<close>
named_theorems rep_intros \<open>introduction rules of the representation predicates\<close>

section \<open>Word arithmetic without wrap-around\<close>

lemma unat_add_no_wrap:
  fixes a b :: "'a::len word"
  assumes "unat a + unat b < 2 ^ LENGTH('a)"
  shows "unat (a + b) = unat a + unat b"
  using assms by (simp add: unat_word_ariths)

lemma unat_add64 [word_nat_simps]:
  fixes a b :: u64
  assumes "unat a + unat b < 18446744073709551616"
  shows "unat (a + b) = unat a + unat b"
  using unat_add_no_wrap [of a b] assms by simp

lemma unat_sub64 [word_nat_simps]:
  fixes a b :: u64
  assumes "b \<le> a"
  shows "unat (a - b) = unat a - unat b"
  using assms by (simp add: unat_sub_if_size word_le_nat_alt)

lemma unat_bound64: "unat (a::u64) < 18446744073709551616"
  using unsigned_less [of a] by simp

lemma unat_bound32: "unat (a :: u32) < 4294967296"
  using unsigned_less [of a] by simp

lemma unat_bound16: "unat (c :: u16) < 65536"
  using unsigned_less [of c] by simp

lemma unat_byte_less: "unat (a :: u8) < 256"
  using unsigned_less [of a] by simp

lemma u64_eq_iff_unat: "(a::u64) = b \<longleftrightarrow> unat a = unat b"
  by (simp add: word_unat_eq_iff)

lemma and_not_mask_drop: "(x::'a::len word) AND NOT (mask n) = push_bit n (drop_bit n x)"
  by (rule bit_word_eqI) (auto simp: bit_simps)

lemma unat_and_not_mask: "unat ((x::'a::len word) AND NOT (mask n)) = unat x div 2 ^ n * 2 ^ n"
proof -
  have "unat (take_bit n x) = unat x mod 2 ^ n"
    by (metis unsigned_take_bit_eq take_bit_eq_mod)
  moreover have "take_bit n x \<le> x"
    using calculation by (simp add: word_le_nat_alt)
  moreover have "push_bit n (drop_bit n x) = x - take_bit n x"
    using bits_ident [of n x] by (simp add: algebra_simps)
  ultimately show ?thesis
    by (simp add: and_not_mask_drop unat_sub_if_size word_le_nat_alt minus_mod_eq_div_mult)
qed

lemma sint_small32:
  fixes n :: u32
  assumes "unat n < 2147483648"
  shows "sint n = int (unat n)"
proof -
  have "int (unat n) < 2147483648" using assms by linarith
  then have u: "uint n < 2147483648" "0 \<le> uint n" by (simp_all only: uint_nat of_nat_0_le_iff)
  have "sint n = signed_take_bit 31 (uint n)" by (simp add: sint_uint)
  also have "\<dots> = uint n" using u order_trans [OF _ u(2), of "- 2147483648"] by (intro signed_take_bit_int_eq_self) simp_all
  finally show ?thesis by simp
qed

lemma unat_ucast_32_64 [word_nat_simps]: "unat (ucast (x :: 32 word) :: 64 word) = unat x"
  by (simp add: unsigned_ucast_eq take_bit_nat_eq_self_iff order.strict_trans [OF unsigned_less])

section \<open>Nullable pointers and lists in a store\<close>

text \<open>A C pointer whose null value is the address 0.\<close>

definition ptr :: "u64 \<Rightarrow> u64 option" where
  "ptr p = (if p = 0 then None else Some p)"

lemma ptr_0 [simp]: "ptr 0 = None"
  by (simp add: ptr_def)

lemma ptr_eq_None [simp]: "ptr p = None \<longleftrightarrow> p = 0"
  by (simp add: ptr_def)

lemma ptr_eq_Some [simp]: "ptr p = Some a \<longleftrightarrow> p = a \<and> a \<noteq> 0"
  by (auto simp: ptr_def)

text \<open>
  \<open>chain nx p xs q\<close>: following the links \<open>nx\<close> from the pointer \<open>p\<close> visits exactly the nodes
  \<open>xs\<close>, in this order, and arrives at the pointer \<open>q\<close>.
\<close>

fun chain :: "('a \<Rightarrow> 'a option) \<Rightarrow> 'a option \<Rightarrow> 'a list \<Rightarrow> 'a option \<Rightarrow> bool" where
  "chain nx p [] q \<longleftrightarrow> p = q"
| "chain nx p (x # xs) q \<longleftrightarrow> p = Some x \<and> chain nx (nx x) xs q"

lemma chain_append [chain_simps]:
  "chain nx p (xs @ ys) q \<longleftrightarrow> (\<exists>r. chain nx p xs r \<and> chain nx r ys q)"
  by (induction xs arbitrary: p) auto

lemma chain_snoc [chain_simps]:
  "chain nx p (xs @ [x]) q \<longleftrightarrow> chain nx p xs (Some x) \<and> nx x = q"
  by (auto simp: chain_append)

lemma chain_upd [chain_simps]:
  assumes "u \<notin> set xs"
  shows "chain (nx(u := v)) p xs q \<longleftrightarrow> chain nx p xs q"
  using assms by (induction xs arbitrary: p) auto

lemma chain_cong:
  assumes "\<And>x. x \<in> set xs \<Longrightarrow> nx x = nx' x"
  shows "chain nx p xs q \<longleftrightarrow> chain nx' p xs q"
  using assms by (induction xs arbitrary: p) auto

lemma chain_fun_eq:
  assumes "chain nx p xs None" and "chain nx p ys None"
  shows "xs = ys"
  using assms
proof (induction xs arbitrary: p ys)
  case Nil
  then show ?case by (cases ys) auto
next
  case (Cons x xs)
  then show ?case by (cases ys) auto
qed

lemma chain_None_start [simp]: "chain nx None xs q \<longleftrightarrow> xs = [] \<and> q = None"
  by (cases xs) auto

lemma chain_Some_None:
  "chain nx (Some a) xs None \<longleftrightarrow> (\<exists>ys. xs = a # ys \<and> chain nx (nx a) ys None)"
  by (cases xs) auto

lemma chain_None_distinct: "chain nx p xs None \<Longrightarrow> distinct xs"
proof (induction xs arbitrary: p)
  case Nil
  then show ?case by simp
next
  case (Cons x xs)
  have "x \<notin> set xs"
  proof
    assume "x \<in> set xs"
    then obtain ys zs where xs: "xs = ys @ x # zs"
      by (meson split_list)
    with Cons.prems have tail: "chain nx (nx x) zs None" and "chain nx (nx x) xs None"
      by (auto simp: chain_append)
    then have "zs = xs"
      by (rule chain_fun_eq)
    with xs show False by simp
  qed
  with Cons show ?case by auto
qed

section \<open>Byte buffers\<close>

text \<open>
  \<open>put_bytes buf off new\<close> is the buffer after a loop that stores the bytes \<open>new\<close> one by one from
  offset \<open>off\<close> on; a store past the end of the buffer is outside the array in C, and the list
  is not extended by it.
\<close>

primrec put_bytes :: "'a list \<Rightarrow> nat \<Rightarrow> 'a list \<Rightarrow> 'a list" where
  "put_bytes buf off [] = buf"
| "put_bytes buf off (x # xs) = put_bytes (buf[off := x]) (Suc off) xs" for buf off x xs

lemma length_put_bytes [simp]: "length (put_bytes buf off xs) = length buf"
  by (induction xs arbitrary: buf off) auto

lemma nth_put_bytes:
  "i < length buf \<Longrightarrow>
   put_bytes buf off xs ! i = (if off \<le> i \<and> i < off + length xs then xs ! (i - off) else buf ! i)"
proof (induction xs arbitrary: buf off)
  case Nil
  then show ?case by auto
next
  case (Cons x xs)
  then show ?case
    by (auto simp: nth_list_update nth_Cons' Suc_diff_le)
qed

text \<open>
  The segment of \<open>n\<close> bytes at offset \<open>i\<close>, and checked accesses: \<open>None\<close> is an access outside the
  array, which C leaves undefined. \<open>rd_seg\<close> and \<open>wr_seg\<close> are the byte loops that copy out of and
  into a buffer.
\<close>

definition segm :: "'a list \<Rightarrow> nat \<Rightarrow> nat \<Rightarrow> 'a list" where
  "segm buf i n = take n (drop i buf)"

definition rd :: "'a list \<Rightarrow> nat \<Rightarrow> 'a option" where
  "rd buf i = (if i < length buf then Some (buf ! i) else None)"

definition rd_seg :: "'a list \<Rightarrow> nat \<Rightarrow> nat \<Rightarrow> 'a list option" where
  "rd_seg buf i n = (if i + n \<le> length buf then Some (segm buf i n) else None)"

definition wr_seg :: "'a list \<Rightarrow> nat \<Rightarrow> 'a list \<Rightarrow> 'a list option" where
  "wr_seg buf i xs = (if i + length xs \<le> length buf then Some (put_bytes buf i xs) else None)"

lemma length_segm [simp]: "length (segm buf i n) = min n (length buf - i)"
  by (simp add: segm_def)

lemma nth_segm: "k < n \<Longrightarrow> i + n \<le> length buf \<Longrightarrow> segm buf i n ! k = buf ! (i + k)"
  by (simp add: segm_def)

lemma rd_in [simp]: "i < length buf \<Longrightarrow> rd buf i = Some (buf ! i)"
  by (simp add: rd_def)

lemma rd_seg_in [simp]: "i + n \<le> length buf \<Longrightarrow> rd_seg buf i n = Some (segm buf i n)"
  by (simp add: rd_seg_def)

lemma wr_seg_in [simp]: "i + length xs \<le> length buf \<Longrightarrow> wr_seg buf i xs = Some (put_bytes buf i xs)"
  by (simp add: wr_seg_def)

lemma segm_put_same [segm_simps]:
  "i + n \<le> length buf \<Longrightarrow> length xs = n \<Longrightarrow> segm (put_bytes buf i xs) i n = xs"
  by (rule nth_equalityI) (auto simp: nth_segm nth_put_bytes)

lemma segm_put_other [segm_simps]:
  assumes "i + n \<le> j \<or> j + length xs \<le> i"
  shows "segm (put_bytes buf j xs) i n = segm buf i n"
proof (rule nth_equalityI)
  fix k assume "k < length (segm (put_bytes buf j xs) i n)"
  then show "segm (put_bytes buf j xs) i n ! k = segm buf i n ! k"
    using assms by (auto simp: segm_def nth_put_bytes)
qed simp

lemma segm_put_within:
  assumes "i \<le> j" "j + length xs \<le> i + n" "i + n \<le> length buf"
  shows "segm (put_bytes buf j xs) i n = put_bytes (segm buf i n) (j - i) xs"
proof (rule nth_equalityI)
  fix k assume "k < length (segm (put_bytes buf j xs) i n)"
  then show "segm (put_bytes buf j xs) i n ! k = put_bytes (segm buf i n) (j - i) xs ! k"
    using assms by (auto simp: segm_def nth_put_bytes add.commute [of k i])
qed simp

lemma segm_segm: "i + n \<le> m \<Longrightarrow> segm (segm buf j m) i n = segm buf (j + i) n"
  by (simp add: segm_def drop_take min_def add.commute [of i j])

lemma segm_take: "i + n \<le> m \<Longrightarrow> segm (take m buf) i n = segm buf i n"
  by (simp add: segm_def drop_take min_def)

lemma drop_put_bytes:
  assumes "j + length xs \<le> k"
  shows "drop k (put_bytes buf j xs) = drop k buf"
proof (rule nth_equalityI)
  fix i assume "i < length (drop k (put_bytes buf j xs))"
  then show "drop k (put_bytes buf j xs) ! i = drop k buf ! i"
    using assms by (simp add: nth_put_bytes)
qed simp

end
