(* ===== verification/Memory.thy ===== *)
theory Memory
  imports Prelude
begin

text \<open>
  The first-fit heap allocator of \<open>mem/memory.c\<close>: \<open>mem_init\<close>, \<open>getmem\<close>, \<open>freemem\<close> and the
  statistics functions, on the intrusive free list they keep inside the heap itself. The heap is
  a store of 64-bit cells addressed by the address of their first byte, so a
  \<open>struct memblk\<close> at \<open>b\<close> is the cells \<open>b\<close> (\<open>mnext\<close>) and \<open>b + 8\<close> (\<open>mlength\<close>), and a block handed
  out to a client aliases the header it had while it was free. The loops follow links read from
  that store, hence \<open>partial_function (option)\<close>: \<open>None\<close> is a walk that never ends.

  The second half abstracts a state to the list of its free blocks and to the set of its free
  bytes, and shows that the pointer code implements first fit, keeps the list sorted, aligned,
  coalesced and accounted for, and frees exactly the bytes it is given.
\<close>

section \<open>The allocator\<close>

record memstate =
  ram :: "u64 \<Rightarrow> u64"          \<comment> \<open>the cells of the heap\<close>
  head_mnext :: u64            \<comment> \<open>\<open>memlist_head.mnext\<close>\<close>
  head_mlength :: u64          \<comment> \<open>\<open>memlist_head.mlength\<close>\<close>
  heap_lo :: u64
  heap_hi :: u64
  heap_total :: u64

definition MEM_ALIGN :: u64 where
  "MEM_ALIGN = 16"

definition ROUNDMB :: "u64 \<Rightarrow> u64" where
  "ROUNDMB x = (x + (MEM_ALIGN - 1)) AND NOT (MEM_ALIGN - 1)"

definition TRUNCMB :: "u64 \<Rightarrow> u64" where
  "TRUNCMB x = x AND NOT (MEM_ALIGN - 1)"

definition sizeof_memblk :: u64 where
  "sizeof_memblk = 16"

definition mnext :: "memstate \<Rightarrow> u64 \<Rightarrow> u64" where
  "mnext s b = ram s b"

definition mlength :: "memstate \<Rightarrow> u64 \<Rightarrow> u64" where
  "mlength s b = ram s (b + 8)"

definition set_mnext :: "u64 \<Rightarrow> u64 \<Rightarrow> memstate \<Rightarrow> memstate" where
  "set_mnext b v s = s\<lparr>ram := (ram s)(b := v)\<rparr>"

definition set_mlength :: "u64 \<Rightarrow> u64 \<Rightarrow> memstate \<Rightarrow> memstate" where
  "set_mlength b v s = s\<lparr>ram := (ram s)(b + 8 := v)\<rparr>"

text \<open>The value of \<open>prev\<close>: the static list head, or a block of the heap.\<close>

datatype memref = Head | Blk u64

fun set_next :: "memref \<Rightarrow> u64 \<Rightarrow> memstate \<Rightarrow> memstate" where
  "set_next Head v s = s\<lparr>head_mnext := v\<rparr>"
| "set_next (Blk b) v s = set_mnext b v s"

definition mem_init :: "u64 \<Rightarrow> u64 \<Rightarrow> memstate \<Rightarrow> memstate" where
  "mem_init heap_start heap_end s =
     (let heap_start = ROUNDMB heap_start;
          heap_end = TRUNCMB heap_end;
          s = s\<lparr>heap_lo := heap_start, heap_hi := heap_end, heap_total := heap_end - heap_start\<rparr>;
          s = set_mnext heap_start 0 s;
          s = set_mlength heap_start (heap_total s) s
      in s\<lparr>head_mnext := heap_start, head_mlength := heap_total s\<rparr>)"

partial_function (option) getmem_loop ::
  "u64 \<Rightarrow> memref \<Rightarrow> u64 \<Rightarrow> memstate \<Rightarrow> (u64 \<times> memstate) option" where
  "getmem_loop nbytes prev cur s =
     (if cur = 0 then Some (0, s)
      else if mlength s cur < nbytes + sizeof_memblk then
        (if nbytes \<le> mlength s cur then
           let s = set_next prev (mnext s cur) s;
               s = s\<lparr>head_mlength := head_mlength s - mlength s cur\<rparr>
           in Some (cur, s)
         else getmem_loop nbytes (Blk cur) (mnext s cur) s)
      else
        let leftover = cur + nbytes;
            s = set_mnext leftover (mnext s cur) s;
            s = set_mlength leftover (mlength s cur - nbytes) s;
            s = set_next prev leftover s;
            s = s\<lparr>head_mlength := head_mlength s - nbytes\<rparr>
        in Some (cur, s))"

definition getmem :: "u64 \<Rightarrow> memstate \<Rightarrow> (u64 \<times> memstate) option" where
  "getmem nbytes s =
     (if nbytes = 0 then Some (0, s)
      else let nbytes = ROUNDMB nbytes in getmem_loop nbytes Head (head_mnext s) s)"

partial_function (option) freemem_walk ::
  "u64 \<Rightarrow> memref \<Rightarrow> u64 \<Rightarrow> memstate \<Rightarrow> (memref \<times> u64) option" where
  "freemem_walk start prev cur s =
     (if cur \<noteq> 0 \<and> cur < start then freemem_walk start (Blk cur) (mnext s cur) s
      else Some (prev, cur))"

text \<open>Coalesce with the predecessor when adjacent, otherwise write and link a new header.\<close>

definition freemem_link_prev ::
  "u64 \<Rightarrow> u64 \<Rightarrow> memref \<Rightarrow> u64 \<Rightarrow> u64 \<Rightarrow> memstate \<Rightarrow> u64 \<times> memstate" where
  "freemem_link_prev start nbytes prev cur prev_end s =
     (let fresh = (let s = set_mnext start cur s;
                       s = set_mlength start nbytes s;
                       s = set_next prev start s
                   in (start, s))
      in case prev of
           Blk p \<Rightarrow>
             if prev_end = start then (p, set_mlength p (mlength s p + nbytes) s) else fresh
         | Head \<Rightarrow> fresh)"

text \<open>Coalesce with the successor when adjacent.\<close>

definition freemem_link_next :: "u64 \<Rightarrow> u64 \<Rightarrow> memstate \<Rightarrow> memstate" where
  "freemem_link_next newblk cur s =
     (if cur \<noteq> 0 \<and> newblk + mlength s newblk = cur then
        let s = set_mlength newblk (mlength s newblk + mlength s cur) s
        in set_mnext newblk (mnext s cur) s
      else s)"

definition freemem :: "u64 \<Rightarrow> u64 \<Rightarrow> memstate \<Rightarrow> (int \<times> memstate) option" where
  "freemem blk nbytes s =
     (if blk = 0 \<or> nbytes = 0 then Some (-1, s)
      else
        let nbytes = ROUNDMB nbytes; start = blk; end = start + nbytes
        in if start < heap_lo s \<or> heap_hi s < end then Some (-1, s)
           else
             case freemem_walk start Head (head_mnext s) s of
               None \<Rightarrow> None
             | Some (prev, cur) \<Rightarrow>
                 let prev_end = (case prev of Head \<Rightarrow> 0 | Blk p \<Rightarrow> p + mlength s p)
                 in if start < prev_end then Some (-1, s)
                    else if cur \<noteq> 0 \<and> cur < end then Some (-1, s)
                    else
                      let (newblk, s) = freemem_link_prev start nbytes prev cur prev_end s;
                          s = freemem_link_next newblk cur s
                      in Some (0, s\<lparr>head_mlength := head_mlength s + nbytes\<rparr>))"

definition mem_free_bytes :: "memstate \<Rightarrow> u64" where
  "mem_free_bytes s = head_mlength s"

definition mem_total_bytes :: "memstate \<Rightarrow> u64" where
  "mem_total_bytes s = heap_total s"

partial_function (option) largest_loop :: "u64 \<Rightarrow> u64 \<Rightarrow> memstate \<Rightarrow> u64 option" where
  "largest_loop mx cur s =
     (if cur = 0 then Some mx
      else largest_loop (if mx < mlength s cur then mlength s cur else mx) (mnext s cur) s)"

definition mem_largest_block :: "memstate \<Rightarrow> u64 option" where
  "mem_largest_block s = largest_loop 0 (head_mnext s) s"

partial_function (option) count_loop :: "int \<Rightarrow> u64 \<Rightarrow> memstate \<Rightarrow> int option" where
  "count_loop n cur s = (if cur = 0 then Some n else count_loop (n + 1) (mnext s cur) s)"

definition mem_free_block_count :: "memstate \<Rightarrow> int option" where
  "mem_free_block_count s = count_loop 0 (head_mnext s) s"

section \<open>Field accesses\<close>

lemmas field_defs = mnext_def mlength_def set_mnext_def set_mlength_def

lemma set_next_fields [simp]:
  "heap_lo (set_next r v s) = heap_lo s" "heap_hi (set_next r v s) = heap_hi s"
  "heap_total (set_next r v s) = heap_total s" "head_mlength (set_next r v s) = head_mlength s"
  by (cases r; simp add: set_mnext_def)+

lemma set_mnext_fields [simp]:
  "heap_lo (set_mnext b v s) = heap_lo s" "heap_hi (set_mnext b v s) = heap_hi s"
  "heap_total (set_mnext b v s) = heap_total s" "head_mlength (set_mnext b v s) = head_mlength s"
  "head_mnext (set_mnext b v s) = head_mnext s"
  by (simp_all add: set_mnext_def)

lemma set_mlength_fields [simp]:
  "heap_lo (set_mlength b v s) = heap_lo s" "heap_hi (set_mlength b v s) = heap_hi s"
  "heap_total (set_mlength b v s) = heap_total s" "head_mlength (set_mlength b v s) = head_mlength s"
  "head_mnext (set_mlength b v s) = head_mnext s"
  by (simp_all add: set_mlength_def)

lemma mem_reads_head [simp]:
  "mnext (s\<lparr>head_mlength := v\<rparr>) = mnext s" "mlength (s\<lparr>head_mlength := v\<rparr>) = mlength s"
  "mnext (s\<lparr>head_mnext := v\<rparr>) = mnext s" "mlength (s\<lparr>head_mnext := v\<rparr>) = mlength s"
  by (auto simp: field_defs)

section \<open>Alignment\<close>

definition aligned :: "u64 \<Rightarrow> bool" where
  "aligned a \<longleftrightarrow> 16 dvd unat a"

lemma and_not_15: "unat ((x::u64) AND - 16) = unat x div 16 * 16"
  using unat_and_not_mask [of x 4] by (simp add: mask_eq_exp_minus_1)

lemma unat_TRUNCMB [word_nat_simps]: "unat (TRUNCMB x) = unat x div 16 * 16"
  by (simp add: TRUNCMB_def MEM_ALIGN_def and_not_15)

lemma unat_ROUNDMB [word_nat_simps]:
  assumes "unat x < 18446744073709551601"
  shows "unat (ROUNDMB x) = (unat x + 15) div 16 * 16"
  using assms by (simp add: ROUNDMB_def MEM_ALIGN_def and_not_15 unat_add64)

lemma aligned_ROUNDMB [simp]: "aligned (ROUNDMB x)"
  by (simp add: aligned_def ROUNDMB_def MEM_ALIGN_def and_not_15)

lemma aligned_TRUNCMB [simp]: "aligned (TRUNCMB x)"
  by (simp add: aligned_def TRUNCMB_def MEM_ALIGN_def and_not_15)

lemma ROUNDMB_bounds:
  assumes "unat x < 18446744073709551601"
  shows "unat x \<le> unat (ROUNDMB x)" and "unat (ROUNDMB x) < unat x + 16"
  using assms by (simp_all add: unat_ROUNDMB)

lemma aligned_add:
  assumes "aligned a" and "aligned b"
  shows "aligned (a + b)"
  using assms by (simp add: aligned_def unat_word_ariths dvd_mod)

lemma aligned_sub:
  assumes "aligned a" and "aligned b" and "b \<le> a"
  shows "aligned (a - b)"
  using assms by (simp add: aligned_def unat_sub64)

text \<open>Two headers at aligned addresses never overlap half-way.\<close>

lemma aligned_plus8_neq:
  assumes "aligned a" and "aligned b"
  shows "a + 8 \<noteq> b" and "b \<noteq> a + 8"
proof -
  have "unat (a + 8) mod 16 = 8"
  proof -
    from assms(1) obtain k where "unat a = 16 * k"
      by (auto simp: aligned_def)
    moreover from this unat_bound64 [of a] have "unat a + 8 < 18446744073709551616"
      by presburger
    ultimately show ?thesis
      by (simp add: unat_add64)
  qed
  with assms(2) show "a + 8 \<noteq> b"
    by (auto simp: aligned_def)
  then show "b \<noteq> a + 8" by blast
qed

lemma mem_reads_upd [simp]:
  "mnext (set_mnext b v s) a = (if a = b then v else mnext s a)"
  "mlength (set_mlength b v s) a = (if a = b then v else mlength s a)"
  "aligned a \<Longrightarrow> aligned b \<Longrightarrow> mlength (set_mnext b v s) a = mlength s a"
  "aligned a \<Longrightarrow> aligned b \<Longrightarrow> mnext (set_mlength b v s) a = mnext s a"
  by (auto simp: field_defs aligned_plus8_neq)

section \<open>The abstract free list\<close>

type_synonym blocks = "(u64 \<times> u64) list"

text \<open>Blocks in address order, aligned, inside \<open>[lo, hi)\<close>, with a gap between neighbours.\<close>

fun wf_blocks :: "nat \<Rightarrow> nat \<Rightarrow> blocks \<Rightarrow> bool" where
  "wf_blocks lo hi [] \<longleftrightarrow> True"
| "wf_blocks lo hi ((a, l) # bs) \<longleftrightarrow>
     lo \<le> unat a \<and> 0 < unat a \<and> aligned a \<and> aligned l \<and> 0 < unat l \<and> unat a + unat l \<le> hi \<and>
     wf_blocks (unat a + unat l + 1) hi bs"

text \<open>\<open>seg s p bs q\<close>: the links from \<open>p\<close> to \<open>q\<close> visit the blocks \<open>bs\<close>, whose headers carry their lengths.\<close>

definition seg :: "memstate \<Rightarrow> u64 \<Rightarrow> blocks \<Rightarrow> u64 \<Rightarrow> bool" where
  "seg s p bs q \<longleftrightarrow>
     chain (\<lambda>a. ptr (mnext s a)) (ptr p) (map fst bs) (ptr q) \<and>
     (\<forall>(a, l) \<in> set bs. mlength s a = l)"

definition mem_inv :: "memstate \<Rightarrow> blocks \<Rightarrow> bool" where
  "mem_inv s bs \<longleftrightarrow>
     seg s (head_mnext s) bs 0 \<and>
     wf_blocks (unat (heap_lo s)) (unat (heap_hi s)) bs \<and>
     unat (head_mlength s) = (\<Sum>(a, l) \<leftarrow> bs. unat l) \<and>
     0 < heap_lo s \<and> heap_lo s \<le> heap_hi s \<and> aligned (heap_lo s) \<and> aligned (heap_hi s) \<and>
     heap_total s = heap_hi s - heap_lo s"

text \<open>First fit on the abstract list.\<close>

fun first_fit :: "u64 \<Rightarrow> blocks \<Rightarrow> (u64 \<times> blocks) option" where
  "first_fit n [] = None"
| "first_fit n ((a, l) # bs) =
     (if l < n then map_option (\<lambda>(r, bs'). (r, (a, l) # bs')) (first_fit n bs)
      else if l = n then Some (a, bs)
      else Some (a, (a + n, l - n) # bs))"

lemma wf_blocks_mono: "wf_blocks lo hi bs \<Longrightarrow> lo' \<le> lo \<Longrightarrow> wf_blocks lo' hi bs"
  by (cases bs) auto

lemma wf_blocks_weaken: "wf_blocks lo hi bs \<Longrightarrow> lo' \<le> lo \<Longrightarrow> hi \<le> hi' \<Longrightarrow> wf_blocks lo' hi' bs"
  by (induction lo hi bs arbitrary: lo' rule: wf_blocks.induct) auto

lemma wf_blocks_append:
  "wf_blocks lo hi (bs @ cs) \<longleftrightarrow>
     wf_blocks lo hi bs \<and>
     wf_blocks (if bs = [] then lo else unat (fst (last bs)) + unat (snd (last bs)) + 1) hi cs"
  by (induction lo hi bs rule: wf_blocks.induct) auto

lemma wf_blocks_mem:
  "wf_blocks lo hi bs \<Longrightarrow> (a, l) \<in> set bs \<Longrightarrow>
     lo \<le> unat a \<and> 0 < unat a \<and> aligned a \<and> aligned l \<and> 0 < unat l \<and> unat a + unat l \<le> hi"
  by (induction lo hi bs rule: wf_blocks.induct) fastforce+

lemma wf_blocks_sum:
  "wf_blocks lo hi bs \<Longrightarrow> lo \<le> hi \<Longrightarrow> (\<Sum>(a, l) \<leftarrow> bs. unat l) \<le> hi - lo"
proof (induction lo hi bs rule: wf_blocks.induct)
  case (2 lo hi a l bs)
  show ?case
  proof (cases bs)
    case Nil
    with 2 show ?thesis by auto
  next
    case (Cons b bs')
    then obtain c m where "bs = (c, m) # bs'" by (cases b) auto
    with 2 have "unat a + unat l + 1 \<le> hi" by auto
    with 2 show ?thesis by auto
  qed
qed simp

lemma wf_blocks_later: "wf_blocks lo hi bs \<Longrightarrow> (a, l) \<in> set bs \<Longrightarrow> lo \<le> unat a"
  by (simp add: wf_blocks_mem)

lemma wf_blocks_distinct: "wf_blocks lo hi bs \<Longrightarrow> distinct (map fst bs)"
proof (induction lo hi bs rule: wf_blocks.induct)
  case (2 lo hi a l bs)
  then have wf: "wf_blocks (unat a + unat l + 1) hi bs" by simp
  have "a \<notin> fst ` set bs"
    using wf_blocks_later [OF wf] by fastforce
  with 2 wf show ?case by simp
qed simp

lemma wf_blocks_aligned: "wf_blocks lo hi bs \<Longrightarrow> \<forall>a \<in> fst ` set bs. aligned a"
  by (auto dest: wf_blocks_mem)

section \<open>Segments of the free list in memory\<close>

lemma ptr_inj [simp]: "ptr p = ptr q \<longleftrightarrow> p = q"
  by (auto simp: ptr_def)

lemma seg_simps [simp]:
  "seg s p [] q \<longleftrightarrow> p = q"
  "seg s p ((a, l) # bs) q \<longleftrightarrow>
     p = a \<and> a \<noteq> 0 \<and> mlength s a = l \<and> seg s (mnext s a) bs q"
  by (auto simp: seg_def)

lemma seg_append: "seg s p (bs @ cs) q \<longleftrightarrow> (\<exists>r. seg s p bs r \<and> seg s r cs q)"
proof (induction bs arbitrary: p)
  case (Cons b bs)
  then show ?case by (cases b) auto
qed auto

lemma seg_0 [simp]: "seg s 0 bs q \<longleftrightarrow> bs = [] \<and> q = 0"
  by (cases bs) auto

lemma seg_head_fields [simp]:
  "seg (s\<lparr>head_mlength := v\<rparr>) p bs q \<longleftrightarrow> seg s p bs q"
  "seg (s\<lparr>head_mnext := v\<rparr>) p bs q \<longleftrightarrow> seg s p bs q"
  by (simp_all add: seg_def)

lemma seg_cong:
  assumes "\<And>a. a \<in> fst ` set bs \<Longrightarrow> mnext s' a = mnext s a \<and> mlength s' a = mlength s a"
  shows "seg s' p bs q \<longleftrightarrow> seg s p bs q"
  using assms
proof (induction bs arbitrary: p)
  case (Cons b bs)
  then show ?case by (cases b) auto
qed simp

lemma seg_set_mnext:
  assumes "b \<notin> fst ` set bs" and "\<forall>a \<in> fst ` set bs. aligned a" and "aligned b"
  shows "seg (set_mnext b v s) p bs q \<longleftrightarrow> seg s p bs q"
  using assms by (intro seg_cong) auto

lemma seg_set_mlength:
  assumes "b \<notin> fst ` set bs" and "\<forall>a \<in> fst ` set bs. aligned a" and "aligned b"
  shows "seg (set_mlength b v s) p bs q \<longleftrightarrow> seg s p bs q"
  using assms by (intro seg_cong) auto

definition lastref :: "blocks \<Rightarrow> memref" where
  "lastref bs = (if bs = [] then Head else Blk (fst (last bs)))"

lemma lastref_snoc [simp]: "lastref (bs @ [(a, l)]) = Blk a" "lastref [] = Head"
  by (simp_all add: lastref_def)

lemma mlength_set_next_lastref:
  assumes "\<forall>x \<in> fst ` set pre. aligned x" and "aligned a"
  shows "mlength (set_next (lastref pre) v s) a = mlength s a"
  using assms by (cases pre rule: rev_cases) auto

text \<open>Storing into the link that leads out of a prefix replaces everything after it.\<close>

lemma relink:
  assumes pre: "seg s (head_mnext s) pre q0" and suf: "seg s q suf 0"
    and dist: "distinct (map fst (pre @ suf))"
    and al: "\<forall>a \<in> fst ` set (pre @ suf). aligned a"
  shows "seg (set_next (lastref pre) q s) (head_mnext (set_next (lastref pre) q s)) (pre @ suf) 0"
proof (cases pre rule: rev_cases)
  case Nil
  with suf show ?thesis by simp
next
  case (snoc ys b)
  then obtain p l where pre_eq: "pre = ys @ [(p, l)]" by (cases b) auto
  let ?s = "set_mnext p q s"
  from dist pre_eq have new: "p \<notin> fst ` set ys" "p \<notin> fst ` set suf" by auto
  from al pre_eq have al': "\<forall>a \<in> fst ` set ys. aligned a" "\<forall>a \<in> fst ` set suf. aligned a" "aligned p"
    by auto
  from pre pre_eq have "seg s (head_mnext s) ys p" "p \<noteq> 0" "mlength s p = l"
    by (auto simp: seg_append)
  then have "seg ?s (head_mnext s) ys p" "seg ?s p [(p, l)] q" "seg ?s q suf 0"
    using new al' suf by (auto simp: seg_set_mnext)
  with pre_eq show ?thesis
    by (auto simp: seg_append)
qed

section \<open>Free bytes\<close>

definition span :: "nat \<Rightarrow> nat \<Rightarrow> nat set" where
  "span a n = {a..<a + n}"

definition free_bytes :: "blocks \<Rightarrow> nat set" where
  "free_bytes bs = (\<Union>(a, l) \<in> set bs. span (unat a) (unat l))"

lemma free_bytes_simps [simp]:
  "free_bytes [] = {}"
  "free_bytes ((a, l) # bs) = span (unat a) (unat l) \<union> free_bytes bs"
  "free_bytes (bs @ cs) = free_bytes bs \<union> free_bytes cs"
  by (auto simp: free_bytes_def)

lemma span_join: "span a m \<union> span (a + m) n = span a (m + n)"
  by (auto simp: span_def)

lemma span_split: "n \<le> m \<Longrightarrow> span a m = span a n \<union> span (a + n) (m - n)"
  by (auto simp: span_def)

text \<open>Both cells of the header of a free block are free bytes.\<close>

lemma header_in_free_bytes:
  assumes "wf_blocks lo hi bs" and "(a, l) \<in> set bs" and "hi < 18446744073709551616"
  shows "unat a \<in> free_bytes bs" and "unat (a + 8) \<in> free_bytes bs"
proof -
  from wf_blocks_mem [OF assms(1,2)] have l: "16 \<le> unat l" and "unat a + unat l \<le> hi"
    by (auto simp: aligned_def dvd_def)
  with assms(3) have "unat (a + 8) = unat a + 8" by (simp add: unat_add64)
  with l assms(2) show "unat a \<in> free_bytes bs" "unat (a + 8) \<in> free_bytes bs"
    by (force simp: free_bytes_def span_def)+
qed

lemma set_next_lastref_ram:
  "x \<notin> fst ` set pre \<Longrightarrow> ram (set_next (lastref pre) v s) x = ram s x"
  by (cases pre rule: rev_cases) (auto simp: set_mnext_def)

lemma free_bytes_bounds: "wf_blocks lo hi bs \<Longrightarrow> free_bytes bs \<subseteq> {lo..<hi}"
  by (auto simp: free_bytes_def span_def dest!: wf_blocks_mem)

section \<open>getmem implements first fit\<close>

lemma mem_inv_nat:
  assumes "mem_inv s bs"
  shows "wf_blocks (unat (heap_lo s)) (unat (heap_hi s)) bs" "seg s (head_mnext s) bs 0"
    "unat (heap_lo s) \<le> unat (heap_hi s)" "0 < unat (heap_lo s)"
    "unat (head_mlength s) = (\<Sum>(a, l) \<leftarrow> bs. unat l)"
  using assms by (auto simp: mem_inv_def word_le_nat_alt word_less_nat_alt)

lemma mem_inv_lengths:
  assumes "mem_inv s bs" and "(a, l) \<in> set bs"
  shows "unat a + unat l < 18446744073709551616"
proof -
  from assms have "unat a + unat l \<le> unat (heap_hi s)"
    by (auto simp: mem_inv_def dest: wf_blocks_mem)
  with unat_bound64 [of "heap_hi s"] show ?thesis by simp
qed

lemma mem_inv_split:
  assumes "mem_inv s (pre @ (a, l) # suf)"
  shows "seg s (head_mnext s) pre a" "a \<noteq> 0" "mlength s a = l" "seg s (mnext s a) suf 0"
    "aligned a" "aligned l" "0 < unat l"
    "distinct (map fst (pre @ (a, l) # suf))" "\<forall>x \<in> fst ` set (pre @ (a, l) # suf). aligned x"
    "unat a + unat l < 18446744073709551616"
proof -
  from assms have sg: "seg s (head_mnext s) (pre @ (a, l) # suf) 0"
    and wf: "wf_blocks (unat (heap_lo s)) (unat (heap_hi s)) (pre @ (a, l) # suf)"
    by (simp_all add: mem_inv_def)
  from sg show "seg s (head_mnext s) pre a" "a \<noteq> 0" "mlength s a = l" "seg s (mnext s a) suf 0"
    by (auto simp: seg_append)
  from wf_blocks_mem [OF wf, of a l] show "aligned a" "aligned l" "0 < unat l"
    by simp_all
  from wf show "distinct (map fst (pre @ (a, l) # suf))"
    by (rule wf_blocks_distinct)
  from wf show "\<forall>x \<in> fst ` set (pre @ (a, l) # suf). aligned x"
    by (rule wf_blocks_aligned)
  from mem_inv_lengths [OF assms, of a l] show "unat a + unat l < 18446744073709551616"
    by simp
qed

lemma sum_blocks_append:
  "(\<Sum>(a, l) \<leftarrow> bs @ cs. unat l) = (\<Sum>(a, l) \<leftarrow> bs. unat l) + (\<Sum>(a, l) \<leftarrow> cs. unat (l::u64))"
  by simp

text \<open>Taking a whole block out of the list.\<close>

lemma unlink_mem_inv:
  assumes inv: "mem_inv s (pre @ (a, l) # suf)"
  shows "mem_inv ((set_next (lastref pre) (mnext s a) s)\<lparr>head_mlength := head_mlength s - l\<rparr>) (pre @ suf)"
proof -
  note sp = mem_inv_split [OF inv]
  have "seg (set_next (lastref pre) (mnext s a) s) (head_mnext (set_next (lastref pre) (mnext s a) s)) (pre @ suf) 0"
    using sp by (intro relink) auto
  moreover from inv have "wf_blocks (unat (heap_lo s)) (unat (heap_hi s)) (pre @ suf)"
    by (auto simp: mem_inv_def wf_blocks_append intro: wf_blocks_mono split: if_splits)
  moreover from inv have "unat (head_mlength s - l) = (\<Sum>(a, l) \<leftarrow> pre @ suf. unat l)"
    by (simp add: mem_inv_def unat_sub64 word_le_nat_alt)
  ultimately show ?thesis
    using inv by (simp add: mem_inv_def)
qed

text \<open>Taking the first \<open>n\<close> bytes of a block that is longer than \<open>n\<close>.\<close>

lemma split_mem_inv:
  assumes inv: "mem_inv s (pre @ (a, l) # suf)" and n: "aligned n" "0 < unat n" "unat n < unat l"
  defines "s1 \<equiv> set_mlength (a + n) (l - n) (set_mnext (a + n) (mnext s a) s)"
  shows "mem_inv ((set_next (lastref pre) (a + n) s1)\<lparr>head_mlength := head_mlength s - n\<rparr>)
           (pre @ (a + n, l - n) # suf)"
proof -
  note sp = mem_inv_split [OF inv]
  have un: "unat (a + n) = unat a + unat n" "unat (l - n) = unat l - unat n"
    using sp n by (simp_all add: unat_add64 unat_sub64 word_le_nat_alt)
  have al: "aligned (a + n)" "aligned (l - n)"
    using sp n by (auto intro: aligned_add aligned_sub simp: word_le_nat_alt)
  from inv have wf: "wf_blocks (unat (heap_lo s)) (unat (heap_hi s)) (pre @ (a, l) # suf)"
    by (simp add: mem_inv_def)
  then have wf': "wf_blocks (unat (heap_lo s)) (unat (heap_hi s)) (pre @ (a + n, l - n) # suf)"
    using un al n by (auto simp: wf_blocks_append split: if_splits)
  then have dist: "distinct (map fst (pre @ (a + n, l - n) # suf))"
    and als: "\<forall>x \<in> fst ` set (pre @ (a + n, l - n) # suf). aligned x"
    by (rule wf_blocks_distinct, rule wf_blocks_aligned)
  have nz: "a + n \<noteq> 0"
    using un n by (auto simp: u64_eq_iff_unat)
  have "seg s1 (head_mnext s1) pre a" "seg s1 (mnext s a) suf 0"
    using sp dist als al by (auto simp: s1_def seg_set_mlength seg_set_mnext)
  moreover then have "seg s1 (a + n) ((a + n, l - n) # suf) 0"
    using nz al by (simp add: s1_def)
  ultimately have "seg (set_next (lastref pre) (a + n) s1)
      (head_mnext (set_next (lastref pre) (a + n) s1)) (pre @ (a + n, l - n) # suf) 0"
    using dist als by (intro relink) auto
  moreover have "unat (head_mlength s - n) = (\<Sum>(a, l) \<leftarrow> pre @ (a + n, l - n) # suf. unat l)"
    using inv un n by (simp add: mem_inv_def unat_sub64 word_le_nat_alt)
  ultimately show ?thesis
    using inv wf' by (simp add: mem_inv_def s1_def)
qed

lemma word_le_no_wrap:
  fixes l n :: u64
  assumes "aligned l" and "aligned n" and "unat n + 16 < 18446744073709551616"
  shows "l < n + 16 \<and> n \<le> l \<longleftrightarrow> l = n"
    and "\<not> l < n + 16 \<Longrightarrow> unat n < unat l"
proof -
  have "unat (n + 16) = unat n + 16"
    using assms(3) by (simp add: unat_add64)
  with assms(1,2) show "l < n + 16 \<and> n \<le> l \<longleftrightarrow> l = n" "\<not> l < n + 16 \<Longrightarrow> unat n < unat l"
    by (auto simp: aligned_def word_less_nat_alt word_le_nat_alt u64_eq_iff_unat dvd_def)
qed

lemma getmem_loop_first_fit:
  assumes "mem_inv s (pre @ suf)" and "seg s cur suf 0"
    and n: "aligned n" "0 < unat n" "unat n + 16 < 18446744073709551616"
  shows "\<exists>s'. getmem_loop n (lastref pre) cur s =
           Some (case first_fit n suf of None \<Rightarrow> 0 | Some (r, _) \<Rightarrow> r, s') \<and>
         mem_inv s' (pre @ (case first_fit n suf of None \<Rightarrow> suf | Some (_, bs) \<Rightarrow> bs)) \<and>
         heap_lo s' = heap_lo s \<and> heap_hi s' = heap_hi s \<and> (first_fit n suf = None \<longrightarrow> s' = s) \<and>
         (\<forall>x. unat x \<notin> free_bytes (pre @ suf) \<longrightarrow> ram s' x = ram s x)"
  using assms(1,2)
proof (induction suf arbitrary: pre cur)
  case Nil
  then show ?case by (subst getmem_loop.simps) auto
next
  case (Cons b suf)
  obtain a l where b: "b = (a, l)" by (cases b)
  with Cons.prems have inv: "mem_inv s (pre @ (a, l) # suf)" and cur: "cur = a" by auto
  note sp = mem_inv_split [OF inv]
  note cmp = word_le_no_wrap [OF sp(6) n(1,3)]
  have hdr: "x \<notin> fst ` set pre" if "unat x \<notin> free_bytes (pre @ (a, l) # suf)" for x
    using that header_in_free_bytes(1) [OF mem_inv_nat(1) [OF inv] _ unat_bound64] by fastforce
  consider (whole) "l = n" | (small) "l < n" | (split) "\<not> l < n + 16" "unat n < unat l"
    using cmp by fastforce
  then show ?case
  proof cases
    case whole
    then have "getmem_loop n (lastref pre) cur s =
        Some (a, (set_next (lastref pre) (mnext s a) s)\<lparr>head_mlength := head_mlength s - l\<rparr>)"
      using cmp sp cur
      by (subst getmem_loop.simps) (auto simp: Let_def sizeof_memblk_def mlength_set_next_lastref)
    with whole unlink_mem_inv [OF inv] hdr show ?thesis by (simp add: b set_next_lastref_ram)
  next
    case small
    then have "l < n + 16" "\<not> n \<le> l"
      using cmp(2) by (auto simp: word_less_nat_alt word_le_nat_alt)
    then have step: "getmem_loop n (lastref pre) cur s = getmem_loop n (lastref (pre @ [b])) (mnext s a) s"
      using sp(2,3) cur
      by (subst getmem_loop.simps) (simp add: sizeof_memblk_def b)
    from Cons.IH [of "pre @ [b]" "mnext s a"] inv sp small show ?thesis
      by (auto simp: step b split: option.splits)
  next
    case split
    let ?s1 = "set_mlength (a + n) (l - n) (set_mnext (a + n) (mnext s a) s)"
    have "\<not> l < n" "l \<noteq> n" using split by (auto simp: word_less_nat_alt)
    moreover have "mlength (set_mnext (a + n) (mnext s a) s) a = l"
      using sp n split by (simp add: aligned_add)
    then have "getmem_loop n (lastref pre) cur s =
        Some (a, (set_next (lastref pre) (a + n) ?s1)\<lparr>head_mlength := head_mlength s - n\<rparr>)"
      using split sp cur
      by (subst getmem_loop.simps) (auto simp: Let_def sizeof_memblk_def)
    moreover have "x \<noteq> a + n \<and> x \<noteq> a + n + 8" if "unat x \<notin> free_bytes (pre @ (a, l) # suf)" for x
    proof -
      have "unat n + 16 \<le> unat l" using split(1) n(3) by (simp add: word_less_nat_alt unat_add64)
      then have "unat (a + n) \<in> span (unat a) (unat l)" "unat (a + n + 8) \<in> span (unat a) (unat l)"
        using sp(10) by (simp_all add: span_def unat_add64)
      with that show ?thesis by auto
    qed
    ultimately show ?thesis
      using split_mem_inv [OF inv n(1,2) split(2)] hdr
      by (simp add: b set_next_lastref_ram set_mlength_def set_mnext_def)
  qed
qed

section \<open>freemem inserts and coalesces\<close>

definition headptr :: "blocks \<Rightarrow> u64" where
  "headptr bs = (case bs of [] \<Rightarrow> 0 | (a, l) # _ \<Rightarrow> a)"

lemma headptr_simps [simp]: "headptr [] = 0" "headptr ((a, l) # bs) = a"
  by (simp_all add: headptr_def)

lemma seg_headptr: "seg s p bs 0 \<Longrightarrow> p = headptr bs"
  by (cases bs) auto

text \<open>The list after a block \<open>[start, start + n)\<close> has been put between \<open>pre\<close> and \<open>suf\<close>.\<close>

definition join_right :: "blocks \<Rightarrow> u64 \<Rightarrow> u64 \<Rightarrow> blocks \<Rightarrow> blocks" where
  "join_right ys b l suf =
     (case suf of
        [] \<Rightarrow> ys @ [(b, l)]
      | (c, m) # zs \<Rightarrow> if b + l = c then ys @ (b, l + m) # zs else ys @ (b, l) # suf)"

definition coalesce :: "blocks \<Rightarrow> u64 \<Rightarrow> u64 \<Rightarrow> blocks \<Rightarrow> blocks" where
  "coalesce pre start n suf =
     (if pre \<noteq> [] \<and> fst (last pre) + snd (last pre) = start
      then join_right (butlast pre) (fst (last pre)) (snd (last pre) + n) suf
      else join_right pre start n suf)"

lemma freemem_walk_splits:
  assumes "seg s cur suf 0"
  shows "\<exists>ys zs. suf = ys @ zs \<and>
           freemem_walk start (lastref pre) cur s = Some (lastref (pre @ ys), headptr zs) \<and>
           (\<forall>(a, l) \<in> set ys. a < start) \<and> (zs \<noteq> [] \<longrightarrow> start \<le> headptr zs)"
  using assms
proof (induction suf arbitrary: pre cur)
  case Nil
  then show ?case by (subst freemem_walk.simps) auto
next
  case (Cons b suf)
  obtain a l where b: "b = (a, l)" by (cases b)
  with Cons.prems have cur: "cur = a" "a \<noteq> 0" and rest: "seg s (mnext s a) suf 0" by auto
  show ?case
  proof (cases "a < start")
    case True
    from Cons.IH [OF rest, of "pre @ [b]"] obtain ys zs where
      "suf = ys @ zs"
      "freemem_walk start (lastref (pre @ [b])) (mnext s a) s = Some (lastref (pre @ b # ys), headptr zs)"
      "\<forall>(a, l) \<in> set ys. a < start" "zs \<noteq> [] \<longrightarrow> start \<le> headptr zs"
      by auto
    moreover have "freemem_walk start (lastref pre) cur s =
        freemem_walk start (lastref (pre @ [b])) (mnext s a) s"
      using True cur by (subst freemem_walk.simps) (simp add: b)
    ultimately show ?thesis
      using True b by (intro exI [of _ "b # ys"] exI [of _ zs]) auto
  next
    case False
    then have "freemem_walk start (lastref pre) cur s = Some (lastref pre, a)"
      using cur by (subst freemem_walk.simps) simp
    with False b show ?thesis
      by (intro exI [of _ "[]"] exI [of _ "b # suf"]) auto
  qed
qed

lemma seg_resize:
  assumes "seg s p (pre @ (b, l) # suf) 0" and "distinct (map fst (pre @ (b, l) # suf))"
    and "\<forall>x \<in> fst ` set (pre @ (b, l) # suf). aligned x"
  shows "seg (set_mlength b l' s) p (pre @ (b, l') # suf) 0"
proof -
  from assms(1) have "seg s p pre b" "b \<noteq> 0" "seg s (mnext s b) suf 0"
    by (auto simp: seg_append)
  with assms(2,3) show ?thesis
    by (auto simp: seg_append seg_set_mlength)
qed

lemma seg_merge:
  assumes "seg s p (pre @ (b, l) # (c, m) # suf) 0"
    and "distinct (map fst (pre @ (b, l) # (c, m) # suf))"
    and "\<forall>x \<in> fst ` set (pre @ (b, l) # (c, m) # suf). aligned x"
  shows "seg (set_mnext b (mnext s c) (set_mlength b l' s)) p (pre @ (b, l') # suf) 0"
proof -
  from assms(1) have "seg s p pre b" "b \<noteq> 0" "seg s (mnext s c) suf 0"
    by (auto simp: seg_append)
  with assms(2,3) show ?thesis
    by (auto simp: seg_append seg_set_mlength seg_set_mnext)
qed

definition prev_end_of :: "memref \<Rightarrow> memstate \<Rightarrow> u64" where
  "prev_end_of prev s = (case prev of Head \<Rightarrow> 0 | Blk p \<Rightarrow> p + mlength s p)"

lemma freemem_link_prev_seg:
  assumes sg: "seg s (head_mnext s) (pre @ suf) 0" and start: "start \<noteq> 0" "aligned start"
    and dist: "distinct (map fst (pre @ (start, n) # suf))"
    and al: "\<forall>x \<in> fst ` set (pre @ suf). aligned x"
  shows "\<exists>ys b l s1.
      freemem_link_prev start n (lastref pre) (headptr suf) (prev_end_of (lastref pre) s) s = (b, s1) \<and>
      seg s1 (head_mnext s1) (ys @ (b, l) # suf) 0 \<and>
      coalesce pre start n suf = join_right ys b l suf \<and>
      distinct (map fst (ys @ (b, l) # suf)) \<and> (\<forall>x \<in> fst ` set (ys @ (b, l) # suf). aligned x) \<and>
      head_mlength s1 = head_mlength s \<and> heap_lo s1 = heap_lo s \<and> heap_hi s1 = heap_hi s \<and>
      heap_total s1 = heap_total s"
proof (cases "pre \<noteq> [] \<and> fst (last pre) + snd (last pre) = start")
  case True
  then obtain ys b l where pre: "pre = ys @ [(b, l)]"
    by (metis append_butlast_last_id prod.exhaust)
  with sg have len: "mlength s b = l" by (auto simp: seg_append)
  have "seg (set_mlength b (l + n) s) (head_mnext s) (ys @ (b, l + n) # suf) 0"
    using sg dist al pre by (intro seg_resize [where l = l]) auto
  then show ?thesis
    using True pre len dist al
    by (intro exI [of _ ys] exI [of _ b] exI [of _ "l + n"] exI [of _ "set_mlength b (l + n) s"])
      (auto simp: freemem_link_prev_def prev_end_of_def coalesce_def)
next
  case False
  let ?s1 = "set_mlength start n (set_mnext start (headptr suf) s)"
  let ?s2 = "set_next (lastref pre) start ?s1"
  from sg obtain q where pre: "seg s (head_mnext s) pre q" and suf: "seg s (headptr suf) suf 0"
    using seg_headptr by (auto simp: seg_append)
  have "seg ?s1 (head_mnext ?s1) pre q" "seg ?s1 start ((start, n) # suf) 0"
    using pre suf start dist al by (auto simp: seg_set_mlength seg_set_mnext)
  then have "seg ?s2 (head_mnext ?s2) (pre @ (start, n) # suf) 0"
    using dist al start by (intro relink) auto
  moreover have "freemem_link_prev start n (lastref pre) (headptr suf) (prev_end_of (lastref pre) s) s
      = (start, ?s2)"
  proof (cases pre rule: rev_cases)
    case Nil
    then show ?thesis by (simp add: freemem_link_prev_def)
  next
    case (snoc ys b)
    with pre have "mlength s (fst b) = snd b" by (cases b) (auto simp: seg_append)
    with snoc False show ?thesis
      by (cases b) (auto simp: freemem_link_prev_def prev_end_of_def)
  qed
  ultimately show ?thesis
    using False dist al start
    by (intro exI [of _ pre] exI [of _ start] exI [of _ n] exI [of _ ?s2])
      (auto simp: coalesce_def)
qed

lemma freemem_link_next_seg:
  assumes sg: "seg s p (ys @ (b, l) # suf) 0"
    and dist: "distinct (map fst (ys @ (b, l) # suf))"
    and al: "\<forall>x \<in> fst ` set (ys @ (b, l) # suf). aligned x"
  shows "seg (freemem_link_next b (headptr suf) s) p (join_right ys b l suf) 0"
proof (cases suf)
  case Nil
  with sg show ?thesis by (simp add: freemem_link_next_def join_right_def)
next
  case (Cons d zs)
  obtain c m where d: "d = (c, m)" by (cases d)
  from sg Cons d have len: "mlength s b = l" "mlength s c = m" "c \<noteq> 0" by (auto simp: seg_append)
  show ?thesis
  proof (cases "b + l = c")
    case True
    from dist al Cons d have "aligned b" "aligned c" "b \<noteq> c" by auto
    then have "freemem_link_next b (headptr suf) s =
        set_mnext b (mnext s c) (set_mlength b (l + m) s)"
      using True len Cons d by (simp add: freemem_link_next_def Let_def)
    with seg_merge [of s p ys b l c m zs "l + m"] sg dist al Cons d True show ?thesis
      by (simp add: join_right_def)
  next
    case False
    with sg len Cons d show ?thesis
      by (auto simp: freemem_link_next_def join_right_def)
  qed
qed

lemma freemem_link_next_fields [simp]:
  "head_mlength (freemem_link_next b c s) = head_mlength s"
  "head_mnext (freemem_link_next b c s) = head_mnext s"
  "heap_lo (freemem_link_next b c s) = heap_lo s" "heap_hi (freemem_link_next b c s) = heap_hi s"
  "heap_total (freemem_link_next b c s) = heap_total s"
  by (simp_all add: freemem_link_next_def Let_def)

text \<open>What the walk establishes about the blocks on both sides of \<open>start\<close>.\<close>

definition gap_at :: "nat \<Rightarrow> nat \<Rightarrow> blocks \<Rightarrow> blocks \<Rightarrow> bool" where
  "gap_at start n pre suf \<longleftrightarrow>
     (pre \<noteq> [] \<longrightarrow> unat (fst (last pre)) + unat (snd (last pre)) \<le> start) \<and>
     (suf \<noteq> [] \<longrightarrow> start + n \<le> unat (headptr suf))"

lemma wf_blocks_last_end:
  assumes "wf_blocks lo hi bs" and "(a, l) \<in> set bs"
  shows "unat a + unat l \<le> unat (fst (last bs)) + unat (snd (last bs))"
  using assms
proof (induction lo hi bs rule: wf_blocks.induct)
  case (2 lo hi b m bs)
  show ?case
  proof (cases "bs = []")
    case True
    with 2 show ?thesis by auto
  next
    case False
    then have "(fst (last bs), snd (last bs)) \<in> set bs" by simp
    moreover from 2 have "wf_blocks (unat b + unat m + 1) hi bs" by simp
    ultimately have "unat b + unat m + 1 \<le> unat (fst (last bs))"
      by (blast dest: wf_blocks_later)
    with 2 False show ?thesis by auto
  qed
qed simp

lemma gap_at_disjoint:
  assumes wf: "wf_blocks lo hi (pre @ suf)" and n: "0 < n"
    and before: "\<forall>(a, l) \<in> set pre. unat a < start" and after: "suf \<noteq> [] \<longrightarrow> start \<le> unat (headptr suf)"
  shows "gap_at start n pre suf \<longleftrightarrow> span start n \<inter> free_bytes (pre @ suf) = {}"
proof
  assume gap: "gap_at start n pre suf"
  have "unat a + unat l \<le> start" if "(a, l) \<in> set pre" for a l
    using wf_blocks_last_end [of lo hi pre a l] that wf gap by (fastforce simp: gap_at_def wf_blocks_append)
  moreover have "start + n \<le> unat a" if "(a, l) \<in> set suf" for a l
  proof -
    from that obtain c m zs where suf: "suf = (c, m) # zs" by (cases suf) auto
    from wf have "wf_blocks 0 hi suf" by (auto simp: wf_blocks_append intro: wf_blocks_mono)
    with that suf have "unat c \<le> unat a" by (auto dest: wf_blocks_later)
    with gap suf show ?thesis by (simp add: gap_at_def)
  qed
  ultimately show "span start n \<inter> free_bytes (pre @ suf) = {}"
    by (fastforce simp: free_bytes_def span_def)
next
  assume disj: "span start n \<inter> free_bytes (pre @ suf) = {}"
  have "unat a + unat l \<le> start" if "pre \<noteq> []" "(a, l) = last pre" for a l
  proof (rule ccontr)
    assume "\<not> ?thesis"
    moreover from that have m: "(a, l) \<in> set pre" by simp
    ultimately have "start \<in> span (unat a) (unat l)" "start \<in> span start n"
      using before n by (auto simp: span_def)
    with disj m show False by (auto simp: free_bytes_def)
  qed
  moreover have "start + n \<le> unat c" if "suf = (c, m) # zs" for c m zs
  proof (rule ccontr)
    assume "\<not> ?thesis"
    moreover have "0 < unat m" using wf that by (simp add: wf_blocks_append)
    ultimately have "unat c \<in> span start n" "unat c \<in> span (unat c) (unat m)"
      using that after by (auto simp: span_def)
    with disj that show False by auto
  qed
  ultimately show "gap_at start n pre suf"
    by (cases suf) (auto simp: gap_at_def)
qed

lemma gap_no_wrap:
  assumes "wf_blocks lo hi (pre @ suf)" and "gap_at (unat start) (unat n) pre suf"
    and "hi < 18446744073709551616" and "unat start + unat n \<le> hi"
  shows "unat (start + n) = unat start + unat n"
    and "pre = ys @ [(b, l)] \<Longrightarrow> unat (b + l) = unat b + unat l"
    and "pre = ys @ [(b, l)] \<Longrightarrow> b + l = start \<Longrightarrow>
           unat (l + n) = unat l + unat n \<and> unat (b + (l + n)) = unat start + unat n"
    and "suf = (c, m) # zs \<Longrightarrow> unat c + unat m \<le> hi"
proof -
  show sn: "unat (start + n) = unat start + unat n"
    using assms by (simp add: unat_add64)
  show bl: "unat (b + l) = unat b + unat l" if "pre = ys @ [(b, l)]"
    using assms that by (simp add: gap_at_def unat_add64)
  show "unat (l + n) = unat l + unat n \<and> unat (b + (l + n)) = unat start + unat n"
    if "pre = ys @ [(b, l)]" "b + l = start"
  proof -
    have "unat b + unat l = unat start" using bl [OF that(1)] that(2) by simp
    with assms(3,4) have ln: "unat (l + n) = unat l + unat n" by (simp add: unat_add64)
    have "b + (l + n) = start + n" using that(2) by (simp add: add.assoc [symmetric])
    then have "unat (b + (l + n)) = unat (start + n)" by (rule arg_cong)
    with ln sn show ?thesis by simp
  qed
  show "unat c + unat m \<le> hi" if "suf = (c, m) # zs"
    using assms that by (auto simp: wf_blocks_append)
qed

lemma join_right_wf:
  assumes pre: "wf_blocks lo hi ys" and lo: "ys \<noteq> [] \<Longrightarrow> unat (fst (last ys)) + unat (snd (last ys)) < unat b"
    and b: "lo \<le> unat b" "0 < unat b" "aligned b" "aligned l" "0 < unat l" "unat b + unat l \<le> hi"
    and suf: "wf_blocks (unat b + unat l) hi suf" and hi: "hi < 18446744073709551616"
  shows "wf_blocks lo hi (join_right ys b l suf)"
    and "free_bytes (join_right ys b l suf) = free_bytes ys \<union> span (unat b) (unat l) \<union> free_bytes suf"
    and "(\<Sum>(a, l) \<leftarrow> join_right ys b l suf. unat l) =
           (\<Sum>(a, l) \<leftarrow> ys. unat l) + unat l + (\<Sum>(a, l) \<leftarrow> suf. unat l)"
proof -
  have bl: "unat (b + l) = unat b + unat l"
    using b hi by (simp add: unat_add64)
  have lm: "unat (l + m) = unat l + unat m" "aligned (l + m)" if "suf = (b + l, m) # zs" for m zs
    using suf that bl b hi by (auto simp: unat_add64 intro: aligned_add)
  show "wf_blocks lo hi (join_right ys b l suf)"
  proof (cases suf)
    case Nil
    with pre lo b show ?thesis by (auto simp: join_right_def wf_blocks_append)
  next
    case (Cons d zs)
    then obtain c m where c: "suf = (c, m) # zs" by (cases d) auto
    show ?thesis
    proof (cases "b + l = c")
      case True
      with c lm [of m zs] have "unat (l + m) = unat l + unat m" "aligned (l + m)" by auto
      moreover from True bl have "unat c = unat b + unat l" by simp
      ultimately show ?thesis
        using True c pre lo b suf by (auto simp: join_right_def wf_blocks_append add.assoc)
    next
      case False
      with bl suf c have "unat b + unat l < unat c" by (auto simp: u64_eq_iff_unat)
      with False c pre lo b suf show ?thesis
        by (auto simp: join_right_def wf_blocks_append)
    qed
  qed
  show "free_bytes (join_right ys b l suf) = free_bytes ys \<union> span (unat b) (unat l) \<union> free_bytes suf"
    using lm bl by (cases suf) (auto simp: join_right_def simp flip: span_join split: if_splits)
  show "(\<Sum>(a, l) \<leftarrow> join_right ys b l suf. unat l) =
          (\<Sum>(a, l) \<leftarrow> ys. unat l) + unat l + (\<Sum>(a, l) \<leftarrow> suf. unat l)"
    using lm by (cases suf) (auto simp: join_right_def)
qed

lemma coalesce_wf:
  assumes wf: "wf_blocks lo hi (pre @ suf)" and gap: "gap_at (unat start) (unat n) pre suf"
    and hi: "hi < 18446744073709551616" "unat start + unat n \<le> hi"
    and start: "lo \<le> unat start" "0 < unat start" "aligned start" "aligned n" "0 < unat n"
  shows "wf_blocks lo hi (coalesce pre start n suf)"
    and "free_bytes (coalesce pre start n suf) = free_bytes (pre @ suf) \<union> span (unat start) (unat n)"
    and "(\<Sum>(a, l) \<leftarrow> coalesce pre start n suf. unat l) = (\<Sum>(a, l) \<leftarrow> pre @ suf. unat l) + unat n"
proof -
  note nw = gap_no_wrap [OF wf gap hi]
  have suf: "wf_blocks (unat start + unat n) hi suf"
    using wf gap by (cases suf) (auto simp: wf_blocks_append gap_at_def)
  have *: "wf_blocks lo hi (coalesce pre start n suf) \<and>
    free_bytes (coalesce pre start n suf) = free_bytes (pre @ suf) \<union> span (unat start) (unat n) \<and>
    (\<Sum>(a, l) \<leftarrow> coalesce pre start n suf. unat l) = (\<Sum>(a, l) \<leftarrow> pre @ suf. unat l) + unat n"
  proof (cases "pre \<noteq> [] \<and> fst (last pre) + snd (last pre) = start")
    case True
    then obtain ys b l where pre: "pre = ys @ [(b, l)]" and bl: "b + l = start"
      by (metis append_butlast_last_id prod.exhaust fst_conv snd_conv)
    note nb = nw(2,3) [OF pre]
    from nb bl have ul: "unat b + unat l = unat start" "unat (l + n) = unat l + unat n" by auto
    have ys: "wf_blocks lo hi ys" "ys \<noteq> [] \<Longrightarrow> unat (fst (last ys)) + unat (snd (last ys)) < unat b"
      using wf pre by (auto simp: wf_blocks_append split: if_splits)
    from wf_blocks_mem [OF wf, of b l] pre
    have b: "lo \<le> unat b" "0 < unat b" "aligned b" "aligned l" by auto
    then have ln: "aligned (l + n)" using ul start hi by (auto intro: aligned_add)
    have sf: "wf_blocks (unat b + unat (l + n)) hi suf" "unat b + unat (l + n) \<le> hi" "0 < unat (l + n)"
      using suf hi start ul by (simp_all add: add.assoc [symmetric])
    have sp: "span (unat b) (unat (l + n)) = span (unat b) (unat l) \<union> span (unat start) (unat n)"
      using ul by (simp flip: span_join)
    have c: "coalesce pre start n suf = join_right ys b (l + n) suf"
      using True pre by (simp add: coalesce_def)
    note jr = join_right_wf [OF ys b(1-3) ln sf(3,2,1) hi(1)]
    show ?thesis
      unfolding c using jr sp [unfolded ul(2)] by (simp add: pre ul(2) Un_ac)
  next
    case False
    moreover have "unat (fst (last pre)) + unat (snd (last pre)) < unat start" if ne: "pre \<noteq> []"
    proof -
      obtain ys b l where pre: "pre = ys @ [(b, l)]" using ne by (cases pre rule: rev_cases) auto
      with nw(2) [OF pre] False gap show ?thesis
        by (auto simp: gap_at_def u64_eq_iff_unat)
    qed
    ultimately show ?thesis
      using join_right_wf [of lo hi pre start n suf] wf suf hi start
      by (auto simp: coalesce_def wf_blocks_append)
  qed
  then show "wf_blocks lo hi (coalesce pre start n suf)"
    "free_bytes (coalesce pre start n suf) = free_bytes (pre @ suf) \<union> span (unat start) (unat n)"
    "(\<Sum>(a, l) \<leftarrow> coalesce pre start n suf. unat l) = (\<Sum>(a, l) \<leftarrow> pre @ suf. unat l) + unat n"
    by blast+
qed

section \<open>The allocator against its specification\<close>

lemma first_fit_free_bytes:
  assumes "wf_blocks lo hi bs" and "first_fit n bs = Some (r, bs')" and "hi < 18446744073709551616"
  shows "span (unat r) (unat n) \<subseteq> free_bytes bs \<and>
         free_bytes bs' = free_bytes bs - span (unat r) (unat n)"
  using assms
proof (induction lo hi bs arbitrary: bs' rule: wf_blocks.induct)
  case (2 lo hi a l bs)
  then have wf: "wf_blocks (unat a + unat l + 1) hi bs" by simp
  have rest: "free_bytes bs \<inter> span (unat a) (unat l) = {}"
    using free_bytes_bounds [OF wf] by (fastforce simp: span_def)
  consider "l < n" | "l = n" | "n < l" by (rule linorder_cases)
  then show ?case
  proof cases
    case 1
    with "2.prems"(2) obtain bs'' where "first_fit n bs = Some (r, bs'')" "bs' = (a, l) # bs''"
      by auto
    with "2.IH" [of bs''] wf rest "2.prems"(3) show ?thesis by fastforce
  next
    case 2
    with "2.prems"(2) rest show ?thesis by auto
  next
    case 3
    with "2.prems" have "unat (a + n) = unat a + unat n" "unat (l - n) = unat l - unat n"
      by (auto simp: unat_add64 unat_sub64 word_less_nat_alt word_le_nat_alt)
    moreover from 3 "2.prems"(2) have "r = a" "bs' = (a + n, l - n) # bs"
      by (auto dest: less_asym split: if_splits)
    moreover from 3 have "unat n < unat l" by (simp add: word_less_nat_alt)
    ultimately show ?thesis
      using rest by (auto simp: span_def)
  qed
qed simp

lemma first_fit_Some_mem:
  assumes "first_fit n bs = Some (r, bs')"
  shows "\<exists>l. (r, l) \<in> set bs \<and> n \<le> l"
  using assms
proof (induction n bs arbitrary: bs' rule: first_fit.induct)
  case (2 n a l bs)
  show ?case
  proof (cases "l < n")
    case True
    with "2.prems" obtain bs'' where "first_fit n bs = Some (r, bs'')" by auto
    with "2.IH" True show ?thesis by auto
  next
    case False
    with "2.prems" show ?thesis by (auto split: if_splits)
  qed
qed simp

lemma first_fit_None: "first_fit n bs = None \<longleftrightarrow> (\<forall>(a, l) \<in> set bs. l < n)"
  by (induction n bs rule: first_fit.induct) (auto split: if_splits)

text \<open>The first block that is long enough: every earlier block of the list is too short.\<close>

lemma first_fit_first:
  assumes "first_fit n bs = Some (r, bs')" and "wf_blocks lo hi bs" and "(a, l) \<in> set bs" and "a < r"
  shows "l < n"
  using assms
proof (induction lo hi bs arbitrary: bs' rule: wf_blocks.induct)
  case (2 lo hi b m bs)
  then have wf: "wf_blocks (unat b + unat m + 1) hi bs" by simp
  show ?case
  proof (cases "m < n")
    case True
    with 2 wf show ?thesis by auto
  next
    case False
    with "2.prems"(1) have "r = b" by (auto split: if_splits)
    with "2.prems"(3,4) wf_blocks_later [OF wf, of a l] show ?thesis
      by (auto simp: word_less_nat_alt)
  qed
qed simp

text \<open>A free list in address order with gaps is determined by the set of its free bytes.\<close>

lemma free_bytes_inj:
  assumes "wf_blocks lo hi bs" and "wf_blocks lo hi cs" and "free_bytes bs = free_bytes cs"
  shows "bs = cs"
  using assms
proof (induction lo hi bs arbitrary: cs rule: wf_blocks.induct)
  case (1 lo hi)
  then show ?case by (cases cs) (auto simp: span_def)
next
  case (2 lo hi a l bs)
  then obtain b m cs' where cs: "cs = (b, m) # cs'"
    by (cases cs) (auto simp: span_def)
  have wfa: "wf_blocks (unat a + unat l + 1) hi bs" and wfb: "wf_blocks (unat b + unat m + 1) hi cs'"
    using 2 cs by auto
  note la = free_bytes_bounds [OF wfa] and lb = free_bytes_bounds [OF wfb]
  have eq: "x \<in> span (unat a) (unat l) \<or> x \<in> free_bytes bs \<longleftrightarrow>
      x \<in> span (unat b) (unat m) \<or> x \<in> free_bytes cs'" for x
    using "2.prems"(3) cs by auto
  have pos: "0 < unat l" "0 < unat m" using 2 cs by auto
  have "unat a = unat b"
    using eq [of "unat a"] eq [of "unat b"] la lb pos by (fastforce simp: span_def)
  moreover then have "unat l = unat m"
    using eq [of "unat a + unat l"] eq [of "unat b + unat m"] la lb pos
    by (fastforce simp: span_def)
  ultimately have ab: "a = b" "l = m" by (simp_all add: u64_eq_iff_unat)
  moreover have "x \<in> free_bytes bs \<longleftrightarrow> x \<in> free_bytes cs'" for x
    using eq [of x] la lb ab by (auto simp: span_def)
  then have "free_bytes bs = free_bytes cs'" by blast
  with "2.IH" [of cs'] wfa wfb ab have "bs = cs'" by simp
  ultimately show ?case using cs by simp
qed

lemma getmem_first_fit:
  assumes "mem_inv s bs" and "nbytes \<noteq> 0" and "unat nbytes < 18446744073709551584"
  shows "\<exists>s'. getmem nbytes s =
           Some (case first_fit (ROUNDMB nbytes) bs of None \<Rightarrow> 0 | Some (r, _) \<Rightarrow> r, s') \<and>
         mem_inv s' (case first_fit (ROUNDMB nbytes) bs of None \<Rightarrow> bs | Some (_, bs') \<Rightarrow> bs') \<and>
         heap_lo s' = heap_lo s \<and> heap_hi s' = heap_hi s \<and>
         (first_fit (ROUNDMB nbytes) bs = None \<longrightarrow> s' = s) \<and>
         (\<forall>x. unat x \<notin> free_bytes bs \<longrightarrow> ram s' x = ram s x)"
proof -
  have "0 < unat nbytes" using assms(2) by (simp add: u64_eq_iff_unat)
  then have "0 < unat (ROUNDMB nbytes)" "unat (ROUNDMB nbytes) + 16 < 18446744073709551616"
    using ROUNDMB_bounds [of nbytes] assms(3) by simp_all
  from getmem_loop_first_fit [of s "[]" bs "head_mnext s", OF _ _ aligned_ROUNDMB this]
    mem_inv_nat [OF assms(1)] assms(1,2)
  show ?thesis by (simp add: getmem_def)
qed

lemma prev_end_of_lastref:
  assumes "seg s (head_mnext s) (pre @ suf) 0" and "wf_blocks lo hi (pre @ suf)"
    and "hi < 18446744073709551616"
  shows "unat (prev_end_of (lastref pre) s) =
           (if pre = [] then 0 else unat (fst (last pre)) + unat (snd (last pre)))"
proof (cases pre rule: rev_cases)
  case (snoc ys b)
  then obtain p l where pre: "pre = ys @ [(p, l)]" by (cases b) auto
  with assms have "mlength s p = l" by (auto simp: seg_append)
  moreover from assms(2) have "unat p + unat l \<le> hi"
    by (rule conjunct2 [OF conjunct2 [OF conjunct2 [OF conjunct2 [OF conjunct2 [OF wf_blocks_mem]]]]])
      (simp add: pre)
  ultimately show ?thesis
    using assms(3) pre by (simp add: prev_end_of_def unat_add64)
qed (simp add: prev_end_of_def)

lemma overlap_checks:
  assumes "seg s (head_mnext s) (pre @ suf) 0" and "wf_blocks lo hi (pre @ suf)"
    and "hi < 18446744073709551616" and "unat (blk + n) = unat blk + unat n"
  shows "(blk < prev_end_of (lastref pre) s \<or> headptr suf \<noteq> 0 \<and> headptr suf < blk + n) \<longleftrightarrow>
           \<not> gap_at (unat blk) (unat n) pre suf"
proof -
  have "blk < prev_end_of (lastref pre) s \<longleftrightarrow>
      pre \<noteq> [] \<and> unat blk < unat (fst (last pre)) + unat (snd (last pre))"
    by (simp add: word_less_nat_alt prev_end_of_lastref [OF assms(1-3)])
  moreover have "headptr suf \<noteq> 0 \<and> headptr suf < blk + n \<longleftrightarrow>
      suf \<noteq> [] \<and> unat (headptr suf) < unat blk + unat n"
    using assms(1,4) by (cases suf) (auto simp: seg_append word_less_nat_alt)
  ultimately show ?thesis
    by (auto simp: gap_at_def)
qed

lemma freemem_mem_inv:
  assumes inv: "mem_inv s bs" and blk: "blk \<noteq> 0" "aligned blk" and n: "nbytes \<noteq> 0"
    and nw: "unat nbytes < 18446744073709551601" "unat blk + unat (ROUNDMB nbytes) < 18446744073709551616"
  defines "R \<equiv> span (unat blk) (unat (ROUNDMB nbytes))"
  shows "if R \<subseteq> {unat (heap_lo s)..<unat (heap_hi s)} \<and> R \<inter> free_bytes bs = {}
         then \<exists>s' bs'. freemem blk nbytes s = Some (0, s') \<and> mem_inv s' bs' \<and>
                free_bytes bs' = free_bytes bs \<union> R \<and> heap_lo s' = heap_lo s \<and> heap_hi s' = heap_hi s
         else freemem blk nbytes s = Some (-1, s)"
proof -
  let ?n = "ROUNDMB nbytes"
  note iv = mem_inv_nat [OF inv]
  have "0 < unat nbytes" using n by (simp add: u64_eq_iff_unat)
  then have npos: "0 < unat ?n" using ROUNDMB_bounds [of nbytes] nw by simp
  have en: "unat (blk + ?n) = unat blk + unat ?n" using nw by (simp add: unat_add64)
  have inheap: "blk < heap_lo s \<or> heap_hi s < blk + ?n \<longleftrightarrow> \<not> R \<subseteq> {unat (heap_lo s)..<unat (heap_hi s)}"
    using npos en by (auto simp: R_def span_def word_less_nat_alt)
  show ?thesis
  proof (cases "R \<subseteq> {unat (heap_lo s)..<unat (heap_hi s)}")
    case False
    with inheap blk n show ?thesis by (auto simp: freemem_def Let_def)
  next
    case True
    from freemem_walk_splits [OF iv(2), of blk "[]"] obtain pre suf where
      bs: "bs = pre @ suf" and walk: "freemem_walk blk Head (head_mnext s) s = Some (lastref pre, headptr suf)"
      and before: "\<forall>(a, l) \<in> set pre. a < blk" and after: "suf \<noteq> [] \<longrightarrow> blk \<le> headptr suf"
      by auto
    have gap: "gap_at (unat blk) (unat ?n) pre suf \<longleftrightarrow> R \<inter> free_bytes bs = {}"
      unfolding R_def bs using iv(1) bs npos before after
      by (intro gap_at_disjoint) (auto simp: word_less_nat_alt word_le_nat_alt)
    have hi: "unat (heap_hi s) < 18446744073709551616" by (rule unat_bound64)
    note checks = overlap_checks [OF iv(2) [unfolded bs] iv(1) [unfolded bs] hi en]
    show ?thesis
    proof (cases "gap_at (unat blk) (unat ?n) pre suf")
      case False
      with checks walk inheap True blk n gap show ?thesis
        by (auto simp: freemem_def Let_def prev_end_of_def split: memref.splits)
    next
      case True': True
      have sz: "unat blk + unat ?n \<le> unat (heap_hi s)" "unat (heap_lo s) \<le> unat blk" "0 < unat blk"
        using True inheap en iv(4) by (auto simp: word_less_nat_alt)
      note cw = coalesce_wf [OF iv(1) [unfolded bs] True' hi sz(1,2,3) blk(2) aligned_ROUNDMB npos]
      have "blk \<notin> fst ` set bs"
        using gap True' npos iv(1) by (fastforce simp: R_def free_bytes_def span_def dest!: wf_blocks_mem)
      then have "distinct (map fst (pre @ (blk, ?n) # suf))" "\<forall>x \<in> fst ` set (pre @ suf). aligned x"
        using wf_blocks_distinct [OF iv(1)] wf_blocks_aligned [OF iv(1)] bs by auto
      from freemem_link_prev_seg [OF iv(2) [unfolded bs] blk this]
      obtain ys b l s1 where lp: "freemem_link_prev blk ?n (lastref pre) (headptr suf)
            (prev_end_of (lastref pre) s) s = (b, s1)"
        and s1: "seg s1 (head_mnext s1) (ys @ (b, l) # suf) 0"
          "coalesce pre blk ?n suf = join_right ys b l suf"
          "distinct (map fst (ys @ (b, l) # suf))" "\<forall>x \<in> fst ` set (ys @ (b, l) # suf). aligned x"
          "head_mlength s1 = head_mlength s" "heap_lo s1 = heap_lo s" "heap_hi s1 = heap_hi s"
          "heap_total s1 = heap_total s"
        by blast
      let ?s2 = "freemem_link_next b (headptr suf) s1"
      let ?s3 = "?s2\<lparr>head_mlength := head_mlength ?s2 + ?n\<rparr>"
      have "freemem blk nbytes s = Some (0, ?s3)"
        using checks walk inheap True True' blk n lp
        by (auto simp: freemem_def Let_def prev_end_of_def split: memref.splits)
      moreover have "unat (head_mlength s + ?n) = (\<Sum>(a, l) \<leftarrow> coalesce pre blk ?n suf. unat l)"
        using wf_blocks_sum [OF cw(1) iv(3)] hi by (simp add: cw(3) iv(5) bs unat_add64)
      then have "mem_inv ?s3 (coalesce pre blk ?n suf)"
        using inv freemem_link_next_seg [OF s1(1,3,4)] s1 cw(1) by (simp add: mem_inv_def)
      ultimately show ?thesis
        using True gap True' cw s1 bs by (auto simp: R_def)
    qed
  qed
qed

section \<open>What the allocator writes\<close>

lemma freemem_link_prev_ram:
  assumes "freemem_link_prev start n prev cur pe s = (b, s1)"
  shows "(b = start \<or> prev = Blk b) \<and>
         (\<forall>x. x \<noteq> start \<longrightarrow> x \<noteq> start + 8 \<longrightarrow> (\<forall>p. prev = Blk p \<longrightarrow> x \<noteq> p \<and> x \<noteq> p + 8) \<longrightarrow> ram s1 x = ram s x)"
  using assms
  by (auto simp: freemem_link_prev_def Let_def set_mnext_def set_mlength_def split: memref.splits if_splits)

lemma freemem_link_next_ram:
  "x \<noteq> b \<Longrightarrow> x \<noteq> b + 8 \<Longrightarrow> ram (freemem_link_next b c s) x = ram s x"
  by (simp add: freemem_link_next_def Let_def set_mnext_def set_mlength_def)

text \<open>freemem writes only into free blocks and into the block being released.\<close>

lemma freemem_frame:
  assumes inv: "mem_inv s bs" and rc: "freemem blk nbytes s = Some (rc, s')"
    and x: "unat x \<notin> free_bytes bs" "x \<noteq> blk" "x \<noteq> blk + 8"
  shows "ram s' x = ram s x"
proof -
  note iv = mem_inv_nat [OF inv]
  from freemem_walk_splits [OF iv(2), of blk "[]"] obtain pre suf where
    bs: "bs = pre @ suf" and walk: "freemem_walk blk Head (head_mnext s) s = Some (lastref pre, headptr suf)"
    by auto
  have p: "x \<noteq> p \<and> x \<noteq> p + 8" if "lastref pre = Blk p" for p
  proof -
    from that have "p \<in> fst ` set bs" by (auto simp: lastref_def bs split: if_splits)
    with header_in_free_bytes [OF iv(1) _ unat_bound64] x(1) show ?thesis by auto
  qed
  show ?thesis
  proof (cases "s' = s")
    case False
    obtain b s1 where lp: "freemem_link_prev blk (ROUNDMB nbytes) (lastref pre) (headptr suf)
        (prev_end_of (lastref pre) s) s = (b, s1)"
      by fastforce
    with False rc walk have "ram s' = ram (freemem_link_next b (headptr suf) s1)"
      by (auto simp: freemem_def Let_def prev_end_of_def split: if_splits)
    with freemem_link_prev_ram [OF lp] freemem_link_next_ram [of x b] p x show ?thesis by auto
  qed simp
qed

text \<open>The length cell of the released block is left alone or holds a multiple of 16.\<close>

lemma freemem_length_cell:
  assumes inv: "mem_inv s bs" and rc: "freemem blk nbytes s = Some (rc, s')"
    and blk: "aligned blk" "blk \<notin> fst ` set bs"
  shows "ram s' (blk + 8) = ram s (blk + 8) \<or> aligned (ram s' (blk + 8))"
proof -
  note iv = mem_inv_nat [OF inv]
  let ?n = "ROUNDMB nbytes"
  from freemem_walk_splits [OF iv(2), of blk "[]"] obtain pre suf where
    bs: "bs = pre @ suf" and walk: "freemem_walk blk Head (head_mnext s) s = Some (lastref pre, headptr suf)"
    by auto
  have pal: "aligned p" "p \<noteq> blk" if "lastref pre = Blk p" for p
    using that blk wf_blocks_aligned [OF iv(1)] by (auto simp: lastref_def bs split: if_splits)
  show ?thesis
  proof (cases "s' = s")
    case False
    obtain b s1 where lp: "freemem_link_prev blk ?n (lastref pre) (headptr suf)
        (prev_end_of (lastref pre) s) s = (b, s1)"
      by fastforce
    with False rc walk have ram: "ram s' = ram (freemem_link_next b (headptr suf) s1)"
      by (auto simp: freemem_def Let_def prev_end_of_def split: if_splits)
    show ?thesis
    proof (cases "b = blk")
      case True
      with lp pal blk have s1: "mlength s1 blk = ?n" "\<And>c. c \<noteq> blk \<Longrightarrow> aligned c \<Longrightarrow> mlength s1 c = mlength s c"
        by (auto simp: freemem_link_prev_def Let_def split: memref.splits if_splits)
      have "aligned (mlength s1 (headptr suf))" if "headptr suf \<noteq> 0"
      proof -
        from that obtain c m where cm: "headptr suf = c" "(c, m) \<in> set bs"
          by (cases suf) (auto simp: bs headptr_def)
        with iv(2) have "mlength s c = m" by (auto simp: seg_def)
        with wf_blocks_mem [OF iv(1) cm(2)] s1(2) [of c] cm blk(2) show ?thesis by force
      qed
      then have "aligned (mlength (freemem_link_next b (headptr suf) s1) blk)"
        using True s1(1) blk(1) by (auto simp: freemem_link_next_def Let_def aligned_add)
      then show ?thesis by (simp add: ram mlength_def)
    next
      case False
      with freemem_link_prev_ram [OF lp] have prev: "lastref pre = Blk b" by auto
      with False lp have "s1 = set_mlength b (mlength s b + ?n) s"
        by (auto simp: freemem_link_prev_def Let_def split: if_splits)
      moreover have "blk + 8 \<noteq> b" "blk + 8 \<noteq> b + 8"
        using False pal [OF prev] blk(1) by (auto simp: aligned_plus8_neq)
      ultimately show ?thesis
        by (simp add: ram freemem_link_next_ram set_mlength_def)
    qed
  qed simp
qed

text \<open>A store outside the free bytes does not disturb the allocator.\<close>

lemma mem_inv_poke:
  assumes inv: "mem_inv s bs" and x: "unat x \<notin> free_bytes bs"
  shows "mem_inv (s\<lparr>ram := (ram s)(x := v)\<rparr>) bs"
proof -
  note iv = mem_inv_nat [OF inv]
  have "a \<noteq> x \<and> a + 8 \<noteq> x" if "a \<in> fst ` set bs" for a
    using that x header_in_free_bytes [OF iv(1) _ unat_bound64] by auto
  then have "seg (s\<lparr>ram := (ram s)(x := v)\<rparr>) (head_mnext s) bs 0 \<longleftrightarrow> seg s (head_mnext s) bs 0"
    by (intro seg_cong) (auto simp: mnext_def mlength_def)
  with inv show ?thesis by (simp add: mem_inv_def)
qed

section \<open>The contract of an allocator\<close>

fun union_spans :: "(nat \<times> nat) list \<Rightarrow> nat set" where
  "union_spans [] = {}"
| "union_spans ((a, n) # xs) = span a n \<union> union_spans xs"

fun disjoint_spans :: "(nat \<times> nat) list \<Rightarrow> bool" where
  "disjoint_spans [] \<longleftrightarrow> True"
| "disjoint_spans ((a, n) # xs) \<longleftrightarrow> span a n \<inter> union_spans xs = {} \<and> disjoint_spans xs"

lemma union_spans_append [simp]: "union_spans (xs @ ys) = union_spans xs \<union> union_spans ys"
  by (induction xs rule: union_spans.induct) auto

lemma disjoint_spans_append:
  "disjoint_spans (xs @ ys) \<longleftrightarrow>
     disjoint_spans xs \<and> disjoint_spans ys \<and> union_spans xs \<inter> union_spans ys = {}"
  by (induction xs rule: disjoint_spans.induct) auto

text \<open>
  What clients rely on: a set of free bytes inside a fixed heap, an allocation that takes a
  free span or leaves the state alone, a release that gives a span back exactly when it lies in
  the heap and is not free already.
\<close>

locale heap_allocator =
  fixes alloc :: "u64 \<Rightarrow> 's \<Rightarrow> (u64 \<times> 's) option"
    and dealloc :: "u64 \<Rightarrow> u64 \<Rightarrow> 's \<Rightarrow> (int \<times> 's) option"
    and valid :: "'s \<Rightarrow> bool" and free :: "'s \<Rightarrow> nat set" and heap :: "'s \<Rightarrow> nat set"
    and size_ok :: "u64 \<Rightarrow> bool" and addr_ok :: "u64 \<Rightarrow> bool" and rounded :: "u64 \<Rightarrow> nat"
  assumes free_in_heap: "valid s \<Longrightarrow> free s \<subseteq> heap s"
    and alloc_returns: "valid s \<Longrightarrow> size_ok n \<Longrightarrow> \<exists>r s'. alloc n s = Some (r, s')"
    and alloc_none: "valid s \<Longrightarrow> size_ok n \<Longrightarrow> alloc n s = Some (0, s') \<Longrightarrow> s' = s"
    and alloc_some: "valid s \<Longrightarrow> size_ok n \<Longrightarrow> alloc n s = Some (r, s') \<Longrightarrow> r \<noteq> 0 \<Longrightarrow>
      addr_ok r \<and> valid s' \<and> heap s' = heap s \<and> span (unat r) (rounded n) \<subseteq> free s \<and>
      free s' = free s - span (unat r) (rounded n)"
    and dealloc_accepts: "valid s \<Longrightarrow> size_ok n \<Longrightarrow> addr_ok r \<Longrightarrow> span (unat r) (rounded n) \<subseteq> heap s \<Longrightarrow>
      span (unat r) (rounded n) \<inter> free s = {} \<Longrightarrow>
      \<exists>s'. dealloc r n s = Some (0, s') \<and> valid s' \<and> heap s' = heap s \<and>
           free s' = free s \<union> span (unat r) (rounded n)"
    and dealloc_rejects: "valid s \<Longrightarrow> size_ok n \<Longrightarrow> addr_ok r \<Longrightarrow> span (unat r) (rounded n) \<subseteq> heap s \<Longrightarrow>
      span (unat r) (rounded n) \<inter> free s \<noteq> {} \<Longrightarrow> dealloc r n s = Some (-1, s)"
    and rounded_pos: "size_ok n \<Longrightarrow> 0 < rounded n"
begin

text \<open>Two live allocations never overlap.\<close>

lemma alloc_alloc_disjoint:
  assumes "valid s" "size_ok n" "size_ok m" "alloc n s = Some (r, s1)" "r \<noteq> 0"
    and "alloc m s1 = Some (q, s2)" "q \<noteq> 0"
  shows "span (unat r) (rounded n) \<inter> span (unat q) (rounded m) = {}"
  using alloc_some [OF assms(1,2,4,5)] alloc_some [of s1 m q s2] assms by blast

text \<open>Releasing what was just allocated gives the same free bytes back.\<close>

lemma alloc_dealloc:
  assumes "valid s" "size_ok n" "alloc n s = Some (r, s1)" "r \<noteq> 0"
  shows "\<exists>s2. dealloc r n s1 = Some (0, s2) \<and> valid s2 \<and> heap s2 = heap s \<and> free s2 = free s"
proof -
  from alloc_some [OF assms] have a: "addr_ok r" "valid s1" "heap s1 = heap s"
    "span (unat r) (rounded n) \<subseteq> free s" "free s1 = free s - span (unat r) (rounded n)"
    by auto
  moreover from a(4) free_in_heap [OF assms(1)] have "span (unat r) (rounded n) \<subseteq> heap s1"
    using a(3) by auto
  ultimately obtain s2 where "dealloc r n s1 = Some (0, s2)" "valid s2" "heap s2 = heap s1"
    "free s2 = free s1 \<union> span (unat r) (rounded n)"
    using dealloc_accepts [OF a(2) assms(2) a(1)] by auto
  with a show ?thesis by auto
qed

text \<open>A second release of the same span is refused and changes nothing.\<close>

lemma double_dealloc:
  assumes "valid s" "size_ok n" "addr_ok r" "span (unat r) (rounded n) \<subseteq> heap s"
    and "dealloc r n s = Some (0, s1)"
  shows "dealloc r n s1 = Some (-1, s1)"
proof -
  have "span (unat r) (rounded n) \<inter> free s = {}"
    using dealloc_rejects [OF assms(1-4)] assms(5) by auto
  from dealloc_accepts [OF assms(1-4) this] assms(5)
  have s1: "valid s1" "heap s1 = heap s" "free s1 = free s \<union> span (unat r) (rounded n)" by auto
  moreover have "unat r \<in> span (unat r) (rounded n)"
    using rounded_pos [OF assms(2)] by (simp add: span_def)
  ultimately show ?thesis
    using assms(2-4) by (intro dealloc_rejects) auto
qed

text \<open>The live allocations and the free bytes partition the heap.\<close>

definition spans :: "(u64 \<times> u64) list \<Rightarrow> (nat \<times> nat) list" where
  "spans live = map (\<lambda>(r, n). (unat r, rounded n)) live"

lemma spans_simps [simp]:
  "spans [] = []" "spans ((r, n) # live) = (unat r, rounded n) # spans live"
  "spans (xs @ ys) = spans xs @ spans ys"
  by (simp_all add: spans_def)

definition owns :: "'s \<Rightarrow> (u64 \<times> u64) list \<Rightarrow> bool" where
  "owns s live \<longleftrightarrow>
     (\<forall>(r, n) \<in> set live. size_ok n \<and> addr_ok r) \<and> disjoint_spans (spans live) \<and>
     union_spans (spans live) \<inter> free s = {} \<and> free s \<union> union_spans (spans live) = heap s"

lemma owns_alloc:
  assumes "valid s" "size_ok n" "alloc n s = Some (r, s')" "r \<noteq> 0" and own: "owns s live"
  shows "owns s' ((r, n) # live)"
proof -
  from alloc_some [OF assms(1-4)] have a: "addr_ok r" "heap s' = heap s"
    "span (unat r) (rounded n) \<subseteq> free s" "free s' = free s - span (unat r) (rounded n)"
    by auto
  from own have o: "disjoint_spans (spans live)" "union_spans (spans live) \<inter> free s = {}"
    "free s \<union> union_spans (spans live) = heap s" "\<forall>(r, n) \<in> set live. size_ok n \<and> addr_ok r"
    by (simp_all add: owns_def)
  have "span (unat r) (rounded n) \<inter> union_spans (spans live) = {}"
    using a(3) o(2) by blast
  with o a assms(2) show ?thesis
    unfolding owns_def by auto
qed

lemma owns_dealloc:
  assumes "valid s" and own: "owns s (xs @ (r, n) # ys)"
  shows "\<exists>s'. dealloc r n s = Some (0, s') \<and> valid s' \<and> owns s' (xs @ ys)"
proof -
  let ?R = "span (unat r) (rounded n)" and ?U = "union_spans (spans xs) \<union> union_spans (spans ys)"
  from own have o: "size_ok n" "addr_ok r" "disjoint_spans (spans xs @ (unat r, rounded n) # spans ys)"
    "(?R \<union> ?U) \<inter> free s = {}" "free s \<union> (?R \<union> ?U) = heap s"
    "\<forall>(r, n) \<in> set (xs @ ys). size_ok n \<and> addr_ok r"
    by (auto simp: owns_def)
  from o(4,5) have "?R \<subseteq> heap s" "?R \<inter> free s = {}" by auto
  from dealloc_accepts [OF assms(1) o(1,2) this] obtain s' where
    s': "dealloc r n s = Some (0, s')" "valid s'" "heap s' = heap s" "free s' = free s \<union> ?R"
    by auto
  have d: "disjoint_spans (spans xs @ spans ys)" and "?R \<inter> union_spans (spans ys) = {}"
    and "union_spans (spans xs) \<inter> ?R = {}"
    using o(3) by (auto simp: disjoint_spans_append)
  then have "?R \<inter> ?U = {}" by auto
  then have "owns s' (xs @ ys)"
    unfolding owns_def using o(4,5,6) d s'(3,4) by auto
  with s' show ?thesis by blast
qed

end

section \<open>getmem and freemem meet the contract\<close>

definition heap_valid :: "memstate \<Rightarrow> bool" where
  "heap_valid s \<longleftrightarrow> (\<exists>bs. mem_inv s bs)"

definition heap_free :: "memstate \<Rightarrow> nat set" where
  "heap_free s = (\<Union>bs \<in> {bs. mem_inv s bs}. free_bytes bs)"

definition heap_range :: "memstate \<Rightarrow> nat set" where
  "heap_range s = {unat (heap_lo s)..<unat (heap_hi s)}"

text \<open>Sizes whose rounding and header arithmetic do not wrap around.\<close>

definition getmem_size_ok :: "u64 \<Rightarrow> bool" where
  "getmem_size_ok n \<longleftrightarrow> n \<noteq> 0 \<and> unat n < 18446744073709551584"

definition block_addr_ok :: "u64 \<Rightarrow> bool" where
  "block_addr_ok r \<longleftrightarrow> r \<noteq> 0 \<and> aligned r"

lemma seg_unique:
  assumes "seg s p bs 0" and "seg s p cs 0"
  shows "bs = cs"
  using assms
proof (induction bs arbitrary: p cs)
  case Nil
  then show ?case by simp
next
  case (Cons b bs)
  then show ?case by (cases b; cases cs) auto
qed

lemma mem_inv_unique: "mem_inv s bs \<Longrightarrow> mem_inv s cs \<Longrightarrow> bs = cs"
  by (auto simp: mem_inv_def intro: seg_unique)

lemma heap_free_eq: "mem_inv s bs \<Longrightarrow> heap_free s = free_bytes bs"
  by (auto simp: heap_free_def dest: mem_inv_unique)

lemma getmem_some:
  assumes inv: "mem_inv s bs" and n: "getmem_size_ok n" and r: "getmem n s = Some (r, s')" "r \<noteq> 0"
  shows "\<exists>bs'. first_fit (ROUNDMB n) bs = Some (r, bs') \<and> mem_inv s' bs' \<and>
           heap_lo s' = heap_lo s \<and> heap_hi s' = heap_hi s"
  using getmem_first_fit [OF inv, of n] n r
  by (auto simp: getmem_size_ok_def split: option.splits)

lemma getmem_zero:
  assumes "mem_inv s bs" and "getmem_size_ok n" and "getmem n s = Some (0, s')"
  shows "first_fit (ROUNDMB n) bs = None \<and> s' = s"
proof (cases "first_fit (ROUNDMB n) bs")
  case None
  with getmem_first_fit [OF assms(1), of n] assms(2,3) show ?thesis
    by (auto simp: getmem_size_ok_def)
next
  case (Some p)
  then obtain r bs' where "first_fit (ROUNDMB n) bs = Some (r, bs')" by (cases p) auto
  with getmem_first_fit [OF assms(1), of n] assms(2,3) first_fit_Some_mem
    wf_blocks_mem [OF mem_inv_nat(1) [OF assms(1)]] show ?thesis
    by (fastforce simp: getmem_size_ok_def)
qed

lemma block_span_no_wrap:
  assumes "span (unat r) n \<subseteq> heap_range s" and "0 < n"
  shows "unat r + n < 18446744073709551616"
proof -
  from assms have "unat r + n - 1 \<in> heap_range s" by (auto simp: span_def)
  with unat_bound64 [of "heap_hi s"] assms(2) show ?thesis by (auto simp: heap_range_def)
qed

lemma ROUNDMB_pos: "getmem_size_ok n \<Longrightarrow> 0 < unat (ROUNDMB n)"
  using ROUNDMB_bounds(1) [of n] by (auto simp: getmem_size_ok_def u64_eq_iff_unat)

lemma getmem_contract:
  assumes "heap_valid s" "getmem_size_ok n" "getmem n s = Some (r, s')" "r \<noteq> 0"
  shows "block_addr_ok r \<and> heap_valid s' \<and> heap_range s' = heap_range s \<and>
         span (unat r) (unat (ROUNDMB n)) \<subseteq> heap_free s \<and>
         heap_free s' = heap_free s - span (unat r) (unat (ROUNDMB n))"
proof -
  from assms(1) obtain bs where inv: "mem_inv s bs" by (auto simp: heap_valid_def)
  from getmem_some [OF inv assms(2-4)] obtain bs' where
    ff: "first_fit (ROUNDMB n) bs = Some (r, bs')" and inv': "mem_inv s' bs'"
    and hp: "heap_lo s' = heap_lo s" "heap_hi s' = heap_hi s"
    by blast
  note iv = mem_inv_nat [OF inv]
  from first_fit_Some_mem [OF ff] wf_blocks_mem [OF iv(1)] have "aligned r" by blast
  with first_fit_free_bytes [OF iv(1) ff unat_bound64] hp inv inv' assms(4) show ?thesis
    by (auto simp: heap_free_eq heap_valid_def heap_range_def block_addr_ok_def)
qed

lemma freemem_contract:
  assumes "heap_valid s" "getmem_size_ok n" "block_addr_ok r"
    and "span (unat r) (unat (ROUNDMB n)) \<subseteq> heap_range s"
  shows "if span (unat r) (unat (ROUNDMB n)) \<inter> heap_free s = {}
         then \<exists>s'. freemem r n s = Some (0, s') \<and> heap_valid s' \<and> heap_range s' = heap_range s \<and>
                heap_free s' = heap_free s \<union> span (unat r) (unat (ROUNDMB n))
         else freemem r n s = Some (-1, s)"
proof -
  from assms(1) obtain bs where inv: "mem_inv s bs" by (auto simp: heap_valid_def)
  have "unat r + unat (ROUNDMB n) < 18446744073709551616"
    using block_span_no_wrap [OF assms(4) ROUNDMB_pos [OF assms(2)]] .
  with freemem_mem_inv [OF inv, of r n] assms(2-4) show ?thesis
    by (auto simp: heap_free_eq [OF inv] heap_free_eq heap_valid_def heap_range_def
        getmem_size_ok_def block_addr_ok_def split: if_splits)
qed

interpretation mem: heap_allocator getmem freemem heap_valid heap_free heap_range
  getmem_size_ok block_addr_ok "\<lambda>n. unat (ROUNDMB n)"
proof
  show "heap_free s \<subseteq> heap_range s" if "heap_valid s" for s
    by (fastforce simp: heap_free_def heap_range_def dest: mem_inv_nat(1) free_bytes_bounds)
  show "\<exists>r s'. getmem n s = Some (r, s')" if "heap_valid s" "getmem_size_ok n" for s n
    using that getmem_first_fit by (fastforce simp: heap_valid_def getmem_size_ok_def)
  show "s' = s" if "heap_valid s" "getmem_size_ok n" "getmem n s = Some (0, s')" for s n s'
    using that getmem_zero by (auto simp: heap_valid_def)
  show "0 < unat (ROUNDMB n)" if "getmem_size_ok n" for n
    using that by (rule ROUNDMB_pos)
qed (use getmem_contract freemem_contract in \<open>auto split: if_splits\<close>)

section \<open>Initialisation and statistics\<close>

definition heap_bounds_ok :: "u64 \<Rightarrow> u64 \<Rightarrow> bool" where
  "heap_bounds_ok heap_start heap_end \<longleftrightarrow>
     0 < heap_start \<and> unat heap_start < 18446744073709551601 \<and> ROUNDMB heap_start < TRUNCMB heap_end"

lemma mem_init_mem_inv:
  assumes "heap_bounds_ok lo hi"
  shows "mem_inv (mem_init lo hi s) [(ROUNDMB lo, TRUNCMB hi - ROUNDMB lo)]"
proof -
  from assms have b: "0 < unat (ROUNDMB lo)" "ROUNDMB lo < TRUNCMB hi"
    using ROUNDMB_bounds(1) [of lo] by (auto simp: heap_bounds_ok_def word_less_nat_alt)
  then have d: "unat (TRUNCMB hi - ROUNDMB lo) = unat (TRUNCMB hi) - unat (ROUNDMB lo)"
    "aligned (TRUNCMB hi - ROUNDMB lo)"
    by (auto simp: unat_sub64 intro: aligned_sub)
  with b show ?thesis
    by (auto simp: mem_inv_def mem_init_def Let_def word_less_nat_alt word_le_nat_alt)
qed

lemma heap_range_mem_init: "heap_range (mem_init lo hi s) = {unat (ROUNDMB lo)..<unat (TRUNCMB hi)}"
  by (simp add: heap_range_def mem_init_def Let_def)

lemma largest_loop_max:
  assumes "seg s cur bs 0"
  shows "largest_loop mx cur s = Some (fold (\<lambda>(a, l) m. max m l) bs mx)"
  using assms
proof (induction bs arbitrary: mx cur)
  case Nil
  then show ?case by (subst largest_loop.simps) simp
next
  case (Cons b bs)
  obtain a l where b: "b = (a, l)" by (cases b)
  with Cons show ?case
    by (subst largest_loop.simps) (auto simp: max_def)
qed

lemma fold_max_le: "fold (\<lambda>(a, l) m. max m l) bs mx < n \<longleftrightarrow> mx < (n::u64) \<and> (\<forall>(a, l) \<in> set bs. l < n)"
  by (induction bs arbitrary: mx) auto

lemma count_loop_length:
  "seg s cur bs 0 \<Longrightarrow> count_loop k cur s = Some (k + int (length bs))"
proof (induction bs arbitrary: k cur)
  case Nil
  then show ?case by (subst count_loop.simps) simp
next
  case (Cons b bs)
  then show ?case by (cases b) (subst count_loop.simps, simp)
qed

section \<open>Stores outside the free list\<close>

definition store :: "u64 \<Rightarrow> u64 \<Rightarrow> memstate \<Rightarrow> memstate" where
  "store a v m = m\<lparr>ram := (ram m)(a := v)\<rparr>"

lemma store_outside:
  assumes "heap_valid m" and "unat a \<notin> heap_free m"
  shows "heap_valid (store a v m)" and "heap_free (store a v m) = heap_free m"
    and "heap_range (store a v m) = heap_range m"
proof -
  from assms(1) obtain bs where inv: "mem_inv m bs" by (auto simp: heap_valid_def)
  with assms(2) have inv': "mem_inv (store a v m) bs"
    by (auto simp: store_def heap_free_eq intro: mem_inv_poke)
  then show "heap_valid (store a v m)" by (auto simp: heap_valid_def)
  from inv inv' show "heap_free (store a v m) = heap_free m" by (simp add: heap_free_eq)
  show "heap_range (store a v m) = heap_range m" by (simp add: store_def heap_range_def)
qed

text \<open>\<open>store_words a ws\<close> stores the words \<open>ws\<close> in consecutive 8-byte cells from \<open>a\<close> on.\<close>

fun store_words :: "u64 \<Rightarrow> u64 list \<Rightarrow> memstate \<Rightarrow> memstate" where
  "store_words a [] m = m"
| "store_words a (w # ws) m = store_words (a + 8) ws (store a w m)"

lemma store_words_heap:
  assumes "heap_valid m" and "\<forall>k < length ws. unat (a + 8 * of_nat k) \<notin> heap_free m"
  shows "heap_valid (store_words a ws m) \<and> heap_free (store_words a ws m) = heap_free m \<and>
         heap_range (store_words a ws m) = heap_range m"
  using assms
proof (induction ws arbitrary: a m)
  case (Cons w ws)
  have "unat a \<notin> heap_free m" using Cons.prems(2) [rule_format, of 0] by simp
  note st = store_outside [OF Cons.prems(1) this, of w]
  have "unat (a + 8 + 8 * of_nat k) \<notin> heap_free (store a w m)" if "k < length ws" for k
    using Cons.prems(2) [rule_format, of "Suc k"] that st(2) by (simp add: algebra_simps)
  with Cons.IH [OF st(1), of "a + 8"] st show ?case by simp
qed simp

lemma store_words_other:
  assumes "\<forall>k < length ws. x \<noteq> a + 8 * of_nat k"
  shows "ram (store_words a ws m) x = ram m x"
  using assms
proof (induction ws arbitrary: a m)
  case (Cons w ws)
  have "x \<noteq> a + 8 + 8 * of_nat j" if "j < length ws" for j
    using Cons.prems [rule_format, of "Suc j"] that by (simp add: algebra_simps)
  moreover have "x \<noteq> a" using Cons.prems [rule_format, of 0] by simp
  ultimately show ?case using Cons.IH [of "a + 8" "store a w m"] by (simp add: store_def)
qed simp

lemma store_words_ram:
  assumes "8 * length ws < 18446744073709551616" and "k < length ws"
  shows "ram (store_words a ws m) (a + 8 * of_nat k) = ws ! k"
  using assms
proof (induction ws arbitrary: a m k)
  case (Cons w ws)
  show ?case
  proof (cases k)
    case 0
    have "a \<noteq> a + 8 + 8 * of_nat j" if "j < length ws" for j
    proof -
      have "unat (8 + 8 * of_nat j :: u64) = 8 + 8 * j"
        using that Cons.prems(1) by (simp add: unat_word_ariths unat_of_nat)
      then have "(8 + 8 * of_nat j :: u64) \<noteq> 0" by (metis add_is_0 unat_0 zero_neq_numeral)
      then show ?thesis by (metis add.assoc add_cancel_right_right)
    qed
    then show ?thesis using 0 store_words_other [of ws a "a + 8" "store a w m"] by (simp add: store_def)
  next
    case (Suc j)
    then show ?thesis using Cons.IH [of j "a + 8" "store a w m"] Cons.prems by (simp add: algebra_simps)
  qed
qed simp

section \<open>Histories of allocations\<close>

text \<open>
  Every sequence of calls from a fresh heap: \<open>live\<close> lists the blocks handed out and not yet
  returned, with the size they were requested with.
\<close>

inductive heap_run :: "memstate \<Rightarrow> (u64 \<times> u64) list \<Rightarrow> bool" where
  boot: "heap_bounds_ok lo hi \<Longrightarrow> heap_run (mem_init lo hi s) []"
| get: "heap_run s live \<Longrightarrow> getmem_size_ok n \<Longrightarrow> getmem n s = Some (r, s') \<Longrightarrow>
    heap_run s' (if r = 0 then live else (r, n) # live)"
| free: "heap_run s (xs @ (r, n) # ys) \<Longrightarrow> freemem r n s = Some (rc, s') \<Longrightarrow> heap_run s' (xs @ ys)"

inductive_cases heap_run_NilE: "heap_run s []"

lemma heap_run_owns: "heap_run s live \<Longrightarrow> heap_valid s \<and> mem.owns s live"
proof (induction rule: heap_run.induct)
  case (boot lo hi s)
  from mem_init_mem_inv [OF boot] have inv: "mem_inv (mem_init lo hi s) [(ROUNDMB lo, TRUNCMB hi - ROUNDMB lo)]" .
  have "unat (TRUNCMB hi - ROUNDMB lo) = unat (TRUNCMB hi) - unat (ROUNDMB lo)" "ROUNDMB lo < TRUNCMB hi"
    using boot by (auto simp: heap_bounds_ok_def unat_sub64)
  then have "heap_free (mem_init lo hi s) = heap_range (mem_init lo hi s)"
    using heap_free_eq [OF inv] by (simp add: heap_range_mem_init span_def word_less_nat_alt)
  with inv show ?case
    unfolding mem.owns_def by (auto simp: heap_valid_def)
next
  case (get s live n r s')
  then show ?case
    using getmem_contract [of s n r s'] mem.owns_alloc [of s n r s' live] mem.alloc_none [of s n s']
    by auto
next
  case (free s xs r n ys rc s')
  then show ?case
    using mem.owns_dealloc [of s xs r n ys] by auto
qed

section \<open>Properties\<close>

text \<open>C19: getmem is first fit. On a well-formed heap it always returns; it returns 0 and leaves
  the state alone exactly when every free block is shorter than the rounded request; otherwise it
  returns the lowest-addressed free block that is long enough, and the free bytes afterwards are
  those before minus exactly the rounded request.\<close>

theorem getmem_spec:
  assumes "mem_inv s bs" and "nbytes \<noteq> 0" and "unat nbytes < 18446744073709551584"
  shows "\<exists>r s' bs'. getmem nbytes s = Some (r, s') \<and> mem_inv s' bs' \<and>
    (if \<forall>(a, l) \<in> set bs. l < ROUNDMB nbytes then r = 0 \<and> s' = s
     else r \<noteq> 0 \<and> (\<exists>l. (r, l) \<in> set bs \<and> ROUNDMB nbytes \<le> l) \<and>
          (\<forall>(a, l) \<in> set bs. a < r \<longrightarrow> l < ROUNDMB nbytes) \<and>
          span (unat r) (unat (ROUNDMB nbytes)) \<subseteq> free_bytes bs \<and>
          free_bytes bs' = free_bytes bs - span (unat r) (unat (ROUNDMB nbytes)))"
proof (cases "first_fit (ROUNDMB nbytes) bs")
  case None
  with getmem_first_fit [OF assms] show ?thesis
    by (auto simp: first_fit_None)
next
  case (Some p)
  then obtain r bs' where ff: "first_fit (ROUNDMB nbytes) bs = Some (r, bs')" by (cases p) auto
  note iv = mem_inv_nat [OF assms(1)]
  from first_fit_Some_mem [OF ff] wf_blocks_mem [OF iv(1)] have "r \<noteq> 0"
    by (fastforce simp: u64_eq_iff_unat)
  moreover have "\<not> (\<forall>(a, l) \<in> set bs. l < ROUNDMB nbytes)"
    using ff first_fit_None [of "ROUNDMB nbytes" bs] by simp
  moreover have "\<forall>(a, l) \<in> set bs. a < r \<longrightarrow> l < ROUNDMB nbytes"
    using first_fit_first [OF ff iv(1)] by blast
  moreover from getmem_first_fit [OF assms] ff obtain s' where
    "getmem nbytes s = Some (r, s')" "mem_inv s' bs'" by auto
  ultimately show ?thesis
    using first_fit_Some_mem [OF ff] first_fit_free_bytes [OF iv(1) ff unat_bound64]
    by (intro exI [of _ r] exI [of _ s'] exI [of _ bs']) simp
qed

text \<open>A small heap for the witnesses: the 4 KiB from address 4096 on.\<close>

definition bss_state :: memstate where
  "bss_state = \<lparr>ram = (\<lambda>_. 0), head_mnext = 0, head_mlength = 0, heap_lo = 0, heap_hi = 0, heap_total = 0\<rparr>"

definition small_heap :: memstate where
  "small_heap = mem_init 4096 8192 bss_state"

lemma small_heap_bounds: "heap_bounds_ok 4096 8192"
  by (simp add: heap_bounds_ok_def ROUNDMB_def TRUNCMB_def MEM_ALIGN_def)

lemma small_heap_inv: "mem_inv small_heap [(4096, 4096)]"
  using mem_init_mem_inv [OF small_heap_bounds, of bss_state]
  by (simp add: small_heap_def ROUNDMB_def TRUNCMB_def MEM_ALIGN_def)

lemma small_heap_fields: "heap_lo small_heap = 4096" "heap_hi small_heap = 8192"
  by (simp_all add: small_heap_def mem_init_def Let_def ROUNDMB_def TRUNCMB_def MEM_ALIGN_def)

theorem getmem_spec_witness:
  "\<exists>r s' bs'. getmem 100 small_heap = Some (r, s') \<and> mem_inv s' bs' \<and> r = 4096 \<and>
     free_bytes bs' = {4208..<8192}"
proof -
  have r: "ROUNDMB 100 = 112" by (simp add: ROUNDMB_def MEM_ALIGN_def)
  from getmem_spec [OF small_heap_inv, of 100] obtain r s' bs' where
    "getmem 100 small_heap = Some (r, s')" "mem_inv s' bs'" "r = 4096"
    "free_bytes bs' = free_bytes [(4096, 4096)] - span (unat r) (unat (112::u64))"
    by (auto simp: r)
  then show ?thesis by (auto simp: span_def)
qed



text \<open>C3: in every history of getmem and freemem calls from boot, the blocks handed out are
  pairwise disjoint, none of their bytes is on the free list, and together with the free list they
  make up the whole heap: no byte is lost and none is owned twice.\<close>

theorem heap_run_partition:
  assumes "heap_run s live"
  shows "disjoint_spans (map (\<lambda>(r, n). (unat r, unat (ROUNDMB n))) live) \<and>
         union_spans (map (\<lambda>(r, n). (unat r, unat (ROUNDMB n))) live) \<inter> heap_free s = {} \<and>
         heap_free s \<union> union_spans (map (\<lambda>(r, n). (unat r, unat (ROUNDMB n))) live) = heap_range s"
  using heap_run_owns [OF assms] unfolding mem.owns_def mem.spans_def by auto

theorem heap_run_partition_witness:
  "\<exists>s. heap_run s [(4096, 100)] \<and> heap_free s \<union> span 4096 112 = heap_range s"
proof -
  have r: "ROUNDMB 100 = 112" by (simp add: ROUNDMB_def MEM_ALIGN_def)
  have "first_fit 112 [(4096, 4096)] = Some (4096, [(4208, 3984)])" by simp
  with getmem_first_fit [OF small_heap_inv, of 100] obtain s where g: "getmem 100 small_heap = Some (4096, s)"
    by (auto simp: r)
  have "heap_run small_heap []"
    unfolding small_heap_def by (rule heap_run.boot [OF small_heap_bounds])
  from heap_run.get [OF this _ g] have run: "heap_run s [(4096, 100)]"
    by (simp add: getmem_size_ok_def)
  with heap_run_partition [OF run] show ?thesis by (auto simp: r)
qed

text \<open>Getmem followed by freemem of the same block and size restores the free list itself,
  block for block.\<close>

theorem getmem_freemem_roundtrip:
  assumes "mem_inv s bs" and "nbytes \<noteq> 0" "unat nbytes < 18446744073709551584"
    and "getmem nbytes s = Some (r, s1)" "r \<noteq> 0"
  shows "\<exists>s2. freemem r nbytes s1 = Some (0, s2) \<and> mem_inv s2 bs"
proof -
  have v: "heap_valid s" "getmem_size_ok nbytes"
    using assms(1-3) by (auto simp: heap_valid_def getmem_size_ok_def)
  from mem.alloc_dealloc [OF v assms(4,5)] obtain s2 bs2 where
    s2: "freemem r nbytes s1 = Some (0, s2)" "mem_inv s2 bs2" "heap_range s2 = heap_range s"
    "heap_free s2 = heap_free s"
    by (auto simp: heap_valid_def)
  have "wf_blocks 0 (2 ^ 64) bs" "wf_blocks 0 (2 ^ 64) bs2"
    using wf_blocks_weaken [OF mem_inv_nat(1) [OF assms(1)], of 0 "2 ^ 64"]
      wf_blocks_weaken [OF mem_inv_nat(1) [OF s2(2)], of 0 "2 ^ 64"]
      unat_bound64 [of "heap_hi s"] unat_bound64 [of "heap_hi s2"]
    by simp_all
  with s2 assms(1) have "bs2 = bs"
    by (metis free_bytes_inj heap_free_eq)
  with s2 show ?thesis by blast
qed

theorem getmem_freemem_roundtrip_witness:
  "\<exists>r s1 s2. getmem 100 small_heap = Some (r, s1) \<and> freemem r 100 s1 = Some (0, s2) \<and>
     mem_inv s2 [(4096, 4096)]"
proof -
  have r: "ROUNDMB 100 = 112" by (simp add: ROUNDMB_def MEM_ALIGN_def)
  have "first_fit 112 [(4096, 4096)] = Some (4096, [(4208, 3984)])" by simp
  with getmem_first_fit [OF small_heap_inv, of 100] obtain s1 where g: "getmem 100 small_heap = Some (4096, s1)"
    by (auto simp: r)
  with getmem_freemem_roundtrip [OF small_heap_inv _ _ g] show ?thesis by auto
qed

text \<open>The largest-block statistic is exact and decides allocation: getmem succeeds if and only
  if the rounded request is at most mem_largest_block.\<close>

theorem getmem_iff_largest:
  assumes "mem_inv s bs" and "nbytes \<noteq> 0" "unat nbytes < 18446744073709551584"
  shows "\<exists>m r s'. mem_largest_block s = Some m \<and> getmem nbytes s = Some (r, s') \<and>
           (r \<noteq> 0 \<longleftrightarrow> ROUNDMB nbytes \<le> m) \<and> (m = 0 \<longleftrightarrow> mem_free_block_count s = Some 0)"
proof -
  note iv = mem_inv_nat [OF assms(1)]
  let ?m = "fold (\<lambda>(a, l) m. max m l) bs 0"
  have big: "mem_largest_block s = Some ?m"
    using largest_loop_max [OF iv(2)] by (simp add: mem_largest_block_def)
  have cnt: "mem_free_block_count s = Some (int (length bs))"
    using count_loop_length [OF iv(2)] by (simp add: mem_free_block_count_def)
  have "0 < unat (ROUNDMB nbytes)"
    using assms(2,3) by (intro ROUNDMB_pos) (simp add: getmem_size_ok_def)
  then have "?m < ROUNDMB nbytes \<longleftrightarrow> first_fit (ROUNDMB nbytes) bs = None"
    by (simp add: fold_max_le first_fit_None) (simp add: word_less_nat_alt)
  moreover have "r \<noteq> 0" if "first_fit (ROUNDMB nbytes) bs = Some (r, bs')" for r bs'
    using first_fit_Some_mem [OF that] wf_blocks_mem [OF iv(1)] by (fastforce simp: u64_eq_iff_unat)
  moreover have "?m < 1 \<longleftrightarrow> bs = []"
  proof (cases bs)
    case (Cons b bs')
    then obtain a l where b: "(a, l) \<in> set bs" by (cases b) auto
    with wf_blocks_mem [OF iv(1)] have "\<not> l < 1" by (fastforce simp: word_less_nat_alt)
    with b Cons fold_max_le [of bs 0 1] show ?thesis by auto
  qed simp
  then have "?m = 0 \<longleftrightarrow> bs = []"
    by (metis word_less_1)
  ultimately show ?thesis
    using getmem_first_fit [OF assms] big cnt
    by (cases "first_fit (ROUNDMB nbytes) bs") (fastforce simp: not_less)+
qed

theorem getmem_iff_largest_witness:
  "\<exists>m r s'. mem_largest_block small_heap = Some m \<and> getmem 100 small_heap = Some (r, s') \<and>
     (r \<noteq> 0 \<longleftrightarrow> ROUNDMB 100 \<le> m) \<and> (m = 0 \<longleftrightarrow> mem_free_block_count small_heap = Some 0)"
  using getmem_iff_largest [OF small_heap_inv, of 100] by simp

text \<open>The size arithmetic is unchecked: a request in the last 15 bytes below 2^64 rounds to 0,
  and getmem then hands out the first free block, at a non-null address, without taking anything
  off the free list: the state is unchanged and every byte of the returned block is still free.\<close>

theorem getmem_wrapped_request:
  assumes "mem_inv s ((a, l) # bs)" and "18446744073709551601 \<le> unat nbytes"
  shows "getmem nbytes s = Some (a, s) \<and> a \<noteq> 0 \<and> span (unat a) (unat l) \<subseteq> heap_free s"
proof -
  note sp = mem_inv_split [of s "[]", simplified, OF assms(1)]
  have "unat (nbytes + 15) = unat nbytes + 15 - 18446744073709551616"
    using assms(2) unat_bound64 [of nbytes] by (simp add: unat_word_ariths mod_if)
  with unat_bound64 [of nbytes] have "unat (ROUNDMB nbytes) = 0"
    by (simp add: ROUNDMB_def MEM_ALIGN_def and_not_15)
  then have r: "ROUNDMB nbytes = 0" by (simp add: u64_eq_iff_unat)
  have "16 \<le> unat l" using sp(6,7) by (auto simp: aligned_def dvd_def)
  then have "\<not> l < 16" by (simp add: word_less_nat_alt)
  moreover have "nbytes \<noteq> 0" using assms(2) by auto
  ultimately have "getmem nbytes s = Some (a, s)"
    using sp by (cases s) (auto simp: getmem_def r getmem_loop.simps [of 0 Head] sizeof_memblk_def
        Let_def field_defs fun_upd_idem)
  with sp show ?thesis by (simp add: heap_free_eq [OF assms(1)])
qed

theorem getmem_wrapped_request_witness:
  "getmem 18446744073709551615 small_heap = Some (4096, small_heap)"
  using getmem_wrapped_request [OF small_heap_inv, of 18446744073709551615] by simp

end
