(* ===== verification/Kmalloc.thy ===== *)
theory Kmalloc
  imports Memory
begin

text \<open>
  The size-aware allocator of \<open>mem/kmalloc.c\<close>, layered on \<open>getmem\<close> and \<open>freemem\<close>. Each object
  carries a 32-byte header (size, magic, two reserved words) in the same heap cells the free list
  uses, so the model shows what \<open>kfree\<close> sees when a header has become a free-list header.
\<close>

section \<open>kmalloc and kfree\<close>

record kmstate =
  km_mem :: memstate
  g_live_blocks :: u64
  g_live_bytes :: u64
  g_total_allocs :: u64
  g_total_frees :: u64
  g_bad_frees :: u64

definition KMALLOC_MAGIC :: u64 where
  "KMALLOC_MAGIC = 0xC0FFEE5050D15EA5"

definition KM_HEADER_BYTES :: u64 where
  "KM_HEADER_BYTES = 32"

definition kmalloc :: "u64 \<Rightarrow> kmstate \<Rightarrow> (u64 \<times> kmstate) option" where
  "kmalloc nbytes s =
     (if nbytes = 0 then Some (0, s)
      else
        let total = nbytes + KM_HEADER_BYTES
        in case getmem total (km_mem s) of
             None \<Rightarrow> None
           | Some (h, m) \<Rightarrow>
               if h = 0 then Some (0, s\<lparr>km_mem := m\<rparr>)
               else
                 let m = store h total m;
                     m = store (h + 8) KMALLOC_MAGIC m;
                     m = store (h + 16) 0 m;
                     m = store (h + 24) 0 m
                 in Some (h + KM_HEADER_BYTES,
                      s\<lparr>km_mem := m, g_live_blocks := g_live_blocks s + 1,
                        g_live_bytes := g_live_bytes s + total,
                        g_total_allocs := g_total_allocs s + 1\<rparr>))"

definition kfree :: "u64 \<Rightarrow> kmstate \<Rightarrow> kmstate option" where
  "kfree p s =
     (if p = 0 then Some s
      else
        let h = p - KM_HEADER_BYTES
        in if ram (km_mem s) (h + 8) \<noteq> KMALLOC_MAGIC
           then Some (s\<lparr>g_bad_frees := g_bad_frees s + 1\<rparr>)
           else
             let total = ram (km_mem s) h;
                 m = store (h + 8) 0 (km_mem s)
             in case freemem h total m of
                  None \<Rightarrow> None
                | Some (_, m) \<Rightarrow>
                    let live = (if g_live_blocks s \<noteq> 0 then g_live_blocks s - 1 else g_live_blocks s);
                        bytes = (if total \<le> g_live_bytes s then g_live_bytes s - total else g_live_bytes s)
                    in Some (s\<lparr>km_mem := m, g_live_blocks := live, g_live_bytes := bytes,
                               g_total_frees := g_total_frees s + 1\<rparr>))"

definition kmalloc_live_blocks :: "kmstate \<Rightarrow> u64" where
  "kmalloc_live_blocks s = g_live_blocks s"

definition kmalloc_live_bytes :: "kmstate \<Rightarrow> u64" where
  "kmalloc_live_bytes s = g_live_bytes s"

definition kmalloc_total_allocs :: "kmstate \<Rightarrow> u64" where
  "kmalloc_total_allocs s = g_total_allocs s"

definition kmalloc_total_frees :: "kmstate \<Rightarrow> u64" where
  "kmalloc_total_frees s = g_total_frees s"

definition kmalloc_bad_frees :: "kmstate \<Rightarrow> u64" where
  "kmalloc_bad_frees s = g_bad_frees s"

section \<open>Stores outside the free list\<close>

lemma getmem_frame:
  assumes "heap_valid m" and "getmem_size_ok n" and "getmem n m = Some (r, m')"
    and "unat x \<notin> heap_free m"
  shows "ram m' x = ram m x"
  using assms getmem_first_fit [of m _ n]
  by (fastforce simp: heap_valid_def heap_free_eq getmem_size_ok_def)

lemma freemem_frame_valid:
  assumes "heap_valid m" and "freemem h n m = Some (rc, m')"
    and "unat x \<notin> heap_free m" "x \<noteq> h" "x \<noteq> h + 8"
  shows "ram m' x = ram m x"
  using assms freemem_frame by (fastforce simp: heap_valid_def heap_free_eq)

lemma card_union_spans:
  "disjoint_spans xs \<Longrightarrow> finite (union_spans xs) \<and> card (union_spans xs) = (\<Sum>(a, n) \<leftarrow> xs. n)"
  by (induction xs rule: disjoint_spans.induct) (auto simp: card_Un_disjoint span_def)

section \<open>Objects and their headers\<close>

text \<open>
  \<open>km_headers\<close> turns the live objects (user pointer, requested size) into the heap blocks
  (header address, total size) that \<open>kmalloc\<close> took for them.
\<close>

definition km_headers :: "(u64 \<times> u64) list \<Rightarrow> (u64 \<times> u64) list" where
  "km_headers live = map (\<lambda>(p, n). (p - KM_HEADER_BYTES, n + KM_HEADER_BYTES)) live"

definition kmalloc_size_ok :: "u64 \<Rightarrow> bool" where
  "kmalloc_size_ok n \<longleftrightarrow> n \<noteq> 0 \<and> unat n < 18446744073709551552"

definition header_ok :: "memstate \<Rightarrow> u64 \<Rightarrow> u64 \<Rightarrow> bool" where
  "header_ok m h t \<longleftrightarrow> ram m h = t \<and> ram m (h + 8) = KMALLOC_MAGIC"

definition km_inv :: "kmstate \<Rightarrow> (u64 \<times> u64) list \<Rightarrow> bool" where
  "km_inv s live \<longleftrightarrow>
     heap_valid (km_mem s) \<and> mem.owns (km_mem s) (km_headers live) \<and>
     (\<forall>(p, n) \<in> set live. kmalloc_size_ok n) \<and>
     (\<forall>(h, t) \<in> set (km_headers live). header_ok (km_mem s) h t) \<and>
     unat (g_live_blocks s) = length live \<and>
     unat (g_live_bytes s) = (\<Sum>(p, n) \<leftarrow> live. unat n + 32)"

lemma km_headers_simps [simp]:
  "km_headers [] = []" "km_headers ((p, n) # live) = (p - 32, n + 32) # km_headers live"
  "km_headers (xs @ ys) = km_headers xs @ km_headers ys"
  by (simp_all add: km_headers_def KM_HEADER_BYTES_def)

lemma unat_total: "kmalloc_size_ok n \<Longrightarrow> unat (n + 32) = unat n + 32"
  by (simp add: kmalloc_size_ok_def unat_add64)

lemma total_ok: "kmalloc_size_ok n \<Longrightarrow> getmem_size_ok (n + 32)"
  using unat_total [of n] by (auto simp: kmalloc_size_ok_def getmem_size_ok_def u64_eq_iff_unat)

lemma le_ROUNDMB: "getmem_size_ok n \<Longrightarrow> unat n \<le> unat (ROUNDMB n)"
  using ROUNDMB_bounds [of n] by (simp add: getmem_size_ok_def)

text \<open>Addresses inside an owned block are inside the heap, do not wrap and are not free.\<close>

lemma owned_offset:
  assumes own: "mem.owns m hs" and mem: "(h, t) \<in> set hs" and k: "unat k < unat t"
  shows "unat (h + k) = unat h + unat k" and "unat (h + k) \<in> span (unat h) (unat (ROUNDMB t))"
    and "unat (h + k) \<notin> heap_free m"
proof -
  from mem obtain xs ys where hs: "hs = xs @ (h, t) # ys" by (meson split_list)
  from own have o: "getmem_size_ok t" "span (unat h) (unat (ROUNDMB t)) \<subseteq> heap_range m"
    "span (unat h) (unat (ROUNDMB t)) \<inter> heap_free m = {}"
    unfolding mem.owns_def hs by auto
  have "unat h + unat (ROUNDMB t) < 18446744073709551616"
    using block_span_no_wrap [OF o(2) ROUNDMB_pos [OF o(1)]] .
  with k le_ROUNDMB [OF o(1)] show u: "unat (h + k) = unat h + unat k"
    by (intro unat_add64) simp
  with k le_ROUNDMB [OF o(1)] show sp: "unat (h + k) \<in> span (unat h) (unat (ROUNDMB t))"
    by (simp add: span_def)
  with o(3) show "unat (h + k) \<notin> heap_free m" by blast
qed

lemma owned_disjoint:
  assumes own: "mem.owns m (xs @ (h, t) # ys)" and mem: "(h', t') \<in> set (xs @ ys)"
    and k: "unat k < unat t" and k': "unat k' < unat t'"
  shows "h + k \<noteq> h' + k'"
proof
  assume eq: "h + k = h' + k'"
  have "unat (h + k) \<in> span (unat h) (unat (ROUNDMB t))"
    using owned_offset(2) [OF own _ k] by simp
  moreover have "unat (h' + k') \<in> span (unat h') (unat (ROUNDMB t'))"
    using owned_offset(2) [OF own _ k'] mem by auto
  moreover have "span (unat h') (unat (ROUNDMB t')) \<subseteq> union_spans (mem.spans xs) \<union> union_spans (mem.spans ys)"
    using mem by (auto dest!: split_list)
  moreover have "span (unat h) (unat (ROUNDMB t)) \<inter> (union_spans (mem.spans xs) \<union> union_spans (mem.spans ys)) = {}"
    using own unfolding mem.owns_def by (auto simp: disjoint_spans_append)
  ultimately show False using eq by auto
qed

lemma owns_sum_bound:
  assumes "mem.owns m hs"
  shows "(\<Sum>(h, t) \<leftarrow> hs. unat t) < 18446744073709551616"
proof -
  have "(\<Sum>(h, t) \<leftarrow> hs. unat t) \<le> (\<Sum>(a, n) \<leftarrow> mem.spans hs. n)"
    using assms unfolding mem.owns_def mem.spans_def
    by (simp add: comp_def case_prod_unfold) (rule sum_list_mono, auto intro: le_ROUNDMB)
  also have "\<dots> = card (union_spans (mem.spans hs))"
    using assms card_union_spans unfolding mem.owns_def by metis
  also have "\<dots> \<le> card (heap_range m)"
    using assms unfolding mem.owns_def by (intro card_mono) (auto simp: heap_range_def)
  also have "\<dots> < 18446744073709551616"
    using unat_bound64 [of "heap_hi m"] by (auto simp: heap_range_def)
  finally show ?thesis .
qed

lemma km_sum_bound:
  assumes "mem.owns m (km_headers live)" and "\<forall>(p, n) \<in> set live. kmalloc_size_ok n"
  shows "(\<Sum>(p, n) \<leftarrow> live. unat n + 32) < 18446744073709551616"
    and "length live < 18446744073709551616"
proof -
  have "(\<Sum>(h, t) \<leftarrow> km_headers live. unat t) = (\<Sum>(p, n) \<leftarrow> live. unat n + 32)"
    using assms(2) by (induction live) (auto simp: unat_total)
  with owns_sum_bound [OF assms(1)] show *: "(\<Sum>(p, n) \<leftarrow> live. unat n + 32) < 18446744073709551616"
    by simp
  have "length live \<le> (\<Sum>(p, n) \<leftarrow> live. unat n + 32)"
    by (induction live) auto
  with * show "length live < 18446744073709551616" by simp
qed

lemma owns_store:
  assumes "heap_valid m" "mem.owns m hs" "unat a \<notin> heap_free m"
  shows "heap_valid (store a v m) \<and> mem.owns (store a v m) hs \<and> heap_free (store a v m) = heap_free m"
  using store_outside [OF assms(1,3)] assms(2) unfolding mem.owns_def by simp

lemma header_ok_store:
  assumes "mem.owns m (xs @ (h, t) # ys)" "(h', t') \<in> set (xs @ ys)" "unat k < unat t" "8 < unat t'"
  shows "header_ok (store (h + k) v m) h' t'' \<longleftrightarrow> header_ok m h' t''"
  using owned_disjoint [OF assms(1,2,3), of 0] owned_disjoint [OF assms(1,2,3), of 8] assms(4)
  by (simp add: header_ok_def store_def)

lemma kmalloc_returns:
  assumes "km_inv s live" "kmalloc_size_ok n"
  shows "\<exists>p s'. kmalloc n s = Some (p, s')"
proof -
  from assms obtain h m where "getmem (n + 32) (km_mem s) = Some (h, m)"
    using mem.alloc_returns total_ok by (fastforce simp: km_inv_def)
  then show ?thesis
    by (auto simp: kmalloc_def KM_HEADER_BYTES_def Let_def)
qed

definition write_header :: "u64 \<Rightarrow> u64 \<Rightarrow> memstate \<Rightarrow> memstate" where
  "write_header h t m = store (h + 24) 0 (store (h + 16) 0 (store (h + 8) KMALLOC_MAGIC (store h t m)))"

lemma write_header_owns:
  assumes own: "mem.owns m ((h, t) # hs)" and v: "heap_valid m" and t: "32 \<le> unat t"
  shows "heap_valid (write_header h t m) \<and> mem.owns (write_header h t m) ((h, t) # hs)"
proof -
  have "unat (h + 0) \<notin> heap_free m" "unat (h + 8) \<notin> heap_free m" "unat (h + 16) \<notin> heap_free m"
    "unat (h + 24) \<notin> heap_free m"
    using t by (intro owned_offset(3) [OF own list.set_intros(1)]; simp)+
  then show ?thesis
    unfolding write_header_def by (simp add: owns_store [where hs = "(h, t) # hs"] own v)
qed

lemma write_header_ok:
  assumes own: "mem.owns m ((h, t) # hs)" and t: "32 \<le> unat t" and al: "aligned h"
  shows "header_ok (write_header h t m) h t"
    and "(h', t') \<in> set hs \<Longrightarrow> 32 \<le> unat t' \<Longrightarrow> header_ok (write_header h t m) h' t' = header_ok m h' t'"
proof -
  note off = owned_offset(1) [OF own list.set_intros(1)]
  have "unat (h + 8) = unat h + 8" "unat (h + 16) = unat h + 16" "unat (h + 24) = unat h + 24"
    using t off [of 8] off [of 16] off [of 24] by simp_all
  then show "header_ok (write_header h t m) h t"
    by (simp add: header_ok_def write_header_def store_def u64_eq_iff_unat)
  assume h': "(h', t') \<in> set hs" and t': "32 \<le> unat t'"
  have "h + k \<noteq> h' \<and> h + k \<noteq> h' + 8" if "unat k < 32" for k
    using owned_disjoint [of m "[]" h t hs h' t' k 0] owned_disjoint [of m "[]" h t hs h' t' k 8]
      own h' t t' that by simp
  from this [of 0] this [of 8] this [of 16] this [of 24]
  show "header_ok (write_header h t m) h' t' = header_ok m h' t'"
    by (auto simp: header_ok_def write_header_def store_def)
qed

lemma km_headers_size:
  assumes "\<forall>(p, n) \<in> set live. kmalloc_size_ok n" "(h, t) \<in> set (km_headers live)"
  shows "32 < unat t"
proof -
  from assms(2) obtain p n where "(p, n) \<in> set live" "t = n + 32"
    by (auto simp: km_headers_def KM_HEADER_BYTES_def)
  with assms(1) have "kmalloc_size_ok n" "t = n + 32" by auto
  then show ?thesis by (auto simp: unat_total kmalloc_size_ok_def u64_eq_iff_unat)
qed

lemma kmalloc_inv:
  assumes inv: "km_inv s live" and n: "kmalloc_size_ok n" and km: "kmalloc n s = Some (p, s')"
  shows "if p = 0 then s' = s
         else km_inv s' ((p, n) # live) \<and> span (unat p - 32) (unat (ROUNDMB (n + 32))) \<subseteq> heap_free (km_mem s) \<and>
              32 \<le> unat p"
proof -
  from inv have i: "heap_valid (km_mem s)" "mem.owns (km_mem s) (km_headers live)"
    "\<forall>(p, n) \<in> set live. kmalloc_size_ok n"
    "\<forall>(h, t) \<in> set (km_headers live). header_ok (km_mem s) h t"
    "unat (g_live_blocks s) = length live"
    "unat (g_live_bytes s) = (\<Sum>(p, n) \<leftarrow> live. unat n + 32)"
    by (simp_all add: km_inv_def)
  obtain h m where g: "getmem (n + 32) (km_mem s) = Some (h, m)"
    using mem.alloc_returns [OF i(1) total_ok [OF n]] by auto
  show ?thesis
  proof (cases "h = 0")
    case True
    with g mem.alloc_none [OF i(1) total_ok [OF n]] have "m = km_mem s" by simp
    with True g km n show ?thesis
      by (auto simp: kmalloc_def KM_HEADER_BYTES_def Let_def kmalloc_size_ok_def)
  next
    case False
    note al = mem.alloc_some [OF i(1) total_ok [OF n] g False]
    have own: "mem.owns m ((h, n + 32) # km_headers live)"
      by (rule mem.owns_alloc [OF i(1) total_ok [OF n] g False i(2)])
    have t: "32 < unat (n + 32)" using n unat_total [OF n]
      by (auto simp: kmalloc_size_ok_def u64_eq_iff_unat)
    have uh: "unat (h + 32) = unat h + 32"
      using owned_offset(1) [OF own list.set_intros(1), of 32] t by simp
    have p: "p = h + 32" and s': "s' = s\<lparr>km_mem := write_header h (n + 32) m, g_live_blocks := g_live_blocks s + 1,
        g_live_bytes := g_live_bytes s + (n + 32), g_total_allocs := g_total_allocs s + 1\<rparr>"
      using km g False n
      by (auto simp: kmalloc_def KM_HEADER_BYTES_def Let_def kmalloc_size_ok_def write_header_def)
    have old: "header_ok m h' t'" if "(h', t') \<in> set (km_headers live)" for h' t'
    proof -
      note sz = km_headers_size [OF i(3) that]
      have "unat (h' + 0) \<notin> heap_free (km_mem s)" "unat (h' + 8) \<notin> heap_free (km_mem s)"
        using sz by (intro owned_offset(3) [OF i(2) that]; simp)+
      with getmem_frame [OF i(1) total_ok [OF n] g] i(4) that show ?thesis
        by (auto simp: header_ok_def)
    qed
    have h32: "km_headers ((p, n) # live) = (h, n + 32) # km_headers live" by (simp add: p)
    have hdr: "header_ok (km_mem s') h' t'" if "(h', t') \<in> set (km_headers ((p, n) # live))" for h' t'
      using that al t old write_header_ok [OF own less_imp_le [OF t]] km_headers_size [OF i(3)]
      unfolding h32 s' by (fastforce simp: block_addr_ok_def)
    have own': "heap_valid (km_mem s') \<and> mem.owns (km_mem s') (km_headers ((p, n) # live))"
      unfolding h32 s' using write_header_owns [OF own _ less_imp_le [OF t]] al by simp
    have sz: "\<forall>(p, n) \<in> set ((p, n) # live). kmalloc_size_ok n" using i(3) n by simp
    from km_sum_bound [OF conjunct2 [OF own'] sz] i(5,6)
    have cnt: "unat (g_live_blocks s') = length ((p, n) # live)"
      "unat (g_live_bytes s') = (\<Sum>(p, n) \<leftarrow> (p, n) # live. unat n + 32)"
      by (simp_all add: s' unat_add64 unat_total [OF n])
    have "km_inv s' ((p, n) # live)"
      unfolding km_inv_def using own' sz hdr cnt by blast
    moreover have "p \<noteq> 0" using uh by (auto simp: p u64_eq_iff_unat)
    ultimately show ?thesis using al uh by (simp add: p)
  qed
qed

text \<open>A released header never looks live: its magic cell is 0 or a multiple of 16.\<close>

lemma freed_magic:
  assumes v: "heap_valid m" and h: "block_addr_ok h" "unat h \<notin> heap_free m" "ram m (h + 8) = 0"
    and f: "freemem h t m = Some (rc, m')"
  shows "ram m' (h + 8) \<noteq> KMALLOC_MAGIC"
proof -
  from v obtain bs where inv: "mem_inv m bs" by (auto simp: heap_valid_def)
  have "h \<notin> fst ` set bs"
    using header_in_free_bytes [OF mem_inv_nat(1) [OF inv] _ unat_bound64, of h] h(2)
    by (auto simp: heap_free_eq [OF inv])
  with freemem_length_cell [OF inv f] h have "ram m' (h + 8) = 0 \<or> aligned (ram m' (h + 8))"
    by (auto simp: block_addr_ok_def)
  moreover have "\<not> aligned KMALLOC_MAGIC" "KMALLOC_MAGIC \<noteq> 0"
    by (simp_all add: aligned_def KMALLOC_MAGIC_def)
  ultimately show ?thesis by metis
qed

lemma kfree_inv:
  assumes inv: "km_inv s (xs @ (p, n) # ys)"
  shows "\<exists>s'. kfree p s = Some s' \<and> km_inv s' (xs @ ys) \<and> g_bad_frees s' = g_bad_frees s \<and>
           ram (km_mem s') (p - KM_HEADER_BYTES + 8) \<noteq> KMALLOC_MAGIC \<and> p \<noteq> 0 \<and>
           heap_free (km_mem s') =
             heap_free (km_mem s) \<union> span (unat (p - KM_HEADER_BYTES)) (unat (ROUNDMB (n + KM_HEADER_BYTES)))"
proof -
  let ?h = "p - 32" and ?t = "n + 32" and ?hs = "km_headers xs @ km_headers ys"
  from inv have i: "heap_valid (km_mem s)" "mem.owns (km_mem s) (km_headers xs @ (?h, ?t) # km_headers ys)"
    "\<forall>(p, n) \<in> set (xs @ ys). kmalloc_size_ok n" "kmalloc_size_ok n"
    "\<forall>(h, t) \<in> set ?hs. header_ok (km_mem s) h t" "header_ok (km_mem s) ?h ?t"
    "unat (g_live_blocks s) = length (xs @ (p, n) # ys)"
    "unat (g_live_bytes s) = (\<Sum>(p, n) \<leftarrow> xs @ (p, n) # ys. unat n + 32)"
    by (auto simp: km_inv_def)
  have t: "32 < unat ?t" using i(4) unat_total [OF i(4)] by (auto simp: kmalloc_size_ok_def u64_eq_iff_unat)
  have in_hs: "(?h, ?t) \<in> set (km_headers xs @ (?h, ?t) # km_headers ys)" by simp
  note off = owned_offset [OF i(2) in_hs]
  have p0: "p \<noteq> 0" using off(1) [of 32] t by (auto simp: u64_eq_iff_unat)
  define m0 where "m0 = store (?h + 8) 0 (km_mem s)"
  have m0: "heap_valid m0" "mem.owns m0 (km_headers xs @ (?h, ?t) # km_headers ys)"
    "heap_free m0 = heap_free (km_mem s)"
    using owns_store [OF i(1,2) off(3) [of 8]] t by (simp_all add: m0_def)
  from mem.owns_dealloc [OF m0(1,2)] obtain m where
    f: "freemem ?h ?t m0 = Some (0, m)" "heap_valid m" "mem.owns m ?hs" by auto
  have ok: "getmem_size_ok ?t" "block_addr_ok ?h" "span (unat ?h) (unat (ROUNDMB ?t)) \<subseteq> heap_range m0"
    "span (unat ?h) (unat (ROUNDMB ?t)) \<inter> heap_free m0 = {}"
    using m0(2) unfolding mem.owns_def by auto
  have free: "heap_free m = heap_free (km_mem s) \<union> span (unat ?h) (unat (ROUNDMB ?t))"
    using mem.dealloc_accepts [OF m0(1) ok] f(1) m0(3) by auto
  have mg: "ram m (?h + 8) \<noteq> KMALLOC_MAGIC"
    using freed_magic [OF m0(1) ok(2) _ _ f(1)] off(3) [of 0] t m0(3) by (simp add: m0_def store_def)
  have hdr: "header_ok m h' t'" if "(h', t') \<in> set ?hs" for h' t'
  proof -
    note sz = km_headers_size [OF i(3), of h' t']
    have sz: "8 < unat t'" using sz that by simp
    have "header_ok m0 h' t'"
      using header_ok_store [OF i(2) that, of 8 0 t'] t sz bspec [OF i(5) that] by (simp add: m0_def)
    moreover have "unat (h' + 0) \<notin> heap_free m0" "unat (h' + 8) \<notin> heap_free m0"
      using owned_offset(3) [OF m0(2), of h' t' 0] owned_offset(3) [OF m0(2), of h' t' 8] that sz by auto
    moreover have "?h + 0 \<noteq> h' + 0" "?h + 0 \<noteq> h' + 8" "?h + 8 \<noteq> h' + 0" "?h + 8 \<noteq> h' + 8"
      using t sz by (intro owned_disjoint [OF i(2) that]; simp)+
    ultimately show ?thesis
      using freemem_frame_valid [OF m0(1) f(1), of h'] freemem_frame_valid [OF m0(1) f(1), of "h' + 8"]
      by (auto simp: header_ok_def)
  qed
  define s' where "s' = s\<lparr>km_mem := m, g_live_blocks := g_live_blocks s - 1, g_live_bytes := g_live_bytes s - ?t,
      g_total_frees := g_total_frees s + 1\<rparr>"
  have le: "1 \<le> g_live_blocks s" "?t \<le> g_live_bytes s"
    using i(7,8) by (simp_all add: word_le_nat_alt unat_total [OF i(4)])
  have "g_live_blocks s \<noteq> 0" using i(7) by auto
  with i(6) le f(1) p0 have "kfree p s = Some s'"
    by (simp add: kfree_def KM_HEADER_BYTES_def header_ok_def Let_def m0_def s'_def)
  moreover have "unat (g_live_blocks s') = length (xs @ ys)"
    "unat (g_live_bytes s') = (\<Sum>(p, n) \<leftarrow> xs @ ys. unat n + 32)"
    using i(7,8) le by (simp_all add: s'_def unat_sub64 unat_total [OF i(4)])
  then have "km_inv s' (xs @ ys)"
    unfolding km_inv_def using f(2,3) i(3) hdr by (auto simp: s'_def)
  ultimately show ?thesis
    using mg free p0 by (auto simp: s'_def KM_HEADER_BYTES_def)
qed

section \<open>Histories\<close>

text \<open>
  Every sequence of \<open>kmalloc\<close>, \<open>kfree\<close> of live objects and client stores into live objects, from
  boot with the counters in zeroed memory.
\<close>

inductive km_run :: "kmstate \<Rightarrow> (u64 \<times> u64) list \<Rightarrow> bool" where
  boot: "heap_bounds_ok lo hi \<Longrightarrow>
    km_run \<lparr>km_mem = mem_init lo hi m, g_live_blocks = 0, g_live_bytes = 0, g_total_allocs = 0,
            g_total_frees = 0, g_bad_frees = 0\<rparr> []"
| malloc: "km_run s live \<Longrightarrow> kmalloc_size_ok n \<Longrightarrow> kmalloc n s = Some (p, s') \<Longrightarrow>
    km_run s' (if p = 0 then live else (p, n) # live)"
| free: "km_run s (xs @ (p, n) # ys) \<Longrightarrow> kfree p s = Some s' \<Longrightarrow> km_run s' (xs @ ys)"
| client: "km_run s live \<Longrightarrow> (p, n) \<in> set live \<Longrightarrow> unat k < unat n \<Longrightarrow>
    km_run (s\<lparr>km_mem := store (p + k) v (km_mem s)\<rparr>) live"

inductive_simps km_run_boot_iff: "km_run s []"

lemma km_inv_client:
  assumes inv: "km_inv s live" and obj: "(p, n) \<in> set live" and k: "unat k < unat n"
  shows "km_inv (s\<lparr>km_mem := store (p + k) v (km_mem s)\<rparr>) live"
proof -
  from obj obtain xs ys where live: "live = xs @ (p, n) # ys" by (meson split_list)
  let ?h = "p - 32" and ?t = "n + 32"
  from inv have i: "heap_valid (km_mem s)" "mem.owns (km_mem s) (km_headers xs @ (?h, ?t) # km_headers ys)"
    "\<forall>(p, n) \<in> set (xs @ ys). kmalloc_size_ok n" "kmalloc_size_ok n"
    "\<forall>(h, t) \<in> set (km_headers xs @ km_headers ys). header_ok (km_mem s) h t" "header_ok (km_mem s) ?h ?t"
    by (auto simp: km_inv_def live)
  have t: "unat ?t = unat n + 32" by (rule unat_total [OF i(4)])
  have k32: "unat (32 + k) = 32 + unat k"
    using k t unat_bound64 [of ?t] by (simp add: unat_add64)
  have pk: "p + k = ?h + (32 + k)" by (simp add: algebra_simps)
  have in_hs: "(?h, ?t) \<in> set (km_headers xs @ (?h, ?t) # km_headers ys)" by simp
  have lt: "unat (32 + k) < unat ?t" using k t k32 by simp
  note off = owned_offset [OF i(2) in_hs]
  have "?h + (32 + k) \<noteq> ?h + 0" "?h + (32 + k) \<noteq> ?h + 8"
    using k32 by (simp_all only: add_left_cancel) (auto simp: u64_eq_iff_unat)
  then have "header_ok (store (p + k) v (km_mem s)) ?h ?t"
    using i(6) unfolding pk by (simp add: header_ok_def store_def)
  moreover have "header_ok (store (p + k) v (km_mem s)) h' t'"
    if "(h', t') \<in> set (km_headers xs @ km_headers ys)" for h' t'
    using header_ok_store [OF i(2) that lt] km_headers_size [OF i(3), of h' t'] that bspec [OF i(5) that]
    unfolding pk by simp
  moreover have "heap_valid (store (p + k) v (km_mem s)) \<and>
      mem.owns (store (p + k) v (km_mem s)) (km_headers xs @ (?h, ?t) # km_headers ys)"
    using owns_store [OF i(1,2) off(3) [OF lt]] unfolding pk by simp
  ultimately show ?thesis
    using inv unfolding km_inv_def live by auto
qed

lemma km_run_inv: "km_run s live \<Longrightarrow> km_inv s live"
proof (induction rule: km_run.induct)
  case (boot lo hi m)
  from heap_run_owns [OF heap_run.boot [OF boot, of m]] show ?case
    by (simp add: km_inv_def)
next
  case (malloc s live n p s')
  then show ?case using kmalloc_inv [of s live n p s'] by (auto split: if_splits)
next
  case (free s xs p n ys s')
  then show ?case using kfree_inv [of s xs p n ys] by auto
next
  case (client s live p n k v)
  then show ?case by (intro km_inv_client)
qed

section \<open>Properties\<close>

text \<open>C9: in every history of kmalloc, kfree and client stores into live objects, the heap blocks
  behind the live objects (header and payload) are pairwise disjoint and disjoint from the free
  list, every header still carries its size and magic, and the counters are exact: live_blocks is
  the number of live objects and live_bytes the sum of their sizes with headers.\<close>

theorem km_run_exact:
  assumes "km_run s live"
  shows "disjoint_spans (map (\<lambda>(p, n). (unat (p - 32), unat (ROUNDMB (n + 32)))) live) \<and>
         union_spans (map (\<lambda>(p, n). (unat (p - 32), unat (ROUNDMB (n + 32)))) live) \<inter> heap_free (km_mem s) = {} \<and>
         (\<forall>(p, n) \<in> set live. ram (km_mem s) (p - 32) = n + 32 \<and> ram (km_mem s) (p - 32 + 8) = KMALLOC_MAGIC) \<and>
         unat (kmalloc_live_blocks s) = length live \<and>
         unat (kmalloc_live_bytes s) = (\<Sum>(p, n) \<leftarrow> live. unat n + 32)"
proof -
  have "mem.spans (km_headers live) = map (\<lambda>(p, n). (unat (p - 32), unat (ROUNDMB (n + 32)))) live"
    by (induction live) (auto simp: mem.spans_def km_headers_def KM_HEADER_BYTES_def)
  moreover have "(\<forall>(h, t) \<in> set (km_headers live). header_ok (km_mem s) h t) \<longleftrightarrow>
      (\<forall>(p, n) \<in> set live. ram (km_mem s) (p - 32) = n + 32 \<and> ram (km_mem s) (p - 32 + 8) = KMALLOC_MAGIC)"
    by (fastforce simp: km_headers_def KM_HEADER_BYTES_def header_ok_def)
  ultimately show ?thesis
    using km_run_inv [OF assms]
    unfolding km_inv_def mem.owns_def kmalloc_live_blocks_def kmalloc_live_bytes_def by simp
qed

text \<open>The kernel heap of the witnesses, right after boot.\<close>

definition km_boot :: kmstate where
  "km_boot = \<lparr>km_mem = small_heap, g_live_blocks = 0, g_live_bytes = 0, g_total_allocs = 0,
     g_total_frees = 0, g_bad_frees = 0\<rparr>"

lemma km_boot_run: "km_run km_boot []"
  unfolding km_boot_def small_heap_def by (rule km_run.boot [OF small_heap_bounds])

lemma km_boot_alloc: "\<exists>s. kmalloc 100 km_boot = Some (4128, s) \<and> km_run s [(4128, 100)]"
proof -
  have r: "ROUNDMB 132 = 144" by (simp add: ROUNDMB_def MEM_ALIGN_def)
  have "first_fit 144 [(4096, 4096)] = Some (4096, [(4240, 3952)])" by simp
  with getmem_first_fit [OF small_heap_inv, of 132] obtain m where "getmem 132 small_heap = Some (4096, m)"
    by (auto simp: r)
  then obtain s where s: "kmalloc 100 km_boot = Some (4128, s)"
    by (simp add: kmalloc_def km_boot_def KM_HEADER_BYTES_def Let_def)
  from km_run.malloc [OF km_boot_run _ this] show ?thesis
    by (auto simp: s kmalloc_size_ok_def)
qed

theorem km_run_exact_witness:
  "\<exists>s. km_run s [(4128, 100)] \<and> unat (kmalloc_live_blocks s) = 1 \<and> unat (kmalloc_live_bytes s) = 132"
proof -
  from km_boot_alloc obtain s where r: "km_run s [(4128, 100)]" by blast
  from km_run_exact [OF r] r show ?thesis by auto
qed

text \<open>C21: kfree of a live object always returns and gives back exactly the block taken for it, and
  no error is counted; calling kfree on the same pointer again is detected: only the bad-free
  counter changes, the heap and the free list do not.\<close>

theorem kfree_then_double_kfree:
  assumes "km_run s (xs @ (p, n) # ys)"
  shows "\<exists>s1. kfree p s = Some s1 \<and> km_run s1 (xs @ ys) \<and>
    heap_free (km_mem s1) = heap_free (km_mem s) \<union> span (unat (p - 32)) (unat (ROUNDMB (n + 32))) \<and>
    kmalloc_bad_frees s1 = kmalloc_bad_frees s \<and>
    kfree p s1 = Some (s1\<lparr>g_bad_frees := g_bad_frees s1 + 1\<rparr>)"
proof -
  from kfree_inv [OF km_run_inv [OF assms]] obtain s1 where
    s1: "kfree p s = Some s1" "g_bad_frees s1 = g_bad_frees s" "p \<noteq> 0"
      "ram (km_mem s1) (p - KM_HEADER_BYTES + 8) \<noteq> KMALLOC_MAGIC"
      "heap_free (km_mem s1) =
        heap_free (km_mem s) \<union> span (unat (p - KM_HEADER_BYTES)) (unat (ROUNDMB (n + KM_HEADER_BYTES)))"
    by blast
  from s1(3,4) have "kfree p s1 = Some (s1\<lparr>g_bad_frees := g_bad_frees s1 + 1\<rparr>)"
    by (simp add: kfree_def Let_def)
  with s1 km_run.free [OF assms s1(1)] show ?thesis
    by (simp add: kmalloc_bad_frees_def KM_HEADER_BYTES_def)
qed

theorem kfree_then_double_kfree_witness:
  "\<exists>s s1. kmalloc 100 km_boot = Some (4128, s) \<and> kfree 4128 s = Some s1 \<and> km_run s1 [] \<and>
     kfree 4128 s1 = Some (s1\<lparr>g_bad_frees := g_bad_frees s1 + 1\<rparr>)"
proof -
  from km_boot_alloc obtain s where s: "kmalloc 100 km_boot = Some (4128, s)" "km_run s [(4128, 100)]" by blast
  with kfree_then_double_kfree [of s "[]" 4128 100 "[]"] show ?thesis by auto
qed

text \<open>The size computation of kmalloc is unchecked: a request in the last 32 bytes below
  2^64 (here 2^64 - 16) wraps to a total of 16, and kmalloc succeeds with a block half the size of
  the header it writes into it.\<close>

theorem kmalloc_wrapped_request:
  assumes "mem_inv (km_mem s) ((a, l) # bs)" "32 \<le> unat l"
  shows "\<exists>s'. kmalloc 18446744073709551600 s = Some (a + 32, s') \<and> g_live_bytes s' = g_live_bytes s + 16 \<and>
           unat (ROUNDMB (18446744073709551600 + KM_HEADER_BYTES)) = 16"
proof -
  have r: "ROUNDMB 16 = 16" by (simp add: ROUNDMB_def MEM_ALIGN_def)
  have w: "(18446744073709551632 :: u64) = 16" by simp
  have ff: "first_fit 16 ((a, l) # bs) = Some (a, if 32 \<le> unat l then (a + 16, l - 16) # bs else bs)"
    using assms(2) by (auto simp: word_le_nat_alt word_less_nat_alt)
  from getmem_first_fit [OF assms(1), of 16] ff obtain m where
    g: "getmem 16 (km_mem s) = Some (a, m)" by (auto simp: r)
  have "a \<noteq> 0" using mem_inv_split [of "km_mem s" "[]" a l bs] assms(1) by simp
  with g show ?thesis
    by (simp add: kmalloc_def KM_HEADER_BYTES_def Let_def w r)
qed

theorem kmalloc_wrapped_request_witness:
  "\<exists>s'. kmalloc 18446744073709551600 km_boot = Some (4128, s') \<and> g_live_bytes s' = 16"
proof -
  have "mem_inv (km_mem km_boot) [(4096, 4096)]" by (simp add: km_boot_def small_heap_inv)
  from kmalloc_wrapped_request [OF this] show ?thesis by (auto simp: km_boot_def)
qed

end
