(* ===== verification/Spinlock.thy ===== *)
theory Spinlock
  imports Prelude
begin

text \<open>
  The two spinlocks of \<open>system/spinlock.c\<close>, ticket (\<open>SPIN_EXCLUSIVE\<close>) and bakery (\<open>SPIN_BAKERY\<close>),
  as interleavings of the cores' loads and stores. The program counter of a core says where in
  \<open>spin_lock\<close> or \<open>spin_unlock\<close> it is, with the local variables that are live there; \<open>ticket_step c\<close>
  and \<open>bakery_step c\<close> let core \<open>c\<close> perform its next shared access. Memory is sequentially
  consistent: the kernel runs with the data cache off and a barrier after every store.
  The self test (\<open>st_worker\<close>, \<open>spin_selftest\<close>) is a client of either lock.
\<close>

definition SMP_NCORES :: nat where "SMP_NCORES = 4"

section \<open>The ticket lock\<close>

text \<open>
  \<open>TSpin me s\<close>: took ticket \<open>me\<close>, spun \<open>s\<close> times; \<open>TStats\<close>: about to update the statistics;
  \<open>TCrit\<close>: \<open>spin_lock\<close> has returned; \<open>TRel me v\<close>: in \<open>spin_unlock\<close>, has read \<open>v\<close> from \<open>now_serving\<close>.
\<close>

datatype tpc = TIdle | TSpin u32 u64 | TStats u32 u64 | TCrit u32 | TRel u32 u32

record ticket_lock =
  next_ticket :: u32
  now_serving :: u32
  t_acquires :: u64
  t_spins :: u64
  t_pc :: "nat \<Rightarrow> tpc"

definition ticket_init :: ticket_lock where
  "ticket_init = \<lparr>next_ticket = 0, now_serving = 0, t_acquires = 0, t_spins = 0, t_pc = (\<lambda>_. TIdle)\<rparr>"

text \<open>The load-exclusive/store-exclusive pair that succeeds; a failed pair leaves no trace.\<close>

definition fetch_add :: "u32 \<Rightarrow> ticket_lock \<Rightarrow> u32 \<times> ticket_lock" where
  "fetch_add v l = (next_ticket l, l\<lparr>next_ticket := next_ticket l + v\<rparr>)"

definition ticket_step :: "nat \<Rightarrow> ticket_lock \<Rightarrow> ticket_lock" where
  "ticket_step c l =
     (case t_pc l c of
        TIdle \<Rightarrow> (let (me, l) = fetch_add 1 l in l\<lparr>t_pc := (t_pc l)(c := TSpin me 0)\<rparr>)
      | TSpin me s \<Rightarrow>
          if now_serving l \<noteq> me then l\<lparr>t_pc := (t_pc l)(c := TSpin me (s + 1))\<rparr>
          else l\<lparr>t_pc := (t_pc l)(c := TStats me s)\<rparr>
      | TStats me s \<Rightarrow>
          l\<lparr>t_acquires := t_acquires l + 1, t_spins := t_spins l + s, t_pc := (t_pc l)(c := TCrit me)\<rparr>
      | TCrit me \<Rightarrow> l\<lparr>t_pc := (t_pc l)(c := TRel me (now_serving l))\<rparr>
      | TRel me v \<Rightarrow> l\<lparr>now_serving := v + 1, t_pc := (t_pc l)(c := TIdle)\<rparr>)"

section \<open>The bakery lock\<close>

text \<open>
  \<open>BScan i m\<close>: choosing, about to read \<open>number[i]\<close>, with maximum \<open>m\<close> so far; \<open>BChosen\<close>: has written
  its number; \<open>BTest i\<close>: about to look at core \<open>i\<close>; \<open>BNum1 i\<close>, \<open>BNum2 i\<close>, \<open>BNum3 i\<close>: about to make the
  first, second, third read of \<open>number[i]\<close> in the condition of the second inner loop.
\<close>

datatype bpc = BIdle | BScan nat u32 | BChosen | BTest nat | BNum1 nat | BNum2 nat | BNum3 nat | BStats | BCrit

record bakery_lock =
  choosing :: "nat \<Rightarrow> bool"
  number :: "nat \<Rightarrow> u32"
  b_acquires :: u64
  b_spins :: u64
  b_pc :: "nat \<Rightarrow> bpc"
  b_s :: "nat \<Rightarrow> u64"

definition bakery_init :: bakery_lock where
  "bakery_init = \<lparr>choosing = (\<lambda>_. False), number = (\<lambda>_. 0), b_acquires = 0, b_spins = 0,
     b_pc = (\<lambda>_. BIdle), b_s = (\<lambda>_. 0)\<rparr>"

definition b_goto :: "nat \<Rightarrow> bpc \<Rightarrow> bakery_lock \<Rightarrow> bakery_lock" where
  "b_goto c p l = l\<lparr>b_pc := (b_pc l)(c := p)\<rparr>"

text \<open>One more turn of an inner waiting loop.\<close>

definition b_relax :: "nat \<Rightarrow> bpc \<Rightarrow> bakery_lock \<Rightarrow> bakery_lock" where
  "b_relax c p l = b_goto c p (l\<lparr>b_s := (b_s l)(c := b_s l c + 1)\<rparr>)"

definition bakery_step :: "nat \<Rightarrow> bakery_lock \<Rightarrow> bakery_lock" where
  "bakery_step c l =
     (case b_pc l c of
        BIdle \<Rightarrow> b_goto c (BScan 0 0) (l\<lparr>choosing := (choosing l)(c := True), b_s := (b_s l)(c := 0)\<rparr>)
      | BScan i m \<Rightarrow>
          if i < SMP_NCORES then b_goto c (BScan (Suc i) (if m < number l i then number l i else m)) l
          else b_goto c BChosen (l\<lparr>number := (number l)(c := m + 1)\<rparr>)
      | BChosen \<Rightarrow> b_goto c (BTest 0) (l\<lparr>choosing := (choosing l)(c := False)\<rparr>)
      | BTest i \<Rightarrow>
          if \<not> i < SMP_NCORES then b_goto c BStats l
          else if i = c then b_goto c (BTest (Suc i)) l
          else if choosing l i then b_relax c (BTest i) l
          else b_goto c (BNum1 i) l
      | BNum1 i \<Rightarrow> if number l i \<noteq> 0 then b_goto c (BNum2 i) l else b_goto c (BTest (Suc i)) l
      | BNum2 i \<Rightarrow> if number l i < number l c then b_relax c (BNum1 i) l else b_goto c (BNum3 i) l
      | BNum3 i \<Rightarrow>
          if number l i = number l c \<and> i < c then b_relax c (BNum1 i) l else b_goto c (BTest (Suc i)) l
      | BStats \<Rightarrow>
          b_goto c BCrit (l\<lparr>b_acquires := b_acquires l + 1, b_spins := b_spins l + b_s l c\<rparr>)
      | BCrit \<Rightarrow> b_goto c BIdle (l\<lparr>number := (number l)(c := 0)\<rparr>))"

section \<open>The self test\<close>

text \<open>
  \<open>st_worker\<close> on every core: take the lock, load the counter, store it plus one, release the
  lock, \<open>st_per_core\<close> times. \<open>lstep\<close> is the step function of the lock in use; \<open>in_cs\<close> and \<open>outside\<close>
  tell whether a core holds the lock or has not begun to take it.
\<close>

datatype st_phase = StLoad | StStore int | StUnlock

record 'l selftest =
  st_lock :: 'l
  st_counter :: int
  st_left :: "nat \<Rightarrow> nat"
  st_phase :: "nat \<Rightarrow> st_phase"

definition st_worker_step ::
  "(nat \<Rightarrow> 'l \<Rightarrow> 'l) \<Rightarrow> ('l \<Rightarrow> nat \<Rightarrow> bool) \<Rightarrow> ('l \<Rightarrow> nat \<Rightarrow> bool) \<Rightarrow> nat \<Rightarrow> 'l selftest \<Rightarrow> 'l selftest" where
  "st_worker_step lstep in_cs outside c s =
     (if outside (st_lock s) c \<and> st_left s c = 0 then s
      else if in_cs (st_lock s) c then
        (case st_phase s c of
           StLoad \<Rightarrow> s\<lparr>st_phase := (st_phase s)(c := StStore (st_counter s))\<rparr>
         | StStore v \<Rightarrow> s\<lparr>st_counter := v + 1, st_phase := (st_phase s)(c := StUnlock)\<rparr>
         | StUnlock \<Rightarrow>
             s\<lparr>st_lock := lstep c (st_lock s), st_left := (st_left s)(c := st_left s c - 1),
               st_phase := (st_phase s)(c := StLoad)\<rparr>)
      else s\<lparr>st_lock := lstep c (st_lock s)\<rparr>)"

definition spin_selftest_start :: "'l \<Rightarrow> int \<Rightarrow> 'l selftest" where
  "spin_selftest_start l per_core =
     (let per_core = (if per_core < 1 then 1000 else per_core)
      in \<lparr>st_lock = l, st_counter = 0, st_left = (\<lambda>_. nat per_core), st_phase = (\<lambda>_. StLoad)\<rparr>)"

section \<open>Ticket lock: invariant\<close>

fun t_ticket :: "tpc \<Rightarrow> u32" where
  "t_ticket TIdle = 0"
| "t_ticket (TSpin me s) = me"
| "t_ticket (TStats me s) = me"
| "t_ticket (TCrit me) = me"
| "t_ticket (TRel me v) = me"

fun t_serving :: "tpc \<Rightarrow> bool" where
  "t_serving (TStats me s) = True"
| "t_serving (TCrit me) = True"
| "t_serving (TRel me v) = True"
| "t_serving _ = False"

definition t_waiters :: "ticket_lock \<Rightarrow> nat set" where
  "t_waiters l = {c. c < SMP_NCORES \<and> t_pc l c \<noteq> TIdle}"

definition ticket_inv :: "ticket_lock \<Rightarrow> bool" where
  "ticket_inv l \<longleftrightarrow>
     inj_on (\<lambda>c. t_ticket (t_pc l c)) (t_waiters l) \<and>
     (\<forall>c \<in> t_waiters l. unat (t_ticket (t_pc l c) - now_serving l) < card (t_waiters l)) \<and>
     next_ticket l = now_serving l + of_nat (card (t_waiters l)) \<and>
     (\<forall>c \<in> t_waiters l. t_serving (t_pc l c) \<longrightarrow> t_ticket (t_pc l c) = now_serving l) \<and>
     (\<forall>c \<in> t_waiters l. \<forall>me v. t_pc l c = TRel me v \<longrightarrow> v = now_serving l)"

lemma t_waiters_finite [simp]: "finite (t_waiters l)"
  by (simp add: t_waiters_def)

lemma t_waiters_card: "card (t_waiters l) \<le> 4"
proof -
  have "card (t_waiters l) \<le> card {..<SMP_NCORES}"
    by (rule card_mono) (auto simp: t_waiters_def)
  then show ?thesis by (simp add: SMP_NCORES_def)
qed

lemma ticket_init_inv: "ticket_inv ticket_init"
  by (auto simp: ticket_inv_def ticket_init_def t_waiters_def)

lemma unat_of_nat32: "n < 4294967296 \<Longrightarrow> unat (of_nat n :: u32) = n"
  by (simp add: unat_of_nat)

text \<open>A step that keeps the core waiting keeps the invariant.\<close>

lemma ticket_inv_stay:
  assumes inv: "ticket_inv l" and c: "c \<in> t_waiters l" and p: "t_ticket p = t_ticket (t_pc l c)" "p \<noteq> TIdle"
    and s: "t_serving p \<longrightarrow> t_ticket p = now_serving l" "\<And>me v. p = TRel me v \<Longrightarrow> v = now_serving l"
  shows "ticket_inv (l\<lparr>t_acquires := a, t_spins := b, t_pc := (t_pc l)(c := p)\<rparr>)"
proof -
  let ?l = "l\<lparr>t_acquires := a, t_spins := b, t_pc := (t_pc l)(c := p)\<rparr>"
  have w: "t_waiters ?l = t_waiters l" using c p(2) by (auto simp: t_waiters_def)
  have t: "(\<lambda>d. t_ticket (t_pc ?l d)) = (\<lambda>d. t_ticket (t_pc l d))" using p(1) by auto
  have "\<forall>d \<in> t_waiters l. t_serving (t_pc ?l d) \<longrightarrow> t_ticket (t_pc l d) = now_serving l"
    using inv s(1) p(1) by (auto simp: ticket_inv_def)
  moreover have "\<forall>d \<in> t_waiters l. \<forall>me v. t_pc ?l d = TRel me v \<longrightarrow> v = now_serving l"
    using inv s(2) by (auto simp: ticket_inv_def)
  ultimately show ?thesis
    using inv fun_cong [OF t] unfolding ticket_inv_def w t by simp
qed

lemma ticket_inv_acquire:
  assumes inv: "ticket_inv l" and c: "c < SMP_NCORES" "t_pc l c = TIdle"
  shows "ticket_inv (l\<lparr>next_ticket := next_ticket l + 1, t_pc := (t_pc l)(c := TSpin (next_ticket l) 0)\<rparr>)"
proof -
  let ?l = "l\<lparr>next_ticket := next_ticket l + 1, t_pc := (t_pc l)(c := TSpin (next_ticket l) 0)\<rparr>"
  let ?n = "card (t_waiters l)"
  have c': "c \<notin> t_waiters l" using c by (simp add: t_waiters_def)
  have w: "t_waiters ?l = insert c (t_waiters l)" using c by (auto simp: t_waiters_def)
  have n: "card (t_waiters ?l) = Suc ?n" unfolding w using c' by simp
  have nx: "next_ticket l = now_serving l + of_nat ?n" using inv by (simp add: ticket_inv_def)
  have u: "unat (next_ticket l - now_serving l) = ?n"
    using t_waiters_card [of l] by (simp add: nx unat_of_nat32)
  have less: "unat (t_ticket (t_pc l d) - now_serving l) < ?n" if "d \<in> t_waiters l" for d
    using inv that by (simp add: ticket_inv_def)
  then have ne: "t_ticket (t_pc l d) \<noteq> next_ticket l" if "d \<in> t_waiters l" for d
    using that u by force
  have inj: "inj_on (\<lambda>d. t_ticket (t_pc l d)) (t_waiters l)" using inv by (simp add: ticket_inv_def)
  have "inj_on (\<lambda>d. t_ticket (t_pc ?l d)) (insert c (t_waiters l))"
    using inj c' ne [symmetric] ne unfolding inj_on_def by (simp split: if_splits)
  moreover have "unat (t_ticket (t_pc ?l d) - now_serving l) < Suc ?n" if "d \<in> insert c (t_waiters l)" for d
    using that less [of d] u by auto
  ultimately show ?thesis
    using inv c' unfolding ticket_inv_def n w by (auto simp: nx)
qed

lemma ticket_inv_release:
  assumes inv: "ticket_inv l" and c: "c < SMP_NCORES" "t_pc l c = TRel me v"
  shows "ticket_inv (l\<lparr>now_serving := v + 1, t_pc := (t_pc l)(c := TIdle)\<rparr>)"
proof -
  let ?l = "l\<lparr>now_serving := v + 1, t_pc := (t_pc l)(c := TIdle)\<rparr>"
  let ?n = "card (t_waiters l)"
  have c': "c \<in> t_waiters l" using c by (simp add: t_waiters_def)
  have v: "v = now_serving l" "me = now_serving l"
    using inv c c' by (auto simp: ticket_inv_def)
  have w: "t_waiters ?l = t_waiters l - {c}" by (auto simp: t_waiters_def)
  have n: "?n = Suc (card (t_waiters ?l))" unfolding w using c' by (metis card_Suc_Diff1 t_waiters_finite)
  have ne: "t_ticket (t_pc l d) \<noteq> now_serving l" if "d \<in> t_waiters l" "d \<noteq> c" for d
  proof
    assume "t_ticket (t_pc l d) = now_serving l"
    then have "t_ticket (t_pc l d) = t_ticket (t_pc l c)" using c(2) v by simp
    with inv that c' show False by (auto simp: ticket_inv_def inj_on_def)
  qed
  have less: "unat (t_ticket (t_pc l d) - (now_serving l + 1)) < card (t_waiters ?l)" if "d \<in> t_waiters l" "d \<noteq> c" for d
  proof -
    let ?x = "t_ticket (t_pc l d) - now_serving l"
    have "?x \<noteq> 0" using ne [OF that] by simp
    then have "unat (?x - 1) = unat ?x - 1" "0 < unat ?x"
      by (simp_all add: unat_minus_one unat_gt_0)
    moreover have "unat ?x < ?n" using inv that(1) by (simp add: ticket_inv_def)
    ultimately have "unat (?x - 1) < card (t_waiters ?l)" using n by simp
    then show ?thesis by (simp add: algebra_simps)
  qed
  have "next_ticket l = now_serving l + of_nat ?n" using inv by (simp add: ticket_inv_def)
  then have "next_ticket l = now_serving l + 1 + of_nat (card (t_waiters ?l))" by (simp add: n)
  moreover have "inj_on (\<lambda>d. t_ticket (t_pc ?l d)) (t_waiters ?l)"
    using inv unfolding w ticket_inv_def by (auto simp: inj_on_def)
  moreover have srv: "\<not> t_serving (t_pc l d)" if "d \<in> t_waiters l" "d \<noteq> c" for d
    using inv that ne [OF that] by (auto simp: ticket_inv_def)
  moreover have "t_pc l d \<noteq> TRel a b" if "d \<in> t_waiters l" "d \<noteq> c" for d a b
    using srv [OF that] by auto
  ultimately show ?thesis
    using less unfolding ticket_inv_def w by (simp add: v)
qed

lemma ticket_step_inv:
  assumes inv: "ticket_inv l" and c: "c < SMP_NCORES"
  shows "ticket_inv (ticket_step c l)"
proof (cases "t_pc l c")
  case TIdle
  then show ?thesis using ticket_inv_acquire [OF inv c] by (simp add: ticket_step_def fetch_add_def)
next
  case (TSpin me s)
  then have "c \<in> t_waiters l" using c by (simp add: t_waiters_def)
  note stay = ticket_inv_stay [OF inv this, where a = "t_acquires l" and b = "t_spins l"]
  from stay [of "TSpin me (s + 1)"] stay [of "TStats me s"] TSpin show ?thesis
    by (auto simp: ticket_step_def)
next
  case (TStats me s)
  then have "c \<in> t_waiters l" "me = now_serving l" using c inv by (auto simp: t_waiters_def ticket_inv_def)
  with ticket_inv_stay [OF inv this(1), of "TCrit me"] TStats show ?thesis by (simp add: ticket_step_def)
next
  case (TCrit me)
  then have "c \<in> t_waiters l" "me = now_serving l" using c inv by (auto simp: t_waiters_def ticket_inv_def)
  with ticket_inv_stay [OF inv this(1), of "TRel me (now_serving l)", where a = "t_acquires l" and b = "t_spins l"] TCrit
  show ?thesis by (simp add: ticket_step_def)
next
  case (TRel me v)
  then show ?thesis using ticket_inv_release [OF inv c] by (simp add: ticket_step_def)
qed

lemma ticket_exclusive:
  assumes "ticket_inv l" "c < SMP_NCORES" "d < SMP_NCORES" "t_serving (t_pc l c)" "t_serving (t_pc l d)"
  shows "c = d"
proof -
  have w: "c \<in> t_waiters l" "d \<in> t_waiters l" using assms by (auto simp: t_waiters_def)
  then have "t_ticket (t_pc l c) = t_ticket (t_pc l d)" using assms by (simp add: ticket_inv_def)
  with w assms(1) show ?thesis by (auto simp: ticket_inv_def inj_on_def)
qed

section \<open>Bakery lock: invariant\<close>

text \<open>
  \<open>b_passed l i j\<close>: core \<open>i\<close> comes before core \<open>j\<close>, now or as soon as \<open>j\<close> has chosen its number.
  \<open>b_late l i j\<close>: if \<open>j\<close> is choosing, it began after \<open>i\<close> had published its number.
\<close>

definition b_passed :: "bakery_lock \<Rightarrow> nat \<Rightarrow> nat \<Rightarrow> bool" where
  "b_passed l i j \<longleftrightarrow>
     (if number l j = 0 then \<forall>k m. b_pc l j = BScan k m \<longrightarrow> i < k \<longrightarrow> number l i \<le> m
      else number l i < number l j \<or> number l i = number l j \<and> i < j)"

definition b_late :: "bakery_lock \<Rightarrow> nat \<Rightarrow> nat \<Rightarrow> bool" where
  "b_late l i j \<longleftrightarrow>
     (case b_pc l j of
        BScan k m \<Rightarrow> i < k \<longrightarrow> number l i \<le> m
      | BChosen \<Rightarrow> number l i < number l j
      | _ \<Rightarrow> True)"

definition b_local :: "bakery_lock \<Rightarrow> nat \<Rightarrow> bool" where
  "b_local l c \<longleftrightarrow>
     (case b_pc l c of
        BIdle \<Rightarrow> number l c = 0 \<and> \<not> choosing l c
      | BScan k m \<Rightarrow> number l c = 0 \<and> choosing l c \<and> k \<le> SMP_NCORES
      | BChosen \<Rightarrow> number l c \<noteq> 0 \<and> choosing l c
      | BTest k \<Rightarrow> number l c \<noteq> 0 \<and> \<not> choosing l c \<and> k \<le> SMP_NCORES
      | BNum1 k \<Rightarrow> number l c \<noteq> 0 \<and> \<not> choosing l c \<and> k < SMP_NCORES \<and> k \<noteq> c
      | BNum2 k \<Rightarrow> number l c \<noteq> 0 \<and> \<not> choosing l c \<and> k < SMP_NCORES \<and> k \<noteq> c
      | BNum3 k \<Rightarrow> number l c \<noteq> 0 \<and> \<not> choosing l c \<and> k < SMP_NCORES \<and> k \<noteq> c
      | _ \<Rightarrow> number l c \<noteq> 0 \<and> \<not> choosing l c)"

definition b_pair :: "bakery_lock \<Rightarrow> nat \<Rightarrow> nat \<Rightarrow> bool" where
  "b_pair l i j \<longleftrightarrow>
     (case b_pc l i of
        BTest k \<Rightarrow> j < k \<longrightarrow> b_passed l i j
      | BNum1 k \<Rightarrow> (j < k \<longrightarrow> b_passed l i j) \<and> (j = k \<longrightarrow> b_late l i j)
      | BNum2 k \<Rightarrow> (j < k \<longrightarrow> b_passed l i j) \<and> (j = k \<longrightarrow> b_late l i j)
      | BNum3 k \<Rightarrow> (j < k \<longrightarrow> b_passed l i j) \<and>
          (j = k \<longrightarrow> b_late l i j \<and> (number l j = number l i \<or> b_passed l i j))
      | BStats \<Rightarrow> b_passed l i j
      | BCrit \<Rightarrow> b_passed l i j
      | _ \<Rightarrow> True)"

definition bakery_inv :: "bakery_lock \<Rightarrow> bool" where
  "bakery_inv l \<longleftrightarrow>
     (\<forall>i < SMP_NCORES. b_local l i) \<and> (\<forall>i < SMP_NCORES. \<forall>j < SMP_NCORES. i \<noteq> j \<longrightarrow> b_pair l i j)"

text \<open>The ticket numbers are 32 bits wide; the invariant is about steps that do not wrap them.\<close>

definition bakery_no_wrap :: "nat \<Rightarrow> bakery_lock \<Rightarrow> bool" where
  "bakery_no_wrap c l \<longleftrightarrow> (\<forall>k m. b_pc l c = BScan k m \<longrightarrow> m \<noteq> 0xFFFFFFFF)"

lemma unat_succ32: "(m::u32) \<noteq> 0xFFFFFFFF \<Longrightarrow> unat (m + 1) = Suc (unat m)"
proof -
  assume "m \<noteq> 0xFFFFFFFF"
  then have "unat m \<noteq> unat (0xFFFFFFFF :: u32)" by (metis word_unat_eq_iff)
  moreover have "unat m < 4294967296" using unsigned_less [of m] by simp
  ultimately show ?thesis by (simp add: unat_word_ariths)
qed

lemma succ_no_wrap: "(m::u32) \<noteq> 0xFFFFFFFF \<Longrightarrow> x \<le> m \<Longrightarrow> x < m + 1"
  using unat_succ32 [of m] by (simp add: word_le_nat_alt word_less_nat_alt)

lemma succ_nonzero: "(m::u32) \<noteq> 0xFFFFFFFF \<Longrightarrow> m + 1 \<noteq> 0"
  using unat_succ32 [of m] by (metis nat.distinct(1) unat_0)

lemmas bakery_step_defs = bakery_step_def b_goto_def b_relax_def

text \<open>A step of core \<open>c\<close> leaves the program counter, number and flag of every other core alone.\<close>

lemma bakery_step_other:
  assumes "d \<noteq> c"
  shows "b_pc (bakery_step c l) d = b_pc l d" "number (bakery_step c l) d = number l d"
    "choosing (bakery_step c l) d = choosing l d"
  using assms by (auto simp: bakery_step_defs split: bpc.splits)

lemma bakery_step_local:
  assumes "b_local l c" "bakery_no_wrap c l"
  shows "b_local (bakery_step c l) c"
  using assms
  by (cases "b_pc l c") (auto simp: b_local_def bakery_step_defs bakery_no_wrap_def succ_nonzero)

lemma b_local_number:
  assumes "b_local l i"
  shows "number l i = 0 \<longleftrightarrow> (b_pc l i = BIdle \<or> (\<exists>k m. b_pc l i = BScan k m))"
  using assms by (auto simp: b_local_def split: bpc.splits)

lemma b_passed_step:
  assumes p: "b_passed l i c" and c: "b_local l c" "bakery_no_wrap c l" and i: "i \<noteq> c" "i < SMP_NCORES"
  shows "b_passed (bakery_step c l) i c"
  using p c(1) i c(2) bakery_step_other [OF i(1), of l]
  by (cases "b_pc l c")
    (auto simp: b_passed_def b_local_def bakery_step_defs bakery_no_wrap_def succ_no_wrap succ_nonzero
      less_Suc_eq)

lemma b_late_step:
  assumes p: "b_late l i c" and c: "b_local l c" "bakery_no_wrap c l" and i: "i \<noteq> c" "i < SMP_NCORES"
  shows "b_late (bakery_step c l) i c"
  using p c(1) i c(2) bakery_step_other [OF i(1), of l]
  by (cases "b_pc l c")
    (auto simp: b_late_def b_local_def bakery_step_defs bakery_no_wrap_def succ_no_wrap less_Suc_eq)

lemma b_equal_step:
  assumes "number l c = number l i" "b_local l i" "number l i \<noteq> 0" "b_local l c" "i \<noteq> c"
  shows "number (bakery_step c l) c = number (bakery_step c l) i \<or> b_passed (bakery_step c l) i c"
  using assms bakery_step_other [of i c l]
  by (cases "b_pc l c") (auto simp: b_passed_def b_local_def bakery_step_defs)

lemma b_pair_other_step:
  assumes p: "b_pair l i c" and i: "b_local l i" "i \<noteq> c" "i < SMP_NCORES" and c: "b_local l c" "bakery_no_wrap c l"
  shows "b_pair (bakery_step c l) i c"
proof -
  note pc = bakery_step_other(1) [OF i(2), of l]
  note P = b_passed_step [OF _ c i(2,3)] and L = b_late_step [OF _ c i(2,3)]
  have E: "number (bakery_step c l) c = number (bakery_step c l) i \<or> b_passed (bakery_step c l) i c"
    if "number l c = number l i \<or> b_passed l i c" "number l i \<noteq> 0"
    using that P b_equal_step [OF _ i(1) _ c(1) i(2)] by blast
  show ?thesis
    using p P L E i(1) unfolding b_pair_def pc by (cases "b_pc l i") (auto simp: b_local_def)
qed

lemma b_rel_cong:
  assumes "number l' c = number l c" "number l' j = number l j" "b_pc l' j = b_pc l j"
  shows "b_passed l' c j = b_passed l c j" "b_late l' c j = b_late l c j"
  using assms by (simp_all add: b_passed_def b_late_def split: bpc.split)

lemma bakery_wait_step:
  assumes "b_pc l c \<in> {BTest k, BNum1 k, BNum2 k, BNum3 k, BStats}"
  shows "number (bakery_step c l) = number l"
  using assms by (auto simp: bakery_step_defs)

lemma b_pair_self_step:
  assumes p: "b_pair l c j" and c: "b_local l c" and j: "b_local l j" "j \<noteq> c" "j < SMP_NCORES"
  shows "b_pair (bakery_step c l) c j"
proof -
  let ?l = "bakery_step c l"
  note o = bakery_step_other [OF j(2), of l]
  have cong: "b_passed ?l c j = b_passed l c j" "b_late ?l c j = b_late l c j"
    if "b_pc l c \<in> {BTest k, BNum1 k, BNum2 k, BNum3 k, BStats}" for k
    by (rule b_rel_cong; simp add: bakery_wait_step [OF that] o)+
  show ?thesis
  proof (cases "b_pc l c")
    case (BTest k)
    have "b_late l c j" if "\<not> choosing l j"
      using that j(1) by (auto simp: b_late_def b_local_def split: bpc.splits)
    moreover have "b_pc ?l c = (if \<not> k < SMP_NCORES then BStats else if k = c then BTest (Suc k)
        else if choosing l k then BTest k else BNum1 k)"
      using BTest by (simp add: bakery_step_defs)
    ultimately show ?thesis
      using p j(2,3) cong [of k] BTest by (auto simp: b_pair_def less_Suc_eq)
  next
    case (BNum1 k)
    have "b_passed l c j" if "b_late l c j" "number l j = 0"
      using that by (auto simp: b_passed_def b_late_def)
    moreover have "b_pc ?l c = (if number l k \<noteq> 0 then BNum2 k else BTest (Suc k))"
      using BNum1 by (simp add: bakery_step_defs)
    ultimately show ?thesis
      using p cong [of k] BNum1 by (auto simp: b_pair_def less_Suc_eq)
  next
    case (BNum2 k)
    have "number l j = number l c \<or> b_passed l c j" if "\<not> number l j < number l c"
      using that b_local_number [OF c] word_neq_0_conv [of "number l c"] BNum2 by (auto simp: b_passed_def)
    moreover have "b_pc ?l c = (if number l k < number l c then BNum1 k else BNum3 k)"
      using BNum2 by (simp add: bakery_step_defs)
    moreover have "number ?l = number l" using BNum2 by (intro bakery_wait_step) auto
    ultimately show ?thesis
      using p cong [of k] BNum2 by (auto simp: b_pair_def)
  next
    case (BNum3 k)
    have "number l c \<noteq> 0" using c BNum3 by (simp add: b_local_def)
    then have "b_passed l c j" if "number l j = number l c" "\<not> j < c"
      using that j(2) by (auto simp: b_passed_def)
    moreover have "b_pc ?l c = (if number l k = number l c \<and> k < c then BNum1 k else BTest (Suc k))"
      using BNum3 by (simp add: bakery_step_defs)
    ultimately show ?thesis
      using p cong [of k] BNum3 by (auto simp: b_pair_def less_Suc_eq)
  next
    case BStats
    then have "b_pc ?l c = BCrit" by (simp add: bakery_step_defs)
    with p cong BStats show ?thesis by (simp add: b_pair_def)
  next
    case BChosen
    then show ?thesis by (simp add: b_pair_def bakery_step_defs)
  qed (auto simp: b_pair_def bakery_step_defs)
qed

lemma bakery_step_inv:
  assumes inv: "bakery_inv l" and c: "c < SMP_NCORES" "bakery_no_wrap c l"
  shows "bakery_inv (bakery_step c l)"
proof -
  let ?l = "bakery_step c l"
  have loc: "b_local l i" if "i < SMP_NCORES" for i using inv that by (simp add: bakery_inv_def)
  have pair: "b_pair l i j" if "i < SMP_NCORES" "j < SMP_NCORES" "i \<noteq> j" for i j
    using inv that by (simp add: bakery_inv_def)
  have "b_local ?l i" if "i < SMP_NCORES" for i
  proof (cases "i = c")
    case True
    then show ?thesis using bakery_step_local [OF loc c(2)] c(1) by simp
  next
    case False
    then show ?thesis using loc [OF that] unfolding b_local_def
      by (cases "b_pc l i") (simp_all add: bakery_step_other)
  qed
  moreover have "b_pair ?l i j" if "i < SMP_NCORES" "j < SMP_NCORES" "i \<noteq> j" for i j
  proof -
    consider "i = c" | "j = c" "i \<noteq> c" | "i \<noteq> c" "j \<noteq> c" by blast
    then show ?thesis
    proof cases
      case 1
      then show ?thesis using b_pair_self_step [OF pair [OF that]] loc that by auto
    next
      case 2
      then show ?thesis using b_pair_other_step [OF _ loc _ that(1) loc c(2)] pair that c(1) by auto
    next
      case 3
      note o = bakery_step_other [OF 3(1), of l] bakery_step_other [OF 3(2), of l]
      have "b_passed ?l i j = b_passed l i j" "b_late ?l i j = b_late l i j"
        by (rule b_rel_cong; simp add: o)+
      then show ?thesis using pair [OF that] unfolding b_pair_def o by (cases "b_pc l i") auto
    qed
  qed
  ultimately show ?thesis by (simp add: bakery_inv_def)
qed

lemma bakery_init_inv: "bakery_inv bakery_init"
  by (simp add: bakery_inv_def bakery_init_def b_local_def b_pair_def)

lemma bakery_exclusive:
  assumes inv: "bakery_inv l" and c: "c < SMP_NCORES" "d < SMP_NCORES"
    and p: "b_pc l c \<in> {BStats, BCrit}" "b_pc l d \<in> {BStats, BCrit}"
  shows "c = d"
proof (rule ccontr)
  assume "c \<noteq> d"
  then have "b_passed l c d" "b_passed l d c"
    using inv c p by (auto simp: bakery_inv_def b_pair_def)
  moreover have "number l c \<noteq> 0" "number l d \<noteq> 0"
    using inv c p by (auto simp: bakery_inv_def b_local_def)
  ultimately have "number l c < number l d \<or> number l c = number l d \<and> c < d"
    "number l d < number l c \<or> number l d = number l c \<and> d < c"
    by (simp_all add: b_passed_def)
  then show False by (metis less_asym less_irrefl)
qed

section \<open>The contract of a lock\<close>

text \<open>
  What a client of a spinlock relies on: an invariant kept by the steps that are allowed, at most
  one core inside, and steps of one core that do not move another.
\<close>

locale spin_mutex =
  fixes lstep :: "nat \<Rightarrow> 'l \<Rightarrow> 'l" and in_cs :: "'l \<Rightarrow> nat \<Rightarrow> bool" and outside :: "'l \<Rightarrow> nat \<Rightarrow> bool"
    and trying :: "'l \<Rightarrow> nat \<Rightarrow> bool" and linv :: "'l \<Rightarrow> bool" and allowed :: "nat \<Rightarrow> 'l \<Rightarrow> bool"
  assumes step_inv: "linv l \<Longrightarrow> c < SMP_NCORES \<Longrightarrow> allowed c l \<Longrightarrow> linv (lstep c l)"
    and exclusive: "linv l \<Longrightarrow> c < SMP_NCORES \<Longrightarrow> d < SMP_NCORES \<Longrightarrow> in_cs l c \<Longrightarrow> in_cs l d \<Longrightarrow> c = d"
    and step_other: "d \<noteq> c \<Longrightarrow> in_cs (lstep c l) d = in_cs l d" "d \<noteq> c \<Longrightarrow> trying (lstep c l) d = trying l d"
    and enter: "in_cs (lstep c l) c \<Longrightarrow> trying l c"
    and attempt: "trying (lstep c l) c \<Longrightarrow> outside l c \<or> trying l c"
    and leave: "in_cs l c \<Longrightarrow> \<not> in_cs (lstep c l) c" "in_cs l c \<Longrightarrow> \<not> trying l c"
    and not_outside: "in_cs l c \<Longrightarrow> \<not> outside l c"
begin

text \<open>The increments core \<open>c\<close> has completed, of the \<open>n\<close> it has to make.\<close>

definition st_done :: "nat \<Rightarrow> 'l selftest \<Rightarrow> nat \<Rightarrow> int" where
  "st_done n s c = int n - int (st_left s c) + (if st_phase s c = StUnlock then 1 else 0)"

definition st_inv :: "nat \<Rightarrow> 'l selftest \<Rightarrow> bool" where
  "st_inv n s \<longleftrightarrow> linv (st_lock s) \<and> st_counter s = (\<Sum>c < SMP_NCORES. st_done n s c) \<and>
     (\<forall>c < SMP_NCORES. st_left s c \<le> n \<and> (st_phase s c \<noteq> StLoad \<longrightarrow> in_cs (st_lock s) c \<and> 0 < st_left s c)) \<and>
     (\<forall>c < SMP_NCORES. in_cs (st_lock s) c \<or> trying (st_lock s) c \<longrightarrow> 0 < st_left s c) \<and>
     (\<forall>c < SMP_NCORES. \<forall>v. st_phase s c = StStore v \<longrightarrow> v = st_counter s)"

lemma sum_change:
  fixes f :: "nat \<Rightarrow> int"
  assumes "c < n" and "\<And>d. d \<noteq> c \<Longrightarrow> g d = f d"
  shows "(\<Sum>d < n. g d) = (\<Sum>d < n. f d) + (g c - f c)"
proof -
  have "(\<Sum>d < n. g d) = g c + (\<Sum>d \<in> {..<n} - {c}. g d)" "(\<Sum>d < n. f d) = f c + (\<Sum>d \<in> {..<n} - {c}. f d)"
    using assms(1) by (simp_all add: sum.remove)
  moreover have "(\<Sum>d \<in> {..<n} - {c}. g d) = (\<Sum>d \<in> {..<n} - {c}. f d)"
    using assms(2) by (intro sum.cong) auto
  ultimately show ?thesis by simp
qed

lemma st_step_inv:
  assumes inv: "st_inv n s" and c: "c < SMP_NCORES" "allowed c (st_lock s)"
  shows "st_inv n (st_worker_step lstep in_cs outside c s)"
proof -
  let ?l = "st_lock s"
  from inv have i: "linv ?l" "st_counter s = (\<Sum>d < SMP_NCORES. st_done n s d)"
    "\<And>d. d < SMP_NCORES \<Longrightarrow> st_left s d \<le> n"
    "\<And>d. d < SMP_NCORES \<Longrightarrow> st_phase s d \<noteq> StLoad \<Longrightarrow> in_cs ?l d \<and> 0 < st_left s d"
    "\<And>d. d < SMP_NCORES \<Longrightarrow> in_cs ?l d \<or> trying ?l d \<Longrightarrow> 0 < st_left s d"
    "\<And>d v. d < SMP_NCORES \<Longrightarrow> st_phase s d = StStore v \<Longrightarrow> v = st_counter s"
    unfolding st_inv_def by blast+
  have li: "linv (lstep c ?l)" by (rule step_inv [OF i(1) c])
  show ?thesis
  proof (cases "outside ?l c \<and> st_left s c = 0")
    case True
    with inv show ?thesis by (simp add: st_worker_step_def)
  next
    case out: False
    show ?thesis
    proof (cases "in_cs ?l c")
      case False
      then have ph: "st_phase s c = StLoad" using i(4) [OF c(1)] by blast
      from out False have s': "st_worker_step lstep in_cs outside c s = s\<lparr>st_lock := lstep c ?l\<rparr>"
        by (auto simp: st_worker_step_def)
      have "st_phase s d \<noteq> StLoad \<longrightarrow> in_cs (lstep c ?l) d \<and> 0 < st_left s d" if "d < SMP_NCORES" for d
        using i(4) [OF that] ph step_other(1) [of d c ?l] by metis
      moreover have "in_cs (lstep c ?l) d \<or> trying (lstep c ?l) d \<longrightarrow> 0 < st_left s d" if "d < SMP_NCORES" for d
        using i(5) [OF that] enter [of c ?l] attempt [of c ?l] out step_other [of d c ?l] by (cases "d = c") auto
      ultimately show ?thesis
        using i li unfolding s' st_inv_def st_done_def by simp
    next
      case cs: True
      have alone: "st_phase s d = StLoad" if "d < SMP_NCORES" "d \<noteq> c" for d
        using exclusive [OF i(1) c(1) that(1) cs] i(4) [OF that(1)] that(2) by blast
      show ?thesis
      proof (cases "st_phase s c")
        case StLoad
        have s': "st_worker_step lstep in_cs outside c s = s\<lparr>st_phase := (st_phase s)(c := StStore (st_counter s))\<rparr>"
          using not_outside [OF cs] cs StLoad by (simp add: st_worker_step_def)
        have "(\<Sum>d < SMP_NCORES. st_done n (s\<lparr>st_phase := (st_phase s)(c := StStore (st_counter s))\<rparr>) d) =
            (\<Sum>d < SMP_NCORES. st_done n s d)"
          using StLoad by (intro sum.cong) (auto simp: st_done_def)
        with i cs show ?thesis unfolding s' st_inv_def by auto
      next
        case (StStore v)
        let ?s = "s\<lparr>st_counter := v + 1, st_phase := (st_phase s)(c := StUnlock)\<rparr>"
        have s': "st_worker_step lstep in_cs outside c s = ?s"
          using not_outside [OF cs] cs StStore by (simp add: st_worker_step_def)
        have "(\<Sum>d < SMP_NCORES. st_done n ?s d) = (\<Sum>d < SMP_NCORES. st_done n s d) + (st_done n ?s c - st_done n s c)"
          using c(1) by (intro sum_change) (auto simp: st_done_def)
        also have "\<dots> = v + 1" using i(2) i(6) [OF c(1) StStore] StStore by (simp add: st_done_def)
        finally show ?thesis
          using i cs alone unfolding s' st_inv_def by auto
      next
        case StUnlock
        let ?s = "s\<lparr>st_lock := lstep c ?l, st_left := (st_left s)(c := st_left s c - 1),
            st_phase := (st_phase s)(c := StLoad)\<rparr>"
        have s': "st_worker_step lstep in_cs outside c s = ?s"
          using not_outside [OF cs] cs StUnlock by (simp add: st_worker_step_def)
        have left: "0 < st_left s c" using i(5) [OF c(1)] cs by blast
        have "(\<Sum>d < SMP_NCORES. st_done n ?s d) = (\<Sum>d < SMP_NCORES. st_done n s d)"
          using StUnlock left by (intro sum.cong) (auto simp: st_done_def)
        moreover have "\<not> in_cs (lstep c ?l) d" if "d < SMP_NCORES" for d
          using that leave(1) [OF cs] step_other(1) [of d c ?l] exclusive [OF i(1) c(1) that cs] by metis
        moreover have "\<not> trying (lstep c ?l) c"
          using attempt [of c ?l] leave(2) [OF cs] not_outside [OF cs] by blast
        then have "trying (lstep c ?l) d \<longrightarrow> 0 < ((st_left s)(c := st_left s c - 1)) d" if "d < SMP_NCORES" for d
          using i(5) [OF that] step_other(2) [of d c ?l] by (cases "d = c") auto
        moreover have "st_left s c - 1 \<le> n" using i(3) [OF c(1)] by simp
        ultimately show ?thesis
          using i(1,2,3) li alone unfolding s' st_inv_def by auto
      qed
    qed
  qed
qed

lemma st_finished:
  assumes "st_inv n s" and "\<And>c. c < SMP_NCORES \<Longrightarrow> st_left s c = 0"
  shows "st_counter s = int n * int SMP_NCORES"
proof -
  have "st_phase s c = StLoad" if "c < SMP_NCORES" for c
    using assms that by (auto simp: st_inv_def)
  then have "(\<Sum>c < SMP_NCORES. st_done n s c) = (\<Sum>c < SMP_NCORES. int n)"
    using assms(2) by (intro sum.cong) (auto simp: st_done_def)
  with assms(1) show ?thesis by (simp add: st_inv_def mult.commute)
qed

end

section \<open>Both locks meet the contract\<close>

definition ticket_in_cs :: "ticket_lock \<Rightarrow> nat \<Rightarrow> bool" where
  "ticket_in_cs l c \<longleftrightarrow> (case t_pc l c of TCrit me \<Rightarrow> True | _ \<Rightarrow> False)"

definition ticket_outside :: "ticket_lock \<Rightarrow> nat \<Rightarrow> bool" where
  "ticket_outside l c \<longleftrightarrow> t_pc l c = TIdle"

definition ticket_trying :: "ticket_lock \<Rightarrow> nat \<Rightarrow> bool" where
  "ticket_trying l c \<longleftrightarrow> (case t_pc l c of TSpin me s \<Rightarrow> True | TStats me s \<Rightarrow> True | _ \<Rightarrow> False)"

definition bakery_in_cs :: "bakery_lock \<Rightarrow> nat \<Rightarrow> bool" where
  "bakery_in_cs l c \<longleftrightarrow> b_pc l c = BCrit"

definition bakery_outside :: "bakery_lock \<Rightarrow> nat \<Rightarrow> bool" where
  "bakery_outside l c \<longleftrightarrow> b_pc l c = BIdle"

definition bakery_trying :: "bakery_lock \<Rightarrow> nat \<Rightarrow> bool" where
  "bakery_trying l c \<longleftrightarrow> b_pc l c \<noteq> BIdle \<and> b_pc l c \<noteq> BCrit"

lemmas ticket_views = ticket_in_cs_def ticket_outside_def ticket_trying_def
lemmas bakery_views = bakery_in_cs_def bakery_outside_def bakery_trying_def

lemma ticket_step_pc:
  "d \<noteq> c \<Longrightarrow> t_pc (ticket_step c l) d = t_pc l d"
  by (auto simp: ticket_step_def fetch_add_def split: tpc.splits)

interpretation ticket: spin_mutex ticket_step ticket_in_cs ticket_outside ticket_trying ticket_inv "\<lambda>_ _. True"
proof
  show "c = d" if "ticket_inv l" "c < SMP_NCORES" "d < SMP_NCORES" "ticket_in_cs l c" "ticket_in_cs l d" for l c d
    using that by (intro ticket_exclusive) (auto simp: ticket_in_cs_def split: tpc.splits)
qed (auto simp: ticket_step_inv ticket_views ticket_step_pc,
    auto simp: ticket_step_def fetch_add_def split: tpc.splits if_splits)

interpretation bakery: spin_mutex bakery_step bakery_in_cs bakery_outside bakery_trying bakery_inv bakery_no_wrap
proof
  show "c = d" if "bakery_inv l" "c < SMP_NCORES" "d < SMP_NCORES" "bakery_in_cs l c" "bakery_in_cs l d" for l c d
    using that by (intro bakery_exclusive) (auto simp: bakery_in_cs_def)
qed (auto simp: bakery_step_inv bakery_views bakery_step_other,
    auto simp: bakery_step_defs split: bpc.splits if_splits)

section \<open>Properties\<close>

inductive ticket_run :: "ticket_lock \<Rightarrow> bool" where
  init: "ticket_run ticket_init"
| step: "ticket_run l \<Longrightarrow> c < SMP_NCORES \<Longrightarrow> ticket_run (ticket_step c l)"

inductive bakery_run :: "bakery_lock \<Rightarrow> bool" where
  init: "bakery_run bakery_init"
| step: "bakery_run l \<Longrightarrow> c < SMP_NCORES \<Longrightarrow> bakery_no_wrap c l \<Longrightarrow> bakery_run (bakery_step c l)"

lemma ticket_run_inv: "ticket_run l \<Longrightarrow> ticket_inv l"
  by (induction rule: ticket_run.induct) (auto intro: ticket_init_inv ticket_step_inv)

lemma bakery_run_inv: "bakery_run l \<Longrightarrow> bakery_inv l"
  by (induction rule: bakery_run.induct) (auto intro: bakery_init_inv bakery_step_inv)

lemma ticket_next_exists:
  assumes inv: "ticket_inv l" and w: "t_waiters l \<noteq> {}"
  shows "\<exists>c \<in> t_waiters l. t_ticket (t_pc l c) = now_serving l"
proof -
  let ?f = "\<lambda>c. unat (t_ticket (t_pc l c) - now_serving l)"
  have "inj_on ?f (t_waiters l)"
  proof (rule inj_onI)
    fix c d assume cd: "c \<in> t_waiters l" "d \<in> t_waiters l" "?f c = ?f d"
    then have "t_ticket (t_pc l c) = t_ticket (t_pc l d)"
      by (metis diff_add_cancel word_unat_eq_iff)
    with inv cd show "c = d" by (auto simp: ticket_inv_def inj_on_def)
  qed
  then have "card (?f ` t_waiters l) = card (t_waiters l)" by (rule card_image)
  moreover have "?f ` t_waiters l \<subseteq> {..<card (t_waiters l)}" using inv by (auto simp: ticket_inv_def)
  ultimately have "?f ` t_waiters l = {..<card (t_waiters l)}" by (intro card_subset_eq) auto
  moreover have "0 < card (t_waiters l)" using w by (simp add: card_gt_0_iff)
  ultimately have "0 \<in> ?f ` t_waiters l" by blast
  then obtain c where "c \<in> t_waiters l" "?f c = 0" by force
  then show ?thesis by (auto simp: unat_eq_0)
qed




text \<open>Running a schedule, with a check that it does not wrap a number.\<close>

fun bakery_sched_ok :: "nat list \<Rightarrow> bakery_lock \<Rightarrow> bool" where
  "bakery_sched_ok [] l = True"
| "bakery_sched_ok (c # cs) l \<longleftrightarrow>
     c < SMP_NCORES \<and> (case b_pc l c of BScan k m \<Rightarrow> m \<noteq> 0xFFFFFFFF | _ \<Rightarrow> True) \<and> bakery_sched_ok cs (bakery_step c l)"

lemma bakery_sched_run: "bakery_run l \<Longrightarrow> bakery_sched_ok cs l \<Longrightarrow> bakery_run (fold bakery_step cs l)"
proof (induction cs arbitrary: l)
  case (Cons c cs)
  then have "bakery_run (bakery_step c l)"
    by (intro bakery_run.step) (auto simp: bakery_no_wrap_def)
  with Cons show ?case by simp
qed simp

lemma bakery_solo:
  "bakery_sched_ok (replicate 16 0) bakery_init" "b_pc (fold bakery_step (replicate 16 0) bakery_init) 0 = BCrit"
  by code_simp+



text \<open>The runs of the self test over a lock: any core performs its next access.\<close>

inductive st_run ::
  "(nat \<Rightarrow> 'l \<Rightarrow> 'l) \<Rightarrow> ('l \<Rightarrow> nat \<Rightarrow> bool) \<Rightarrow> ('l \<Rightarrow> nat \<Rightarrow> bool) \<Rightarrow> (nat \<Rightarrow> 'l \<Rightarrow> bool) \<Rightarrow> 'l selftest \<Rightarrow> 'l selftest \<Rightarrow> bool"
  for lstep in_cs outside allowed s0 where
  start: "st_run lstep in_cs outside allowed s0 s0"
| step: "st_run lstep in_cs outside allowed s0 s \<Longrightarrow> c < SMP_NCORES \<Longrightarrow> allowed c (st_lock s) \<Longrightarrow>
    st_run lstep in_cs outside allowed s0 (st_worker_step lstep in_cs outside c s)"

context spin_mutex
begin

lemma st_run_inv:
  assumes "st_run lstep in_cs outside allowed s0 s" and "st_inv n s0"
  shows "st_inv n s"
  using assms by (induction rule: st_run.induct) (auto intro: st_step_inv)

end

definition st_expected :: "int \<Rightarrow> nat" where
  "st_expected per_core = nat (if per_core < 1 then 1000 else per_core)"

lemma ticket_st_start: "ticket.st_inv (st_expected n) (spin_selftest_start ticket_init n)"
  unfolding ticket.st_inv_def
  by (simp add: ticket.st_done_def spin_selftest_start_def st_expected_def ticket_init_inv Let_def
      ticket_views)

lemma bakery_st_start: "bakery.st_inv (st_expected n) (spin_selftest_start bakery_init n)"
  unfolding bakery.st_inv_def
  by (simp add: bakery.st_done_def spin_selftest_start_def st_expected_def bakery_init_inv Let_def
      bakery_views)


abbreviation ticket_worker :: "nat \<Rightarrow> ticket_lock selftest \<Rightarrow> ticket_lock selftest" where
  "ticket_worker \<equiv> st_worker_step ticket_step ticket_in_cs ticket_outside"

lemma ticket_worker_run:
  assumes "\<forall>c \<in> set cs. c < SMP_NCORES"
    and "st_run ticket_step ticket_in_cs ticket_outside (\<lambda>_ _. True) s0 s"
  shows "st_run ticket_step ticket_in_cs ticket_outside (\<lambda>_ _. True) s0 (fold ticket_worker cs s)"
  using assms by (induction cs arbitrary: s) (auto intro: st_run.step)


end
