(* ===== verification/Proc.thy ===== *)
theory Proc
  imports Memory Spinlock
begin

text \<open>
  The process table and scheduler of \<open>system/proc.c\<close> in its symmetric-multiprocessing build
  (\<open>SMP_SYMMETRIC\<close>), with the context switch of \<open>system/ctxsw.S\<close> and the per-core entry points of
  \<open>system/smpsched.c\<close> (\<open>smpsched_init\<close>, \<open>smpsched_poll_once\<close>, the dispatch of
  \<open>smpsched_core_loop\<close>). Every operation takes the number of the core it runs on
  (\<open>smp_core_id()\<close>), since \<open>currpid\<close> is \<open>smpsched_curr[smp_core_id()]\<close>, and is one atomic step:
  the scheduler lock is taken before the ready list is touched and released by the context the
  switch resumes, on the same core. Pointers into \<open>proctab\<close> are indices.
\<close>

section \<open>The process table\<close>

definition NPROC :: nat where "NPROC = 16"
definition NULLPROC :: nat where "NULLPROC = 0"
definition PROC_NAME_LEN :: nat where "PROC_NAME_LEN = 16"

definition SMPIDLE_BASE :: nat where
  "SMPIDLE_BASE = NPROC - (SMP_NCORES - 1)"

definition SMPIDLE_PID :: "nat \<Rightarrow> nat" where
  "SMPIDLE_PID core = SMPIDLE_BASE + core - 1"

definition IDLE_PID :: "nat \<Rightarrow> nat" where
  "IDLE_PID core = (if core = 0 then NULLPROC else SMPIDLE_PID core)"

definition IS_IDLE :: "nat \<Rightarrow> bool" where
  "IS_IDLE pid \<longleftrightarrow> pid = NULLPROC \<or> SMPIDLE_BASE \<le> pid"

datatype proc_state = PR_FREE | PR_READY | PR_CURR | PR_WAIT | PR_SLEEP | PR_TERM

record procent =
  pstate :: proc_state
  prio :: int
  stkbase :: u64
  stklen :: u64
  sp :: u64
  pname :: string
  pnext :: "nat option"
  wake_at_us :: u64

text \<open>The callee-saved registers and the stack pointer of the running core.\<close>

record cpu =
  x19 :: u64  x20 :: u64  x21 :: u64  x22 :: u64  x23 :: u64  x24 :: u64
  x25 :: u64  x26 :: u64  x27 :: u64  x28 :: u64  x29 :: u64  x30 :: u64
  sp_el1 :: u64

record sched =
  smem :: memstate
  proctab :: "nat \<Rightarrow> procent"
  smpsched_curr :: "nat \<Rightarrow> nat"
  ready_head :: "nat option"
  ready_tail :: "nat option"
  g_preempt_on :: bool
  g_resched_pending :: bool
  g_pp_fired :: u64
  g_actor_pump :: int
  sched_pick :: "nat \<Rightarrow> u64"
  smpsched_on :: bool
  poll_calls :: u64
  poll_hits :: u64
  graveyard_sp :: u64

definition upd_proc :: "nat \<Rightarrow> (procent \<Rightarrow> procent) \<Rightarrow> sched \<Rightarrow> sched" where
  "upd_proc i f s = s\<lparr>proctab := (proctab s)(i := f (proctab s i))\<rparr>"

definition set_state :: "nat \<Rightarrow> proc_state \<Rightarrow> sched \<Rightarrow> sched" where
  "set_state i st = upd_proc i (pstate_update (\<lambda>_. st))"

definition set_link :: "nat \<Rightarrow> nat option \<Rightarrow> sched \<Rightarrow> sched" where
  "set_link i q = upd_proc i (pnext_update (\<lambda>_. q))"

definition set_curr :: "nat \<Rightarrow> nat \<Rightarrow> sched \<Rightarrow> sched" where
  "set_curr core pid s = s\<lparr>smpsched_curr := (smpsched_curr s)(core := pid)\<rparr>"

definition proc_dbg_ppfired :: "sched \<Rightarrow> u64" where
  "proc_dbg_ppfired s = g_pp_fired s"

definition proc_set_preempt :: "int \<Rightarrow> sched \<Rightarrow> sched" where
  "proc_set_preempt on s = s\<lparr>g_preempt_on := on \<noteq> 0\<rparr>"

definition proc_resched_request :: "sched \<Rightarrow> sched" where
  "proc_resched_request s = s\<lparr>g_resched_pending := True\<rparr>"

definition proc_actor_pump_enter :: "sched \<Rightarrow> sched" where
  "proc_actor_pump_enter s = s\<lparr>g_actor_pump := g_actor_pump s + 1\<rparr>"

definition proc_actor_pump_leave :: "sched \<Rightarrow> sched" where
  "proc_actor_pump_leave s = (if 0 < g_actor_pump s then s\<lparr>g_actor_pump := g_actor_pump s - 1\<rparr> else s)"

text \<open>The counter registers \<open>cntpct_el0\<close> and \<open>cntfrq_el0\<close> are the arguments.\<close>

definition proc_now_us :: "u64 \<Rightarrow> u64 \<Rightarrow> u64" where
  "proc_now_us ct hz = (if hz \<noteq> 0 then (ct * 1000000) div hz else 0)"

text \<open>\<open>src\<close> is the array the string starts in; the copy stops at its first NUL.\<close>

definition copy_name :: "string \<Rightarrow> string \<Rightarrow> string" where
  "copy_name dst src =
     put_bytes dst 0 (take (PROC_NAME_LEN - 1) (takeWhile (\<lambda>c. c \<noteq> CHR 0x00) src) @ [CHR 0x00])"

section \<open>The ready list\<close>

definition ready_push :: "nat \<Rightarrow> sched \<Rightarrow> sched" where
  "ready_push p s =
     (let s = set_link p None s
      in case ready_head s of
           None \<Rightarrow> s\<lparr>ready_head := Some p, ready_tail := Some p\<rparr>
         | Some _ \<Rightarrow>
             let s = (case ready_tail s of None \<Rightarrow> s | Some t \<Rightarrow> set_link t (Some p) s)
             in s\<lparr>ready_tail := Some p\<rparr>)"

partial_function (option) ready_pop_loop ::
  "nat \<Rightarrow> nat option \<Rightarrow> nat \<Rightarrow> nat option \<Rightarrow> sched \<Rightarrow> (nat \<times> nat option) option" where
  "ready_pop_loop best bestprev prev cur s =
     (case cur of
        None \<Rightarrow> Some (best, bestprev)
      | Some c \<Rightarrow>
          if prio (proctab s best) < prio (proctab s c)
          then ready_pop_loop c (Some prev) c (pnext (proctab s c)) s
          else ready_pop_loop best bestprev c (pnext (proctab s c)) s)"

definition ready_pop :: "sched \<Rightarrow> (nat option \<times> sched) option" where
  "ready_pop s =
     (case ready_head s of
        None \<Rightarrow> Some (None, s)
      | Some h \<Rightarrow>
          (case ready_pop_loop h None h (pnext (proctab s h)) s of
             None \<Rightarrow> None
           | Some (best, bestprev) \<Rightarrow>
               let s = (case bestprev of
                          Some q \<Rightarrow> set_link q (pnext (proctab s best)) s
                        | None \<Rightarrow> s\<lparr>ready_head := pnext (proctab s best)\<rparr>);
                   s = (if ready_tail s = Some best then s\<lparr>ready_tail := bestprev\<rparr> else s);
                   s = set_link best None s
               in Some (Some best, s)))"

definition proc_ready_pop_locked :: "sched \<Rightarrow> (nat option \<times> sched) option" where
  "proc_ready_pop_locked = ready_pop"

definition proc_ready_push_locked :: "nat \<Rightarrow> sched \<Rightarrow> sched" where
  "proc_ready_push_locked = ready_push"

section \<open>Initialisation and creation\<close>

definition idle_name :: "nat \<Rightarrow> string \<Rightarrow> string" where
  "idle_name c nm = put_bytes nm 0 [CHR ''i'', CHR ''d'', CHR ''l'', CHR ''e'',
     char_of (of_char CHR ''0'' + c), CHR 0x00]"

fun smpsched_init_loop :: "nat list \<Rightarrow> sched \<Rightarrow> sched" where
  "smpsched_init_loop [] s = s"
| "smpsched_init_loop (c # cs) s =
     (let pid = SMPIDLE_PID c;
          s = upd_proc pid (\<lambda>p. p\<lparr>pstate := PR_CURR, prio := 0, stkbase := 0, stklen := 0, sp := 0,
                pnext := None, pname := idle_name c (pname p)\<rparr>) s
      in smpsched_init_loop cs (set_curr c pid s))"

definition smpsched_init :: "sched \<Rightarrow> sched" where
  "smpsched_init s = smpsched_init_loop [1..<SMP_NCORES] (set_curr 0 NULLPROC s)"

fun proc_init_loop :: "nat list \<Rightarrow> sched \<Rightarrow> sched" where
  "proc_init_loop [] s = s"
| "proc_init_loop (i # is) s =
     proc_init_loop is (upd_proc i (\<lambda>p. p\<lparr>pstate := PR_FREE, pnext := None\<rparr>) s)"

definition proc_init :: "sched \<Rightarrow> sched" where
  "proc_init s =
     (let s = proc_init_loop [0..<NPROC] s;
          s = upd_proc NULLPROC (\<lambda>p. p\<lparr>pstate := PR_CURR, prio := 0, stkbase := 0, stklen := 0,
                sp := 0, pname := copy_name (pname p) ''null/shell''\<rparr>) s;
          s = s\<lparr>ready_head := None, ready_tail := None\<rparr>
      in smpsched_init s)"

definition alloc_slot :: "sched \<Rightarrow> nat option" where
  "alloc_slot s = List.find (\<lambda>i. pstate (proctab s i) = PR_FREE) [1..<NPROC]"

definition initial_frame :: "u64 \<Rightarrow> u64 \<Rightarrow> u64 list" where
  "initial_frame trampoline entry = [0, trampoline, 0, 0, 0, 0, 0, 0, 0, 0, entry, 0]"

text \<open>
  \<open>trampoline\<close> is the address of \<open>proc_entry_trampoline_smp\<close>, \<open>entry\<close> that of the process's function.
  Both creation functions fill the slot and the initial frame at \<open>q\<close> in the same way.
\<close>

definition fill_slot ::
  "u64 \<Rightarrow> u64 \<Rightarrow> nat \<Rightarrow> u64 \<Rightarrow> u64 \<Rightarrow> string \<Rightarrow> u64 \<Rightarrow> sched \<Rightarrow> sched" where
  "fill_slot trampoline entry pid stk stksize name q s =
     (let s = upd_proc pid (\<lambda>p. p\<lparr>pstate := PR_READY, prio := 1, stkbase := stk,
                stklen := stksize, pname := copy_name (pname p) name, pnext := None\<rparr>) s;
          s = s\<lparr>smem := store_words q (initial_frame trampoline entry) (smem s)\<rparr>
      in upd_proc pid (sp_update (\<lambda>_. q)) s)"

definition proc_create :: "u64 \<Rightarrow> u64 \<Rightarrow> u64 \<Rightarrow> string \<Rightarrow> sched \<Rightarrow> (int \<times> sched) option" where
  "proc_create trampoline entry stksize name s =
     (case alloc_slot s of
        None \<Rightarrow> Some (-1, s)
      | Some pid \<Rightarrow>
          let stksize = (if stksize < 1024 then 1024 else stksize);
              stksize = ROUNDMB stksize
          in case getmem stksize (smem s) of
               None \<Rightarrow> None
             | Some (stk, m) \<Rightarrow>
                 if stk = 0 then Some (-1, s\<lparr>smem := m\<rparr>)
                 else
                   let sp_top = stk + stksize;
                       s = fill_slot trampoline entry pid stk stksize name (sp_top - 96) (s\<lparr>smem := m\<rparr>)
                   in Some (int pid, ready_push pid s))"

definition create_static_common ::
  "u64 \<Rightarrow> u64 \<Rightarrow> u64 \<Rightarrow> u64 \<Rightarrow> string \<Rightarrow> bool \<Rightarrow> sched \<Rightarrow> int \<times> sched" where
  "create_static_common trampoline entry stk stksize name do_ready s =
     (case alloc_slot s of
        None \<Rightarrow> (-1, s)
      | Some pid \<Rightarrow>
          if stk = 0 \<or> stksize < 1024 then (-1, s)
          else
            let sp_top = (stk + stksize) AND NOT 15;
                s = fill_slot trampoline entry pid stk stksize name (sp_top - 96) s
            in (int pid, if do_ready then ready_push pid s else set_state pid PR_WAIT s))"

definition proc_create_static :: "u64 \<Rightarrow> u64 \<Rightarrow> u64 \<Rightarrow> u64 \<Rightarrow> string \<Rightarrow> sched \<Rightarrow> int \<times> sched" where
  "proc_create_static trampoline entry stk stksize name =
     create_static_common trampoline entry stk stksize name True"

definition proc_create_static_susp :: "u64 \<Rightarrow> u64 \<Rightarrow> u64 \<Rightarrow> u64 \<Rightarrow> string \<Rightarrow> sched \<Rightarrow> int \<times> sched" where
  "proc_create_static_susp trampoline entry stk stksize name =
     create_static_common trampoline entry stk stksize name False"

definition proc_ready :: "int \<Rightarrow> sched \<Rightarrow> sched" where
  "proc_ready pid s =
     (if pid \<le> 0 \<or> int NPROC \<le> pid then s
      else ready_push (nat pid) (set_state (nat pid) PR_READY s))"

section \<open>The context switch\<close>

text \<open>
  \<open>ctxsw\<close> pushes x19..x30 on the running stack, writes the resulting stack pointer through its
  first argument (\<open>old\<close>: a slot of \<open>proctab\<close>, or the graveyard), and pops the same frame from
  \<open>new_sp\<close>. It returns to the popped x30.
\<close>

definition save_frame :: "cpu \<Rightarrow> u64 list" where
  "save_frame r = [x29 r, x30 r, x27 r, x28 r, x25 r, x26 r, x23 r, x24 r, x21 r, x22 r, x19 r, x20 r]"

definition load_frame :: "memstate \<Rightarrow> u64 \<Rightarrow> cpu" where
  "load_frame m q =
     \<lparr>x19 = ram m (q + 80), x20 = ram m (q + 88), x21 = ram m (q + 64), x22 = ram m (q + 72),
      x23 = ram m (q + 48), x24 = ram m (q + 56), x25 = ram m (q + 32), x26 = ram m (q + 40),
      x27 = ram m (q + 16), x28 = ram m (q + 24), x29 = ram m q, x30 = ram m (q + 8),
      sp_el1 = q + 96\<rparr>"

definition set_old_sp :: "nat option \<Rightarrow> u64 \<Rightarrow> sched \<Rightarrow> sched" where
  "set_old_sp old v s =
     (case old of None \<Rightarrow> s\<lparr>graveyard_sp := v\<rparr> | Some i \<Rightarrow> upd_proc i (sp_update (\<lambda>_. v)) s)"

definition ctxsw :: "nat option \<Rightarrow> u64 \<Rightarrow> cpu \<Rightarrow> sched \<Rightarrow> cpu \<times> sched" where
  "ctxsw old new_sp r s =
     (let q = sp_el1 r - 96;
          s = s\<lparr>smem := store_words q (save_frame r) (smem s)\<rparr>;
          s = set_old_sp old q s
      in (load_frame (smem s) new_sp, s))"

section \<open>Dispatching\<close>

definition proc_resched :: "nat \<Rightarrow> cpu \<Rightarrow> sched \<Rightarrow> (cpu \<times> sched) option" where
  "proc_resched core r s =
     (case ready_pop s of
        None \<Rightarrow> None
      | Some (None, s) \<Rightarrow> Some (r, s)
      | Some (Some new_pid, s) \<Rightarrow>
          let s = s\<lparr>sched_pick := (sched_pick s)(core := sched_pick s core + 1)\<rparr>;
              old_pid = smpsched_curr s core;
              s = (if pstate (proctab s old_pid) = PR_CURR \<and> \<not> IS_IDLE old_pid
                   then ready_push old_pid (set_state old_pid PR_READY s) else s);
              s = set_state new_pid PR_CURR s;
              s = set_curr core new_pid s
          in Some (ctxsw (Some old_pid) (sp (proctab s new_pid)) r s))"

text \<open>The common tail of \<open>proc_block\<close>, \<open>proc_sleep_us\<close> and \<open>proc_exit\<close>: the best ready process, or
  the idle process of this core.\<close>

definition switch_away :: "nat option \<Rightarrow> nat \<Rightarrow> cpu \<Rightarrow> sched \<Rightarrow> (cpu \<times> sched) option" where
  "switch_away old core r s =
     (case ready_pop s of
        None \<Rightarrow> None
      | Some (popped, s) \<Rightarrow>
          let newp = (case popped of None \<Rightarrow> IDLE_PID core | Some p \<Rightarrow> p);
              s = set_state newp PR_CURR s;
              s = set_curr core newp s
          in Some (ctxsw old (sp (proctab s newp)) r s))"

definition proc_block :: "nat \<Rightarrow> cpu \<Rightarrow> sched \<Rightarrow> (cpu \<times> sched) option" where
  "proc_block core r s =
     (let oldp = smpsched_curr s core in switch_away (Some oldp) core r (set_state oldp PR_WAIT s))"

definition proc_setprio :: "int \<Rightarrow> int \<Rightarrow> sched \<Rightarrow> sched" where
  "proc_setprio pid p s =
     (if pid < 0 \<or> int NPROC \<le> pid then s else upd_proc (nat pid) (prio_update (\<lambda>_. p)) s)"

text \<open>\<open>now\<close> is the value of \<open>proc_now_us()\<close>; arming the one-shot timer is a device effect.\<close>

definition proc_sleep_us :: "u64 \<Rightarrow> u64 \<Rightarrow> nat \<Rightarrow> cpu \<Rightarrow> sched \<Rightarrow> (cpu \<times> sched) option" where
  "proc_sleep_us now us core r s =
     (let oldp = smpsched_curr s core;
          s = upd_proc oldp (wake_at_us_update (\<lambda>_. now + us)) s;
          s = set_state oldp PR_SLEEP s
      in switch_away (Some oldp) core r s)"

fun timer_tick_loop :: "u64 \<Rightarrow> nat list \<Rightarrow> bool \<Rightarrow> sched \<Rightarrow> bool \<times> sched" where
  "timer_tick_loop now [] woke s = (woke, s)"
| "timer_tick_loop now (i # is) woke s =
     (if pstate (proctab s i) = PR_SLEEP \<and> wake_at_us (proctab s i) \<le> now
      then timer_tick_loop now is True (ready_push i (set_state i PR_READY s))
      else timer_tick_loop now is woke s)"

definition proc_timer_tick :: "u64 \<Rightarrow> sched \<Rightarrow> sched" where
  "proc_timer_tick now s =
     (let (woke, s) = timer_tick_loop now [0..<NPROC] False s
      in if woke then s\<lparr>g_resched_pending := True\<rparr> else s)"

definition PROC_TICK_FLOOR_US :: u64 where "PROC_TICK_FLOOR_US = 1000"
definition PROC_TICK_MIN_US :: u64 where "PROC_TICK_MIN_US = 200"

fun next_delay_loop :: "u64 \<Rightarrow> nat list \<Rightarrow> u64 \<Rightarrow> sched \<Rightarrow> u64" where
  "next_delay_loop now [] best s = best"
| "next_delay_loop now (i # is) best s =
     (if pstate (proctab s i) = PR_SLEEP then
        let w = wake_at_us (proctab s i);
            dd = (if now < w then w - now else 0)
        in next_delay_loop now is (if dd < best then dd else best) s
      else next_delay_loop now is best s)"

definition proc_next_delay_us :: "u64 \<Rightarrow> sched \<Rightarrow> u64" where
  "proc_next_delay_us now s =
     (let best = next_delay_loop now [0..<NPROC] PROC_TICK_FLOOR_US s
      in if best < PROC_TICK_MIN_US then PROC_TICK_MIN_US else best)"

text \<open>
  \<open>smpsched_poll_once\<close> up to and including its switch: \<open>None\<close> in the middle component when there
  is nothing to run. The rest of the function runs when the core's own context is resumed.
\<close>

definition smpsched_poll_once :: "nat \<Rightarrow> cpu \<Rightarrow> sched \<Rightarrow> (cpu \<times> nat option \<times> sched) option" where
  "smpsched_poll_once core r s =
     (if \<not> smpsched_on s then Some (r, None, s)
      else
        let s = s\<lparr>poll_calls := poll_calls s + 1\<rparr>
        in case proc_ready_pop_locked s of
             None \<Rightarrow> None
           | Some (None, s) \<Rightarrow> Some (r, None, s)
           | Some (Some newp, s) \<Rightarrow>
               let saved = smpsched_curr s core;
                   s = set_state newp PR_CURR s;
                   s = set_curr core newp s;
                   (r, s) = ctxsw (Some saved) (sp (proctab s newp)) r s
               in Some (r, Some saved, s))"

definition smpsched_poll_resume :: "nat \<Rightarrow> nat \<Rightarrow> sched \<Rightarrow> sched" where
  "smpsched_poll_resume core saved s =
     (let s = set_curr core saved s in s\<lparr>poll_hits := poll_hits s + 1\<rparr>)"

text \<open>One round of \<open>smpsched_core_loop\<close> on a secondary core, without the mailbox poll.\<close>

definition smpsched_core_round :: "nat \<Rightarrow> cpu \<Rightarrow> sched \<Rightarrow> (cpu \<times> sched) option" where
  "smpsched_core_round core r s =
     (case proc_ready_pop_locked s of
        None \<Rightarrow> None
      | Some (None, s) \<Rightarrow> Some (r, s)
      | Some (Some newp, s) \<Rightarrow>
          let s = set_state newp PR_CURR s;
              s = set_curr core newp s
          in Some (ctxsw (Some (SMPIDLE_PID core)) (sp (proctab s newp)) r s))"

definition proc_preempt :: "nat \<Rightarrow> cpu \<Rightarrow> sched \<Rightarrow> (cpu \<times> sched) option" where
  "proc_preempt core r s =
     (if smpsched_on s \<and> IS_IDLE (smpsched_curr s core)
      then map_option (\<lambda>(r, _, s). (r, s)) (smpsched_poll_once core r s)
      else if \<not> g_preempt_on s \<or> \<not> g_resched_pending s then Some (r, s)
      else if g_actor_pump s \<noteq> 0 then Some (r, s)
      else
        let s = s\<lparr>g_resched_pending := False\<rparr>
        in if \<not> IS_IDLE (smpsched_curr s core)
           then proc_resched core r (s\<lparr>g_pp_fired := g_pp_fired s + 1\<rparr>)
           else Some (r, s))"

definition proc_yield :: "nat \<Rightarrow> cpu \<Rightarrow> sched \<Rightarrow> (cpu \<times> sched) option" where
  "proc_yield = proc_resched"

definition proc_is_free :: "int \<Rightarrow> sched \<Rightarrow> bool" where
  "proc_is_free pid s = (if pid < 0 \<or> int NPROC \<le> pid then True else pstate (proctab s (nat pid)) = PR_FREE)"

definition proc_exit :: "nat \<Rightarrow> cpu \<Rightarrow> sched \<Rightarrow> (cpu \<times> sched) option" where
  "proc_exit core r s =
     (let me = smpsched_curr s core in switch_away None core r (set_state me PR_FREE s))"

section \<open>Reading updated tables\<close>

lemma upd_proc_fields [simp]:
  "proctab (upd_proc i f s) = (proctab s)(i := f (proctab s i))"
  "smem (upd_proc i f s) = smem s" "smpsched_curr (upd_proc i f s) = smpsched_curr s"
  "ready_head (upd_proc i f s) = ready_head s" "ready_tail (upd_proc i f s) = ready_tail s"
  "smpsched_on (upd_proc i f s) = smpsched_on s" "sched_pick (upd_proc i f s) = sched_pick s"
  by (simp_all add: upd_proc_def)

lemma set_state_fields [simp]:
  "proctab (set_state i st s) = (proctab s)(i := (proctab s i)\<lparr>pstate := st\<rparr>)"
  "smem (set_state i st s) = smem s" "smpsched_curr (set_state i st s) = smpsched_curr s"
  "ready_head (set_state i st s) = ready_head s" "ready_tail (set_state i st s) = ready_tail s"
  "smpsched_on (set_state i st s) = smpsched_on s" "sched_pick (set_state i st s) = sched_pick s"
  by (simp_all add: set_state_def)

lemma set_link_fields [simp]:
  "proctab (set_link i q s) = (proctab s)(i := (proctab s i)\<lparr>pnext := q\<rparr>)"
  "smem (set_link i q s) = smem s" "smpsched_curr (set_link i q s) = smpsched_curr s"
  "ready_head (set_link i q s) = ready_head s" "ready_tail (set_link i q s) = ready_tail s"
  by (simp_all add: set_link_def)

lemma set_curr_fields [simp]:
  "proctab (set_curr c p s) = proctab s" "smem (set_curr c p s) = smem s"
  "smpsched_curr (set_curr c p s) = (smpsched_curr s)(c := p)"
  "ready_head (set_curr c p s) = ready_head s" "ready_tail (set_curr c p s) = ready_tail s"
  by (simp_all add: set_curr_def)

text \<open>\<open>same_procs s s'\<close>: the two states differ at most in the links of the ready list.\<close>

definition same_procs :: "sched \<Rightarrow> sched \<Rightarrow> bool" where
  "same_procs s s' \<longleftrightarrow>
     (\<forall>i. (proctab s' i)\<lparr>pnext := None\<rparr> = (proctab s i)\<lparr>pnext := None\<rparr>) \<and>
     s'\<lparr>proctab := proctab s, ready_head := ready_head s, ready_tail := ready_tail s\<rparr> = s"

lemma same_procs_entry:
  assumes "same_procs s s'"
  shows "pstate (proctab s' i) = pstate (proctab s i)" "prio (proctab s' i) = prio (proctab s i)"
    "sp (proctab s' i) = sp (proctab s i)" "stkbase (proctab s' i) = stkbase (proctab s i)"
    "wake_at_us (proctab s' i) = wake_at_us (proctab s i)" "stklen (proctab s' i) = stklen (proctab s i)"
proof -
  have "(proctab s' i)\<lparr>pnext := None\<rparr> = (proctab s i)\<lparr>pnext := None\<rparr>"
    using assms by (simp add: same_procs_def)
  then show "pstate (proctab s' i) = pstate (proctab s i)" "prio (proctab s' i) = prio (proctab s i)"
    "sp (proctab s' i) = sp (proctab s i)" "stkbase (proctab s' i) = stkbase (proctab s i)"
    "wake_at_us (proctab s' i) = wake_at_us (proctab s i)" "stklen (proctab s' i) = stklen (proctab s i)"
    by (cases "proctab s' i"; cases "proctab s i"; simp)+
qed

lemma same_procs_globals:
  assumes "same_procs s s'"
  shows "smem s' = smem s" "smpsched_curr s' = smpsched_curr s" "smpsched_on s' = smpsched_on s"
    "sched_pick s' = sched_pick s" "g_preempt_on s' = g_preempt_on s"
  using assms by (cases s; cases s'; simp add: same_procs_def)+

lemma same_procs_refl [simp]: "same_procs s s"
  by (simp add: same_procs_def)

lemma same_procs_trans: "same_procs s s' \<Longrightarrow> same_procs s' s'' \<Longrightarrow> same_procs s s''"
  by (cases s; cases s'; cases s'') (simp add: same_procs_def)

lemma same_procs_steps [simp]:
  "same_procs s (set_link i q s)" "same_procs s (s\<lparr>ready_head := h\<rparr>)" "same_procs s (s\<lparr>ready_tail := t\<rparr>)"
  by (cases s; simp add: same_procs_def set_link_def upd_proc_def)+

lemmas same_procs_simps = same_procs_entry same_procs_globals

section \<open>The ready list as a queue\<close>

definition ready_queue :: "sched \<Rightarrow> nat list \<Rightarrow> bool" where
  "ready_queue s xs \<longleftrightarrow>
     chain (\<lambda>p. pnext (proctab s p)) (ready_head s) xs None \<and>
     ready_tail s = (if xs = [] then None else Some (last xs))"

lemma ready_queue_cong:
  assumes "\<And>p. p \<in> set xs \<Longrightarrow> pnext (proctab s' p) = pnext (proctab s p)"
    and "ready_head s' = ready_head s" "ready_tail s' = ready_tail s"
  shows "ready_queue s' xs = ready_queue s xs"
  unfolding ready_queue_def using assms chain_cong [of xs "\<lambda>p. pnext (proctab s' p)"] by simp

lemma ready_queue_distinct: "ready_queue s xs \<Longrightarrow> distinct xs"
  by (auto simp: ready_queue_def intro: chain_None_distinct)

lemma ready_queue_unique: "ready_queue s xs \<Longrightarrow> ready_queue s ys \<Longrightarrow> xs = ys"
  by (auto simp: ready_queue_def intro: chain_fun_eq)

lemma chain_link:
  assumes "u \<notin> set xs"
  shows "chain (\<lambda>p. pnext (((proctab s)(u := e)) p)) h xs q = chain (\<lambda>p. pnext (proctab s p)) h xs q"
  using assms by (intro chain_cong) auto

lemma same_procs_step2 [simp]:
  "same_procs s s' \<Longrightarrow> same_procs s (set_link i q s')" "same_procs s s' \<Longrightarrow> same_procs s (s'\<lparr>ready_head := h\<rparr>)"
  "same_procs s s' \<Longrightarrow> same_procs s (s'\<lparr>ready_tail := t\<rparr>)"
  by (erule same_procs_trans, simp)+

lemma ready_push_same: "same_procs s (ready_push p s)"
  unfolding ready_push_def Let_def by (simp split: option.split)

lemma ready_push_queue:
  assumes q: "ready_queue s xs" and p: "p \<notin> set xs"
  shows "ready_queue (ready_push p s) (xs @ [p])"
proof (cases xs rule: rev_cases)
  case Nil
  with q show ?thesis
    by (auto simp: ready_queue_def ready_push_def Let_def)
next
  case (snoc ys t)
  have d: "distinct xs" by (rule ready_queue_distinct [OF q])
  from q snoc have c: "chain (\<lambda>p. pnext (proctab s p)) (ready_head s) ys (Some t)" "pnext (proctab s t) = None"
    "ready_tail s = Some t"
    by (auto simp: ready_queue_def chain_snoc)
  have "ready_head s \<noteq> None" using c(1) by (cases ys) auto
  then obtain h where h: "ready_head s = Some h" by blast
  have "t \<notin> set ys" "p \<notin> set ys" "t \<noteq> p" using d p snoc by auto
  then have "chain (\<lambda>q. pnext (proctab (ready_push p s) q)) (ready_head s) ys (Some t)"
    using c h by (subst chain_cong [of ys _ "\<lambda>p. pnext (proctab s p)"]) (auto simp: ready_push_def Let_def)
  then show ?thesis
    using c h \<open>t \<noteq> p\<close> by (auto simp: ready_queue_def snoc chain_append ready_push_def Let_def)
qed

definition prev_of :: "nat list \<Rightarrow> nat option" where
  "prev_of as = (if as = [] then None else Some (last as))"

definition best_split :: "(nat \<Rightarrow> int) \<Rightarrow> nat list \<Rightarrow> nat list \<Rightarrow> nat \<Rightarrow> nat list \<Rightarrow> bool" where
  "best_split pr xs as b bs \<longleftrightarrow>
     xs = as @ b # bs \<and> (\<forall>a \<in> set as. pr a < pr b) \<and> (\<forall>c \<in> set bs. pr c \<le> pr b)"

lemma ready_pop_loop_best:
  assumes "chain (\<lambda>p. pnext (proctab s p)) cur suf None"
    and "best_split (\<lambda>p. prio (proctab s p)) seen as b bs" and "prev = last seen"
  shows "\<exists>as' b' bs'. best_split (\<lambda>p. prio (proctab s p)) (seen @ suf) as' b' bs' \<and>
           ready_pop_loop b (prev_of as) prev cur s = Some (b', prev_of as')"
  using assms
proof (induction suf arbitrary: cur seen as b bs prev)
  case Nil
  then show ?case by (auto simp: ready_pop_loop.simps [of _ _ _ None])
next
  case (Cons c suf)
  let ?pr = "\<lambda>p. prio (proctab s p)"
  from Cons.prems have cur: "cur = Some c" and tl: "chain (\<lambda>p. pnext (proctab s p)) (pnext (proctab s c)) suf None"
    by auto
  from Cons.prems(2) have seen: "seen = as @ b # bs" by (simp add: best_split_def)
  show ?case
  proof (cases "?pr b < ?pr c")
    case True
    from Cons.prems(2) True have "best_split ?pr (seen @ [c]) seen c []"
      by (force simp: best_split_def)
    from Cons.IH [OF tl this, of c] show ?thesis
      using True Cons.prems(3) by (auto simp: cur seen prev_of_def ready_pop_loop.simps [of _ _ _ "Some c"])
  next
    case False
    with Cons.prems(2) have "best_split ?pr (seen @ [c]) as b (bs @ [c])"
      by (auto simp: best_split_def)
    from Cons.IH [OF tl this, of c] show ?thesis
      using False by (simp add: cur ready_pop_loop.simps [of _ _ _ "Some c"])
  qed
qed

lemma ready_queue_remove:
  assumes q: "ready_queue s (as @ b # bs)"
  defines "s1 \<equiv> (case prev_of as of Some q \<Rightarrow> set_link q (pnext (proctab s b)) s
                | None \<Rightarrow> s\<lparr>ready_head := pnext (proctab s b)\<rparr>)"
  defines "s2 \<equiv> (if ready_tail s1 = Some b then s1\<lparr>ready_tail := prev_of as\<rparr> else s1)"
  shows "ready_queue (set_link b None s2) (as @ bs)" and "same_procs s (set_link b None s2)"
proof -
  have d: "distinct (as @ b # bs)" by (rule ready_queue_distinct [OF q])
  from q have c: "chain (\<lambda>p. pnext (proctab s p)) (ready_head s) as (Some b)"
    "chain (\<lambda>p. pnext (proctab s p)) (pnext (proctab s b)) bs None"
    by (auto simp: ready_queue_def chain_append)
  have t: "ready_tail s = Some (if bs = [] then b else last bs)"
    using q by (simp add: ready_queue_def)
  have b: "last bs \<noteq> b" if "bs \<noteq> []" using d last_in_set [OF that] by auto
  define F where "F = set_link b None s2"
  have nx: "pnext (proctab F p) = (if p = b then None else if prev_of as = Some p then pnext (proctab s b)
      else pnext (proctab s p))" for p
    by (auto simp: F_def s2_def s1_def prev_of_def)
  have hd: "ready_head F = (if as = [] then pnext (proctab s b) else ready_head s)"
    by (auto simp: F_def s2_def s1_def prev_of_def)
  have tl: "ready_tail F = (if as @ bs = [] then None else Some (last (as @ bs)))"
    using t b by (auto simp: F_def s2_def s1_def prev_of_def)
  have "last as \<notin> set bs" if "as \<noteq> []" using d last_in_set [OF that] by auto
  then have bs: "chain (\<lambda>p. pnext (proctab F p)) (pnext (proctab s b)) bs None"
    using d c(2) by (subst chain_cong [of bs _ "\<lambda>p. pnext (proctab s p)"]) (auto simp: nx prev_of_def)
  have "chain (\<lambda>p. pnext (proctab F p)) (ready_head F) (as @ bs) None"
  proof (cases as rule: rev_cases)
    case Nil
    with bs hd show ?thesis by simp
  next
    case (snoc ys a)
    with c(1) have ys: "chain (\<lambda>p. pnext (proctab s p)) (ready_head s) ys (Some a)"
      by (auto simp: chain_snoc)
    have "chain (\<lambda>p. pnext (proctab F p)) (ready_head s) ys (Some a)"
      using d snoc ys by (subst chain_cong [of ys _ "\<lambda>p. pnext (proctab s p)"]) (auto simp: nx prev_of_def)
    moreover have "pnext (proctab F a) = pnext (proctab s b)" using d by (simp add: nx snoc prev_of_def)
    ultimately show ?thesis using bs hd by (auto simp: snoc chain_append)
  qed
  with tl show "ready_queue (set_link b None s2) (as @ bs)"
    by (simp add: ready_queue_def F_def)
  have "same_procs s s1" by (auto simp: s1_def split: option.splits)
  moreover have "same_procs s1 s2" by (simp add: s2_def)
  moreover have "same_procs s2 (set_link b None s2)" by simp
  ultimately show "same_procs s (set_link b None s2)" by (blast intro: same_procs_trans)
qed

lemma ready_pop_empty: "ready_queue s [] \<Longrightarrow> ready_pop s = Some (None, s)"
  by (simp add: ready_queue_def ready_pop_def)

lemma ready_pop_best:
  assumes q: "ready_queue s xs" and ne: "xs \<noteq> []"
  shows "\<exists>as b bs s'. best_split (\<lambda>p. prio (proctab s p)) xs as b bs \<and> ready_pop s = Some (Some b, s') \<and>
           ready_queue s' (as @ bs) \<and> same_procs s s'"
proof -
  from ne obtain h tl where xs: "xs = h # tl" by (cases xs) auto
  with q have hd: "ready_head s = Some h" "chain (\<lambda>p. pnext (proctab s p)) (pnext (proctab s h)) tl None"
    by (auto simp: ready_queue_def)
  have "best_split (\<lambda>p. prio (proctab s p)) [h] [] h []" by (simp add: best_split_def)
  from ready_pop_loop_best [OF hd(2) this, of h] obtain as b bs where
    sp: "best_split (\<lambda>p. prio (proctab s p)) xs as b bs"
    and lp: "ready_pop_loop h None h (pnext (proctab s h)) s = Some (b, prev_of as)"
    by (auto simp: xs prev_of_def)
  from sp q have "ready_queue s (as @ b # bs)" by (simp add: best_split_def)
  note rm = ready_queue_remove [OF this]
  let ?s1 = "case prev_of as of Some q \<Rightarrow> set_link q (pnext (proctab s b)) s
             | None \<Rightarrow> s\<lparr>ready_head := pnext (proctab s b)\<rparr>"
  let ?s2 = "if ready_tail ?s1 = Some b then ?s1\<lparr>ready_tail := prev_of as\<rparr> else ?s1"
  have "ready_pop s = Some (Some b, set_link b None ?s2)"
    by (simp add: ready_pop_def hd(1) lp Let_def)
  with sp rm show ?thesis by blast
qed

section \<open>Dispatch order\<close>

text \<open>
  What the scheduler relies on: \<open>push\<close> appends, \<open>pop\<close> takes the first process of the highest
  priority, and neither changes a priority.
\<close>

locale dispatch_queue =
  fixes push :: "nat \<Rightarrow> 's \<Rightarrow> 's" and pop :: "'s \<Rightarrow> (nat option \<times> 's) option"
    and queue :: "'s \<Rightarrow> nat list \<Rightarrow> bool" and pr :: "'s \<Rightarrow> nat \<Rightarrow> int"
  assumes push_queue: "queue s xs \<Longrightarrow> p \<notin> set xs \<Longrightarrow> queue (push p s) (xs @ [p])"
    and push_prio: "pr (push p s) = pr s"
    and pop_none: "queue s [] \<Longrightarrow> pop s = Some (None, s)"
    and pop_some: "queue s xs \<Longrightarrow> xs \<noteq> [] \<Longrightarrow>
      \<exists>as b bs s'. best_split (pr s) xs as b bs \<and> pop s = Some (Some b, s') \<and> queue s' (as @ bs) \<and> pr s' = pr s"
begin

primrec drain :: "nat \<Rightarrow> 's \<Rightarrow> (nat list \<times> 's) option" where
  "drain 0 s = Some ([], s)"
| "drain (Suc n) s =
     (case pop s of
        Some (Some b, s') \<Rightarrow> (case drain n s' of Some (ys, s'') \<Rightarrow> Some (b # ys, s'') | None \<Rightarrow> None)
      | _ \<Rightarrow> None)"

lemma sort_key_best:
  assumes "\<forall>a \<in> set as. f b < (f a :: int)" and "\<forall>c \<in> set bs. f b \<le> f c"
  shows "sort_key f (as @ b # bs) = b # sort_key f (as @ bs)"
  using assms
proof (induction as)
  case Nil
  then show ?case by (simp add: insort_is_Cons)
next
  case (Cons a as)
  then show ?case by simp
qed

text \<open>Emptying the queue dispatches the stable sort by descending priority.\<close>

lemma drain_sorted:
  "queue s xs \<Longrightarrow> \<exists>s'. drain (length xs) s = Some (sort_key (\<lambda>p. - pr s p) xs, s') \<and> queue s' []"
proof (induction "length xs" arbitrary: s xs)
  case 0
  then show ?case by auto
next
  case (Suc n)
  from Suc.hyps(2) have "xs \<noteq> []" by auto
  from pop_some [OF Suc.prems this] obtain as b bs s' where
    sp: "best_split (pr s) xs as b bs" "pop s = Some (Some b, s')" "queue s' (as @ bs)" "pr s' = pr s"
    by blast
  then have len: "n = length (as @ bs)" using Suc.hyps(2) by (simp add: best_split_def)
  have "sort_key (\<lambda>p. - pr s p) xs = b # sort_key (\<lambda>p. - pr s p) (as @ bs)"
    using sp(1) by (auto simp: best_split_def intro!: sort_key_best)
  with Suc.hyps(1) [OF len sp(3)] sp(2,4) Suc.hyps(2) len show ?case
    by (auto simp: Suc.hyps(2) [symmetric])
qed

end

interpretation ready: dispatch_queue ready_push ready_pop ready_queue "\<lambda>s p. prio (proctab s p)"
proof
  show "(\<lambda>q. prio (proctab (ready_push p s) q)) = (\<lambda>q. prio (proctab s q))" for p s
    by (simp add: same_procs_entry [OF ready_push_same])
next
  fix s xs
  assume "ready_queue s xs" "xs \<noteq> []"
  from ready_pop_best [OF this] obtain as b bs s' where
    "best_split (\<lambda>p. prio (proctab s p)) xs as b bs" "ready_pop s = Some (Some b, s')"
    "ready_queue s' (as @ bs)" "same_procs s s'"
    by blast
  moreover from this have "(\<lambda>p. prio (proctab s' p)) = (\<lambda>p. prio (proctab s p))"
    by (simp add: same_procs_entry)
  ultimately show "\<exists>as b bs s'. best_split (\<lambda>p. prio (proctab s p)) xs as b bs \<and> ready_pop s = Some (Some b, s') \<and>
      ready_queue s' (as @ bs) \<and> (\<lambda>p. prio (proctab s' p)) = (\<lambda>p. prio (proctab s p))"
    by blast
qed (auto intro: ready_push_queue ready_pop_empty)

section \<open>The scheduler invariant\<close>

text \<open>
  \<open>sched_ok st cu xs\<close>, over the states of the processes, the process each core runs and the ready
  list: the list holds exactly the ready processes; idle processes are always \<open>PR_CURR\<close>, and a
  core that runs one runs its own; every other \<open>PR_CURR\<close> process is run by exactly one core.
\<close>

definition sched_ok :: "(nat \<Rightarrow> proc_state) \<Rightarrow> (nat \<Rightarrow> nat) \<Rightarrow> nat list \<Rightarrow> bool" where
  "sched_ok st cu xs \<longleftrightarrow>
     set xs = {p. p < NPROC \<and> st p = PR_READY} \<and> distinct xs \<and>
     (\<forall>p < NPROC. IS_IDLE p \<longrightarrow> st p = PR_CURR) \<and>
     (\<forall>c < SMP_NCORES. cu c < NPROC \<and> st (cu c) = PR_CURR \<and> (IS_IDLE (cu c) \<longrightarrow> cu c = IDLE_PID c)) \<and>
     (\<forall>p < NPROC. st p = PR_CURR \<longrightarrow> \<not> IS_IDLE p \<longrightarrow> (\<exists>c < SMP_NCORES. cu c = p)) \<and>
     inj_on cu {..<SMP_NCORES}"

definition states :: "sched \<Rightarrow> nat \<Rightarrow> proc_state" where
  "states s p = pstate (proctab s p)"

definition sched_inv :: "sched \<Rightarrow> bool" where
  "sched_inv s \<longleftrightarrow> (\<exists>xs. ready_queue s xs \<and> sched_ok (states s) (smpsched_curr s) xs)"

lemma states_simps [simp]:
  "states (set_state i n s) = (states s)(i := n)" "states (set_curr c p s) = states s"
  "states (ready_push p s) = states s"
  by (auto simp: states_def same_procs_entry [OF ready_push_same])

lemma ready_push_curr [simp]: "smpsched_curr (ready_push p s) = smpsched_curr s"
  by (simp add: same_procs_globals [OF ready_push_same])

lemma same_states: "same_procs s s' \<Longrightarrow> states s' = states s"
  by (auto simp: states_def same_procs_entry)

lemma idle_facts:
  assumes "c < SMP_NCORES"
  shows "IDLE_PID c < NPROC" "IS_IDLE (IDLE_PID c)" "d < SMP_NCORES \<Longrightarrow> IDLE_PID c = IDLE_PID d \<Longrightarrow> c = d"
  using assms by (auto simp: IDLE_PID_def IS_IDLE_def SMPIDLE_PID_def SMPIDLE_BASE_def NPROC_def SMP_NCORES_def
      NULLPROC_def split: if_splits)

lemma sched_ok_member:
  assumes "sched_ok st cu xs" "b \<in> set xs"
  shows "b < NPROC" "st b = PR_READY" "\<not> IS_IDLE b" "\<forall>d < SMP_NCORES. cu d \<noteq> b"
proof -
  from assms have "b \<in> {p. p < NPROC \<and> st p = PR_READY}" by (auto simp: sched_ok_def)
  then show b: "b < NPROC" "st b = PR_READY" by simp_all
  show "\<not> IS_IDLE b" "\<forall>d < SMP_NCORES. cu d \<noteq> b"
    using assms(1) b by (auto simp: sched_ok_def)
qed

lemma sched_ok_ready:
  assumes "sched_ok st cu xs" "p < NPROC" "st p \<noteq> PR_READY" "st p \<noteq> PR_CURR"
  shows "sched_ok (st(p := PR_READY)) cu (xs @ [p])"
  using assms unfolding sched_ok_def by auto

lemma sched_ok_neutral:
  assumes "sched_ok st cu xs" "st p \<noteq> PR_READY" "st p \<noteq> PR_CURR" "n \<noteq> PR_READY" "n \<noteq> PR_CURR"
  shows "sched_ok (st(p := n)) cu xs"
  using assms unfolding sched_ok_def by auto

lemma sched_ok_dispatch:
  assumes ok: "sched_ok st cu (as @ b # bs)" and c: "c < SMP_NCORES" "IS_IDLE (cu c)"
  shows "sched_ok (st(b := PR_CURR)) (cu(c := b)) (as @ bs)"
proof -
  have b: "b < NPROC" "st b = PR_READY" "\<not> IS_IDLE b" "\<forall>d < SMP_NCORES. cu d \<noteq> b"
    using sched_ok_member [OF ok, of b] by auto
  have "set (as @ bs) = {p. p < NPROC \<and> st p = PR_READY} - {b}"
    using ok unfolding sched_ok_def by auto
  moreover have "inj_on (cu(c := b)) {..<SMP_NCORES}"
    using ok b(4) unfolding sched_ok_def by (auto simp: inj_on_def)
  ultimately show ?thesis
    using ok c b unfolding sched_ok_def by auto
qed

lemma sched_ok_switch:
  assumes ok: "sched_ok st cu (as @ b # bs)" and c: "c < SMP_NCORES" "\<not> IS_IDLE (cu c)"
    and n: "n \<noteq> PR_READY" "n \<noteq> PR_CURR"
  shows "sched_ok ((st(cu c := n))(b := PR_CURR)) (cu(c := b)) (as @ bs)"
proof -
  have b: "b < NPROC" "st b = PR_READY" "\<not> IS_IDLE b" "\<forall>d < SMP_NCORES. cu d \<noteq> b"
    using sched_ok_member [OF ok, of b] by auto
  have o: "st (cu c) = PR_CURR" "\<forall>d < SMP_NCORES. cu d = cu c \<longrightarrow> d = c"
    using ok c unfolding sched_ok_def inj_on_def by auto
  have "set (as @ bs) = {p. p < NPROC \<and> st p = PR_READY} - {b}"
    using ok unfolding sched_ok_def by auto
  moreover have "inj_on (cu(c := b)) {..<SMP_NCORES}"
    using ok b(4) unfolding sched_ok_def by (auto simp: inj_on_def)
  ultimately show ?thesis
    using ok c b o n unfolding sched_ok_def by auto
qed

lemma sched_ok_idle:
  assumes ok: "sched_ok st cu []" and c: "c < SMP_NCORES" "\<not> IS_IDLE (cu c)"
    and n: "n \<noteq> PR_READY" "n \<noteq> PR_CURR"
  shows "sched_ok ((st(cu c := n))(IDLE_PID c := PR_CURR)) (cu(c := IDLE_PID c)) []"
proof -
  note idle = idle_facts [OF c(1)]
  have o: "st (cu c) = PR_CURR" "\<forall>d < SMP_NCORES. cu d = cu c \<longrightarrow> d = c"
    and i: "st (IDLE_PID c) = PR_CURR" "\<forall>d < SMP_NCORES. d \<noteq> c \<longrightarrow> cu d \<noteq> IDLE_PID c"
    using ok c idle unfolding sched_ok_def inj_on_def by (auto, metis)
  moreover have "inj_on (cu(c := IDLE_PID c)) {..<SMP_NCORES}"
    using ok i unfolding sched_ok_def by (auto simp: inj_on_def)
  ultimately show ?thesis
    using ok c n idle unfolding sched_ok_def by (auto; metis)
qed

lemma sched_ok_yield:
  assumes ok: "sched_ok st cu (as @ b # bs)" and c: "c < SMP_NCORES" "\<not> IS_IDLE (cu c)"
  shows "sched_ok ((st(cu c := PR_READY))(b := PR_CURR)) (cu(c := b)) ((as @ bs) @ [cu c])"
proof -
  have b: "b < NPROC" "st b = PR_READY" "b \<noteq> cu c" using sched_ok_member [OF ok, of b] c by auto
  have "sched_ok (((st(cu c := PR_WAIT))(b := PR_CURR))(cu c := PR_READY)) (cu(c := b)) ((as @ bs) @ [cu c])"
    using sched_ok_switch [OF ok c, of PR_WAIT] b ok c(1)
    by (intro sched_ok_ready) (auto simp: sched_ok_def)
  then show ?thesis using b by (simp add: fun_upd_twist [of b])
qed

section \<open>Every operation keeps the invariant\<close>

lemma sched_inv_cong:
  assumes "states s' = states s" "\<And>p. pnext (proctab s' p) = pnext (proctab s p)"
    and "ready_head s' = ready_head s" "ready_tail s' = ready_tail s" "smpsched_curr s' = smpsched_curr s"
  shows "sched_inv s' = sched_inv s"
  using assms by (simp add: sched_inv_def ready_queue_def)

lemma ctxsw_fields:
  assumes "ctxsw old q r s = (r', s')"
  shows "states s' = states s" "pnext (proctab s' p) = pnext (proctab s p)"
    "ready_head s' = ready_head s" "ready_tail s' = ready_tail s" "smpsched_curr s' = smpsched_curr s"
  using assms by (auto simp: ctxsw_def Let_def set_old_sp_def states_def split: option.splits)

lemma ctxsw_inv: "ctxsw old q r s = (r', s') \<Longrightarrow> sched_inv s' = sched_inv s"
  by (intro sched_inv_cong) (simp_all add: ctxsw_fields)

lemma ready_queue_outside [simp]:
  "ready_queue (set_state i n s) xs = ready_queue s xs" "ready_queue (set_curr c p s) xs = ready_queue s xs"
  by (intro ready_queue_cong; simp)+

lemma sched_invI:
  "ready_queue s xs \<Longrightarrow> sched_ok (states s) (smpsched_curr s) xs \<Longrightarrow> sched_inv s"
  by (auto simp: sched_inv_def)

lemma push_new_inv:
  assumes inv: "sched_inv s" and p: "p < NPROC" "states s p \<noteq> PR_READY" "states s p \<noteq> PR_CURR"
    and st: "states s1 = (states s)(p := PR_READY)" "smpsched_curr s1 = smpsched_curr s"
    and lk: "\<And>q. q \<noteq> p \<Longrightarrow> pnext (proctab s1 q) = pnext (proctab s q)" "ready_head s1 = ready_head s"
      "ready_tail s1 = ready_tail s"
  shows "sched_inv (ready_push p s1)"
proof -
  from inv obtain xs where q: "ready_queue s xs" "sched_ok (states s) (smpsched_curr s) xs"
    by (auto simp: sched_inv_def)
  have p': "p \<notin> set xs" using q(2) p(2) sched_ok_member(2) by fastforce
  then have "ready_queue s1 xs"
    using q(1) lk ready_queue_cong [of xs s1 s] by metis
  with p' have "ready_queue (ready_push p s1) (xs @ [p])" by (simp add: ready_push_queue)
  moreover have "sched_ok ((states s)(p := PR_READY)) (smpsched_curr s) (xs @ [p])"
    using q(2) p by (intro sched_ok_ready)
  ultimately show ?thesis
    by (intro sched_invI) (simp_all add: st)
qed

lemma make_ready_inv:
  assumes "sched_inv s" "p < NPROC" "states s p \<noteq> PR_READY" "states s p \<noteq> PR_CURR"
  shows "sched_inv (ready_push p (set_state p PR_READY s))"
  using assms by (rule push_new_inv) auto

text \<open>Dispatching from an idle core, shared by the poll and the loop of the secondary cores.\<close>

lemma dispatch_inv:
  assumes inv: "sched_inv s" and c: "c < SMP_NCORES" "IS_IDLE (smpsched_curr s c)"
    and pop: "ready_pop s = Some (Some b, s1)"
  shows "sched_inv (set_curr c b (set_state b PR_CURR s1))"
proof -
  from inv obtain xs where q: "ready_queue s xs" "sched_ok (states s) (smpsched_curr s) xs"
    by (auto simp: sched_inv_def)
  have "xs \<noteq> []" using pop ready_pop_empty [of s] q(1) by auto
  from ready_pop_best [OF q(1) this] pop obtain as bs where
    b: "xs = as @ b # bs" "ready_queue s1 (as @ bs)" "same_procs s s1"
    by (auto simp: best_split_def)
  have "sched_ok ((states s)(b := PR_CURR)) ((smpsched_curr s)(c := b)) (as @ bs)"
    using q(2) c b(1) by (intro sched_ok_dispatch) auto
  with b(2) show ?thesis
    by (intro sched_invI [of _ "as @ bs"]) (simp_all add: same_procs_globals [OF b(3)] same_states [OF b(3)])
qed

lemma switch_away_inv:
  assumes inv: "sched_inv s" and c: "c < SMP_NCORES" "\<not> IS_IDLE (smpsched_curr s c)"
    and n: "n \<noteq> PR_READY" "n \<noteq> PR_CURR"
    and sw: "switch_away old c r (set_state (smpsched_curr s c) n s) = Some (r', s')"
  shows "sched_inv s'"
proof -
  let ?o = "smpsched_curr s c"
  from inv obtain xs where q: "ready_queue s xs" "sched_ok (states s) (smpsched_curr s) xs"
    by (auto simp: sched_inv_def)
  show ?thesis
  proof (cases "xs = []")
    case True
    with q(1) have "ready_pop (set_state ?o n s) = Some (None, set_state ?o n s)" by (simp add: ready_pop_empty)
    with sw have "sched_inv s' = sched_inv (set_curr c (IDLE_PID c) (set_state (IDLE_PID c) PR_CURR (set_state ?o n s)))"
      by (simp add: switch_away_def Let_def ctxsw_inv)
    moreover have "sched_ok (((states s)(?o := n))(IDLE_PID c := PR_CURR)) ((smpsched_curr s)(c := IDLE_PID c)) []"
      using q(2) c n True by (intro sched_ok_idle) auto
    ultimately show ?thesis
      using q(1) True by (simp add: sched_invI)
  next
    case False
    from ready_pop_best [of "set_state ?o n s" xs] q(1) False obtain as b bs s1 where
      b: "xs = as @ b # bs" "ready_pop (set_state ?o n s) = Some (Some b, s1)" "ready_queue s1 (as @ bs)"
        "same_procs (set_state ?o n s) s1"
      by (auto simp: best_split_def)
    with sw have "sched_inv s' = sched_inv (set_curr c b (set_state b PR_CURR s1))"
      by (simp add: switch_away_def Let_def ctxsw_inv)
    moreover have "sched_ok (((states s)(?o := n))(b := PR_CURR)) ((smpsched_curr s)(c := b)) (as @ bs)"
      using q(2) c n b(1) by (intro sched_ok_switch) auto
    ultimately show ?thesis
      using b(3) by (simp add: sched_invI same_procs_globals [OF b(4)] same_states [OF b(4)])
  qed
qed

lemma proc_resched_inv:
  assumes inv: "sched_inv s" and c: "c < SMP_NCORES" and rs: "proc_resched c r s = Some (r', s')"
  shows "sched_inv s'"
proof -
  let ?o = "smpsched_curr s c"
  from inv obtain xs where q: "ready_queue s xs" "sched_ok (states s) (smpsched_curr s) xs"
    by (auto simp: sched_inv_def)
  show ?thesis
  proof (cases "xs = []")
    case True
    with q rs inv show ?thesis by (simp add: proc_resched_def ready_pop_empty)
  next
    case False
    from ready_pop_best [OF q(1) False] obtain as b bs s1 where
      b: "xs = as @ b # bs" "ready_pop s = Some (Some b, s1)" "ready_queue s1 (as @ bs)" "same_procs s s1"
      by (auto simp: best_split_def)
    define s2 where "s2 = s1\<lparr>sched_pick := (sched_pick s1)(c := sched_pick s1 c + 1)\<rparr>"
    have cur: "smpsched_curr s2 = smpsched_curr s" and st: "states s2 = states s"
      by (auto simp: s2_def same_procs_simps [OF b(4)] states_def)
    have q2: "ready_queue s2 (as @ bs)" using b(3) by (simp add: s2_def ready_queue_def)
    have oc: "pstate (proctab s1 ?o) = PR_CURR"
      using q(2) c same_procs_entry(1) [OF b(4), of ?o] by (auto simp: sched_ok_def states_def)
    note rs2 = rs [unfolded proc_resched_def b(2) Let_def, simplified, folded s2_def, simplified cur]
    show ?thesis
    proof (cases "IS_IDLE ?o")
      case True
      with rs2 have "sched_inv s' = sched_inv (set_curr c b (set_state b PR_CURR s2))"
        by (simp add: ctxsw_inv same_procs_globals [OF b(4)])
      also have "\<dots> = sched_inv (set_curr c b (set_state b PR_CURR s1))"
        using st same_states [OF b(4)] by (intro sched_inv_cong) (simp_all add: s2_def)
      finally show ?thesis using dispatch_inv [OF inv c True b(2)] by simp
    next
      case False
      let ?s3 = "ready_push ?o (set_state ?o PR_READY s2)"
      from rs2 False oc have "sched_inv s' = sched_inv (set_curr c b (set_state b PR_CURR ?s3))"
        by (simp add: ctxsw_inv same_procs_globals [OF b(4)])
      moreover have "?o \<notin> set (as @ bs)"
        using b(1) c sched_ok_member(4) [OF q(2), of ?o] by auto
      then have "ready_queue ?s3 ((as @ bs) @ [?o])"
        using q2 by (intro ready_push_queue) simp_all
      moreover have "sched_ok (((states s)(?o := PR_READY))(b := PR_CURR))
          ((smpsched_curr s)(c := b)) ((as @ bs) @ [?o])"
        using q(2) c False b(1) by (intro sched_ok_yield) auto
      ultimately show ?thesis
        using sched_invI [of "set_curr c b (set_state b PR_CURR ?s3)" "(as @ bs) @ [?o]"] by (simp add: cur st)
    qed
  qed
qed

lemma alloc_slot_Some:
  assumes "alloc_slot s = Some pid"
  shows "0 < pid" "pid < NPROC" "states s pid = PR_FREE"
  using assms by (auto simp: alloc_slot_def find_Some_iff states_def simp del: upt_Suc)

lemma alloc_slot_None: "alloc_slot s = None \<longleftrightarrow> (\<forall>i. 0 < i \<and> i < NPROC \<longrightarrow> states s i \<noteq> PR_FREE)"
  by (auto simp: alloc_slot_def find_None_iff states_def simp del: upt_Suc)

lemma fill_slot_fields:
  "states (fill_slot t e pid stk n nm q s) = (states s)(pid := PR_READY)"
  "smpsched_curr (fill_slot t e pid stk n nm q s) = smpsched_curr s"
  "p \<noteq> pid \<Longrightarrow> pnext (proctab (fill_slot t e pid stk n nm q s) p) = pnext (proctab s p)"
  "ready_head (fill_slot t e pid stk n nm q s) = ready_head s"
  "ready_tail (fill_slot t e pid stk n nm q s) = ready_tail s"
  "smem (fill_slot t e pid stk n nm q s) = store_words q (initial_frame t e) (smem s)"
  "sp (proctab (fill_slot t e pid stk n nm q s) pid) = q"
  by (auto simp: fill_slot_def Let_def states_def)

lemma states_smem [simp]: "states (s\<lparr>smem := m\<rparr>) = states s"
  by (simp add: states_def fun_eq_iff)

lemma proc_create_inv:
  assumes inv: "sched_inv s" and cr: "proc_create t e n nm s = Some (rc, s')"
  shows "sched_inv s'"
proof (cases "alloc_slot s")
  case None
  with cr inv show ?thesis by (simp add: proc_create_def)
next
  case (Some pid)
  note slot = alloc_slot_Some [OF Some]
  obtain stk m where g: "getmem (ROUNDMB (if n < 1024 then 1024 else n)) (smem s) = Some (stk, m)"
    using cr Some by (cases "getmem (ROUNDMB (if n < 1024 then 1024 else n)) (smem s)")
      (auto simp: proc_create_def Let_def)
  show ?thesis
  proof (cases "stk = 0")
    case True
    with cr Some g have "s' = s\<lparr>smem := m\<rparr>" by (auto simp: proc_create_def Let_def)
    with inv show ?thesis using sched_inv_cong [of s' s] by (simp add: states_def fun_eq_iff)
  next
    case False
    let ?n = "ROUNDMB (if n < 1024 then 1024 else n)"
    have "s' = ready_push pid (fill_slot t e pid stk ?n nm (stk + ?n - 96) (s\<lparr>smem := m\<rparr>))"
      using cr Some g False by (simp add: proc_create_def Let_def)
    with push_new_inv [OF inv slot(2)] slot(3) show ?thesis by (simp add: fill_slot_fields)
  qed
qed

lemma create_static_inv:
  assumes inv: "sched_inv s" and cr: "create_static_common t e stk n nm rdy s = (rc, s')"
  shows "sched_inv s'"
proof (cases "alloc_slot s")
  case None
  with cr inv show ?thesis by (simp add: create_static_common_def)
next
  case (Some pid)
  note slot = alloc_slot_Some [OF Some]
  show ?thesis
  proof (cases "stk = 0 \<or> n < 1024")
    case True
    with cr inv Some show ?thesis by (auto simp: create_static_common_def)
  next
    case False
    define s1 where "s1 = fill_slot t e pid stk n nm (((stk + n) AND NOT 15) - 96) s"
    have s': "s' = (if rdy then ready_push pid s1 else set_state pid PR_WAIT s1)"
      using cr Some False by (auto simp: create_static_common_def Let_def s1_def)
    have s1: "states s1 = (states s)(pid := PR_READY)" "smpsched_curr s1 = smpsched_curr s"
        "\<And>q. q \<noteq> pid \<Longrightarrow> pnext (proctab s1 q) = pnext (proctab s q)"
        "ready_head s1 = ready_head s" "ready_tail s1 = ready_tail s"
      by (simp_all add: s1_def fill_slot_fields)
    show ?thesis
    proof (cases rdy)
      case True
      then show ?thesis using push_new_inv [OF inv slot(2) _ _ s1] slot(3) s' by simp
    next
      case False
      from inv obtain xs where q: "ready_queue s xs" "sched_ok (states s) (smpsched_curr s) xs"
        by (auto simp: sched_inv_def)
      have "pid \<notin> set xs" using q(2) slot(3) sched_ok_member(2) by fastforce
      then have "ready_queue s1 xs" using q(1) s1(4,5) s1(3) ready_queue_cong [of xs s1 s] by metis
      moreover have "sched_ok ((states s)(pid := PR_WAIT)) (smpsched_curr s) xs"
        using q(2) slot(3) by (intro sched_ok_neutral) auto
      ultimately show ?thesis using False s' s1 by (simp add: sched_invI)
    qed
  qed
qed

lemma timer_tick_loop_inv:
  "sched_inv s \<Longrightarrow> \<forall>i \<in> set is. i < NPROC \<Longrightarrow> sched_inv (snd (timer_tick_loop now is woke s))"
proof (induction "is" arbitrary: woke s)
  case (Cons i "is")
  show ?case
  proof (cases "pstate (proctab s i) = PR_SLEEP \<and> wake_at_us (proctab s i) \<le> now")
    case True
    then have "states s i \<noteq> PR_READY" "states s i \<noteq> PR_CURR" by (simp_all add: states_def)
    from make_ready_inv [OF Cons.prems(1) _ this] Cons True show ?thesis by simp
  qed (use Cons in auto)
qed simp

lemma proc_timer_tick_inv: "sched_inv s \<Longrightarrow> sched_inv (proc_timer_tick now s)"
proof -
  assume inv: "sched_inv s"
  obtain w s1 where l: "timer_tick_loop now [0..<NPROC] False s = (w, s1)" by fastforce
  have "sched_inv s1" using timer_tick_loop_inv [OF inv, of "[0..<NPROC]" now False] l by (simp del: upt_Suc)
  moreover have "sched_inv (s1\<lparr>g_resched_pending := True\<rparr>) = sched_inv s1"
    by (intro sched_inv_cong) (simp_all add: states_def fun_eq_iff)
  ultimately show ?thesis by (simp add: proc_timer_tick_def l del: upt_Suc)
qed

lemma poll_once_inv:
  assumes inv: "sched_inv s" and c: "c < SMP_NCORES" "IS_IDLE (smpsched_curr s c)"
    and p: "smpsched_poll_once c r s = Some (r', sv, s')"
  shows "sched_inv s'"
proof (cases "smpsched_on s")
  case False
  with inv p show ?thesis by (simp add: smpsched_poll_once_def)
next
  case True
  let ?s0 = "s\<lparr>poll_calls := poll_calls s + 1\<rparr>"
  have inv0: "sched_inv ?s0" using inv sched_inv_cong [of ?s0 s] by (simp add: states_def fun_eq_iff)
  then obtain xs where "ready_queue ?s0 xs" by (auto simp: sched_inv_def)
  then obtain pp s1 where pop: "ready_pop ?s0 = Some (pp, s1)" "xs = [] \<Longrightarrow> pp = None \<and> s1 = ?s0" "xs \<noteq> [] \<Longrightarrow> pp \<noteq> None"
    using ready_pop_best [of ?s0 xs] ready_pop_empty [of ?s0] by (cases "xs = []") auto
  show ?thesis
  proof (cases pp)
    case None
    with pop True p inv0 show ?thesis
      by (auto simp: smpsched_poll_once_def proc_ready_pop_locked_def)
  next
    case (Some b)
    have "sched_inv (set_curr c b (set_state b PR_CURR s1))"
      using dispatch_inv [OF inv0 c(1), of b s1] c(2) pop(1) Some by simp
    with p True pop(1) Some show ?thesis
      by (auto simp: smpsched_poll_once_def proc_ready_pop_locked_def Let_def ctxsw_inv split: prod.splits)
  qed
qed

lemma proc_init_states:
  assumes "p < NPROC"
  shows "states (proc_init s) p = (if IS_IDLE p then PR_CURR else PR_FREE)"
proof -
  have 1: "states (proc_init_loop is s) p = (if p \<in> set is then PR_FREE else states s p)" for "is" s p
    by (induction "is" arbitrary: s) (auto simp: states_def)
  have 2: "states (smpsched_init_loop cs s) p = (if p \<in> SMPIDLE_PID ` set cs then PR_CURR else states s p)" for cs s p
    by (induction cs arbitrary: s) (auto simp: states_def Let_def)
  have "p \<in> SMPIDLE_PID ` set [1..<SMP_NCORES] \<longleftrightarrow> SMPIDLE_BASE \<le> p"
    using assms bexI [of "\<lambda>x. p = 12 + x" "p - 12" "{Suc 0..<4}"]
    by (auto simp: SMPIDLE_PID_def SMPIDLE_BASE_def NPROC_def SMP_NCORES_def image_def simp del: upt_Suc)
  moreover have "states s0 p = (if p = NULLPROC then PR_CURR else PR_FREE)"
    if "s0 = set_curr 0 NULLPROC (upd_proc NULLPROC (\<lambda>p. p\<lparr>pstate := PR_CURR, prio := 0, stkbase := 0,
       stklen := 0, sp := 0, pname := copy_name (pname p) ''null/shell''\<rparr>) (proc_init_loop [0..<NPROC] s)
       \<lparr>ready_head := None, ready_tail := None\<rparr>)" for s0
    using assms 1 [of "[0..<NPROC]" s p] unfolding that by (auto simp: states_def simp del: upt_Suc)
  ultimately show ?thesis
    unfolding proc_init_def Let_def smpsched_init_def 2 by (auto simp: IS_IDLE_def)
qed

lemma proc_init_queue: "ready_queue (proc_init s) []"
proof -
  have "ready_head (smpsched_init_loop cs s) = ready_head s \<and> ready_tail (smpsched_init_loop cs s) = ready_tail s" for cs s
    by (induction cs arbitrary: s) (auto simp: Let_def)
  then show ?thesis by (simp add: ready_queue_def proc_init_def smpsched_init_def Let_def)
qed

lemma proc_init_inv: "sched_inv (proc_init s)"
proof -
  have 1: "smpsched_curr (smpsched_init_loop cs s) c = (if c \<in> set cs then SMPIDLE_PID c else smpsched_curr s c)" for cs s c
    by (induction cs arbitrary: s) (auto simp: Let_def)
  have cu: "smpsched_curr (proc_init s) c = IDLE_PID c" if "c < SMP_NCORES" for c
    using that by (auto simp: proc_init_def smpsched_init_def Let_def 1 IDLE_PID_def simp del: upt_Suc)
  note proc_init_queue
  moreover have "sched_ok (states (proc_init s)) (smpsched_curr (proc_init s)) []"
    unfolding sched_ok_def using idle_facts by (auto simp: proc_init_states cu inj_on_def split: if_splits)
  ultimately show ?thesis by (rule sched_invI)
qed

section \<open>Interleavings of the cores\<close>

text \<open>
  One step is one operation on one core. An idle process never blocks, sleeps or exits;
  \<open>proc_ready\<close> is called on a blocked process; the polls run on an idle core.
\<close>

inductive sched_step :: "sched \<Rightarrow> sched \<Rightarrow> bool" where
  create: "proc_create t e n nm s = Some (rc, s') \<Longrightarrow> sched_step s s'"
| create_static: "proc_create_static t e stk n nm s = (rc, s') \<Longrightarrow> sched_step s s'"
| create_susp: "proc_create_static_susp t e stk n nm s = (rc, s') \<Longrightarrow> sched_step s s'"
| ready: "\<lbrakk>0 < pid; pid < NPROC; states s pid = PR_WAIT\<rbrakk> \<Longrightarrow> sched_step s (proc_ready (int pid) s)"
| resched: "\<lbrakk>c < SMP_NCORES; proc_resched c r s = Some (r', s')\<rbrakk> \<Longrightarrow> sched_step s s'"
| block: "\<lbrakk>c < SMP_NCORES; \<not> IS_IDLE (smpsched_curr s c); proc_block c r s = Some (r', s')\<rbrakk> \<Longrightarrow> sched_step s s'"
| sleep: "\<lbrakk>c < SMP_NCORES; \<not> IS_IDLE (smpsched_curr s c); proc_sleep_us now us c r s = Some (r', s')\<rbrakk> \<Longrightarrow>
    sched_step s s'"
| exit: "\<lbrakk>c < SMP_NCORES; \<not> IS_IDLE (smpsched_curr s c); proc_exit c r s = Some (r', s')\<rbrakk> \<Longrightarrow> sched_step s s'"
| tick: "sched_step s (proc_timer_tick now s)"
| setprio: "sched_step s (proc_setprio pid p s)"
| preempt: "\<lbrakk>c < SMP_NCORES; proc_preempt c r s = Some (r', s')\<rbrakk> \<Longrightarrow> sched_step s s'"
| poll: "\<lbrakk>c < SMP_NCORES; IS_IDLE (smpsched_curr s c); smpsched_poll_once c r s = Some (r', sv, s')\<rbrakk> \<Longrightarrow>
    sched_step s s'"
| poll_resume: "\<lbrakk>c < SMP_NCORES; IS_IDLE (smpsched_curr s c)\<rbrakk> \<Longrightarrow>
    sched_step s (smpsched_poll_resume c (IDLE_PID c) s)"
| core_round: "\<lbrakk>c < SMP_NCORES; 0 < c; smpsched_curr s c = SMPIDLE_PID c; smpsched_core_round c r s = Some (r', s')\<rbrakk> \<Longrightarrow>
    sched_step s s'"
| enable: "sched_step s (s\<lparr>smpsched_on := True\<rparr>)"
| set_preempt: "sched_step s (proc_set_preempt on s)"
| request: "sched_step s (proc_resched_request s)"
| pump_enter: "sched_step s (proc_actor_pump_enter s)"
| pump_leave: "sched_step s (proc_actor_pump_leave s)"

inductive sched_run :: "sched \<Rightarrow> bool" where
  init: "sched_run (proc_init s)"
| step: "sched_run s \<Longrightarrow> sched_step s s' \<Longrightarrow> sched_run s'"

lemma flags_inv:
  assumes "sched_inv s"
  shows "sched_inv (s\<lparr>smpsched_on := b1\<rparr>)" "sched_inv (s\<lparr>g_preempt_on := b2\<rparr>)"
    "sched_inv (s\<lparr>g_resched_pending := b3\<rparr>)" "sched_inv (s\<lparr>g_actor_pump := i\<rparr>)"
    "sched_inv (s\<lparr>poll_hits := h\<rparr>)" "sched_inv (s\<lparr>g_pp_fired := h\<rparr>)"
  using assms by (simp_all add: sched_inv_def ready_queue_def states_def [abs_def])

lemma core_round_inv:
  assumes inv: "sched_inv s" and c: "c < SMP_NCORES" "0 < c" "smpsched_curr s c = SMPIDLE_PID c"
    and p: "smpsched_core_round c r s = Some (r', s')"
  shows "sched_inv s'"
proof -
  have idle: "IS_IDLE (smpsched_curr s c)" using idle_facts(2) [OF c(1)] c by (simp add: IDLE_PID_def)
  from inv obtain xs where "ready_queue s xs" by (auto simp: sched_inv_def)
  then obtain pp s1 where pop: "ready_pop s = Some (pp, s1)" "pp = None \<Longrightarrow> s1 = s"
    using ready_pop_best [of s xs] ready_pop_empty [of s] by (cases "xs = []") auto
  with p inv dispatch_inv [OF inv c(1) idle] show ?thesis
    by (cases pp) (auto simp: smpsched_core_round_def proc_ready_pop_locked_def Let_def ctxsw_inv)
qed

lemma proc_preempt_inv:
  assumes inv: "sched_inv s" and c: "c < SMP_NCORES" and p: "proc_preempt c r s = Some (r', s')"
  shows "sched_inv s'"
proof (cases "smpsched_on s \<and> IS_IDLE (smpsched_curr s c)")
  case True
  with p poll_once_inv [OF inv c] show ?thesis
    by (auto simp: proc_preempt_def)
next
  case False
  have "sched_inv (s\<lparr>g_resched_pending := False\<rparr>)" "sched_inv (s\<lparr>g_resched_pending := False, g_pp_fired := g_pp_fired s + 1\<rparr>)"
    using inv by (simp_all add: sched_inv_def ready_queue_def states_def [abs_def])
  with p False inv proc_resched_inv [OF _ c] show ?thesis
    by (auto simp: proc_preempt_def Let_def split: if_splits)
qed

lemma sched_step_inv:
  assumes "sched_step s s'" and inv: "sched_inv s"
  shows "sched_inv s'"
  using assms(1)
proof cases
  case (ready pid)
  then have "s' = ready_push pid (set_state pid PR_READY s)" by (simp add: proc_ready_def)
  with ready show ?thesis using make_ready_inv [OF inv, of pid] by simp
next
  case (block c r r')
  then show ?thesis using switch_away_inv [OF inv block(1,2), of PR_WAIT] by (simp add: proc_block_def Let_def)
next
  case (exit c r r')
  then show ?thesis using switch_away_inv [OF inv exit(1,2), of PR_FREE] by (simp add: proc_exit_def Let_def)
next
  case (sleep c now us r r')
  let ?s = "upd_proc (smpsched_curr s c) (wake_at_us_update (\<lambda>_. now + us)) s"
  have "sched_inv ?s = sched_inv s" by (intro sched_inv_cong) (auto simp: states_def)
  with sleep show ?thesis
    using switch_away_inv [of ?s c PR_SLEEP] inv by (simp add: proc_sleep_us_def Let_def)
next
  case (setprio pid p)
  have "sched_inv s' = sched_inv s"
    unfolding setprio by (intro sched_inv_cong) (auto simp: proc_setprio_def states_def)
  with inv show ?thesis by simp
next
  case (poll_resume c)
  have "smpsched_curr s c = IDLE_PID c"
    using inv poll_resume by (auto simp: sched_inv_def sched_ok_def)
  then have "sched_inv (set_curr c (IDLE_PID c) s)"
    using inv by (simp add: set_curr_def fun_upd_idem)
  with poll_resume show ?thesis by (simp add: smpsched_poll_resume_def Let_def flags_inv)
next
  case (pump_leave)
  then show ?thesis using inv by (simp add: proc_actor_pump_leave_def flags_inv)
qed (use inv in \<open>auto simp: proc_create_static_def proc_create_static_susp_def proc_set_preempt_def
      proc_resched_request_def proc_actor_pump_enter_def
      intro: proc_create_inv create_static_inv proc_resched_inv proc_timer_tick_inv proc_preempt_inv poll_once_inv
        core_round_inv flags_inv\<close>)

lemma sched_run_inv: "sched_run s \<Longrightarrow> sched_inv s"
  by (induction rule: sched_run.induct) (auto intro: proc_init_inv sched_step_inv)

section \<open>Properties\<close>


text \<open>A table for the witnesses: the state after \<open>proc_init\<close> on the small heap.\<close>

definition blank_proc :: procent where
  "blank_proc = \<lparr>pstate = PR_TERM, prio = 7, stkbase = 0, stklen = 0, sp = 0, pname = replicate 16 CHR 0x00,
     pnext = None, wake_at_us = 0\<rparr>"

definition sched_boot :: sched where
  "sched_boot = proc_init \<lparr>smem = small_heap, proctab = (\<lambda>_. blank_proc), smpsched_curr = (\<lambda>_. 0), ready_head = None,
     ready_tail = None, g_preempt_on = False, g_resched_pending = False, g_pp_fired = 0, g_actor_pump = 0,
     sched_pick = (\<lambda>_. 0), smpsched_on = False, poll_calls = 0, poll_hits = 0, graveyard_sp = 0\<rparr>"

lemmas init_loop_unfold = proc_init_def smpsched_init_def Let_def NPROC_def NULLPROC_def SMP_NCORES_def
  SMPIDLE_PID_def SMPIDLE_BASE_def upd_proc_def set_curr_def upt_rec

lemma sched_boot_states: "p < NPROC \<Longrightarrow> pstate (proctab sched_boot p) = (if IS_IDLE p then PR_CURR else PR_FREE)"
  using proc_init_states by (simp add: sched_boot_def states_def)


primrec pop_all :: "nat \<Rightarrow> sched \<Rightarrow> (nat list \<times> sched) option" where
  "pop_all 0 s = Some ([], s)"
| "pop_all (Suc n) s =
     (case ready_pop s of
        Some (Some b, s') \<Rightarrow> (case pop_all n s' of Some (ys, s'') \<Rightarrow> Some (b # ys, s'') | None \<Rightarrow> None)
      | _ \<Rightarrow> None)"

lemma pop_all_drain: "pop_all n s = ready.drain n s"
  by (induction n arbitrary: s) (simp_all cong: option.case_cong)

text \<open>C25: the order of dispatch: popping the ready list until it is empty always returns, and
  yields its processes as the stable sort by descending priority: higher priorities first, equal
  priorities in the order they were pushed.\<close>

theorem dispatch_stable_sort:
  assumes "ready_queue s xs"
  shows "\<exists>s'. pop_all (length xs) s = Some (sort_key (\<lambda>p. - prio (proctab s p)) xs, s') \<and> ready_queue s' []"
  using ready.drain_sorted [OF assms] by (simp add: pop_all_drain)

lemma ready_pair:
  "ready_queue s [] \<Longrightarrow> p \<noteq> q \<Longrightarrow> ready_queue (ready_push q (ready_push p s)) [p, q]"
  using ready_push_queue [of "ready_push p s" "[p]" q] ready_push_queue [of s "[]" p] by simp

theorem dispatch_stable_sort_witness:
  "\<exists>s'. pop_all 2 (proc_setprio 4 9 (ready_push 4 (ready_push 3 sched_boot))) = Some ([4, 3], s')"
proof -
  let ?s = "ready_push 4 (ready_push 3 sched_boot)"
  have "ready_queue sched_boot []" unfolding sched_boot_def by (rule proc_init_queue)
  then have "ready_queue ?s [3, 4]" by (rule ready_pair) simp
  then have q: "ready_queue (proc_setprio 4 9 ?s) [3, 4]"
    by (subst ready_queue_cong [of _ _ ?s]) (auto simp: proc_setprio_def NPROC_def)
  have "prio (proctab sched_boot 3) = 7"
    by (simp add: sched_boot_def init_loop_unfold blank_proc_def)
  then have "prio (proctab (proc_setprio 4 9 ?s) 3) = 7" "prio (proctab (proc_setprio 4 9 ?s) 4) = 9"
    by (simp_all add: proc_setprio_def NPROC_def same_procs_entry [OF ready_push_same])
  then show ?thesis using dispatch_stable_sort [OF q] by (auto simp: numeral_2_eq_2 simp del: pop_all.simps)
qed

text \<open>C22: proc_resched always returns. With an empty ready list it changes nothing; otherwise it
  switches the core to the first ready process of the highest priority, resumes the frame saved
  for it, parks a running non-idle process at the tail of the ready list, saves the caller's
  stack pointer in its slot, and leaves the state of every other process alone.\<close>

theorem proc_resched_spec:
  assumes "sched_run s" and "c < SMP_NCORES" and "ready_queue s xs"
  shows "if xs = [] then proc_resched c r s = Some (r, s)
    else \<exists>as b bs r' s'. best_split (\<lambda>p. prio (proctab s p)) xs as b bs \<and> proc_resched c r s = Some (r', s') \<and>
      smpsched_curr s' = (smpsched_curr s)(c := b) \<and>
      ready_queue s' (as @ bs @ (if IS_IDLE (smpsched_curr s c) then [] else [smpsched_curr s c])) \<and>
      (\<forall>p. pstate (proctab s' p) = (if p = b then PR_CURR
         else if p = smpsched_curr s c \<and> \<not> IS_IDLE p then PR_READY else pstate (proctab s p))) \<and>
      sp (proctab s' (smpsched_curr s c)) = sp_el1 r - 96 \<and> r' = load_frame (smem s') (sp (proctab s b))"
proof (cases "xs = []")
  case True
  with assms show ?thesis by (simp add: proc_resched_def ready_pop_empty)
next
  case False
  let ?o = "smpsched_curr s c"
  from sched_run_inv [OF assms(1)] assms(3) have ok: "sched_ok (states s) (smpsched_curr s) xs"
    by (auto simp: sched_inv_def dest: ready_queue_unique)
  from ready_pop_best [OF assms(3) False] obtain as b bs s1 where
    b: "best_split (\<lambda>p. prio (proctab s p)) xs as b bs" "ready_pop s = Some (Some b, s1)"
      "ready_queue s1 (as @ bs)" "same_procs s s1"
    by blast
  then have bx: "b \<in> set xs" "set (as @ bs) \<subseteq> set xs" by (auto simp: best_split_def)
  have bo: "b \<noteq> ?o" "?o \<notin> set (as @ bs)"
    using sched_ok_member(4) [OF ok] bx assms(2) by auto
  have oc: "pstate (proctab s ?o) = PR_CURR"
    using ok assms(2) by (auto simp: sched_ok_def states_def)
  define s2 where "s2 = s1\<lparr>sched_pick := (sched_pick s)(c := sched_pick s c + 1)\<rparr>"
  have ent: "\<And>p. pstate (proctab s2 p) = pstate (proctab s p)" "\<And>p. sp (proctab s2 p) = sp (proctab s p)"
    "smpsched_curr s2 = smpsched_curr s" "ready_queue s2 (as @ bs)"
    using b(3) by (simp_all add: s2_def same_procs_simps [OF b(4)] ready_queue_def)
  define s3 where "s3 = (if IS_IDLE ?o then s2 else ready_push ?o (set_state ?o PR_READY s2))"
  have s3: "\<And>p. pstate (proctab s3 p) = (if p = ?o \<and> \<not> IS_IDLE p then PR_READY else pstate (proctab s p))"
    "\<And>p. sp (proctab s3 p) = sp (proctab s p)" "smpsched_curr s3 = smpsched_curr s"
    "ready_queue s3 (as @ bs @ (if IS_IDLE ?o then [] else [?o]))"
    using ent bo(2) ready_push_queue [of "set_state ?o PR_READY s2" "as @ bs" ?o]
    by (auto simp: s3_def same_procs_simps [OF ready_push_same])
  define s4 where "s4 = set_curr c b (set_state b PR_CURR s3)"
  have rs: "proc_resched c r s = Some (ctxsw (Some ?o) (sp (proctab s b)) r s4)"
    using b(2) oc bo(1)
    by (simp add: proc_resched_def Let_def s4_def s3_def s2_def same_procs_globals [OF b(4)]
        same_procs_entry [OF b(4)] same_procs_entry [OF ready_push_same])
  obtain r' s' where sw: "ctxsw (Some ?o) (sp (proctab s b)) r s4 = (r', s')" by fastforce
  note cf = ctxsw_fields [OF sw]
  have q': "ready_queue s' (as @ bs @ (if IS_IDLE ?o then [] else [?o]))"
    using s3(4) cf(2-4) by (subst ready_queue_cong [of _ s' s4]) (simp_all add: s4_def)
  have st': "pstate (proctab s' p) = (if p = b then PR_CURR
         else if p = ?o \<and> \<not> IS_IDLE p then PR_READY else pstate (proctab s p))" for p
    using fun_cong [OF cf(1), of p] by (simp add: states_def s4_def s3(1))
  have sp': "sp (proctab s' ?o) = sp_el1 r - 96" "r' = load_frame (smem s') (sp (proctab s b))"
    using sw by (auto simp: ctxsw_def Let_def set_old_sp_def)
  have "smpsched_curr s' = (smpsched_curr s)(c := b)" using cf by (simp add: s4_def s3(3))
  with False rs sw b(1) q' st' sp' show ?thesis
    unfolding if_not_P [OF False] by (intro exI [of _ as] exI [of _ b] exI [of _ bs] exI [of _ r'] exI [of _ s']) simp
qed

definition any_cpu :: cpu where
  "any_cpu = \<lparr>x19 = 0, x20 = 0, x21 = 0, x22 = 0, x23 = 0, x24 = 0, x25 = 0, x26 = 0, x27 = 0, x28 = 0, x29 = 0,
     x30 = 0, sp_el1 = 4096\<rparr>"

lemma sched_boot_run: "sched_run sched_boot"
  unfolding sched_boot_def by (rule sched_run.init)

theorem proc_resched_spec_witness: "proc_resched 1 any_cpu sched_boot = Some (any_cpu, sched_boot)"
  using proc_resched_spec [OF sched_boot_run, of 1 "[]" any_cpu] proc_init_queue
  by (simp add: sched_boot_def SMP_NCORES_def)

definition due :: "u64 \<Rightarrow> sched \<Rightarrow> nat \<Rightarrow> bool" where
  "due now s p \<longleftrightarrow> pstate (proctab s p) = PR_SLEEP \<and> wake_at_us (proctab s p) \<le> now"

lemma timer_tick_loop_spec:
  assumes "ready_queue s xs" and "distinct is" "\<forall>p \<in> set is. pstate (proctab s p) = PR_SLEEP \<longrightarrow> p \<notin> set xs"
  shows "\<exists>s'. timer_tick_loop now is woke s = (woke \<or> (\<exists>p \<in> set is. due now s p), s') \<and>
    ready_queue s' (xs @ filter (due now s) is) \<and> smpsched_curr s' = smpsched_curr s \<and>
    (\<forall>p. pstate (proctab s' p) = (if p \<in> set is \<and> due now s p then PR_READY else pstate (proctab s p)))"
  using assms
proof (induction "is" arbitrary: s xs woke)
  case (Cons i "is")
  show ?case
  proof (cases "due now s i")
    case True
    let ?s = "ready_push i (set_state i PR_READY s)"
    have ent: "pstate (proctab ?s p) = (if p = i then PR_READY else pstate (proctab s p))"
      "due now ?s p = (p \<noteq> i \<and> due now s p)" for p
      by (simp_all add: same_procs_entry [OF ready_push_same] due_def)
    have "i \<notin> set xs" using Cons.prems(3) True by (auto simp: due_def)
    then have q: "ready_queue ?s (xs @ [i])" using Cons.prems(1) by (intro ready_push_queue) simp_all
    have d: "\<forall>p \<in> set is. pstate (proctab ?s p) = PR_SLEEP \<longrightarrow> p \<notin> set (xs @ [i])"
      using Cons.prems(2,3) by (auto simp: ent)
    have fl: "filter (due now ?s) is = filter (due now s) is"
      using Cons.prems(2) by (intro filter_cong) (auto simp: ent)
    have nx: "timer_tick_loop now (i # is) woke s = timer_tick_loop now is True ?s"
      using True by (simp add: due_def)
    from Cons.IH [OF q _ d, of True] Cons.prems(2) True show ?thesis
      unfolding nx fl by (auto simp: ent)
  next
    case False
    then have nx: "timer_tick_loop now (i # is) woke s = timer_tick_loop now is woke s"
      by (auto simp: due_def)
    from Cons.IH [OF Cons.prems(1), of woke] Cons.prems False show ?thesis
      unfolding nx by auto
  qed
qed auto

text \<open>The timer tick readies exactly the sleepers whose deadline has passed, in pid order
  behind the processes already queued, requests a reschedule if it woke any, and leaves the state
  of every other process alone.\<close>

theorem proc_timer_tick_spec:
  assumes "sched_run s" and "ready_queue s xs"
  shows "ready_queue (proc_timer_tick now s)
      (xs @ filter (\<lambda>p. pstate (proctab s p) = PR_SLEEP \<and> wake_at_us (proctab s p) \<le> now) [0..<NPROC]) \<and>
    (\<forall>p. pstate (proctab (proc_timer_tick now s) p) =
       (if p < NPROC \<and> pstate (proctab s p) = PR_SLEEP \<and> wake_at_us (proctab s p) \<le> now then PR_READY
        else pstate (proctab s p))) \<and>
    ((\<exists>p < NPROC. pstate (proctab s p) = PR_SLEEP \<and> wake_at_us (proctab s p) \<le> now) \<longrightarrow>
      g_resched_pending (proc_timer_tick now s))"
proof -
  from sched_run_inv [OF assms(1)] assms(2) have ok: "sched_ok (states s) (smpsched_curr s) xs"
    by (auto simp: sched_inv_def dest: ready_queue_unique)
  have "\<forall>p \<in> set [0..<NPROC]. pstate (proctab s p) = PR_SLEEP \<longrightarrow> p \<notin> set xs"
    using sched_ok_member(2) [OF ok] by (auto simp: states_def)
  from timer_tick_loop_spec [OF assms(2) _ this, of now False] obtain s' where
    l: "timer_tick_loop now [0..<NPROC] False s = (\<exists>p \<in> set [0..<NPROC]. due now s p, s')"
    and q: "ready_queue s' (xs @ filter (due now s) [0..<NPROC])"
    and st: "\<forall>p. pstate (proctab s' p) = (if p \<in> set [0..<NPROC] \<and> due now s p then PR_READY else pstate (proctab s p))"
    by (auto simp del: upt_Suc)
  have t: "proc_timer_tick now s = (if \<exists>p \<in> set [0..<NPROC]. due now s p then s'\<lparr>g_resched_pending := True\<rparr> else s')"
    by (simp add: proc_timer_tick_def l del: upt_Suc)
  have "ready_queue (s'\<lparr>g_resched_pending := True\<rparr>) ys = ready_queue s' ys" for ys
    by (simp add: ready_queue_def)
  with q st show ?thesis unfolding t due_def [abs_def] by (auto simp del: upt_Suc)
qed

theorem proc_timer_tick_spec_witness:
  "ready_queue (proc_timer_tick 50 sched_boot) [] \<and>
   pstate (proctab (proc_timer_tick 50 sched_boot) 5) = PR_FREE"
proof -
  have f: "pstate (proctab sched_boot 5) = PR_FREE"
    using sched_boot_states [of 5] by (simp add: NPROC_def IS_IDLE_def SMPIDLE_BASE_def NULLPROC_def SMP_NCORES_def)
  have q: "ready_queue sched_boot []" unfolding sched_boot_def by (rule proc_init_queue)
  have "filter (\<lambda>p. pstate (proctab sched_boot p) = PR_SLEEP \<and> wake_at_us (proctab sched_boot p) \<le> 50) [0..<NPROC] = []"
    by (rule filter_False) (auto simp: sched_boot_states simp del: upt_Suc)
  with proc_timer_tick_spec [OF sched_boot_run q, of 50] f show ?thesis by (simp del: upt_Suc)
qed

lemma next_delay_loop_spec:
  "next_delay_loop now is best s \<le> best \<and>
   (\<forall>p \<in> set is. pstate (proctab s p) = PR_SLEEP \<longrightarrow>
      next_delay_loop now is best s \<le> (if now < wake_at_us (proctab s p) then wake_at_us (proctab s p) - now else 0))"
proof (induction "is" arbitrary: best)
  case (Cons i "is")
  let ?d = "if now < wake_at_us (proctab s i) then wake_at_us (proctab s i) - now else 0"
  let ?b = "if pstate (proctab s i) = PR_SLEEP then (if ?d < best then ?d else best) else best"
  have eq: "next_delay_loop now (i # is) best s = next_delay_loop now is ?b s"
    by (simp add: Let_def)
  have b: "?b \<le> best" "pstate (proctab s i) = PR_SLEEP \<Longrightarrow> ?b \<le> ?d" by (auto simp: not_less)
  from Cons.IH [of ?b] b show ?case unfolding eq by (auto intro: order_trans)
qed simp

text \<open>The tickless delay is between 200 and 1000 microseconds, and never overshoots a sleeper:
  unless it is the 200 us minimum, it is at most the time left to every sleeper's deadline.\<close>

theorem proc_next_delay_bounds:
  "200 \<le> proc_next_delay_us now s \<and> proc_next_delay_us now s \<le> 1000 \<and>
   (\<forall>p < NPROC. pstate (proctab s p) = PR_SLEEP \<longrightarrow>
      proc_next_delay_us now s = 200 \<or>
      (now < wake_at_us (proctab s p) \<and> proc_next_delay_us now s \<le> wake_at_us (proctab s p) - now))"
proof -
  let ?b = "next_delay_loop now [0..<NPROC] PROC_TICK_FLOOR_US s"
  note b = next_delay_loop_spec [of now "[0..<NPROC]" PROC_TICK_FLOOR_US s]
  have eq: "proc_next_delay_us now s = (if ?b < 200 then 200 else ?b)"
    by (simp add: proc_next_delay_us_def PROC_TICK_MIN_US_def Let_def del: upt_Suc)
  have "?b \<le> 1000" using b by (simp add: PROC_TICK_FLOOR_US_def)
  moreover have "now < wake_at_us (proctab s p) \<and> ?b \<le> wake_at_us (proctab s p) - now"
    if "p < NPROC" "pstate (proctab s p) = PR_SLEEP" "\<not> ?b < 200" for p
  proof -
    have "?b \<le> (if now < wake_at_us (proctab s p) then wake_at_us (proctab s p) - now else 0)"
      using b that(1,2) by simp
    with that(3) show ?thesis by (cases "now < wake_at_us (proctab s p)") auto
  qed
  ultimately show ?thesis unfolding eq by (auto simp: not_less)
qed

theorem proc_next_delay_bounds_witness:
  "200 \<le> proc_next_delay_us 5 sched_boot \<and> proc_next_delay_us 5 sched_boot \<le> 1000"
  using proc_next_delay_bounds [of 5 sched_boot] by blast

text \<open>The microsecond clock is exact only while counter * 1000000 fits in 64 bits: at 54 MHz it
  jumps back to 0 once the counter passes 2^64 / 10^6 ticks (under four days of uptime), so it is
  not monotone and a sleeper whose deadline lies just before the jump is not woken by the next
  ticks.\<close>

theorem proc_now_us_wraps:
  "(\<forall>ct hz. hz \<noteq> 0 \<longrightarrow> unat ct * 1000000 < 2 ^ 64 \<longrightarrow> unat (proc_now_us ct hz) = unat ct * 1000000 div unat hz) \<and>
   proc_now_us 18446744073709 54000000 = 341606371735 \<and> proc_now_us 18446744073710 54000000 = 0"
proof -
  have "unat (proc_now_us ct hz) = unat ct * 1000000 div unat hz" if "hz \<noteq> 0" "unat ct * 1000000 < 2 ^ 64" for ct hz
    using that by (simp add: proc_now_us_def unat_div unat_word_ariths)
  moreover have "proc_now_us 18446744073709 54000000 = 341606371735" "proc_now_us 18446744073710 54000000 = 0"
    by (simp_all add: proc_now_us_def)
  ultimately show ?thesis by blast
qed

theorem proc_now_us_wraps_witness:
  "unat (proc_now_us 54 54000000) = 54 * 1000000 div 54000000 \<and> proc_now_us 18446744073710 54000000 = 0"
  using proc_now_us_wraps by simp

text \<open>The cells of the 12-word frame at \<open>q\<close>, and a frame read back from them.\<close>

definition frame_cells :: "u64 \<Rightarrow> u64 set" where
  "frame_cells q = (\<lambda>k. q + 8 * of_nat k) ` {..<12}"

lemma load_frame_cong:
  assumes "\<forall>a \<in> frame_cells q. ram m a = ram m' a"
  shows "load_frame m q = load_frame m' q"
proof -
  have "ram m (q + 8 * of_nat k) = ram m' (q + 8 * of_nat k)" if "k < 12" for k
    using assms that by (auto simp: frame_cells_def)
  from this [of 0] this [of 1] this [of 2] this [of 3] this [of 4] this [of 5] this [of 6] this [of 7]
    this [of 8] this [of 9] this [of 10] this [of 11]
  show ?thesis by (simp add: load_frame_def)
qed

lemma load_frame_store_words:
  assumes "length ws = 12"
  shows "load_frame (store_words q ws m) q =
    \<lparr>x19 = ws ! 10, x20 = ws ! 11, x21 = ws ! 8, x22 = ws ! 9, x23 = ws ! 6, x24 = ws ! 7, x25 = ws ! 4,
     x26 = ws ! 5, x27 = ws ! 2, x28 = ws ! 3, x29 = ws ! 0, x30 = ws ! 1, sp_el1 = q + 96\<rparr>"
proof -
  have "ram (store_words q ws m) (q + 8 * of_nat k) = ws ! k" if "k < 12" for k
    using that assms by (intro store_words_ram) simp_all
  from this [of 0] this [of 1] this [of 2] this [of 3] this [of 4] this [of 5] this [of 6] this [of 7]
    this [of 8] this [of 9] this [of 10] this [of 11]
  show ?thesis by (simp add: load_frame_def)
qed

text \<open>C26: a context switch is a round trip: once a process has been switched out, switching back into
  the stack pointer saved for it restores its callee-saved registers, its return address and its
  stack pointer exactly, provided nobody wrote to its saved frame and the stack of the process
  switched out meanwhile does not overlap that frame.\<close>

theorem ctxsw_roundtrip:
  assumes "ctxsw (Some a) q r s = (r1, s1)"
    and "\<forall>x \<in> frame_cells (sp (proctab s1 a)). ram (smem s2) x = ram (smem s1) x"
    and "sp (proctab s2 a) = sp (proctab s1 a)"
    and "frame_cells (sp_el1 r2 - 96) \<inter> frame_cells (sp (proctab s1 a)) = {}"
  shows "fst (ctxsw old (sp (proctab s2 a)) r2 s2) = r"
proof -
  let ?q = "sp_el1 r - 96"
  have q: "sp (proctab s1 a) = ?q" and m: "smem s1 = store_words ?q (save_frame r) (smem s)"
    using assms(1) by (auto simp: ctxsw_def Let_def set_old_sp_def)
  have "fst (ctxsw old (sp (proctab s2 a)) r2 s2) =
      load_frame (store_words (sp_el1 r2 - 96) (save_frame r2) (smem s2)) ?q"
    by (simp add: ctxsw_def Let_def set_old_sp_def assms(3) q split: option.split)
  also have "\<dots> = load_frame (smem s1) ?q"
  proof (rule load_frame_cong, rule ballI)
    fix x assume x: "x \<in> frame_cells ?q"
    have "x \<noteq> sp_el1 r2 - 96 + 8 * of_nat k" if "k < length (save_frame r2)" for k
    proof -
      have "k < 12" using that by (simp add: save_frame_def)
      then have "sp_el1 r2 - 96 + 8 * of_nat k \<in> frame_cells (sp_el1 r2 - 96)" by (auto simp: frame_cells_def)
      with x assms(4) q show ?thesis by auto
    qed
    then have "ram (store_words (sp_el1 r2 - 96) (save_frame r2) (smem s2)) x = ram (smem s2) x"
      by (intro store_words_other) blast
    with x assms(2) q show "ram (store_words (sp_el1 r2 - 96) (save_frame r2) (smem s2)) x = ram (smem s1) x"
      by simp
  qed
  also have "\<dots> = r"
    unfolding m by (subst load_frame_store_words) (simp_all add: save_frame_def)
  finally show ?thesis .
qed

theorem ctxsw_roundtrip_witness:
  "\<exists>r1 s1. ctxsw (Some 3) 8192 any_cpu sched_boot = (r1, s1) \<and>
     fst (ctxsw (Some 4) (sp (proctab s1 3)) (any_cpu\<lparr>sp_el1 := 5000\<rparr>) s1) = any_cpu"
proof -
  obtain r1 s1 where c: "ctxsw (Some 3) 8192 any_cpu sched_boot = (r1, s1)" by fastforce
  then have sp: "sp (proctab s1 3) = 4000"
    by (auto simp: ctxsw_def Let_def set_old_sp_def any_cpu_def)
  have u: "unat (b + 8 * of_nat k :: u64) = unat b + 8 * k" if "k < 12" "unat b < 10000" for b k
  proof -
    have "unat (8 * of_nat k :: u64) = 8 * k" using that(1) by (simp add: unat_word_ariths unat_of_nat)
    then show ?thesis using that by (simp add: unat_add64)
  qed
  have "frame_cells 4904 \<inter> frame_cells 4000 = {}"
  proof -
    have "(4904 :: u64) + 8 * of_nat k \<noteq> 4000 + 8 * of_nat j" if "k < 12" "j < 12" for k j
      using u [OF that(1), of 4904] u [OF that(2), of 4000] that by (auto simp: u64_eq_iff_unat)
    then show ?thesis by (auto simp: frame_cells_def)
  qed
  with ctxsw_roundtrip [OF c, of s1 "any_cpu\<lparr>sp_el1 := 5000\<rparr>" "Some 4"] c sp show ?thesis by simp
qed

lemma ROUNDMB_idem: "aligned n \<Longrightarrow> ROUNDMB n = n"
proof -
  assume "aligned n"
  then obtain k where k: "unat n = 16 * k" by (auto simp: aligned_def)
  with unat_bound64 [of n] have "unat n + 15 < 18446744073709551616" by presburger
  with k have "unat (ROUNDMB n) = unat n" by (simp add: unat_ROUNDMB)
  then show ?thesis by (simp add: u64_eq_iff_unat)
qed

text \<open>C27: proc_create fails exactly when there is no free slot or the heap has no block for the
  stack, and then changes nothing; otherwise it takes a free slot, makes it ready with priority 1,
  carves its stack out of the heap without touching any other free or used block, and leaves a
  frame on the stack such that the first switch to the process enters the trampoline with the
  entry function in x19 and the stack pointer at the 16-byte aligned top of the stack.\<close>

theorem proc_create_spec:
  assumes "heap_valid (smem s)" and "unat stksize < 18446744073709551552"
  shows "\<exists>rc s'. proc_create tramp entry stksize name s = Some (rc, s') \<and>
    (if rc = -1 then s' = s \<and>
       ((\<forall>p. 0 < p \<and> p < NPROC \<longrightarrow> pstate (proctab s p) \<noteq> PR_FREE) \<or>
        (\<exists>n. 1024 \<le> n \<and> stksize \<le> n \<and> getmem n (smem s) = Some (0, smem s)))
     else let p = nat rc; stk = stkbase (proctab s' p); n = stklen (proctab s' p); q = sp (proctab s' p) in
       0 < p \<and> p < NPROC \<and> pstate (proctab s p) = PR_FREE \<and> pstate (proctab s' p) = PR_READY \<and>
       prio (proctab s' p) = 1 \<and> 1024 \<le> n \<and> stksize \<le> n \<and>
       heap_valid (smem s') \<and> span (unat stk) (unat n) \<subseteq> heap_free (smem s) \<and>
       heap_free (smem s') = heap_free (smem s) - span (unat stk) (unat n) \<and>
       sp_el1 (load_frame (smem s') q) = stk + n \<and> aligned (stk + n) \<and>
       x30 (load_frame (smem s') q) = tramp \<and> x19 (load_frame (smem s') q) = entry)"
proof -
  define n where "n = ROUNDMB (if stksize < 1024 then 1024 else stksize)"
  have n: "1024 \<le> unat n" "unat stksize \<le> unat n" "unat n < 18446744073709551584" "aligned n"
    using assms(2) ROUNDMB_bounds [of "1024 :: u64"] ROUNDMB_bounds [of stksize]
    by (auto simp: n_def word_less_nat_alt)
  then have ok: "getmem_size_ok n" "ROUNDMB n = n"
    by (auto simp: getmem_size_ok_def u64_eq_iff_unat ROUNDMB_idem)
  have nle: "1024 \<le> n" "stksize \<le> n" using n(1,2) by (simp_all add: word_le_nat_alt)
  show ?thesis
  proof (cases "alloc_slot s")
    case None
    then have "proc_create tramp entry stksize name s = Some (-1, s)" by (simp add: proc_create_def)
    moreover have "\<forall>p. 0 < p \<and> p < NPROC \<longrightarrow> pstate (proctab s p) \<noteq> PR_FREE"
      using None by (simp add: alloc_slot_None states_def)
    ultimately show ?thesis by (intro exI [of _ "-1"] exI [of _ s]) simp
  next
    case (Some p)
    note slot = alloc_slot_Some [OF Some]
    obtain stk m where g: "getmem n (smem s) = Some (stk, m)" using mem.alloc_returns [OF assms(1) ok(1)] by blast
    show ?thesis
    proof (cases "stk = 0")
      case True
      with g mem.alloc_none [OF assms(1) ok(1)] have "m = smem s" by simp
      with True g have g0: "getmem n (smem s) = Some (0, smem s)" by simp
      then have "proc_create tramp entry stksize name s = Some (-1, s)"
        using Some by (simp add: proc_create_def Let_def n_def [symmetric])
      with g0 nle show ?thesis by (intro exI [of _ "-1"] exI [of _ s]) auto
    next
      case False
      note al = mem.alloc_some [OF assms(1) ok(1) g False, unfolded ok(2)]
      let ?q = "stk + n - 96"
      let ?s1 = "fill_slot tramp entry p stk n name ?q (s\<lparr>smem := m\<rparr>)"
      define s' where "s' = ready_push p ?s1"
      have cr: "proc_create tramp entry stksize name s = Some (int p, s')"
        using Some g False by (simp add: proc_create_def Let_def n_def [symmetric] s'_def)
      have ent: "stkbase (proctab s' p) = stk" "stklen (proctab s' p) = n" "sp (proctab s' p) = ?q"
        "pstate (proctab s' p) = PR_READY" "prio (proctab s' p) = 1"
        by (simp_all add: s'_def same_procs_entry [OF ready_push_same] fill_slot_def Let_def)
      have sm: "smem s' = store_words ?q (initial_frame tramp entry) m"
        by (simp add: s'_def same_procs_globals [OF ready_push_same] fill_slot_fields)
      have nw: "unat stk + unat n < 18446744073709551616"
        using al mem.free_in_heap [OF assms(1)] n(1) by (intro block_span_no_wrap) auto
      have cells: "unat (?q + 8 * of_nat k) \<notin> heap_free m" if "k < 12" for k
      proof -
        have "unat (8 * of_nat k :: u64) = 8 * k" using that by (simp add: unat_word_ariths unat_of_nat)
        moreover have "unat ?q = unat stk + unat n - 96"
          using nw n(1) by (simp add: unat_add64 unat_sub64 word_le_nat_alt)
        ultimately have "unat (?q + 8 * of_nat k) = unat stk + unat n - 96 + 8 * k"
          using nw that n(1) by (simp add: unat_add64)
        then show ?thesis using al that n(1) by (auto simp: span_def)
      qed
      have hp: "heap_valid (smem s')" "heap_free (smem s') = heap_free m"
        using store_words_heap [of m "initial_frame tramp entry" ?q] al cells
        by (simp_all add: sm initial_frame_def)
      have fr: "x30 (load_frame (smem s') ?q) = tramp" "x19 (load_frame (smem s') ?q) = entry"
        "sp_el1 (load_frame (smem s') ?q) = stk + n"
        unfolding sm using load_frame_store_words [of "initial_frame tramp entry" ?q m]
        by (simp_all add: initial_frame_def del: store_words.simps)
      have "aligned (stk + n)" using al n(4) by (intro aligned_add) (auto simp: block_addr_ok_def)
      then show ?thesis
        using cr ent hp al fr slot nle by (intro exI [of _ "int p"] exI [of _ s']) (simp add: Let_def states_def)
    qed
  qed
qed

theorem proc_create_spec_witness:
  "\<exists>rc s'. proc_create 64 100 2048 ''shell'' sched_boot = Some (rc, s') \<and>
     (if rc = -1 then s' = sched_boot else x19 (load_frame (smem s') (sp (proctab s' (nat rc)))) = 100)"
proof -
  have "smem (proc_init s) = smem s" for s
  proof -
    have "smem (proc_init_loop is s) = smem s" "smem (smpsched_init_loop is s) = smem s" for "is" s
      by (induction "is" arbitrary: s) (simp_all add: Let_def)
    then show ?thesis by (simp add: proc_init_def smpsched_init_def Let_def)
  qed
  then have v: "heap_valid (smem sched_boot)"
    using small_heap_inv by (auto simp: sched_boot_def heap_valid_def)
  from proc_create_spec [OF v, of 2048 64 100 "''shell''"] show ?thesis
    by (auto simp: Let_def split: if_splits)
qed

text \<open>Sleeping on the idle process with an empty ready list switches the core into its own stale
  slot: the stack pointer is reloaded from the value saved at the previous switch (0 right after
  proc_init), not from the one just saved, so the caller is not resumed where it was.\<close>

theorem idle_sleep_stale_sp:
  assumes "ready_queue s []" and "smpsched_curr s 0 = NULLPROC"
  shows "\<exists>r' s'. proc_sleep_us now us 0 r s = Some (r', s') \<and> sp (proctab s' NULLPROC) = sp_el1 r - 96 \<and>
    sp_el1 r' = sp (proctab s NULLPROC) + 96"
proof -
  let ?s = "set_state NULLPROC PR_SLEEP (upd_proc NULLPROC (wake_at_us_update (\<lambda>_. now + us)) s)"
  have "ready_queue ?s [] = ready_queue s []" by (intro ready_queue_cong) simp_all
  with assms(1) have "ready_pop ?s = Some (None, ?s)" by (intro ready_pop_empty) simp
  then show ?thesis
    by (simp add: proc_sleep_us_def switch_away_def Let_def assms(2) IDLE_PID_def ctxsw_def set_old_sp_def load_frame_def)
qed

theorem idle_sleep_stale_sp_witness:
  "\<exists>r' s'. proc_sleep_us 0 10 0 any_cpu sched_boot = Some (r', s') \<and> sp_el1 r' = 96"
proof -
  have q: "ready_queue sched_boot []" unfolding sched_boot_def by (rule proc_init_queue)
  have c: "smpsched_curr sched_boot 0 = NULLPROC" "sp (proctab sched_boot NULLPROC) = 0"
    by (simp_all add: sched_boot_def init_loop_unfold)
  from idle_sleep_stale_sp [OF q c(1), of 0 10 any_cpu] c(2) show ?thesis by auto
qed

end
