(* ===== verification/Kprintf.thy ===== *)
theory Kprintf
  imports Prelude
begin

text \<open>
  Formatted console output of \<open>system/xinu_compat.c\<close>: the decimal and hexadecimal conversion loops
  and \<open>kprintf\<close>. The output is the string of the characters sent to the UART.
\<close>

section \<open>Formatted output\<close>

text \<open>The digits the conversion loops put in \<open>buf\<close>, lowest first; the result is their reverse.\<close>

function dec_digits :: "u64 \<Rightarrow> string" where
  "dec_digits v = (if v = 0 then [] else char_of (48 + unat (v mod 10)) # dec_digits (v div 10))"
  by auto
termination
proof (relation "measure unat")
  fix v :: u64
  assume "v \<noteq> 0"
  then have "0 < unat v" by (simp add: unat_gt_0)
  then show "(v div 10, v) \<in> measure unat" by (simp add: unat_div)
qed simp

function hex_digits :: "u64 \<Rightarrow> string" where
  "hex_digits v =
     (if v = 0 then []
      else let d = unat (v AND 0xF)
           in char_of (if d < 10 then 48 + d else 97 + d - 10) # hex_digits (drop_bit 4 v))"
  by auto
termination
proof (relation "measure unat")
  fix v :: u64 and d :: nat
  assume "v \<noteq> 0"
  then have "0 < unat v" by (simp add: unat_gt_0)
  then show "(drop_bit 4 v, v) \<in> measure unat" by (simp add: drop_bit_eq_div unat_div)
qed simp

declare dec_digits.simps [simp del] hex_digits.simps [simp del]

definition kp_putdec :: "u64 \<Rightarrow> string" where
  "kp_putdec v = (if v = 0 then ''0'' else rev (dec_digits v))"

definition kp_puthex :: "u64 \<Rightarrow> string" where
  "kp_puthex v = (if v = 0 then ''0'' else rev (hex_digits v))"

text \<open>
  The variable arguments: a register or stack slot of 64 bits, or a pointer to a string
  (\<open>None\<close> is a null pointer). An \<open>int\<close> is the sign-extended low half of its slot. Reading an
  argument that was not passed, or one of the wrong kind, is undefined: \<open>None\<close>.
\<close>

datatype vararg = VWord u64 | VStr "string option"

definition va_int :: "bool \<Rightarrow> u64 \<Rightarrow> u64" where
  "va_int is_long w = (if is_long then w else scast (ucast w :: u32))"

definition va_uint :: "bool \<Rightarrow> u64 \<Rightarrow> u64" where
  "va_uint is_long w = (if is_long then w else ucast (ucast w :: u32))"

definition kprintf_dec :: "u64 \<Rightarrow> string" where
  "kprintf_dec v = (if sint v < 0 then CHR ''-'' # kp_putdec (- v) else kp_putdec v)"

text \<open>The conversion character after \<open>%\<close> (and \<open>l\<close>): its output and the remaining arguments.\<close>

definition kprintf_conv :: "bool \<Rightarrow> char \<Rightarrow> vararg list \<Rightarrow> (string \<times> vararg list) option" where
  "kprintf_conv is_long c args =
     (if c = CHR ''d'' \<or> c = CHR ''i'' then
        (case args of VWord w # r \<Rightarrow> Some (kprintf_dec (va_int is_long w), r) | _ \<Rightarrow> None)
      else if c = CHR ''u'' then
        (case args of VWord w # r \<Rightarrow> Some (kp_putdec (va_uint is_long w), r) | _ \<Rightarrow> None)
      else if c = CHR ''x'' \<or> c = CHR ''X'' then
        (case args of VWord w # r \<Rightarrow> Some (kp_puthex (va_uint is_long w), r) | _ \<Rightarrow> None)
      else if c = CHR ''s'' then
        (case args of VStr p # r \<Rightarrow> Some (case p of Some str \<Rightarrow> str | None \<Rightarrow> ''(null)'', r) | _ \<Rightarrow> None)
      else if c = CHR ''c'' then
        (case args of VWord w # r \<Rightarrow> Some ([char_of (unat (ucast w :: u8))], r) | _ \<Rightarrow> None)
      else if c = CHR ''p'' then
        (case args of VWord w # r \<Rightarrow> Some (''0x'' @ kp_puthex w, r) | _ \<Rightarrow> None)
      else if c = CHR ''%'' then Some (''%'', args)
      else Some ([CHR ''%'', c], args))"

text \<open>\<open>kprintf_pct\<close> continues after \<open>%\<close> and the optional \<open>l\<close>.\<close>

function (sequential) kprintf :: "string \<Rightarrow> vararg list \<Rightarrow> string option"
  and kprintf_pct :: "bool \<Rightarrow> string \<Rightarrow> vararg list \<Rightarrow> string option" where
  "kprintf [] args = Some []"
| "kprintf (c # p) args =
     (if c \<noteq> CHR ''%'' then map_option (Cons c) (kprintf p args)
      else if p \<noteq> [] \<and> hd p = CHR ''l'' then kprintf_pct True (tl p) args
      else kprintf_pct False p args)"
| "kprintf_pct is_long [] args = Some ''%''"
| "kprintf_pct is_long (d # q) args =
     (case kprintf_conv is_long d args of
        None \<Rightarrow> None
      | Some (out, rest) \<Rightarrow> map_option ((@) out) (kprintf q rest))"
  by pat_completeness auto
termination
  by (relation "measure (\<lambda>x. case x of Inl (p, _) \<Rightarrow> length p | Inr (_, p, _) \<Rightarrow> length p)")
    (auto simp: neq_Nil_conv)

section \<open>Printed numbers\<close>

fun dec_value :: "nat \<Rightarrow> string \<Rightarrow> nat" where
  "dec_value acc [] = acc"
| "dec_value acc (c # cs) = dec_value (10 * acc + (of_char c - 48)) cs"

lemma dec_value_append: "dec_value acc (xs @ ys) = dec_value (dec_value acc xs) ys"
  by (induction xs arbitrary: acc) auto

lemma of_char_digit: "d < 10 \<Longrightarrow> (of_char (char_of (48 + d :: nat)) :: nat) = 48 + d"
  by (simp add: of_char_of)

lemma dec_digits_value: "dec_value 0 (rev (dec_digits v)) = unat v"
proof (induction v rule: dec_digits.induct)
  case (1 v)
  show ?case
  proof (cases "v = 0")
    case False
    have m: "unat (v mod 10) = unat v mod 10" by (simp add: unat_mod)
    with 1 [OF False] False show ?thesis
      by (subst dec_digits.simps) (simp add: dec_value_append of_char_digit unat_div m)
  qed (simp add: dec_digits.simps)
qed

lemma dec_digits_length: "unat v < 10 ^ n \<Longrightarrow> length (dec_digits v) \<le> n"
proof (induction n arbitrary: v)
  case 0
  then show ?case by (simp add: unat_eq_0 dec_digits.simps)
next
  case (Suc n)
  then have "unat (v div 10) < 10 ^ n" by (simp add: unat_div div_less_iff_less_mult mult.commute)
  with Suc.IH show ?case by (subst dec_digits.simps) auto
qed

lemma dec_digits_last: "v \<noteq> 0 \<Longrightarrow> dec_digits v \<noteq> [] \<and> last (dec_digits v) \<noteq> CHR ''0''"
proof (induction v rule: dec_digits.induct)
  case (1 v)
  have "char_of (48 + unat (v mod 10)) \<noteq> CHR ''0''" if "v div 10 = 0"
  proof
    assume "char_of (48 + unat (v mod 10)) = CHR ''0''"
    then have "(of_char (char_of (48 + unat (v mod 10))) :: nat) = of_char CHR ''0''" by simp
    moreover have "unat (v mod 10) < 10" by (simp add: unat_mod)
    ultimately have "unat (v mod 10) = 0" by (simp only: of_char_digit) simp
    moreover from arg_cong [OF that, of unat] have "unat v div 10 = 0" by (simp add: unat_div)
    ultimately show False using 1(2) by (simp add: unat_mod u64_eq_iff_unat)
  qed
  moreover have "dec_digits v = char_of (48 + unat (v mod 10)) # dec_digits (v div 10)"
    using 1(2) by (subst dec_digits.simps) simp
  moreover have "dec_digits 0 = []" by (simp add: dec_digits.simps)
  ultimately show ?case using 1 by (cases "v div 10 = 0") auto
qed

text \<open>kp_putdec prints the decimal numeral of every 64-bit value: the digits read back to the
  value, there is no leading zero except for 0 itself, and at most 20 characters are produced, so
  the 24-byte buffer never overflows.\<close>

theorem kp_putdec_correct:
  "dec_value 0 (kp_putdec v) = unat v \<and> length (kp_putdec v) \<le> 20 \<and>
   (v \<noteq> 0 \<longrightarrow> kp_putdec v \<noteq> [] \<and> hd (kp_putdec v) \<noteq> CHR ''0'')"
proof -
  have "length (dec_digits v) \<le> 20"
    using unat_bound64 [of v] by (intro dec_digits_length) simp
  moreover have "hd (rev (dec_digits v)) \<noteq> CHR ''0''" if "v \<noteq> 0"
    using dec_digits_last [OF that] by (simp add: hd_rev)
  ultimately show ?thesis
    using dec_digits_value [of v] dec_digits_last [of v] by (auto simp: kp_putdec_def)
qed

theorem kp_putdec_correct_witness: "dec_value 0 (kp_putdec 4711) = 4711 \<and> hd (kp_putdec 4711) \<noteq> CHR ''0''"
  using kp_putdec_correct [of 4711] by simp

end
