(* ===== verification/Compat.thy ===== *)
theory Compat
  imports Kmalloc Kprintf
begin

text \<open>
  The kernel interface of \<open>system/xinu_compat.c\<close>, on which the ported network stack runs:
  counting semaphores that never block, mailboxes as ring buffers in a static message pool,
  buffer pools carved out of one \<open>kmalloc\<close> block with an intrusive free list, and the device, route and
  thread stubs. Table indices and ring positions are
  natural numbers (they stay below 128); semaphore identifiers are 32-bit words, since
  \<open>(semaphore)SYSERR\<close> is the all-ones word.
\<close>

definition SYSERR :: int where "SYSERR = -1"
definition OK :: int where "OK = 1"

section \<open>Semaphores\<close>

definition NSEM :: nat where "NSEM = 64"
definition SFREE :: nat where "SFREE = 1"
definition SUSED :: nat where "SUSED = 2"

record sement =
  sem_state :: nat
  sem_count :: int

type_synonym semtab = "nat \<Rightarrow> sement"

fun semcreate_loop :: "nat list \<Rightarrow> int \<Rightarrow> semtab \<Rightarrow> u32 \<times> semtab" where
  "semcreate_loop [] n t = (of_int SYSERR, t)"
| "semcreate_loop (i # is) n t =
     (if sem_state (t i) \<noteq> SUSED then (of_nat i, t(i := (t i)\<lparr>sem_state := SUSED, sem_count := n\<rparr>))
      else semcreate_loop is n t)"

definition semcreate :: "int \<Rightarrow> semtab \<Rightarrow> u32 \<times> semtab" where
  "semcreate n t = semcreate_loop [1..<NSEM] n t"

definition bad_sem :: "u32 \<Rightarrow> bool" where
  "bad_sem s \<longleftrightarrow> s = 0 \<or> NSEM \<le> unat s"

definition semfree :: "u32 \<Rightarrow> semtab \<Rightarrow> int \<times> semtab" where
  "semfree s t =
     (if bad_sem s then (SYSERR, t) else (OK, t(unat s := (t (unat s))\<lparr>sem_state := SFREE\<rparr>)))"

definition semcount :: "u32 \<Rightarrow> semtab \<Rightarrow> int" where
  "semcount s t = (if bad_sem s then SYSERR else sem_count (t (unat s)))"

definition sem_add :: "u32 \<Rightarrow> int \<Rightarrow> semtab \<Rightarrow> int \<times> semtab" where
  "sem_add s n t =
     (if bad_sem s then (SYSERR, t)
      else (OK, t(unat s := (t (unat s))\<lparr>sem_count := sem_count (t (unat s)) + n\<rparr>)))"

definition wait :: "u32 \<Rightarrow> semtab \<Rightarrow> int \<times> semtab" where
  "wait s t = sem_add s (-1) t"

definition signal :: "u32 \<Rightarrow> semtab \<Rightarrow> int \<times> semtab" where
  "signal s t = sem_add s 1 t"

definition signaln :: "u32 \<Rightarrow> int \<Rightarrow> semtab \<Rightarrow> int \<times> semtab" where
  "signaln s n t = sem_add s n t"

section \<open>Mailboxes\<close>

definition NMBOX :: nat where "NMBOX = 32"
definition MBOX_MAX_MSGS :: nat where "MBOX_MAX_MSGS = 128"
definition MAILBOX_FREE :: nat where "MAILBOX_FREE = 0"
definition MAILBOX_ALLOC :: nat where "MAILBOX_ALLOC = 1"

record mbox =
  mb_sender :: u32
  mb_receiver :: u32
  mb_max :: nat
  mb_count :: nat
  mb_start :: nat
  mb_state :: nat
  mb_msgs :: nat               \<comment> \<open>index of the first slot in \<open>mbox_msgs_pool\<close>\<close>

definition NPOOL :: nat where "NPOOL = 16"
definition BFPFREE :: nat where "BFPFREE = 1"
definition BFPUSED :: nat where "BFPUSED = 2"

record bfpentry =
  bf_state :: nat
  bf_bufsize :: u32
  bf_nbuf :: u32
  bf_next :: u64
  bf_head :: u64
  bf_freebuf :: u32

record compat =
  sems :: semtab
  mboxtab :: "nat \<Rightarrow> mbox"
  mbox_msgs_pool :: "nat \<Rightarrow> int"
  bfptab :: "nat \<Rightarrow> bfpentry"
  km :: kmstate

fun mailboxInit_loop :: "nat list \<Rightarrow> compat \<Rightarrow> compat" where
  "mailboxInit_loop [] s = s"
| "mailboxInit_loop (i # is) s =
     mailboxInit_loop is (s\<lparr>mboxtab := (mboxtab s)(i := (mboxtab s i)\<lparr>mb_state := MAILBOX_FREE\<rparr>)\<rparr>)"

definition mailboxInit :: "compat \<Rightarrow> int \<times> compat" where
  "mailboxInit s = (OK, mailboxInit_loop [0..<NMBOX] s)"

fun mailboxAlloc_loop :: "nat list \<Rightarrow> nat \<Rightarrow> compat \<Rightarrow> int \<times> compat" where
  "mailboxAlloc_loop [] n s = (SYSERR, s)"
| "mailboxAlloc_loop (i # is) n s =
     (if mb_state (mboxtab s i) = MAILBOX_FREE then
        let (snd_id, t) = semcreate (int n) (sems s);
            (rcv_id, t) = semcreate 0 t;
            b = (mboxtab s i)\<lparr>mb_state := MAILBOX_ALLOC, mb_max := n, mb_count := 0, mb_start := 0,
                  mb_msgs := i * MBOX_MAX_MSGS, mb_sender := snd_id, mb_receiver := rcv_id\<rparr>
        in (int i, s\<lparr>sems := t, mboxtab := (mboxtab s)(i := b)\<rparr>)
      else mailboxAlloc_loop is n s)"

definition mailboxAlloc :: "nat \<Rightarrow> compat \<Rightarrow> int \<times> compat" where
  "mailboxAlloc n s = (if MBOX_MAX_MSGS < n then (SYSERR, s) else mailboxAlloc_loop [0..<NMBOX] n s)"

definition bad_mbox :: "nat \<Rightarrow> compat \<Rightarrow> bool" where
  "bad_mbox m s \<longleftrightarrow> NMBOX \<le> m \<or> mb_state (mboxtab s m) \<noteq> MAILBOX_ALLOC"

definition mailboxFree :: "nat \<Rightarrow> compat \<Rightarrow> int \<times> compat" where
  "mailboxFree m s =
     (if bad_mbox m s then (SYSERR, s)
      else
        let b = mboxtab s m;
            t = snd (semfree (mb_sender b) (sems s));
            t = snd (semfree (mb_receiver b) t)
        in (OK, s\<lparr>sems := t, mboxtab := (mboxtab s)(m := b\<lparr>mb_state := MAILBOX_FREE\<rparr>)\<rparr>))"

definition mailboxSend :: "nat \<Rightarrow> int \<Rightarrow> compat \<Rightarrow> int \<times> compat" where
  "mailboxSend m msg s =
     (if bad_mbox m s then (SYSERR, s)
      else
        let b = mboxtab s m
        in if mb_max b \<le> mb_count b then (SYSERR, s)
           else
             let slot = mb_msgs b + (mb_start b + mb_count b) mod mb_max b;
                 pool = (mbox_msgs_pool s)(slot := msg);
                 t = snd (signal (mb_receiver b) (sems s));
                 t = snd (wait (mb_sender b) t)
             in (OK, s\<lparr>mbox_msgs_pool := pool, sems := t,
                       mboxtab := (mboxtab s)(m := b\<lparr>mb_count := mb_count b + 1\<rparr>)\<rparr>))"

definition mailboxReceive :: "nat \<Rightarrow> compat \<Rightarrow> int \<times> compat" where
  "mailboxReceive m s =
     (if bad_mbox m s then (SYSERR, s)
      else
        let b = mboxtab s m
        in if mb_count b = 0 then (SYSERR, s)
           else
             let msg = mbox_msgs_pool s (mb_msgs b + mb_start b);
                 t = snd (wait (mb_receiver b) (sems s));
                 t = snd (signal (mb_sender b) t)
             in (msg, s\<lparr>sems := t,
                       mboxtab := (mboxtab s)(m := b\<lparr>mb_start := (mb_start b + 1) mod mb_max b,
                         mb_count := mb_count b - 1\<rparr>)\<rparr>))"

definition mailboxCount :: "nat \<Rightarrow> compat \<Rightarrow> int" where
  "mailboxCount m s = (if bad_mbox m s then SYSERR else int (mb_count (mboxtab s m)))"

section \<open>Buffer pools\<close>

text \<open>
  A \<open>struct poolbuf\<close> at \<open>b\<close> is the cells \<open>b\<close> (\<open>next\<close>) and \<open>b + 8\<close>, whose low half is the 32-bit
  \<open>poolid\<close>. The cells of two buffers are disjoint when \<open>bufsize\<close> is a multiple of 8.
\<close>

definition pb_store :: "u64 \<Rightarrow> u64 \<Rightarrow> compat \<Rightarrow> compat" where
  "pb_store a v s = s\<lparr>km := (km s)\<lparr>km_mem := store a v (km_mem (km s))\<rparr>\<rparr>"

definition pb_load :: "u64 \<Rightarrow> compat \<Rightarrow> u64" where
  "pb_load a s = ram (km_mem (km s)) a"

definition set_poolid :: "u64 \<Rightarrow> int \<Rightarrow> compat \<Rightarrow> compat" where
  "set_poolid b p s =
     pb_store (b + 8) ((pb_load (b + 8) s AND NOT (mask 32)) OR ucast (of_int p :: u32)) s"

definition get_poolid :: "u64 \<Rightarrow> compat \<Rightarrow> int" where
  "get_poolid b s = sint (ucast (pb_load (b + 8) s) :: u32)"

fun bfpalloc_link :: "nat list \<Rightarrow> u64 \<Rightarrow> u64 \<Rightarrow> int \<Rightarrow> u64 \<Rightarrow> compat \<Rightarrow> u64 \<times> compat" where
  "bfpalloc_link [] mem elem pool prev s = (prev, s)"
| "bfpalloc_link (i # is) mem elem pool prev s =
     (let b = mem + of_nat i * elem
      in bfpalloc_link is mem elem pool b (pb_store b prev (set_poolid b pool s)))"

definition bfpalloc :: "u32 \<Rightarrow> u32 \<Rightarrow> compat \<Rightarrow> (int \<times> compat) option" where
  "bfpalloc bufsize nbuf s =
     (case List.find (\<lambda>i. bf_state (bfptab s i) \<noteq> BFPUSED) [0..<NPOOL] of
        None \<Rightarrow> Some (SYSERR, s)
      | Some pool \<Rightarrow>
          let elem = ucast bufsize + 16;
              total = elem * ucast nbuf
          in case kmalloc total (km s) of
               None \<Rightarrow> None
             | Some (mem, k) \<Rightarrow>
                 let s = s\<lparr>km := k\<rparr>
                 in if mem = 0 then Some (SYSERR, s)
                    else
                      let (sem, t) = semcreate (sint nbuf) (sems s);
                          s = s\<lparr>sems := t, bfptab := (bfptab s)(pool := (bfptab s pool)\<lparr>bf_state := BFPUSED,
                                bf_bufsize := bufsize, bf_nbuf := nbuf, bf_head := mem, bf_freebuf := sem\<rparr>)\<rparr>;
                          (prev, s) = bfpalloc_link [0..<unat nbuf] mem elem (int pool) 0 s
                      in Some (int pool, s\<lparr>bfptab := (bfptab s)(pool := (bfptab s pool)\<lparr>bf_next := prev\<rparr>)\<rparr>))"

definition bad_pool :: "int \<Rightarrow> bool" where
  "bad_pool p \<longleftrightarrow> p < 0 \<or> int NPOOL \<le> p"

definition bufget :: "int \<Rightarrow> compat \<Rightarrow> u64 \<times> compat" where
  "bufget poolid s =
     (if bad_pool poolid then (0, s)
      else
        let i = nat poolid; p = bfptab s i
        in if bf_state p \<noteq> BFPUSED \<or> bf_next p = 0 then (0, s)
           else
             let b = bf_next p;
                 t = (if bf_freebuf p \<noteq> 0 then snd (wait (bf_freebuf p) (sems s)) else sems s)
             in (b + 16, s\<lparr>bfptab := (bfptab s)(i := p\<lparr>bf_next := pb_load b s\<rparr>), sems := t\<rparr>))"

definition buffree :: "u64 \<Rightarrow> compat \<Rightarrow> int \<times> compat" where
  "buffree buf s =
     (if buf = 0 then (SYSERR, s)
      else
        let b = buf - 16; poolid = get_poolid b s
        in if bad_pool poolid then (SYSERR, s)
           else
             let i = nat poolid; p = bfptab s i;
                 s = pb_store b (bf_next p) s;
                 t = (if bf_freebuf p \<noteq> 0 then snd (signal (bf_freebuf p) (sems s)) else sems s)
             in (OK, s\<lparr>bfptab := (bfptab s)(i := p\<lparr>bf_next := b\<rparr>), sems := t\<rparr>))"

definition bfpfree :: "int \<Rightarrow> compat \<Rightarrow> int \<times> compat" where
  "bfpfree poolid s =
     (if bad_pool poolid then (SYSERR, s)
      else (OK, s\<lparr>bfptab := (bfptab s)(nat poolid := (bfptab s (nat poolid))\<lparr>bf_state := BFPFREE\<rparr>)\<rparr>))"

section \<open>Stubs\<close>

definition gettid :: int where "gettid = 1"
definition create_thread :: int where "create_thread = 2"
definition ready_thread :: int where "ready_thread = OK"
definition kill :: "int \<Rightarrow> int" where "kill tid = OK"
definition recvclr :: int where "recvclr = OK"
definition recvtime :: "u32 \<Rightarrow> int" where "recvtime maxwait = OK"
definition send_msg :: "int \<Rightarrow> int \<Rightarrow> int" where "send_msg tid msg = OK"
definition dev_read :: "int \<Rightarrow> int" where "dev_read dev = SYSERR"
definition dev_write :: "int \<Rightarrow> int" where "dev_write dev = SYSERR"
definition dev_control :: "int \<Rightarrow> int" where "dev_control dev = SYSERR"
definition rtLookup :: int where "rtLookup = SYSERR"

section \<open>Mailboxes are bounded queues\<close>

text \<open>The messages in mailbox \<open>m\<close>, oldest first, and the well-formedness of its entry.\<close>

definition mbox_contents :: "compat \<Rightarrow> nat \<Rightarrow> int list" where
  "mbox_contents s m =
     (let b = mboxtab s m
      in map (\<lambda>k. mbox_msgs_pool s (mb_msgs b + (mb_start b + k) mod mb_max b)) [0..<mb_count b])"

definition mbox_ok :: "compat \<Rightarrow> nat \<Rightarrow> bool" where
  "mbox_ok s m \<longleftrightarrow>
     (let b = mboxtab s m
      in m < NMBOX \<and> mb_state b = MAILBOX_ALLOC \<and> mb_max b \<le> MBOX_MAX_MSGS \<and> mb_count b \<le> mb_max b \<and>
         (0 < mb_max b \<longrightarrow> mb_start b < mb_max b) \<and> mb_msgs b = m * MBOX_MAX_MSGS \<and>
         \<not> bad_sem (mb_sender b) \<and> \<not> bad_sem (mb_receiver b) \<and> mb_sender b \<noteq> mb_receiver b \<and>
         semcount (mb_receiver b) (sems s) = int (mb_count b) \<and>
         semcount (mb_sender b) (sems s) = int (mb_max b) - int (mb_count b))"

lemma mod_shift_inj:
  fixes n :: nat
  assumes "k < n" "j < n" "(a + k) mod n = (a + j) mod n"
  shows "k = j"
proof -
  have *: "k = j" if "k \<le> j" "k < n" "j < n" "(a + k) mod n = (a + j) mod n" for k j
  proof -
    have "n dvd (a + j) - (a + k)" using that(1,4) by (metis mod_eq_dvd_iff_nat add_le_cancel_left)
    then have "n dvd j - k" by simp
    with that show ?thesis by (auto dest: dvd_imp_le)
  qed
  show ?thesis using * [of k j] * [of j k] assms by (cases "k \<le> j") auto
qed

lemma ring_slot_neq:
  assumes "k < n" "n < mx"
  shows "(a + k) mod mx \<noteq> (a + n) mod (mx::nat)"
  using mod_shift_inj [of k mx n a] assms by auto

text \<open>What a bounded queue promises: an accepted send appends, an accepted receive takes the oldest
  message, a full or empty queue is refused and unchanged.\<close>

locale bounded_fifo =
  fixes send :: "int \<Rightarrow> 's \<Rightarrow> int \<times> 's" and recv :: "'s \<Rightarrow> int \<times> 's"
    and live :: "'s \<Rightarrow> bool" and contents :: "'s \<Rightarrow> int list" and cap :: "'s \<Rightarrow> nat" and ok :: int
  assumes send_full: "live s \<Longrightarrow> cap s \<le> length (contents s) \<Longrightarrow> snd (send v s) = s \<and> fst (send v s) \<noteq> ok"
    and send_room: "live s \<Longrightarrow> length (contents s) < cap s \<Longrightarrow>
      fst (send v s) = ok \<and> live (snd (send v s)) \<and> contents (snd (send v s)) = contents s @ [v] \<and>
      cap (snd (send v s)) = cap s"
    and recv_empty: "live s \<Longrightarrow> contents s = [] \<Longrightarrow> snd (recv s) = s"
    and recv_some: "live s \<Longrightarrow> contents s = v # vs \<Longrightarrow>
      fst (recv s) = v \<and> live (snd (recv s)) \<and> contents (snd (recv s)) = vs \<and> cap (snd (recv s)) = cap s"
begin

text \<open>A history of sends (\<open>Some v\<close>) and receives (\<open>None\<close>): the accepted messages, the received
  messages and the final state.\<close>

fun history :: "int option list \<Rightarrow> 's \<Rightarrow> int list \<times> int list \<times> 's" where
  "history [] s = ([], [], s)"
| "history (Some v # ops) s =
     (let s' = snd (send v s); (a, r, t) = history ops s'
      in if fst (send v s) = ok then (v # a, r, t) else (a, r, t))"
| "history (None # ops) s =
     (let s' = snd (recv s); (a, r, t) = history ops s'
      in if contents s = [] then (a, r, t) else (a, fst (recv s) # r, t))"

lemma history_fifo:
  assumes "live s" and "length (contents s) \<le> cap s" and "history ops s = (a, r, t)"
  shows "contents s @ a = r @ contents t \<and> live t \<and> length (contents t) \<le> cap t \<and> cap t = cap s"
  using assms
proof (induction ops arbitrary: s a r t)
  case Nil
  then show ?case by auto
next
  case (Cons op ops)
  show ?case
  proof (cases op)
    case (Some v)
    obtain a' r' t' where h: "history ops (snd (send v s)) = (a', r', t')" by (cases "history ops (snd (send v s))")
    show ?thesis
    proof (cases "length (contents s) < cap s")
      case True
      note sr = send_room [OF Cons.prems(1) True, of v]
      have "length (contents (snd (send v s))) \<le> cap (snd (send v s))" using sr True by simp
      with Cons.IH [OF _ this h] Cons.prems(3) Some h sr show ?thesis by auto
    next
      case False
      with send_full [OF Cons.prems(1), of v] have sf: "snd (send v s) = s" "fst (send v s) \<noteq> ok" by auto
      with Cons.IH [OF _ _ h] Cons.prems Some h show ?thesis by auto
    qed
  next
    case None
    obtain a' r' t' where h: "history ops (snd (recv s)) = (a', r', t')" by (cases "history ops (snd (recv s))")
    show ?thesis
    proof (cases "contents s")
      case Nil
      with recv_empty [OF Cons.prems(1)] have sf: "snd (recv s) = s" by simp
      with Cons.IH [OF _ _ h] Cons.prems None h Nil show ?thesis by auto
    next
      case (Cons v vs)
      note rs = recv_some [OF Cons.prems(1) Cons]
      then have "live (snd (recv s))" "length (contents (snd (recv s))) \<le> cap (snd (recv s))"
        using Cons Cons.prems by simp_all
      from Cons.IH [OF this h] Cons.prems(3) None h rs Cons show ?thesis by auto
    qed
  qed
qed

end

lemma sem_add_counts:
  assumes "\<not> bad_sem a" "\<not> bad_sem b"
  shows "semcount b (snd (sem_add a n t)) = (if a = b then semcount b t + n else semcount b t)"
proof -
  have "unat a = unat b \<longleftrightarrow> a = b" by (simp add: word_unat_eq_iff)
  with assms show ?thesis by (auto simp: sem_add_def semcount_def)
qed

lemma mbox_contents_length: "length (mbox_contents s m) = mb_count (mboxtab s m)"
  by (simp add: mbox_contents_def Let_def)

lemma mailboxSend_room:
  assumes ok: "mbox_ok s m" and room: "mb_count (mboxtab s m) < mb_max (mboxtab s m)"
  shows "fst (mailboxSend m v s) = OK \<and> mbox_ok (snd (mailboxSend m v s)) m \<and>
    mbox_contents (snd (mailboxSend m v s)) m = mbox_contents s m @ [v] \<and>
    mb_max (mboxtab (snd (mailboxSend m v s)) m) = mb_max (mboxtab s m)"
proof -
  define b where "b = mboxtab s m"
  have nb: "\<not> bad_mbox m s" using ok by (simp add: mbox_ok_def bad_mbox_def Let_def)
  define s' where "s' = snd (mailboxSend m v s)"
  have s': "fst (mailboxSend m v s) = OK" "mboxtab s' m = b\<lparr>mb_count := mb_count b + 1\<rparr>"
    "mbox_msgs_pool s' = (mbox_msgs_pool s)(mb_msgs b + (mb_start b + mb_count b) mod mb_max b := v)"
    "sems s' = snd (sem_add (mb_sender b) (-1) (snd (sem_add (mb_receiver b) 1 (sems s))))"
    using nb room by (auto simp: s'_def mailboxSend_def Let_def b_def signal_def wait_def)
  have "mbox_contents s' m = mbox_contents s m @ [v]"
    using room ring_slot_neq [of _ "mb_count b" "mb_max b" "mb_start b"]
    by (simp add: mbox_contents_def Let_def s'(2,3) b_def [symmetric])
  moreover have "mbox_ok s' m"
    using ok room by (auto simp: mbox_ok_def Let_def s' b_def [symmetric] sem_add_counts)
  ultimately show ?thesis using s' by (simp add: s'_def b_def)
qed

lemma mailboxReceive_some:
  assumes ok: "mbox_ok s m" and ne: "0 < mb_count (mboxtab s m)"
  shows "mbox_contents s m = fst (mailboxReceive m s) # mbox_contents (snd (mailboxReceive m s)) m \<and>
    mbox_ok (snd (mailboxReceive m s)) m \<and>
    mb_max (mboxtab (snd (mailboxReceive m s)) m) = mb_max (mboxtab s m)"
proof -
  define b where "b = mboxtab s m"
  have nb: "\<not> bad_mbox m s" using ok by (simp add: mbox_ok_def bad_mbox_def Let_def)
  have st: "mb_start b < mb_max b" "0 < mb_max b" using ok ne by (auto simp: mbox_ok_def Let_def b_def)
  define s' where "s' = snd (mailboxReceive m s)"
  have s': "fst (mailboxReceive m s) = mbox_msgs_pool s (mb_msgs b + mb_start b)"
    "mboxtab s' m = b\<lparr>mb_start := (mb_start b + 1) mod mb_max b, mb_count := mb_count b - 1\<rparr>"
    "mbox_msgs_pool s' = mbox_msgs_pool s"
    "sems s' = snd (sem_add (mb_sender b) 1 (snd (sem_add (mb_receiver b) (-1) (sems s))))"
    using nb ne by (auto simp: s'_def mailboxReceive_def Let_def b_def signal_def wait_def)
  obtain c where c: "mb_count b = Suc c" using ne by (cases "mb_count b") (auto simp: b_def)
  have "((mb_start b + 1) mod mb_max b + k) mod mb_max b = (mb_start b + Suc k) mod mb_max b" for k
    by (simp add: mod_add_left_eq)
  then have "mbox_contents s m = mbox_msgs_pool s (mb_msgs b + mb_start b) # mbox_contents s' m"
    using st c by (simp add: mbox_contents_def Let_def s'(2,3) b_def [symmetric] upt_conv_Cons map_Suc_upt [symmetric]
        comp_def del: upt_Suc)
  moreover have "mbox_ok s' m"
    using ok ne st by (auto simp: mbox_ok_def Let_def s' b_def [symmetric] sem_add_counts)
  ultimately show ?thesis using s' by (simp add: s'_def b_def)
qed

interpretation mbox: bounded_fifo "mailboxSend m" "mailboxReceive m" "\<lambda>s. mbox_ok s m" "\<lambda>s. mbox_contents s m"
  "\<lambda>s. mb_max (mboxtab s m)" OK for m
proof
  fix s v assume "mbox_ok s m" "mb_max (mboxtab s m) \<le> length (mbox_contents s m)"
  then show "snd (mailboxSend m v s) = s \<and> fst (mailboxSend m v s) \<noteq> OK"
    by (auto simp: mailboxSend_def mbox_contents_length Let_def SYSERR_def OK_def)
next
  fix s assume "mbox_ok s m" "mbox_contents s m = []"
  then show "snd (mailboxReceive m s) = s"
    by (auto simp: mailboxReceive_def mbox_contents_length [symmetric] Let_def)
next
  fix s v vs assume ok: "mbox_ok s m" and c: "mbox_contents s m = v # vs"
  have "0 < mb_count (mboxtab s m)" using c mbox_contents_length [of s m] by simp
  from mailboxReceive_some [OF ok this] c
  show "fst (mailboxReceive m s) = v \<and> mbox_ok (snd (mailboxReceive m s)) m \<and>
      mbox_contents (snd (mailboxReceive m s)) m = vs \<and>
      mb_max (mboxtab (snd (mailboxReceive m s)) m) = mb_max (mboxtab s m)"
    by auto
qed (use mailboxSend_room mbox_contents_length in auto)

text \<open>A client's sequence of calls on one mailbox: \<open>Some v\<close> sends, \<open>None\<close> receives. The result lists the
  messages accepted and the messages received.\<close>

fun mbox_session :: "nat \<Rightarrow> int option list \<Rightarrow> compat \<Rightarrow> int list \<times> int list \<times> compat" where
  "mbox_session m [] s = ([], [], s)"
| "mbox_session m (Some v # ops) s =
     (let s' = snd (mailboxSend m v s); (a, r, t) = mbox_session m ops s'
      in if fst (mailboxSend m v s) = OK then (v # a, r, t) else (a, r, t))"
| "mbox_session m (None # ops) s =
     (let s' = snd (mailboxReceive m s); (a, r, t) = mbox_session m ops s'
      in if mailboxCount m s = 0 then (a, r, t) else (a, fst (mailboxReceive m s) # r, t))"

lemma mbox_session_history:
  "mbox_ok s m \<Longrightarrow> mbox_session m ops s = mbox.history m ops s"
proof (induction ops arbitrary: s)
  case (Cons op ops)
  have cnt: "mailboxCount m s = 0 \<longleftrightarrow> mbox_contents s m = []"
    using Cons.prems mbox_contents_length [of s m] by (auto simp: mailboxCount_def mbox_ok_def bad_mbox_def Let_def)
  have "mbox_ok (snd (mailboxSend m v s)) m" for v
    using mailboxSend_room [OF Cons.prems] Cons.prems mbox.send_full [OF Cons.prems, of v] mbox_contents_length [of s m]
    by (cases "mb_count (mboxtab s m) < mb_max (mboxtab s m)") auto
  moreover have "mbox_ok (snd (mailboxReceive m s)) m"
    using mailboxReceive_some [OF Cons.prems] mbox.recv_empty [OF Cons.prems] Cons.prems mbox_contents_length [of s m]
    by (cases "mb_count (mboxtab s m)") auto
  ultimately show ?case using Cons.IH cnt by (cases op) auto
qed simp

lemma semcreate_ok:
  assumes "semcreate n t = (i, t')" "\<not> bad_sem i"
  shows "sem_state (t (unat i)) \<noteq> SUSED" "sem_state (t' (unat i)) = SUSED" "semcount i t' = n"
    "\<And>j. j \<noteq> i \<Longrightarrow> \<not> bad_sem j \<Longrightarrow> semcount j t' = semcount j t"
proof -
  have gen: "sem_state (t (unat i)) \<noteq> SUSED \<and> t' = t(unat i := (t (unat i))\<lparr>sem_state := SUSED, sem_count := n\<rparr>)"
    if "semcreate_loop js n t = (i, t')" "\<forall>j \<in> set js. j < NSEM" for js
    using that
  proof (induction js)
    case Nil
    have "unat (-1 :: u32) = 4294967295" by (simp add: unsigned_minus_1_eq_mask mask_eq_exp_minus_1)
    then show ?case using Nil assms(2) by (auto simp: bad_sem_def NSEM_def SYSERR_def)
  next
    case (Cons j js)
    then show ?case by (auto simp: unat_of_nat NSEM_def split: if_splits)
  qed
  from gen [of "[1..<NSEM]"] assms(1)
  have g: "sem_state (t (unat i)) \<noteq> SUSED" "t' = t(unat i := (t (unat i))\<lparr>sem_state := SUSED, sem_count := n\<rparr>)"
    by (auto simp: semcreate_def simp del: upt_Suc)
  then show "sem_state (t (unat i)) \<noteq> SUSED" "sem_state (t' (unat i)) = SUSED" "semcount i t' = n"
    using assms(2) by (simp_all add: semcount_def)
  show "semcount j t' = semcount j t" if "j \<noteq> i" "\<not> bad_sem j" for j
  proof -
    have "unat j \<noteq> unat i" using that(1) by (simp add: word_unat_eq_iff)
    then show ?thesis using that(2) by (simp add: semcount_def g(2))
  qed
qed

lemma mailboxAlloc_fresh:
  assumes al: "mailboxAlloc n s = (int m, s')"
    and sem: "\<not> bad_sem (mb_sender (mboxtab s' m))" "\<not> bad_sem (mb_receiver (mboxtab s' m))"
  shows "mbox_ok s' m \<and> mbox_contents s' m = [] \<and> mb_max (mboxtab s' m) = n"
proof -
  have n: "n \<le> MBOX_MAX_MSGS" using al by (auto simp: mailboxAlloc_def SYSERR_def split: if_splits)
  have gen: "m \<in> set is \<and> (\<exists>a t b u. semcreate (int n) (sems s) = (a, t) \<and> semcreate 0 t = (b, u) \<and> sems s' = u \<and>
      mboxtab s' m = (mboxtab s m)\<lparr>mb_state := MAILBOX_ALLOC, mb_max := n, mb_count := 0, mb_start := 0,
        mb_msgs := m * MBOX_MAX_MSGS, mb_sender := a, mb_receiver := b\<rparr>)"
    if "mailboxAlloc_loop is n s = (int m, s')" for "is"
    using that
  proof (induction "is")
    case (Cons i "is")
    then show ?case by (auto simp: Let_def split: if_splits prod.splits)
  qed (simp add: SYSERR_def)
  from gen [of "[0..<NMBOX]"] al n obtain a t b u where
    m: "m < NMBOX" and a: "semcreate (int n) (sems s) = (a, t)" and b: "semcreate 0 t = (b, u)" and s': "sems s' = u"
    and mb: "mboxtab s' m = (mboxtab s m)\<lparr>mb_state := MAILBOX_ALLOC, mb_max := n, mb_count := 0, mb_start := 0,
        mb_msgs := m * MBOX_MAX_MSGS, mb_sender := a, mb_receiver := b\<rparr>"
    by (auto simp: mailboxAlloc_def simp del: upt_Suc)
  have "\<not> bad_sem a" "\<not> bad_sem b" using sem by (simp_all add: mb)
  note A = semcreate_ok [OF a this(1)] and B = semcreate_ok [OF b this(2)]
  have "a \<noteq> b" using A(2) B(1) by auto
  then show ?thesis
    using m n A(3) B(3) B(4) [of a] \<open>\<not> bad_sem a\<close> \<open>\<not> bad_sem b\<close>
    by (simp add: mbox_ok_def mbox_contents_def Let_def mb s')
qed

text \<open>C15: a mailbox is a bounded first-in-first-out queue. From a freshly allocated mailbox, after any
  sequence of sends and receives, the messages received followed by those still in the ring are
  exactly the accepted messages in the order they were sent; the ring never holds more than its
  capacity; and the two semaphores count the messages and the free slots.\<close>

theorem mailbox_fifo:
  assumes "mailboxAlloc n s = (int m, s0)"
    and "\<not> bad_sem (mb_sender (mboxtab s0 m))" "\<not> bad_sem (mb_receiver (mboxtab s0 m))"
    and "mbox_session m ops s0 = (accepted, received, t)"
  shows "accepted = received @ mbox_contents t m \<and> length (mbox_contents t m) \<le> n \<and>
    mailboxCount m t = int (length (mbox_contents t m)) \<and>
    semcount (mb_receiver (mboxtab t m)) (sems t) = int (length (mbox_contents t m)) \<and>
    semcount (mb_sender (mboxtab t m)) (sems t) = int n - int (length (mbox_contents t m))"
proof -
  from mailboxAlloc_fresh [OF assms(1-3)] have f: "mbox_ok s0 m" "mbox_contents s0 m = []" "mb_max (mboxtab s0 m) = n"
    by auto
  have "mbox.history m ops s0 = (accepted, received, t)"
    using assms(4) mbox_session_history [OF f(1)] by simp
  from mbox.history_fifo [OF f(1) _ this] f
  have h: "accepted = received @ mbox_contents t m" "mbox_ok t m" "mb_max (mboxtab t m) = n"
    "length (mbox_contents t m) \<le> n" by auto
  from h(2,3) have "semcount (mb_receiver (mboxtab t m)) (sems t) = int (length (mbox_contents t m))"
    "semcount (mb_sender (mboxtab t m)) (sems t) = int n - int (length (mbox_contents t m))"
    "mailboxCount m t = int (length (mbox_contents t m))"
    by (auto simp: mbox_ok_def Let_def mbox_contents_length mailboxCount_def bad_mbox_def)
  with h show ?thesis by simp
qed

definition compat_boot :: compat where
  "compat_boot = \<lparr>sems = (\<lambda>_. \<lparr>sem_state = 0, sem_count = 0\<rparr>),
     mboxtab = (\<lambda>_. \<lparr>mb_sender = 0, mb_receiver = 0, mb_max = 0, mb_count = 0, mb_start = 0, mb_state = 0, mb_msgs = 0\<rparr>),
     mbox_msgs_pool = (\<lambda>_. 0),
     bfptab = (\<lambda>_. \<lparr>bf_state = 0, bf_bufsize = 0, bf_nbuf = 0, bf_next = 0, bf_head = 0, bf_freebuf = 0\<rparr>),
     km = km_boot\<rparr>"

theorem mailbox_fifo_witness:
  "\<exists>s0 t. mailboxAlloc 2 compat_boot = (int 0, s0) \<and>
     mbox_session 0 [Some 7, Some 8, Some 9, None] s0 = ([7, 8], [7], t) \<and> mbox_contents t 0 = [8]"
proof -
  define s0 where "s0 = snd (mailboxAlloc 2 compat_boot)"
  have a: "mailboxAlloc 2 compat_boot = (int 0, s0)" and sems: "mb_sender (mboxtab s0 0) = 1" "mb_receiver (mboxtab s0 0) = 2"
    by (simp_all add: s0_def mailboxAlloc_def MBOX_MAX_MSGS_def NMBOX_def upt_rec compat_boot_def MAILBOX_FREE_def
        semcreate_def NSEM_def SUSED_def)
  obtain acc rcv t where h: "mbox_session 0 [Some 7, Some 8, Some 9, None] s0 = (acc, rcv, t)"
    by (cases "mbox_session 0 [Some 7, Some 8, Some 9, None] s0")
  have "acc = [7, 8]" "rcv = [7]"
    using h by (auto simp: s0_def mailboxAlloc_def MBOX_MAX_MSGS_def NMBOX_def upt_rec compat_boot_def MAILBOX_FREE_def
        semcreate_def NSEM_def SUSED_def mailboxSend_def mailboxReceive_def mailboxCount_def bad_mbox_def MAILBOX_ALLOC_def
        Let_def OK_def SYSERR_def split: if_splits)
  with mailbox_fifo [OF a _ _ h] a h sems show ?thesis by (auto simp: bad_sem_def NSEM_def)
qed

section \<open>Buffer pools conserve their buffers\<close>

definition pool_elems :: "u64 \<Rightarrow> u64 \<Rightarrow> nat \<Rightarrow> u64 list" where
  "pool_elems mem elem n = map (\<lambda>i. mem + of_nat i * elem) [0..<n]"

text \<open>
  \<open>pool_inv s p els fr out\<close>: the buffers \<open>els\<close> of pool \<open>p\<close> are split into the free list \<open>fr\<close> and the
  outstanding ones \<open>out\<close>; every header names the pool; the semaphore counts the free ones.
\<close>

definition pool_inv :: "compat \<Rightarrow> nat \<Rightarrow> u64 list \<Rightarrow> u64 list \<Rightarrow> u64 list \<Rightarrow> bool" where
  "pool_inv s p els fr out \<longleftrightarrow>
     p < NPOOL \<and> bf_state (bfptab s p) = BFPUSED \<and>
     chain (\<lambda>b. ptr (pb_load b s)) (ptr (bf_next (bfptab s p))) fr None \<and>
     distinct (fr @ out) \<and> set (fr @ out) = set els \<and>
     (\<forall>b \<in> set els. b \<noteq> 0 \<and> b + 16 \<noteq> 0 \<and> get_poolid b s = int p) \<and>
     (\<forall>x \<in> set els. \<forall>y \<in> set els. x + 8 \<noteq> y) \<and>
     \<not> bad_sem (bf_freebuf (bfptab s p)) \<and>
     semcount (bf_freebuf (bfptab s p)) (sems s) = int (length fr)"

lemma bad_sem_0 [simp]: "bad_sem 0"
  by (simp add: bad_sem_def)

lemma bufget_inv:
  assumes inv: "pool_inv s p els fr out" and g: "bufget (int p) s = (buf, s')"
  shows "if fr = [] then buf = 0 \<and> s' = s
         else buf = hd fr + 16 \<and> buf \<noteq> 0 \<and> pool_inv s' p els (tl fr) (hd fr # out)"
proof -
  have p: "\<not> bad_pool (int p)" "bf_state (bfptab s p) = BFPUSED" "bf_freebuf (bfptab s p) \<noteq> 0"
    using inv by (auto simp: pool_inv_def bad_pool_def)
  show ?thesis
  proof (cases fr)
    case Nil
    then have "bf_next (bfptab s p) = 0" using inv by (simp add: pool_inv_def)
    with g p Nil show ?thesis by (simp add: bufget_def Let_def)
  next
    case (Cons b fr')
    then have b: "bf_next (bfptab s p) = b" "b \<noteq> 0" "chain (\<lambda>b. ptr (pb_load b s)) (ptr (pb_load b s)) fr' None"
      using inv by (auto simp: pool_inv_def)
    have s': "buf = b + 16" "s' = s\<lparr>bfptab := (bfptab s)(p := (bfptab s p)\<lparr>bf_next := pb_load b s\<rparr>),
        sems := snd (sem_add (bf_freebuf (bfptab s p)) (-1) (sems s))\<rparr>"
      using g p b by (auto simp: bufget_def Let_def wait_def)
    have "pb_load x s' = pb_load x s" "get_poolid x s' = get_poolid x s" for x
      by (simp_all add: s' pb_load_def get_poolid_def)
    with inv b show ?thesis
      by (auto simp: pool_inv_def Cons s' sem_add_counts)
  qed
qed

lemma buffree_inv:
  assumes inv: "pool_inv s p els fr (xs @ b # ys)"
  shows "\<exists>s'. buffree (b + 16) s = (OK, s') \<and> pool_inv s' p els (b # fr) (xs @ ys)"
proof -
  have b: "b \<in> set els" using inv by (auto simp: pool_inv_def)
  with inv have e: "b \<noteq> 0" "b + 16 \<noteq> 0" "get_poolid b s = int p" "p < NPOOL" "b \<notin> set fr" "distinct (fr @ xs @ ys)"
    "b \<notin> set (xs @ ys)"
    by (auto simp: pool_inv_def)
  have fb: "bf_freebuf (bfptab s p) \<noteq> 0" using inv by (auto simp: pool_inv_def)
  define s1 where "s1 = pb_store b (bf_next (bfptab s p)) s"
  define s' where "s' = s1\<lparr>bfptab := (bfptab s)(p := (bfptab s p)\<lparr>bf_next := b\<rparr>),
        sems := snd (sem_add (bf_freebuf (bfptab s p)) 1 (sems s))\<rparr>"
  have r: "buffree (b + 16) s = (OK, s')"
    using e fb by (simp add: buffree_def Let_def bad_pool_def s'_def s1_def pb_store_def signal_def)
  have ld: "pb_load x s' = (if x = b then bf_next (bfptab s p) else pb_load x s)" for x
    by (simp add: s'_def s1_def pb_load_def pb_store_def store_def)
  have id: "get_poolid x s' = get_poolid x s" if "x \<in> set els" for x
    using inv that b by (auto simp: get_poolid_def ld pool_inv_def)
  have "chain (\<lambda>x. ptr (pb_load x s')) (ptr (bf_next (bfptab s p))) fr None"
    using inv e(5) by (subst chain_cong [of fr _ "\<lambda>x. ptr (pb_load x s)"]) (auto simp: ld pool_inv_def)
  then have ch: "chain (\<lambda>x. ptr (pb_load x s')) (ptr b) (b # fr) None"
    using e(1) by (simp add: ld)
  have fld: "bfptab s' p = (bfptab s p)\<lparr>bf_next := b\<rparr>"
    "sems s' = snd (sem_add (bf_freebuf (bfptab s p)) 1 (sems s))" by (simp_all add: s'_def)
  have "pool_inv s' p els (b # fr) (xs @ ys)"
    using inv ch e id unfolding pool_inv_def fld by (auto simp: sem_add_counts)
  with r show ?thesis by blast
qed

lemma pool_client_inv:
  assumes inv: "pool_inv s p els fr out" and a: "\<forall>x \<in> set els. a \<noteq> x \<and> a \<noteq> x + 8"
  shows "pool_inv (pb_store a v s) p els fr out"
proof -
  have ld: "pb_load x (pb_store a v s) = (if x = a then v else pb_load x s)" for x
    by (simp add: pb_load_def pb_store_def store_def)
  have "get_poolid x (pb_store a v s) = get_poolid x s" if "x \<in> set els" for x
    using a that by (auto simp: get_poolid_def ld)
  moreover have "set fr \<subseteq> set els" using inv by (auto simp: pool_inv_def)
  then have "chain (\<lambda>x. ptr (pb_load x (pb_store a v s))) q fr None = chain (\<lambda>x. ptr (pb_load x s)) q fr None" for q
    using a by (intro chain_cong) (auto simp: ld)
  ultimately show ?thesis
    using inv unfolding pool_inv_def by (simp add: pb_store_def)
qed

lemma low_half: "ucast (((x :: u64) AND NOT (mask 32)) OR ucast (w :: u32)) = w"
  by (rule bit_word_eqI) (auto simp: bit_simps)

lemma poolid_roundtrip:
  assumes "0 \<le> p" "p < 2147483648"
  shows "get_poolid b (set_poolid b p s) = p"
proof -
  have "sint (of_int p :: u32) = p"
    using assms by (simp add: signed_of_int signed_take_bit_int_eq_self)
  then show ?thesis
    by (simp add: get_poolid_def set_poolid_def pb_load_def pb_store_def store_def low_half)
qed

lemma link_step_fields:
  "pb_load x (pb_store b prev (set_poolid b pool s)) = (if x = b then prev else if x = b + 8
     then pb_load x (set_poolid b pool s) else pb_load x s)"
  "sems (pb_store b prev (set_poolid b pool s)) = sems s" "bfptab (pb_store b prev (set_poolid b pool s)) = bfptab s"
  by (auto simp: pb_load_def pb_store_def set_poolid_def store_def)

lemma bfpalloc_link_inv:
  assumes "chain (\<lambda>b. ptr (pb_load b s)) (ptr prev) fr None" "\<forall>b \<in> set fr. get_poolid b s = pool"
    and "distinct (map (\<lambda>i. mem + of_nat i * elem) is @ fr)"
    and "\<forall>x \<in> set (map (\<lambda>i. mem + of_nat i * elem) is @ fr). x \<noteq> 0 \<and>
       (\<forall>y \<in> set (map (\<lambda>i. mem + of_nat i * elem) is @ fr). x + 8 \<noteq> y)"
    and "0 \<le> pool" "pool < 2147483648"
    and "bfpalloc_link is mem elem pool prev s = (prev', s')"
  shows "chain (\<lambda>b. ptr (pb_load b s')) (ptr prev') (rev (map (\<lambda>i. mem + of_nat i * elem) is) @ fr) None \<and>
    (\<forall>b \<in> set (map (\<lambda>i. mem + of_nat i * elem) is @ fr). get_poolid b s' = pool) \<and>
    sems s' = sems s \<and> bfptab s' = bfptab s"
  using assms
proof (induction "is" arbitrary: prev fr s)
  case (Cons i "is")
  let ?b = "mem + of_nat i * elem"
  let ?s = "pb_store ?b prev (set_poolid ?b pool s)"
  have b: "?b \<noteq> 0" "?b \<notin> set fr" "\<forall>x \<in> set fr. ?b + 8 \<noteq> x \<and> x + 8 \<noteq> ?b"
    using Cons.prems(3,4) by auto
  have "chain (\<lambda>b. ptr (pb_load b ?s)) (ptr prev) fr None"
    using Cons.prems(1) b by (subst chain_cong [of fr _ "\<lambda>b. ptr (pb_load b s)"]) (auto simp: link_step_fields)
  then have 1: "chain (\<lambda>b. ptr (pb_load b ?s)) (ptr ?b) (?b # fr) None"
    using b(1) by (simp add: link_step_fields)
  have "get_poolid ?b ?s = pool"
    using poolid_roundtrip [OF Cons.prems(5,6), of ?b s] by (simp add: get_poolid_def link_step_fields)
  moreover have "get_poolid x ?s = pool" if "x \<in> set fr" for x
    using that b Cons.prems(2) by (auto simp: get_poolid_def link_step_fields)
  ultimately have 2: "\<forall>x \<in> set (?b # fr). get_poolid x ?s = pool" by simp
  have 3: "distinct (map (\<lambda>i. mem + of_nat i * elem) is @ ?b # fr)" using Cons.prems(3) by auto
  have 4: "\<forall>x \<in> set (map (\<lambda>i. mem + of_nat i * elem) is @ ?b # fr). x \<noteq> 0 \<and>
       (\<forall>y \<in> set (map (\<lambda>i. mem + of_nat i * elem) is @ ?b # fr). x + 8 \<noteq> y)"
    using Cons.prems(4) by auto
  from Cons.IH [OF 1 2 3 4 Cons.prems(5,6)] Cons.prems(7) show ?case
    by (simp add: Let_def link_step_fields)
qed simp

text \<open>The elements of a block that does not wrap around are distinct and do not overlap.\<close>

lemma pool_elems_apart:
  assumes "unat mem + n * unat elem \<le> 18446744073709551616" "16 \<le> unat elem" "0 < unat mem"
  shows "distinct (pool_elems mem elem n)"
    and "x \<in> set (pool_elems mem elem n) \<Longrightarrow> x \<noteq> 0 \<and> (y \<in> set (pool_elems mem elem n) \<longrightarrow> x + 8 \<noteq> y) \<and>
      (unat x + 16 < 18446744073709551616 \<longrightarrow> x + 16 \<noteq> 0)"
    and "x \<in> set (pool_elems mem elem n) \<Longrightarrow> unat mem \<le> unat x \<and> unat x + unat elem \<le> unat mem + n * unat elem"
proof -
  have u: "unat (mem + of_nat i * elem) = unat mem + i * unat elem" if "i < n" for i
  proof -
    have le: "i * unat elem + unat elem \<le> n * unat elem" using that by (metis Suc_leI add.commute mult_Suc mult_le_mono1)
    have i: "i < 18446744073709551616"
    proof -
      have "n * 1 \<le> n * unat elem" using assms(2) by (intro mult_le_mono) auto
      then have "n \<le> n * unat elem" by (simp only: mult_1_right)
      with assms(1) that assms(3) show ?thesis by linarith
    qed
    have "unat (of_nat i * elem) = i * unat elem"
      using le i assms by (simp add: unat_word_ariths unat_of_nat)
    then show ?thesis using le assms(1,2) by (simp add: unat_add64)
  qed
  have step: "i * unat elem + 16 \<le> j * unat elem" if "i < j" for i j
  proof -
    have "Suc i * unat elem \<le> j * unat elem" using that by (intro mult_le_mono) auto
    with assms(2) show ?thesis by simp
  qed
  show "distinct (pool_elems mem elem n)"
    unfolding pool_elems_def distinct_map
  proof (intro conjI inj_onI)
    fix i j assume "i \<in> set [0..<n]" "j \<in> set [0..<n]" "mem + of_nat i * elem = mem + of_nat j * elem"
    then have "i * unat elem = j * unat elem" using u [of i] u [of j] by auto
    with step [of i j] step [of j i] show "i = j" by (cases i j rule: linorder_cases) auto
  qed simp
  assume "x \<in> set (pool_elems mem elem n)"
  then obtain i where i: "i < n" "x = mem + of_nat i * elem" by (auto simp: pool_elems_def)
  then have ux: "unat x = unat mem + i * unat elem" using u by simp
  have ie: "i * unat elem + unat elem \<le> n * unat elem" using i(1) by (metis Suc_leI add.commute mult_Suc mult_le_mono1)
  show "unat mem \<le> unat x \<and> unat x + unat elem \<le> unat mem + n * unat elem" using ux ie by simp
  have x8: "unat (x + 8) = unat x + 8" using ux ie assms(1,2) by (simp add: unat_add64)
  have "x + 8 \<noteq> y" if "y \<in> set (pool_elems mem elem n)"
  proof
    assume eq: "x + 8 = y"
    from that obtain j where j: "j < n" "y = mem + of_nat j * elem" by (auto simp: pool_elems_def)
    then have "i * unat elem + 8 = j * unat elem" using u [of j] x8 ux eq by simp
    with step [of i j] step [of j i] show False by (cases i j rule: linorder_cases) auto
  qed
  moreover have "x \<noteq> 0" using ux assms(3) by (auto simp: u64_eq_iff_unat)
  moreover have "x + 16 \<noteq> 0" if "unat x + 16 < 18446744073709551616"
    using that by (simp add: u64_eq_iff_unat unat_add64)
  ultimately show "x \<noteq> 0 \<and> (y \<in> set (pool_elems mem elem n) \<longrightarrow> x + 8 \<noteq> y) \<and>
      (unat x + 16 < 18446744073709551616 \<longrightarrow> x + 16 \<noteq> 0)" by blast
qed

lemma find_pool:
  assumes "List.find P [0..<NPOOL] = Some i"
  shows "i < NPOOL"
  using assms by (auto simp: find_Some_iff simp del: upt_Suc)

lemma bfpalloc_inv:
  assumes kinv: "km_inv (km s) live" and n: "0 < unat nbuf"
    and sz: "unat nbuf * (unat bufsize + 16) < 18446744073709551552"
    and al: "bfpalloc bufsize nbuf s = Some (int p, s')"
    and sem: "\<not> bad_sem (bf_freebuf (bfptab s' p))" and cnt: "unat nbuf < 2147483648"
  shows "\<exists>mem. pool_inv s' p (pool_elems mem (ucast bufsize + 16) (unat nbuf))
           (rev (pool_elems mem (ucast bufsize + 16) (unat nbuf))) [] \<and>
         (\<forall>x \<in> set (pool_elems mem (ucast bufsize + 16) (unat nbuf)).
            span (unat x) (unat bufsize + 16) \<subseteq> heap_free (km_mem (km s)))"
proof -
  define elem :: u64 where "elem = ucast bufsize + 16"
  define els where "els = (\<lambda>mem. pool_elems mem elem (unat nbuf))"
  have bs: "unat (ucast bufsize :: u64) = unat bufsize" "unat (ucast nbuf :: u64) = unat nbuf"
    by (simp_all add: unat_ucast_32_64)
  have "unat bufsize < 4294967296" using unsigned_less [of bufsize] by simp
  then have e: "unat elem = unat bufsize + 16" by (simp add: elem_def unat_add64 bs)
  have tot: "unat (elem * ucast nbuf) = unat nbuf * (unat bufsize + 16)"
    using sz by (simp add: unat_word_ariths e bs mult.commute)
  have kok: "kmalloc_size_ok (elem * ucast nbuf)"
    using sz n tot by (auto simp: kmalloc_size_ok_def u64_eq_iff_unat)
  from kmalloc_returns [OF kinv kok] obtain mem k where km: "kmalloc (elem * ucast nbuf) (km s) = Some (mem, k)" by blast
  obtain q where q: "List.find (\<lambda>i. bf_state (bfptab s i) \<noteq> BFPUSED) [0..<NPOOL] = Some q"
    using al by (cases "List.find (\<lambda>i. bf_state (bfptab s i) \<noteq> BFPUSED) [0..<NPOOL]")
      (auto simp: bfpalloc_def SYSERR_def simp del: upt_Suc)
  have mem0: "mem \<noteq> 0"
    using al q km by (auto simp: bfpalloc_def SYSERR_def Let_def elem_def simp del: upt_Suc)
  obtain sm t where sc: "semcreate (sint nbuf) (sems s) = (sm, t)" by fastforce
  define s1 where "s1 = s\<lparr>km := k, sems := t, bfptab := (bfptab s)(q := (bfptab s q)\<lparr>bf_state := BFPUSED,
      bf_bufsize := bufsize, bf_nbuf := nbuf, bf_head := mem, bf_freebuf := sm\<rparr>)\<rparr>"
  obtain prev s2 where lk: "bfpalloc_link [0..<unat nbuf] mem elem (int q) 0 s1 = (prev, s2)" by fastforce
  have res: "q = p" "s' = s2\<lparr>bfptab := (bfptab s2)(q := (bfptab s2 q)\<lparr>bf_next := prev\<rparr>)\<rparr>"
    using al q km mem0 sc lk by (auto simp: bfpalloc_def Let_def elem_def s1_def simp del: upt_Suc)
  have p: "p < NPOOL" using find_pool [OF q] res(1) by simp
  from kmalloc_inv [OF kinv kok km] mem0 have ki: "km_inv k ((mem, elem * ucast nbuf) # live)"
    "span (unat mem - 32) (unat (ROUNDMB (elem * ucast nbuf + 32))) \<subseteq> heap_free (km_mem (km s))" "32 \<le> unat mem"
    by auto
  let ?t = "elem * ucast nbuf + 32"
  have rt: "unat nbuf * (unat bufsize + 16) + 32 \<le> unat (ROUNDMB ?t)"
    using le_ROUNDMB [OF total_ok [OF kok]] unat_total [OF kok] tot by simp
  have nowrap: "unat mem - 32 + unat (ROUNDMB ?t) < 18446744073709551616"
  proof -
    have "unat (mem - 32) = unat mem - 32" using ki(3) by (simp add: unat_sub64 word_le_nat_alt)
    moreover have "heap_free (km_mem (km s)) \<subseteq> heap_range (km_mem (km s))"
      using kinv mem.free_in_heap by (auto simp: km_inv_def)
    ultimately show ?thesis
      using block_span_no_wrap [of "mem - 32" "unat (ROUNDMB ?t)" "km_mem (km s)"] ki(2) rt by auto
  qed
  have fit: "unat mem + unat nbuf * unat elem \<le> 18446744073709551616" "0 < unat mem" "16 \<le> unat elem"
    using nowrap rt ki(3) by (simp_all add: e)
  note ap = pool_elems_apart [OF fit(1,3,2)]
  have l: "chain (\<lambda>b. ptr (pb_load b s2)) (ptr prev) (rev (els mem)) None \<and>
      (\<forall>b \<in> set (els mem). get_poolid b s2 = int q) \<and> sems s2 = sems s1 \<and> bfptab s2 = bfptab s1"
    using bfpalloc_link_inv [OF _ _ _ _ _ _ lk, of "[]"] ap p res(1)
    by (simp add: els_def pool_elems_def NPOOL_def)
  have in_block: "unat mem \<le> unat x \<and> unat x + unat elem \<le> unat mem + unat nbuf * unat elem" if "x \<in> set (els mem)" for x
    using ap(3) that by (simp add: els_def)
  have x16: "x + 16 \<noteq> 0" if "x \<in> set (els mem)" for x
  proof -
    have "unat mem + unat nbuf * unat elem < 18446744073709551616" using nowrap rt ki(3) by (simp add: e)
    then have "unat x + 16 < 18446744073709551616" using in_block [OF that] by (simp add: e)
    with ap(2) [of x] that show ?thesis by (auto simp: els_def)
  qed
  have sems: "\<not> bad_sem sm" using sem l by (simp add: res s1_def)
  have "sint nbuf = int (unat nbuf)"
    by (rule sint_small32 [OF cnt])
  with semcreate_ok(3) [OF sc sems] have "semcount sm t = int (unat nbuf)" by simp
  then have "pool_inv s' p (els mem) (rev (els mem)) []"
    unfolding pool_inv_def res(2) using p l res(1) ap x16 sems
    by (auto simp: s1_def els_def pb_load_def get_poolid_def pool_elems_def)
  moreover have "span (unat x) (unat bufsize + 16) \<subseteq> heap_free (km_mem (km s))" if "x \<in> set (els mem)" for x
    using in_block [OF that] ki(2,3) rt e by (fastforce simp: span_def)
  ultimately show ?thesis unfolding els_def elem_def by blast
qed

text \<open>
  The life of a pool after \<open>bfpalloc\<close>: \<open>bufget\<close>, \<open>buffree\<close> of an outstanding buffer, and client
  stores that leave the buffer headers alone. \<open>out\<close> lists the buffers handed out and not returned.
\<close>

inductive pool_run :: "nat \<Rightarrow> u64 list \<Rightarrow> compat \<Rightarrow> compat \<Rightarrow> u64 list \<Rightarrow> bool" for p els s0 where
  start: "pool_run p els s0 s0 []"
| get: "pool_run p els s0 s out \<Longrightarrow> bufget (int p) s = (buf, s') \<Longrightarrow>
    pool_run p els s0 s' (if buf = 0 then out else (buf - 16) # out)"
| free: "pool_run p els s0 s (xs @ b # ys) \<Longrightarrow> buffree (b + 16) s = (rc, s') \<Longrightarrow> pool_run p els s0 s' (xs @ ys)"
| client: "pool_run p els s0 s out \<Longrightarrow> \<forall>x \<in> set els. a \<noteq> x \<and> a \<noteq> x + 8 \<Longrightarrow> pool_run p els s0 (pb_store a v s) out"

lemma pool_run_inv:
  assumes "pool_run p els s0 s out" and "pool_inv s0 p els fr0 []"
  shows "\<exists>fr. pool_inv s p els fr out"
  using assms
proof (induction rule: pool_run.induct)
  case (get s out buf s')
  then obtain fr where "pool_inv s p els fr out" by blast
  with bufget_inv [OF this get.hyps(2)] show ?case by (cases fr) auto
next
  case (free s xs b ys rc s')
  then obtain fr where "pool_inv s p els fr (xs @ b # ys)" by blast
  from buffree_inv [OF this] free.hyps(2) show ?case by auto
next
  case (client s out a v)
  then show ?case using pool_client_inv by blast
qed auto

text \<open>C16: a buffer pool conserves its buffers. From bfpalloc on, through any sequence of bufget, buffree of
  outstanding buffers and client stores outside the headers, the outstanding buffers are pairwise
  distinct elements of the pool, none of them is handed out again, the semaphore counts exactly the
  free ones, and bufget fails if and only if all nbuf buffers are outstanding.\<close>

theorem pool_conservation:
  assumes "km_inv (km s) live" and "0 < unat nbuf" "unat nbuf < 2147483648"
    and "unat nbuf * (unat bufsize + 16) < 18446744073709551552"
    and "bfpalloc bufsize nbuf s = Some (int p, s0)" and "\<not> bad_sem (bf_freebuf (bfptab s0 p))"
  shows "\<exists>mem. let els = pool_elems mem (ucast bufsize + 16) (unat nbuf) in
    distinct els \<and> (\<forall>x \<in> set els. span (unat x) (unat bufsize + 16) \<subseteq> heap_free (km_mem (km s))) \<and>
    (\<forall>t out buf t'. pool_run p els s0 t out \<longrightarrow> bufget (int p) t = (buf, t') \<longrightarrow>
       distinct out \<and> set out \<subseteq> set els \<and>
       semcount (bf_freebuf (bfptab t p)) (sems t) = int (unat nbuf) - int (length out) \<and>
       (buf = 0 \<longleftrightarrow> length out = unat nbuf) \<and> (buf \<noteq> 0 \<longrightarrow> buf - 16 \<in> set els - set out))"
proof -
  from bfpalloc_inv [OF assms(1,2,4,5,6,3)] obtain mem where
    inv: "pool_inv s0 p (pool_elems mem (ucast bufsize + 16) (unat nbuf)) (rev (pool_elems mem (ucast bufsize + 16) (unat nbuf))) []"
    and blk: "\<forall>x \<in> set (pool_elems mem (ucast bufsize + 16) (unat nbuf)). span (unat x) (unat bufsize + 16) \<subseteq> heap_free (km_mem (km s))"
    by blast
  let ?els = "pool_elems mem (ucast bufsize + 16) (unat nbuf)"
  have d: "distinct ?els" and len: "length ?els = unat nbuf"
    using inv by (simp_all add: pool_inv_def pool_elems_def)
  have "distinct out \<and> set out \<subseteq> set ?els \<and>
       semcount (bf_freebuf (bfptab t p)) (sems t) = int (unat nbuf) - int (length out) \<and>
       (buf = 0 \<longleftrightarrow> length out = unat nbuf) \<and> (buf \<noteq> 0 \<longrightarrow> buf - 16 \<in> set ?els - set out)"
    if run: "pool_run p ?els s0 t out" and g: "bufget (int p) t = (buf, t')" for t out buf t'
  proof -
    from pool_run_inv [OF run inv] obtain fr where i: "pool_inv t p ?els fr out" by blast
    then have dd: "distinct (fr @ out)" "set (fr @ out) = set ?els"
      and sem: "semcount (bf_freebuf (bfptab t p)) (sems t) = int (length fr)"
      by (simp_all add: pool_inv_def)
    have "length (fr @ out) = unat nbuf"
      using distinct_card [OF dd(1)] distinct_card [OF d] dd(2) len by simp
    then have sum: "length fr + length out = unat nbuf" by simp
    then have "fr = [] \<longleftrightarrow> length out = unat nbuf" by (cases fr) auto
    moreover have "buf = 0 \<longleftrightarrow> fr = []" "fr \<noteq> [] \<Longrightarrow> buf = hd fr + 16"
      using bufget_inv [OF i g] by (auto split: if_splits)
    moreover have "hd fr \<in> set ?els - set out" if "fr \<noteq> []"
      using dd hd_in_set [OF that] by auto
    moreover have "distinct out" "set out \<subseteq> set ?els" using dd by auto
    moreover from sum have "int (length fr) = int (unat nbuf) - int (length out)" by linarith
    ultimately show ?thesis using sem by (cases "fr = []") simp_all
  qed
  with d blk show ?thesis unfolding Let_def by blast
qed

theorem pool_conservation_witness:
  "\<exists>s0. bfpalloc 34 2 compat_boot = Some (int 0, s0) \<and>
     fst (bufget 0 s0) \<noteq> 0 \<and> semcount (bf_freebuf (bfptab s0 0)) (sems s0) = 2"
proof -
  from km_boot_alloc obtain k where k: "kmalloc 100 km_boot = Some (4128, k)" by blast
  have f: "List.find (\<lambda>i. bf_state (bfptab compat_boot i) \<noteq> BFPUSED) [0..<NPOOL] = Some 0"
    by (simp add: NPOOL_def upt_rec compat_boot_def BFPUSED_def)
  obtain sm t where sc: "semcreate 2 (sems compat_boot) = (sm, t)" by fastforce
  then have sm: "sm = 1" by (simp add: semcreate_def NSEM_def upt_rec compat_boot_def SUSED_def)
  define s1 where "s1 = compat_boot\<lparr>km := k, sems := t, bfptab := (bfptab compat_boot)(0 := (bfptab compat_boot 0)
      \<lparr>bf_state := BFPUSED, bf_bufsize := 34, bf_nbuf := 2, bf_head := 4128, bf_freebuf := 1\<rparr>)\<rparr>"
  obtain prev s2 where lk: "bfpalloc_link [0..<2] 4128 50 0 0 s1 = (prev, s2)" by fastforce
  have "bfptab s2 0 = bfptab s1 0" using lk by (auto simp: upt_rec Let_def link_step_fields)
  moreover define s0 where "s0 = s2\<lparr>bfptab := (bfptab s2)(0 := (bfptab s2 0)\<lparr>bf_next := prev\<rparr>)\<rparr>"
  ultimately have sem: "\<not> bad_sem (bf_freebuf (bfptab s0 0))"
    by (simp add: s1_def bad_sem_def NSEM_def)
  have al: "bfpalloc 34 2 compat_boot = Some (int 0, s0)"
    using k f sc sm lk by (simp add: bfpalloc_def Let_def s1_def s0_def compat_boot_def)
  have inv: "km_inv (km compat_boot) []" using km_run_inv [OF km_boot_run] by (simp add: compat_boot_def)
  obtain buf t' where g: "bufget (int 0) s0 = (buf, t')" by fastforce
  from pool_conservation [OF inv _ _ _ al sem] g al show ?thesis
    by (fastforce simp: Let_def intro: pool_run.start)
qed

end
