(* ===== verification/Checksum.thy ===== *)
theory Checksum
  imports Prelude
begin

text \<open>
  The Internet checksum (RFC 1071) as the kernel computes it three times: \<open>ip_checksum\<close> of
  \<open>system/net_responder.c\<close> and \<open>system/dhcp_client.c\<close> (big-endian 16-bit words in a 64-bit
  accumulator) and \<open>netChksum\<close> of \<open>network/net/netChksum.c\<close> (native little-endian words in a
  32-bit accumulator). The locale \<open>inet_checksum\<close> is the contract of a checksum routine and its
  client lemma: filling the zeroed checksum field makes the data verify.
\<close>

section \<open>The routines\<close>

text \<open>The accumulation loop of \<open>ip_checksum\<close>; \<open>data\<close> is the part of the buffer not summed yet.\<close>

fun sum16 :: "bytes \<Rightarrow> u64 \<Rightarrow> u64" where
  "sum16 (a # b # data) acc = sum16 data (acc + (push_bit 8 (ucast a) OR ucast b))"
| "sum16 [a] acc = acc + push_bit 8 (ucast a)"
| "sum16 [] acc = acc"

lemma unat_drop_bit16: "unat (drop_bit 16 (s :: 'a::len word)) = unat s div 65536"
proof -
  have "unat (drop_bit 16 s) = drop_bit 16 (take_bit LENGTH('a) (unat s))"
    by (rule unsigned_drop_bit_eq)
  also have "take_bit LENGTH('a) (unat s) = unat s"
    by (simp add: take_bit_nat_eq_self_iff)
  finally show ?thesis by (simp only: drop_bit_eq_div) simp
qed

lemma fold_step_less:
  fixes s :: "'a::len word"
  assumes "drop_bit 16 s \<noteq> 0" and "16 < LENGTH('a)"
  shows "unat ((s AND 0xFFFF) + drop_bit 16 s) = unat s mod 65536 + unat s div 65536"
    and "unat s mod 65536 + unat s div 65536 < unat s" and "65536 \<le> unat s"
proof -
  have m: "unat (s AND 0xFFFF) = unat s mod 65536"
  proof -
    have "s AND 0xFFFF = take_bit 16 s" by (simp add: take_bit_eq_mask mask_eq_exp_minus_1)
    moreover have "unat (take_bit 16 s) = take_bit 16 (unat s)" by (rule unsigned_take_bit_eq)
    moreover have "take_bit 16 (unat s) = unat s mod 65536" by (simp add: take_bit_eq_mod)
    ultimately show ?thesis by (simp only:)
  qed
  have d: "unat (drop_bit 16 s) = unat s div 65536"
    by (rule unat_drop_bit16)
  have "unat s div 65536 \<noteq> 0" using assms(1) d by (metis unat_eq_zero)
  then show big: "65536 \<le> unat s" by (metis div_less linorder_not_le)
  have e: "unat s = unat s div 65536 * 65536 + unat s mod 65536" by simp
  then show lt: "unat s mod 65536 + unat s div 65536 < unat s"
    using \<open>unat s div 65536 \<noteq> 0\<close> by linarith
  show "unat ((s AND 0xFFFF) + drop_bit 16 s) = unat s mod 65536 + unat s div 65536"
    using order.strict_trans [OF lt unsigned_less [of s]] unat_add_no_wrap [of "s AND 0xFFFF" "drop_bit 16 s"]
    by (simp only: m d)
qed

function fold16 :: "u64 \<Rightarrow> u64" where
  "fold16 acc = (if drop_bit 16 acc \<noteq> 0 then fold16 ((acc AND 0xFFFF) + drop_bit 16 acc) else acc)"
  by pat_completeness auto
termination
  by (relation "measure unat") (simp_all add: fold_step_less)

declare fold16.simps [simp del]

definition ip_checksum :: "bytes \<Rightarrow> u16" where
  "ip_checksum data = ucast (NOT (fold16 (sum16 data 0)) AND 0xFFFF)"

text \<open>\<open>netChksum\<close> loads 16-bit words in the byte order of the (little-endian) machine.\<close>

definition ntohs :: "u16 \<Rightarrow> u16" where
  "ntohs v = drop_bit 8 v OR push_bit 8 (v AND 0xFF)"

fun sum16_native :: "bytes \<Rightarrow> u32 \<Rightarrow> u32" where
  "sum16_native (a # b # data) acc = sum16_native data (acc + ucast (ucast a OR push_bit 8 (ucast b) :: u16))"
| "sum16_native [a] acc = acc + ucast (ntohs (push_bit 8 (ucast a)))"
| "sum16_native [] acc = acc"

function fold16_native :: "u32 \<Rightarrow> u32" where
  "fold16_native acc =
     (if drop_bit 16 acc \<noteq> 0 then fold16_native (drop_bit 16 acc + (acc AND 0xFFFF)) else acc)"
  by pat_completeness auto
termination
  by (relation "measure unat") (simp_all add: fold_step_less add.commute [of "drop_bit 16 _"])

declare fold16_native.simps [simp del]

definition netChksum :: "bytes \<Rightarrow> u16" where
  "netChksum data = ucast (NOT (fold16_native (sum16_native data 0)))"

section \<open>One's complement arithmetic\<close>

text \<open>The 16-bit one's complement value of a sum: the representative of \<open>n\<close> modulo 65535 in 1 to
  65535, and 0 for 0 itself.\<close>

definition ones :: "nat \<Rightarrow> nat" where
  "ones n = (if n = 0 then 0 else (n - 1) mod 65535 + 1)"

lemma ones_le: "ones n \<le> 65535"
proof -
  have "(n - 1) mod 65535 < 65535" by (rule mod_less_divisor) simp
  then show ?thesis unfolding ones_def by (simp only: split: if_split) linarith
qed

lemma ones_id: "n < 65536 \<Longrightarrow> ones n = n"
  by (auto simp: ones_def)

lemma ones_mod: "ones n mod 65535 = n mod 65535"
proof (cases "n = 0")
  case False
  then have "(n - 1) mod 65535 + 1 \<equiv> Suc ((n - 1) mod 65535)" by simp
  then have "((n - 1) mod 65535 + 1) mod 65535 = Suc (n - 1) mod 65535"
    by (simp only: mod_Suc_eq)
  with False show ?thesis by (simp add: ones_def)
qed (simp add: ones_def)

lemma ones_eq_0 [simp]: "ones n = 0 \<longleftrightarrow> n = 0"
  by (simp add: ones_def)

lemma ones_unique:
  fixes a b :: nat
  assumes "a mod 65535 = b mod 65535" and "a = 0 \<longleftrightarrow> b = 0" and "a \<le> 65535" "b \<le> 65535"
  shows "a = b"
proof (cases "a < 65535 \<and> b < 65535")
  case True
  with assms(1) show ?thesis by simp
next
  case False
  with assms show ?thesis by (cases "a = 65535"; cases "b = 65535") auto
qed

lemma ones_split: "\<exists>q. n = ones n + 65535 * q"
proof -
  have "ones n \<le> n" by (simp add: ones_def) (metis Suc_leI Suc_pred mod_less_eq_dividend le_imp_less_Suc)
  then show ?thesis by (rule mod_eq_nat2E [OF ones_mod]) blast
qed

lemma ones_full:
  assumes "n = 65535 * q" and "n \<noteq> 0"
  shows "ones n = 65535"
proof (rule ones_unique)
  show "ones n mod 65535 = 65535 mod 65535" unfolding ones_mod assms(1) by (simp only: mod_mult_self1_is_0 mod_self)
  show "ones n = 0 \<longleftrightarrow> 65535 = (0 :: nat)" using assms(2) by simp
qed (simp_all only: ones_le order_refl)

lemma ones_cong:
  assumes "a mod 65535 = b mod 65535" and "a = 0 \<longleftrightarrow> b = 0"
  shows "ones a = ones b"
proof (rule ones_unique)
  show "ones a mod 65535 = ones b mod 65535" by (simp only: ones_mod assms(1))
  show "ones a = 0 \<longleftrightarrow> ones b = 0" by (simp only: ones_eq_0 assms(2))
qed (rule ones_le)+

lemma mod_carry: "((q :: nat) * (m + 1) + r) mod m = (r + q) mod m"
proof -
  have "q * (m + 1) + r = (r + q) + q * m" by (simp add: distrib_left)
  then show ?thesis by (simp only: mod_mult_self1)
qed

lemma carry_mod: "((q :: nat) * 65536 + r) mod 65535 = (r + q) mod 65535"
  using mod_carry [of q 65535 r] by (simp only: numeral_plus_one semiring_norm)

lemma ones_fold:
  assumes "65536 \<le> n"
  shows "ones (n mod 65536 + n div 65536) = ones n"
proof (rule ones_cong)
  show "(n mod 65536 + n div 65536) mod 65535 = n mod 65535"
    by (subst (3) div_mult_mod_eq [of n 65536, symmetric]) (simp only: carry_mod)
  have "n div 65536 \<noteq> 0" using assms by (simp add: div_eq_0_iff)
  moreover have "n \<noteq> 0" using assms by simp
  ultimately show "n mod 65536 + n div 65536 = 0 \<longleftrightarrow> n = 0" by (simp only: add_is_0 HOL.simp_thms)
qed

lemma unat_fold16: "unat (fold16 s) = ones (unat s)"
proof (induction s rule: fold16.induct)
  case (1 s)
  show ?case
  proof (cases "drop_bit 16 s = 0")
    case True
    then have "unat s < 65536" using unat_drop_bit16 [of s] by (simp add: div_eq_0_iff)
    with True show ?thesis by (simp add: fold16.simps ones_id)
  next
    case False
    then show ?thesis
      using 1 by (subst fold16.simps) (simp add: fold_step_less ones_fold)
  qed
qed

lemma unat_fold16_native: "unat (fold16_native s) = ones (unat s)"
proof (induction s rule: fold16_native.induct)
  case (1 s)
  show ?case
  proof (cases "drop_bit 16 s = 0")
    case True
    then have "unat s < 65536" using unat_drop_bit16 [of s] by (simp add: div_eq_0_iff)
    with True show ?thesis by (simp add: fold16_native.simps ones_id)
  next
    case False
    then show ?thesis
      using 1 by (subst fold16_native.simps) (simp add: add.commute [of "drop_bit 16 _"] fold_step_less ones_fold)
  qed
qed

section \<open>The sums as weighted sums of bytes\<close>

text \<open>\<open>wsum h l data\<close> weighs the bytes at even offsets with \<open>h\<close> and the others with \<open>l\<close>.\<close>

fun wsum :: "nat \<Rightarrow> nat \<Rightarrow> bytes \<Rightarrow> nat" where
  "wsum h l (a # b # data) = h * unat a + l * unat b + wsum h l data"
| "wsum h l [a] = h * unat a"
| "wsum h l [] = 0"

lemma wsum_le: "wsum h l data \<le> (h + l) * 255 * ((length data + 1) div 2)"
proof (induction h l data rule: wsum.induct)
  case (1 h l a b data)
  have "h * unat a + l * unat b + wsum h l data \<le> h * 255 + l * 255 + (h + l) * 255 * ((length data + 1) div 2)"
    using unat_byte_less [of a] unat_byte_less [of b] 1 by (intro add_mono mult_le_mono2) simp_all
  then show ?case by (simp add: distrib_right distrib_left)
next
  case (2 h l a)
  have "h * unat a \<le> h * 255" using unat_byte_less [of a] by (intro mult_le_mono2) simp
  then have "h * unat a \<le> h * 255 + l * 255" by (rule trans_le_add1)
  then show ?case by (simp only: wsum.simps distrib_right) simp
qed simp

lemma wsum_put:
  "even k \<Longrightarrow> k + 1 < length data \<Longrightarrow> data ! k = 0 \<Longrightarrow> data ! (k + 1) = 0 \<Longrightarrow>
   wsum h l (data[k := a, k + 1 := b]) = wsum h l data + h * unat a + l * unat b"
proof (induction h l data arbitrary: k rule: wsum.induct)
  case (1 h l x y data)
  show ?case
  proof (cases "k = 0")
    case True
    with 1 show ?thesis by simp
  next
    case False
    then obtain j where k: "k = Suc (Suc j)" using 1(2) by (metis even_Suc even_zero not0_implies_Suc)
    with 1 show ?thesis by simp
  qed
qed auto

lemma wsum_update:
  "i < length data \<Longrightarrow>
   wsum h l (data[i := y]) + (if even i then h else l) * unat (data ! i) =
   wsum h l data + (if even i then h else l) * unat y"
proof (induction h l data arbitrary: i rule: wsum.induct)
  case (1 h l a b data)
  then show ?case
  proof (cases "i = 0 \<or> i = 1")
    case False
    then obtain j where "i = Suc (Suc j)" by (metis One_nat_def not0_implies_Suc)
    with 1 show ?thesis by simp
  qed auto
qed auto

lemma unat_pair:
  fixes a b :: u8
  assumes "16 \<le> LENGTH('a)"
  shows "unat (push_bit 8 (ucast a) OR ucast b :: 'a::len word) = 256 * unat a + unat b"
proof -
  have lim: "65536 \<le> (2 :: nat) ^ LENGTH('a)"
    using power_increasing [OF assms, of "2 :: nat"] by simp
  have b: "unat (ucast b :: 'a word) = unat b"
    using unat_byte_less [of b] lim by (simp add: unsigned_ucast_eq take_bit_nat_eq_self)
  have a': "unat (ucast a :: 'a word) = unat a"
    using unat_byte_less [of a] lim by (simp add: unsigned_ucast_eq take_bit_nat_eq_self)
  have a: "unat (push_bit 8 (ucast a) :: 'a word) = 256 * unat a"
    using unat_byte_less [of a] lim
    by (simp only: unsigned_push_bit_eq a') (simp add: push_bit_eq_mult take_bit_nat_eq_self)
  have "(push_bit 8 (ucast a) OR ucast b :: 'a word) = push_bit 8 (ucast a) + ucast b"
    by (rule disjunctive_add_eq_or [symmetric]) (rule bit_word_eqI, auto simp: bit_simps dest: bit_imp_le_length)
  then show ?thesis
    using unat_byte_less [of a] unat_byte_less [of b] lim by (simp add: unat_add_no_wrap a b)
qed

lemma unat_sum16: "unat acc + wsum 256 1 data < 2 ^ 64 \<Longrightarrow> unat (sum16 data acc) = unat acc + wsum 256 1 data"
proof (induction data acc rule: sum16.induct)
  case (1 a b data acc)
  then have "unat (acc + (push_bit 8 (ucast a) OR ucast b)) = unat acc + (256 * unat a + unat b)"
    by (simp add: unat_add64 unat_pair)
  with 1 show ?case by simp
next
  case (2 a acc)
  then show ?case using unat_pair [of a 0, where 'a = 64] by (simp add: unat_add64)
qed simp

lemma unat_sum16_native:
  "unat acc + wsum 1 256 data < 2 ^ 32 \<Longrightarrow> unat (sum16_native data acc) = unat acc + wsum 1 256 data"
proof (induction data acc rule: sum16_native.induct)
  case (1 a b data acc)
  have "unat (ucast (ucast a OR push_bit 8 (ucast b) :: u16) :: u32) = unat a + 256 * unat b"
    using unat_pair [of b a, where 'a = 16] unat_byte_less [of a] unat_byte_less [of b]
    by (simp add: or.commute unsigned_ucast_eq take_bit_nat_eq_self)
  with 1 show ?case by (simp add: unat_add_no_wrap)
next
  case (2 a acc)
  have "ntohs (push_bit 8 (ucast a)) = ucast a"
    by (rule bit_word_eqI) (auto simp: ntohs_def bit_simps dest: bit_imp_le_length)
  moreover have "(ucast (ucast a :: u16) :: u32) = ucast a"
    by (rule bit_word_eqI) (auto simp: bit_simps dest: bit_imp_le_length)
  ultimately have "unat (ucast (ntohs (push_bit 8 (ucast a))) :: u32) = unat a"
    using unat_byte_less [of a] by (simp add: unsigned_ucast_eq take_bit_nat_eq_self)
  with 2 show ?case by (simp add: unat_add_no_wrap)
qed simp

section \<open>The contract of a checksum routine\<close>

locale inet_checksum =
  fixes chk :: "bytes \<Rightarrow> u16" and h l lim :: nat and byte0 byte1 :: "u16 \<Rightarrow> u8"
  assumes chk_value: "length data \<le> lim \<Longrightarrow> unat (chk data) = 65535 - ones (wsum h l data)"
    and weights: "0 < h" "h \<le> 256" "0 < l" "l \<le> 256"
    and stored: "h * unat (byte0 c) + l * unat (byte1 c) = unat c"
begin

lemma verifies_iff: "length data \<le> lim \<Longrightarrow> chk data = 0 \<longleftrightarrow> ones (wsum h l data) = 65535"
  using chk_value [of data] ones_le [of "wsum h l data"] by (auto simp: word_unat_eq_iff)

lemma fill_verifies:
  assumes "length data \<le> lim" "even k" "k + 1 < length data" "data ! k = 0" "data ! (k + 1) = 0"
  shows "chk (data[k := byte0 (chk data), k + 1 := byte1 (chk data)]) = 0"
proof -
  let ?d = "data[k := byte0 (chk data), k + 1 := byte1 (chk data)]"
  have w: "wsum h l ?d = wsum h l data + (65535 - ones (wsum h l data))"
    using wsum_put [OF assms(2-5)] stored [of "chk data"] chk_value [OF assms(1)] by simp
  also have "\<dots> = wsum h l data + 65535 - ones (wsum h l data)"
    using ones_le [of "wsum h l data"] by simp
  finally have w': "wsum h l ?d + ones (wsum h l data) = wsum h l data + 65535"
    using ones_le [of "wsum h l data"] by simp
  obtain q where q: "wsum h l data = ones (wsum h l data) + 65535 * q" using ones_split by blast
  with w' have "wsum h l ?d = 65535 * (q + 1)" by (simp only: distrib_left mult_1_right)
  moreover have "wsum h l ?d \<noteq> 0"
    using w ones_eq_0 [of "wsum h l data"] by (cases "wsum h l data = 0") (auto simp: ones_def)
  ultimately have "ones (wsum h l ?d) = 65535" by (rule ones_full)
  then show ?thesis using verifies_iff [of ?d] assms(1) by simp
qed

lemma corruption_detected:
  assumes "length data \<le> lim" "i < length data" "chk data = 0" "y \<noteq> data ! i"
  shows "chk (data[i := y]) \<noteq> 0"
proof
  assume c: "chk (data[i := y]) = 0"
  define w where "w = (if even i then h else l)"
  have ones: "ones (wsum h l (data[i := y])) = 65535" "ones (wsum h l data) = 65535"
    using c verifies_iff [of "data[i := y]"] verifies_iff [of data] assms by simp_all
  obtain q where q: "wsum h l data = 65535 + 65535 * q" using ones_split [of "wsum h l data"] ones by auto
  obtain r where r: "wsum h l (data[i := y]) = 65535 + 65535 * r" using ones_split [of "wsum h l (data[i := y])"] ones by auto
  have "wsum h l (data[i := y]) + w * unat (data ! i) = wsum h l data + w * unat y"
    using wsum_update [OF assms(2)] by (simp add: w_def)
  then have "int (wsum h l (data[i := y]) + w * unat (data ! i)) = int (wsum h l data + w * unat y)"
    by (rule arg_cong)
  then have eq: "65535 * int r + int w * int (unat (data ! i)) = 65535 * int q + int w * int (unat y)"
    unfolding q r by (simp only: of_nat_add of_nat_mult of_nat_numeral add.assoc add_left_cancel)
  have "65535 * (int r - int q) = int w * (int (unat y) - int (unat (data ! i)))"
    using eq by (simp add: algebra_simps)
  moreover have "\<bar>int w * (int (unat y) - int (unat (data ! i)))\<bar> < 65535"
  proof -
    have "\<bar>int (unat y) - int (unat (data ! i))\<bar> \<le> 255"
      using unat_byte_less [of y] unat_byte_less [of "data ! i"] by linarith
    moreover have "\<bar>int w\<bar> \<le> 256" using weights by (simp add: w_def)
    ultimately have "\<bar>int w\<bar> * \<bar>int (unat y) - int (unat (data ! i))\<bar> \<le> 256 * 255" by (intro mult_mono) simp_all
    then show ?thesis by (simp add: abs_mult)
  qed
  ultimately have "\<bar>65535 * (int r - int q)\<bar> < 65535" by (simp only:)
  then have "int r - int q = 0" by (simp add: abs_mult)
  with \<open>65535 * (int r - int q) = _\<close> have "int w * (int (unat y) - int (unat (data ! i))) = 0" by simp
  moreover have "0 < w" using weights by (simp add: w_def)
  ultimately have "y = data ! i" by (simp add: word_uint_eq_iff)
  with assms(4) show False by simp
qed

end

section \<open>The routines meet the contract\<close>

definition hi8 :: "u16 \<Rightarrow> u8" where "hi8 c = ucast (drop_bit 8 c)"
definition lo8 :: "u16 \<Rightarrow> u8" where "lo8 c = ucast (c AND 0xFF)"

lemma unat_hi8: "unat (hi8 c) = unat c div 256"
proof -
  have "unat c div 256 < 256" using unat_bound16 [of c] by (simp add: less_mult_imp_div_less)
  then show ?thesis
    by (simp only: hi8_def unsigned_ucast_eq unsigned_drop_bit_eq)
      (simp add: drop_bit_eq_div take_bit_nat_eq_self unat_bound16)
qed

lemma unat_lo8: "unat (lo8 c) = unat c mod 256"
proof -
  have "c AND 0xFF = take_bit 8 c" by (simp add: take_bit_eq_mask mask_eq_exp_minus_1)
  moreover have "unat (take_bit 8 c) = take_bit 8 (unat c)" by (rule unsigned_take_bit_eq)
  ultimately show ?thesis by (simp only: lo8_def unsigned_ucast_eq) (simp add: take_bit_eq_mod)
qed

lemma unat_not16: "unat (NOT (c :: u16)) = 65535 - unat c"
proof -
  have "NOT c = 0xFFFF - c" by (simp add: not_eq_complement)
  moreover have "unat (0xFFFF :: u16) = 65535" by simp
  ultimately show ?thesis using unat_bound16 [of c] unat_sub_if_size [of "0xFFFF" c] by simp
qed

lemma ucast_not16: "ucast (NOT (w :: 'a::len word)) = (NOT (ucast w) :: u16)" if "16 \<le> LENGTH('a)"
  using that by (intro bit_word_eqI) (auto simp: bit_simps)

lemma unat_ucast16: "unat w < 65536 \<Longrightarrow> unat (ucast (w :: 'a::len word) :: u16) = unat w"
  by (simp add: unsigned_ucast_eq take_bit_nat_eq_self)

lemma ip_checksum_value:
  assumes "length data \<le> 4294967295"
  shows "unat (ip_checksum data) = 65535 - ones (wsum 256 1 data)"
proof -
  have "wsum 256 1 data \<le> 65535 * ((length data + 1) div 2)" using wsum_le [of 256 1 data] by simp
  also have "\<dots> \<le> 65535 * 2147483648" using assms by (intro mult_le_mono2) simp
  finally have "unat (sum16 data 0) = wsum 256 1 data" by (subst unat_sum16) simp_all
  then have f: "unat (fold16 (sum16 data 0)) = ones (wsum 256 1 data)" by (simp add: unat_fold16)
  have "ip_checksum data = NOT (ucast (fold16 (sum16 data 0)))"
  proof -
    have m: "(0xFFFF :: u64) = mask 16" by (simp add: mask_eq_exp_minus_1)
    show ?thesis unfolding ip_checksum_def m by (rule bit_word_eqI) (auto simp: bit_simps)
  qed
  then show ?thesis using ones_le [of "wsum 256 1 data"] f by (simp add: unat_not16 unat_ucast16)
qed

lemma netChksum_value:
  assumes "length data \<le> 131072"
  shows "unat (netChksum data) = 65535 - ones (wsum 1 256 data)"
proof -
  have "wsum 1 256 data \<le> 65535 * ((length data + 1) div 2)" using wsum_le [of 1 256 data] by simp
  also have "\<dots> \<le> 65535 * 65536" using assms by (intro mult_le_mono2) simp
  finally have "unat (sum16_native data 0) = wsum 1 256 data" by (subst unat_sum16_native) simp_all
  then have f: "unat (fold16_native (sum16_native data 0)) = ones (wsum 1 256 data)" by (simp add: unat_fold16_native)
  have "netChksum data = NOT (ucast (fold16_native (sum16_native data 0)))"
    unfolding netChksum_def by (rule ucast_not16) simp
  then show ?thesis using ones_le [of "wsum 1 256 data"] f by (simp add: unat_not16 unat_ucast16)
qed

interpretation inet: inet_checksum ip_checksum 256 1 4294967295 hi8 lo8
  by unfold_locales (simp_all add: ip_checksum_value unat_hi8 unat_lo8)

interpretation native: inet_checksum netChksum 1 256 131072 lo8 hi8
  by unfold_locales (simp_all add: netChksum_value unat_hi8 unat_lo8)

text \<open>The sum over a pseudo header and a segment, as the transport protocols use it: addresses, protocol
  number and length before the data.\<close>

lemma unat_pseudo_sum:
  assumes "length src = 4" "length dst = 4" "length seg \<le> 65535" "unat p \<le> 255"
  shows "unat (fold16 (sum16 seg (sum16 dst (sum16 src 0) + p + of_nat (length seg)))) =
    ones (wsum 256 1 src + wsum 256 1 dst + unat p + length seg + wsum 256 1 seg)"
proof -
  have w4: "wsum 256 1 x \<le> 131070" if "length x = 4" for x using wsum_le [of 256 1 x] that by simp
  have wu: "wsum 256 1 seg \<le> 65535 * 32768"
    using wsum_le [of 256 1 seg] mult_le_mono2 [of "(length seg + 1) div 2" 32768 65535] assms(3) by simp
  have 1: "unat (sum16 src 0) = wsum 256 1 src" using w4 [OF assms(1)] by (subst unat_sum16) simp_all
  have 2: "unat (sum16 dst (sum16 src 0)) = wsum 256 1 src + wsum 256 1 dst"
    using 1 w4 [OF assms(1)] w4 [OF assms(2)] by (subst unat_sum16) simp_all
  have 3: "unat (sum16 dst (sum16 src 0) + p + of_nat (length seg)) = wsum 256 1 src + wsum 256 1 dst + unat p + length seg"
    using 2 w4 [OF assms(1)] w4 [OF assms(2)] assms(3,4)
    by (simp add: unat_add64 unat_of_nat take_bit_nat_eq_self)
  have "unat (sum16 seg (sum16 dst (sum16 src 0) + p + of_nat (length seg))) =
      wsum 256 1 src + wsum 256 1 dst + unat p + length seg + wsum 256 1 seg"
    using 3 w4 [OF assms(1)] w4 [OF assms(2)] assms(3,4) wu by (subst unat_sum16) simp_all
  then show ?thesis by (simp add: unat_fold16)
qed

lemma complement_sum: "w = r + m * q \<Longrightarrow> r \<le> m \<Longrightarrow> w + (m - r) = m * (q + 1)" for w r m q :: nat
  by (simp add: distrib_left)

lemma unat_complement:
  assumes "unat (s :: u64) \<le> 65535"
  shows "unat (ucast (NOT s AND 0xFFFF) :: u16) = 65535 - unat s"
proof -
  have m: "(0xFFFF :: u64) = mask 16" by (simp add: mask_eq_exp_minus_1)
  have "ucast (NOT s AND 0xFFFF) = (NOT (ucast s) :: u16)"
    unfolding m by (rule bit_word_eqI) (auto simp: bit_simps)
  then show ?thesis using assms by (simp add: unat_not16 unat_ucast16)
qed

lemma wsum_swap: "wsum 1 256 data mod 65535 = 256 * wsum 256 1 data mod 65535"
proof (induction data rule: induct_list012)
  case (3 a b data)
  have e: "256 * wsum 256 1 (a # b # data) =
      (256 * unat b + unat a + 256 * wsum 256 1 data) + 65535 * unat a"
    by (simp add: distrib_left)
  have "256 * wsum 256 1 (a # b # data) mod 65535 = (256 * unat b + unat a + 256 * wsum 256 1 data) mod 65535"
    unfolding e by (rule mod_mult_self2)
  also have "\<dots> = (256 * unat b + unat a + wsum 1 256 data) mod 65535"
    using 3 by (intro mod_add_cong refl) (rule sym)
  finally show ?case by (simp add: add.commute add.left_commute)
next
  case (2 a)
  have e: "256 * wsum 256 1 [a] = unat a + 65535 * unat a" by simp
  show ?case unfolding e by (simp only: mod_mult_self2 wsum.simps mult_1)
qed simp

lemma wsum_zero_iff: "0 < h \<Longrightarrow> 0 < l \<Longrightarrow> wsum h l data = 0 \<longleftrightarrow> (\<forall>x \<in> set data. x = 0)"
  by (induction h l data rule: wsum.induct) (auto simp: unat_eq_0)

lemma unat_ntohs: "unat (ntohs c) = unat c mod 256 * 256 + unat c div 256"
proof -
  have "ntohs c = push_bit 8 (ucast (lo8 c)) OR ucast (hi8 c)"
  proof -
    have m: "(0xFF :: u16) = mask 8" by (simp add: mask_eq_exp_minus_1)
    show ?thesis unfolding ntohs_def lo8_def hi8_def m
      by (rule bit_word_eqI) (auto simp: bit_simps dest: bit_imp_le_length)
  qed
  then show ?thesis by (simp add: unat_pair unat_hi8 unat_lo8)
qed

lemma ntohs_ones:
  assumes "unat c = 65535 - ones m"
  shows "unat (ntohs c) = 65535 - ones (256 * m)"
proof -
  define r where "r = ones m"
  have r: "r \<le> 65535" by (simp add: r_def ones_le)
  define q where "q = r div 256"
  define t where "t = r mod 256"
  have rq: "r = 256 * q + t" "t \<le> 255" "q \<le> 255" using r by (auto simp: q_def t_def)
  have c: "unat c = 256 * (255 - q) + (255 - t)" using assms rq by (simp add: r_def [symmetric])
  have "unat c mod 256 = 255 - t" "unat c div 256 = 255 - q" unfolding c by simp_all
  then have "unat (ntohs c) = (255 - t) * 256 + (255 - q)" unfolding unat_ntohs by simp
  also have "\<dots> = 65535 - (256 * t + q)" using rq by simp
  also have "256 * t + q = ones (256 * m)"
  proof (rule ones_unique)
    have "256 * m mod 65535 = 256 * r mod 65535"
      unfolding r_def by (metis mod_mult_right_eq ones_mod)
    also have "256 * r = (256 * t + q) + 65535 * q" by (simp add: rq(1))
    finally show "(256 * t + q) mod 65535 = ones (256 * m) mod 65535" by (simp only: mod_mult_self2 ones_mod)
    have "r = 0 \<longleftrightarrow> m = 0" by (simp add: r_def)
    then show "256 * t + q = 0 \<longleftrightarrow> ones (256 * m) = 0" using rq by auto
  qed (use rq ones_le in auto)
  finally show ?thesis .
qed

text \<open>C30: the checksum the kernel writes into a header verifies at the receiver, and it protects the
  header. For every buffer below 4 GiB and every even offset of a zeroed checksum field, storing
  ip_checksum of the buffer high byte first makes the checksum of the whole buffer 0; and a buffer
  whose checksum is 0 no longer has checksum 0 once any single byte of it has changed.\<close>

theorem ip_checksum_protects:
  assumes "length data \<le> 4294967295" "even k" "k + 1 < length data" "data ! k = 0" "data ! (k + 1) = 0"
    and "filled = data[k := hi8 (ip_checksum data), k + 1 := lo8 (ip_checksum data)]"
  shows "ip_checksum filled = 0 \<and>
    (\<forall>i y. i < length data \<longrightarrow> y \<noteq> filled ! i \<longrightarrow> ip_checksum (filled[i := y]) \<noteq> 0)"
proof -
  have "ip_checksum filled = 0" unfolding assms(6) by (rule inet.fill_verifies) (use assms in simp_all)
  moreover have "length filled = length data" by (simp add: assms(6))
  ultimately show ?thesis using inet.corruption_detected [of filled] assms(1) by simp
qed

theorem ip_checksum_protects_witness:
  "ip_checksum [0x45, 0, 0, 0x1c, hi8 0xbae3, lo8 0xbae3] = 0 \<and>
   ip_checksum [0x45, 0, 0, 0x1d, hi8 0xbae3, lo8 0xbae3] \<noteq> 0"
proof -
  have v: "ip_checksum [0x45, 0, 0, 0x1c, 0, 0] = 0xbae3" by code_simp
  note p = ip_checksum_protects [of "[0x45, 0, 0, 0x1c, 0, 0]" 4, OF _ _ _ _ _ refl, unfolded v]
  have "ip_checksum [0x45, 0, 0, 0x1c, hi8 0xbae3, lo8 0xbae3] = 0" using p by simp
  moreover have "ip_checksum [0x45, 0, 0, 0x1d, hi8 0xbae3, lo8 0xbae3] \<noteq> 0"
    using p [THEN conjunct2, THEN spec [of _ 3], THEN spec [of _ "0x1d"]] by simp
  ultimately show ?thesis ..
qed

text \<open>C31: the two checksum implementations of the kernel agree. netChksum, which adds native 16-bit words in a
  32-bit accumulator, returns exactly the byte swap of ip_checksum on every buffer of up to 128 KiB,
  of even or odd length; storing it in native order therefore puts the same two bytes on the wire.\<close>

theorem netChksum_byteswap:
  assumes "length data \<le> 131072"
  shows "netChksum data = ntohs (ip_checksum data) \<and>
    [lo8 (netChksum data), hi8 (netChksum data)] = [hi8 (ip_checksum data), lo8 (ip_checksum data)]"
proof -
  have "ones (wsum 1 256 data) = ones (256 * wsum 256 1 data)"
    by (rule ones_cong [OF wsum_swap]) (simp add: wsum_zero_iff)
  then have "unat (netChksum data) = unat (ntohs (ip_checksum data))"
    using ntohs_ones [OF ip_checksum_value [of data]] netChksum_value [OF assms] assms by simp
  then have e: "netChksum data = ntohs (ip_checksum data)" by (simp add: word_unat_eq_iff)
  have "lo8 (ntohs c) = hi8 c \<and> hi8 (ntohs c) = lo8 c" for c
    unfolding word_unat_eq_iff unat_lo8 unat_hi8 unat_ntohs using unat_bound16 [of c]
    by (auto simp: less_mult_imp_div_less)
  with e show ?thesis by simp
qed

theorem netChksum_byteswap_witness: "netChksum [0x45, 0, 0x1c] = ntohs (ip_checksum [0x45, 0, 0x1c])"
  using netChksum_byteswap [of "[0x45, 0, 0x1c]"] by simp

end
