(* ===== verification/Responder.thy ===== *)
theory Responder
  imports Checksum Kprintf
begin

text \<open>
  The ARP and ICMP echo responder of \<open>system/net_responder.c\<close>. A received frame is a byte list and
  its length; every read of the frame and every write of the 1518-byte reply buffer goes through the
  checked accesses of the prelude, so that a result \<open>None\<close> is an access outside a buffer. Frames
  given to the driver are collected in \<open>sent\<close>, console output in \<open>console\<close>; the driver's return
  code, which the code only prints, is an argument.
\<close>

record responder =
  g_arp_replies :: u64
  g_icmp_replies :: u64
  g_my_mac :: bytes
  g_my_ip :: bytes
  tx_reply :: bytes
  arp_log :: nat
  icmp_log :: nat
  console :: string
  sent :: "bytes list"

definition net_responder_set_mac :: "bytes \<Rightarrow> responder \<Rightarrow> responder" where
  "net_responder_set_mac mac s = s\<lparr>g_my_mac := take 6 mac\<rparr>"

definition net_responder_set_ip :: "bytes \<Rightarrow> responder \<Rightarrow> responder" where
  "net_responder_set_ip ip s = s\<lparr>g_my_ip := take 4 ip\<rparr>"

definition net_responder_get_mac :: "responder \<Rightarrow> bytes" where
  "net_responder_get_mac s = g_my_mac s"

definition net_responder_get_ip :: "responder \<Rightarrow> bytes" where
  "net_responder_get_ip s = g_my_ip s"

definition net_arp_replies :: "responder \<Rightarrow> u64" where
  "net_arp_replies s = g_arp_replies s"

definition net_icmp_replies :: "responder \<Rightarrow> u64" where
  "net_icmp_replies s = g_icmp_replies s"

section \<open>Console output\<close>

definition uart_puts :: "string \<Rightarrow> responder \<Rightarrow> responder" where
  "uart_puts str s = s\<lparr>console := console s @ str\<rparr>"

definition newline :: string where "newline = [char_of (10 :: nat)]"

definition digit :: "nat \<Rightarrow> char" where "digit d = char_of (48 + d)"

text \<open>One iteration of the loop of \<open>puts_ip\<close>: the characters of one octet.\<close>

definition octet_str :: "u8 \<Rightarrow> string" where
  "octet_str x =
     (let v = unat x; s1 = (if 100 \<le> v then [digit (v div 100)] else []);
          v1 = (if 100 \<le> v then v mod 100 else v);
          s2 = (if 10 \<le> v1 \<or> 100 \<le> unat x then [digit (v1 div 10)] else []);
          v2 = (if 10 \<le> v1 \<or> 100 \<le> unat x then v1 mod 10 else v1)
      in s1 @ s2 @ [digit v2])"

fun puts_ip :: "bytes \<Rightarrow> string" where
  "puts_ip [] = []"
| "puts_ip [x] = octet_str x"
| "puts_ip (x # ip) = octet_str x @ ''.'' @ puts_ip ip"

text \<open>The signed decimal print of a driver return code.\<close>

definition puts_rc :: "int \<Rightarrow> string" where
  "puts_rc rc = (if rc < 0 then ''-'' else []) @ kp_putdec (of_int \<bar>rc\<bar>)"

section \<open>Frames\<close>

definition genet_tx_frame :: "bytes \<Rightarrow> nat \<Rightarrow> responder \<Rightarrow> responder" where
  "genet_tx_frame frame len s = s\<lparr>sent := sent s @ [take len frame]\<rparr>"

definition mac_copy :: "bytes \<Rightarrow> nat \<Rightarrow> bytes \<Rightarrow> nat \<Rightarrow> bytes option" where
  "mac_copy d i src j = do { m \<leftarrow> rd_seg src j 6; wr_seg d i m }"

fun mac_equal :: "bytes \<Rightarrow> bytes \<Rightarrow> bool" where
  "mac_equal (x # a) (y # b) \<longleftrightarrow> x = y \<and> mac_equal a b"
| "mac_equal a b \<longleftrightarrow> True"

definition be16 :: "u8 \<Rightarrow> u8 \<Rightarrow> u16" where
  "be16 a b = push_bit 8 (ucast a) OR ucast b"

definition net_responder_send_gratuitous_arp :: "int \<Rightarrow> responder \<Rightarrow> responder option" where
  "net_responder_send_gratuitous_arp rc s =
    do {
      let s = uart_puts ''garp: G1 enter'' s; 
      let s = uart_puts (newline @ ''garp: G2 zeroing'' @ newline) s;
      let frame = replicate 60 0;
      let s = uart_puts (''garp: G3 setting dst broadcast'' @ newline) s;
      frame \<leftarrow> wr_seg frame 0 (replicate 6 0xFF);
      let s = uart_puts (''garp: G4 setting src MAC'' @ newline) s;
      frame \<leftarrow> mac_copy frame 6 (g_my_mac s) 0;
      frame \<leftarrow> wr_seg frame 12 [0x08, 0x06];
      frame \<leftarrow> wr_seg frame 14 [0x00, 0x01];
      frame \<leftarrow> wr_seg frame 16 [0x08, 0x00];
      frame \<leftarrow> wr_seg frame 18 [6];
      frame \<leftarrow> wr_seg frame 19 [4];
      frame \<leftarrow> wr_seg frame 20 [0x00, 0x01];
      frame \<leftarrow> mac_copy frame 22 (g_my_mac s) 0;
      ip \<leftarrow> rd_seg (g_my_ip s) 0 4;
      frame \<leftarrow> wr_seg frame 28 ip;
      frame \<leftarrow> wr_seg frame 38 ip;
      let s = uart_puts (''garp: G5 calling genet_tx_frame'' @ newline) s;
      let s = genet_tx_frame frame 60 s;
      Some (uart_puts (''garp: G6 returned rc='' @ puts_rc rc @ newline) s)
    }"

definition arp_log_request :: "bytes \<Rightarrow> responder \<Rightarrow> responder" where
  "arp_log_request spa s =
     (if 0 < arp_log s
      then (uart_puts (''net: ARP request for '' @ puts_ip (g_my_ip s) @ '' from '' @ puts_ip spa @ newline) s)
             \<lparr>arp_log := arp_log s - 1\<rparr>
      else s)"

definition arp_build :: "bytes \<Rightarrow> responder \<Rightarrow> bytes option" where
  "arp_build frame s =
    do {
      tx \<leftarrow> wr_seg (tx_reply s) 0 (replicate 60 0);
      tx \<leftarrow> mac_copy tx 0 frame 6;
      tx \<leftarrow> mac_copy tx 6 (g_my_mac s) 0;
      tx \<leftarrow> wr_seg tx 12 [0x08, 0x06];
      tx \<leftarrow> wr_seg tx 14 [0x00, 0x01];
      tx \<leftarrow> wr_seg tx 16 [0x08, 0x00];
      tx \<leftarrow> wr_seg tx 18 [6];
      tx \<leftarrow> wr_seg tx 19 [4];
      tx \<leftarrow> wr_seg tx 20 [0x00, 0x02];
      tx \<leftarrow> mac_copy tx 22 (g_my_mac s) 0;
      ip \<leftarrow> rd_seg (g_my_ip s) 0 4;
      tx \<leftarrow> wr_seg tx 28 ip;
      tx \<leftarrow> mac_copy tx 32 frame 6;
      spa \<leftarrow> rd_seg frame 28 4;
      wr_seg tx 38 spa
    }"

definition arp_handle :: "bytes \<Rightarrow> responder \<Rightarrow> (nat \<times> responder) option" where
  "arp_handle frame s =
    do {
      o0 \<leftarrow> rd frame 20; o1 \<leftarrow> rd frame 21;
      if be16 o0 o1 \<noteq> 0x0001 then Some (0, s) else do {
        tpa \<leftarrow> rd_seg frame 38 4;
        ip \<leftarrow> rd_seg (g_my_ip s) 0 4;
        if tpa \<noteq> ip then Some (0, s) else do {
          spa \<leftarrow> rd_seg frame 28 4;
          let s = arp_log_request spa s;
          tx \<leftarrow> arp_build frame s;
          let s = s\<lparr>tx_reply := tx\<rparr>;
          let s = genet_tx_frame tx 60 s;
          Some (1, s\<lparr>g_arp_replies := g_arp_replies s + 1\<rparr>)
        }
      }
    }"

definition icmp_log_echo :: "bytes \<Rightarrow> nat \<Rightarrow> responder \<Rightarrow> responder" where
  "icmp_log_echo src icmp_len s =
     (if 0 < icmp_log s
      then (uart_puts (''net: ICMP echo from '' @ puts_ip src @ '' len='' @ kp_putdec (of_nat icmp_len) @ newline) s)
             \<lparr>icmp_log := icmp_log s - 1\<rparr>
      else s)"

definition icmp_build :: "bytes \<Rightarrow> nat \<Rightarrow> nat \<Rightarrow> responder \<Rightarrow> bytes option" where
  "icmp_build frame ihl total_len s =
    do {
      body \<leftarrow> rd_seg frame 0 (14 + total_len);
      tx \<leftarrow> wr_seg (tx_reply s) 0 body;
      tx \<leftarrow> mac_copy tx 0 frame 6;
      tx \<leftarrow> mac_copy tx 6 (g_my_mac s) 0;
      ip \<leftarrow> rd_seg (g_my_ip s) 0 4;
      src \<leftarrow> rd_seg frame 26 4;
      tx \<leftarrow> wr_seg tx 26 ip;
      tx \<leftarrow> wr_seg tx 30 src;
      tx \<leftarrow> wr_seg tx 24 [0, 0];
      hdr \<leftarrow> rd_seg tx 14 ihl;
      tx \<leftarrow> wr_seg tx 24 [hi8 (ip_checksum hdr), lo8 (ip_checksum hdr)];
      tx \<leftarrow> wr_seg tx (14 + ihl) [0];
      tx \<leftarrow> wr_seg tx (14 + ihl + 2) [0, 0];
      icmp \<leftarrow> rd_seg tx (14 + ihl) (total_len - ihl);
      wr_seg tx (14 + ihl + 2) [hi8 (ip_checksum icmp), lo8 (ip_checksum icmp)]
    }"

definition icmp_handle :: "bytes \<Rightarrow> nat \<Rightarrow> nat \<Rightarrow> responder \<Rightarrow> (nat \<times> responder) option" where
  "icmp_handle frame len ihl s =
    do {
      icmp_type \<leftarrow> rd frame (14 + ihl);
      if icmp_type \<noteq> 8 then Some (0, s) else do {
        l0 \<leftarrow> rd frame 16; l1 \<leftarrow> rd frame 17;
        let total_len = unat (be16 l0 l1);
        if total_len < ihl + 8 \<or> 1518 < total_len + 14 then Some (0, s)
        else if len < total_len + 14 then Some (0, s) else do {
          src \<leftarrow> rd_seg frame 26 4;
          let s = icmp_log_echo src (total_len - ihl) s;
          tx \<leftarrow> icmp_build frame ihl total_len s;
          let s = s\<lparr>tx_reply := tx\<rparr>;
          let s = genet_tx_frame tx (if 14 + total_len < 60 then 60 else 14 + total_len) s;
          Some (1, s\<lparr>g_icmp_replies := g_icmp_replies s + 1\<rparr>)
        }
      }
    }"

definition ipv4_handle :: "bytes \<Rightarrow> nat \<Rightarrow> responder \<Rightarrow> (nat \<times> responder) option" where
  "ipv4_handle frame len s =
    do {
      b0 \<leftarrow> rd frame 14;
      let ihl = unat (b0 AND 0x0F) * 4;
      if ihl < 20 then Some (0, s) else do {
        proto \<leftarrow> rd frame 23;
        dst \<leftarrow> rd_seg frame 30 4;
        ip \<leftarrow> rd_seg (g_my_ip s) 0 4;
        if dst \<noteq> ip then Some (0, s)
        else if proto = 1 \<and> 14 + ihl + 8 \<le> len then icmp_handle frame len ihl s
        else Some (0, s)
      }
    }"

definition net_responder_handle :: "bytes \<Rightarrow> nat \<Rightarrow> responder \<Rightarrow> (nat \<times> responder) option" where
  "net_responder_handle frame len s =
     (if len < 14 then Some (0, s) else do {
        t0 \<leftarrow> rd frame 12; t1 \<leftarrow> rd frame 13;
        let ethtype = be16 t0 t1;
        if ethtype = 0x0806 \<and> 14 + 28 \<le> len then arp_handle frame s
        else if ethtype = 0x0800 \<and> 14 + 20 \<le> len then ipv4_handle frame len s
        else Some (0, s)
      })"

section \<open>Memory safety and the contents of the replies\<close>

definition responder_ok :: "responder \<Rightarrow> bool" where
  "responder_ok s \<longleftrightarrow> length (g_my_mac s) = 6 \<and> length (g_my_ip s) = 4 \<and> length (tx_reply s) = 1518"

lemma responder_ok_lengths [simp]:
  assumes "responder_ok s"
  shows "length (g_my_mac s) = 6" "length (g_my_ip s) = 4" "length (tx_reply s) = 1518"
  using assms by (simp_all add: responder_ok_def)

lemma log_fields [simp]:
  "g_my_mac (arp_log_request spa s) = g_my_mac s" "g_my_ip (arp_log_request spa s) = g_my_ip s"
  "tx_reply (arp_log_request spa s) = tx_reply s" "sent (arp_log_request spa s) = sent s"
  "g_arp_replies (arp_log_request spa s) = g_arp_replies s" "g_icmp_replies (arp_log_request spa s) = g_icmp_replies s"
  "g_my_mac (icmp_log_echo spa n s) = g_my_mac s" "g_my_ip (icmp_log_echo spa n s) = g_my_ip s"
  "tx_reply (icmp_log_echo spa n s) = tx_reply s" "sent (icmp_log_echo spa n s) = sent s"
  "g_arp_replies (icmp_log_echo spa n s) = g_arp_replies s" "g_icmp_replies (icmp_log_echo spa n s) = g_icmp_replies s"
  by (simp_all add: arp_log_request_def icmp_log_echo_def uart_puts_def)

lemma segm_all [simp]: "length buf = n \<Longrightarrow> segm buf 0 n = buf"
  by (simp add: segm_def)

lemma segm_append: "segm buf i (m + n) = segm buf i m @ segm buf (i + m) n"
  by (simp add: segm_def take_add add.commute)

lemma mac_copy_in [simp]:
  "i + 6 \<le> length d \<Longrightarrow> j + 6 \<le> length src \<Longrightarrow> mac_copy d i src j = Some (put_bytes d i (segm src j 6))"
  by (simp add: mac_copy_def)

lemma arp_build_spec:
  assumes "responder_ok s" "42 \<le> length frame"
  shows "\<exists>tx. arp_build frame s = Some tx \<and> length tx = 1518 \<and>
    take 60 tx = segm frame 6 6 @ g_my_mac s @ [8, 6, 0, 1, 8, 0, 6, 4, 0, 2] @ g_my_mac s @ g_my_ip s @
                 segm frame 6 6 @ segm frame 28 4 @ replicate 18 0"
proof -
  define tx where "tx = put_bytes (put_bytes (put_bytes (put_bytes (put_bytes (put_bytes (put_bytes (put_bytes
    (put_bytes (put_bytes (put_bytes (put_bytes (put_bytes (tx_reply s) 0 (replicate 60 0)) 0 (segm frame 6 6))
      6 (g_my_mac s)) 12 [8, 6]) 14 [0, 1]) 16 [8, 0]) 18 [6]) 19 [4]) 20 [0, 2]) 22 (g_my_mac s))
      28 (g_my_ip s)) 32 (segm frame 6 6)) 38 (segm frame 28 4)"
  have b: "arp_build frame s = Some tx"
    using assms by (simp add: arp_build_def tx_def del: put_bytes.simps)
  have f: "segm tx 0 6 = segm frame 6 6" "segm tx 6 6 = g_my_mac s" "segm tx 12 2 = [8, 6]" "segm tx 14 2 = [0, 1]"
    "segm tx 16 2 = [8, 0]" "segm tx 18 1 = [6]" "segm tx 19 1 = [4]" "segm tx 20 2 = [0, 2]"
    "segm tx 22 6 = g_my_mac s" "segm tx 28 4 = g_my_ip s" "segm tx 32 6 = segm frame 6 6" "segm tx 38 4 = segm frame 28 4"
    using assms unfolding tx_def by (simp_all add: segm_simps del: put_bytes.simps)
  have t: "segm tx 42 18 = replicate 18 0"
  proof -
    have "segm tx 42 18 = segm (put_bytes (tx_reply s) 0 (replicate 60 0)) 42 18"
      using assms unfolding tx_def by (simp add: segm_simps del: put_bytes.simps)
    also have "\<dots> = segm (replicate 60 0) 42 18"
      using segm_segm [of 42 18 60 "put_bytes (tx_reply s) 0 (replicate 60 0)" 0]
        segm_put_same [of 0 60 "tx_reply s" "replicate 60 0"] assms
      by (simp del: put_bytes.simps)
    finally show ?thesis by (simp add: segm_def)
  qed
  have "take 60 tx = segm tx 0 (6 + (6 + (2 + (2 + (2 + (1 + (1 + (2 + (6 + (4 + (6 + (4 + 18))))))))))))"
    by (simp add: segm_def)
  also have "\<dots> = segm frame 6 6 @ g_my_mac s @ [8, 6] @ [0, 1] @ [8, 0] @ [6] @ [4] @ [0, 2] @ g_my_mac s @ g_my_ip s @
                 segm frame 6 6 @ segm frame 28 4 @ replicate 18 0"
    unfolding segm_append by (simp add: f(1-5,8-) f(6,7) [simplified] t)
  finally have "take 60 tx = \<dots>" .
  moreover have "length tx = 1518" using assms by (simp add: tx_def)
  ultimately show ?thesis using b by simp
qed

text \<open>What a valid echo request is, as the guards of the code read it, and what is sent back.\<close>

definition echo_request :: "bytes \<Rightarrow> nat \<Rightarrow> responder \<Rightarrow> bool" where
  "echo_request frame len s \<longleftrightarrow>
     34 \<le> len \<and> be16 (frame ! 12) (frame ! 13) = 0x0800 \<and>
     (let ihl = unat (frame ! 14 AND 0x0F) * 4; total_len = unat (be16 (frame ! 16) (frame ! 17))
      in 20 \<le> ihl \<and> frame ! 23 = 1 \<and> segm frame 30 4 = g_my_ip s \<and> 14 + ihl + 8 \<le> len \<and>
         frame ! (14 + ihl) = 8 \<and> ihl + 8 \<le> total_len \<and> total_len + 14 \<le> 1518 \<and> total_len + 14 \<le> len)"

definition arp_request :: "bytes \<Rightarrow> nat \<Rightarrow> responder \<Rightarrow> bool" where
  "arp_request frame len s \<longleftrightarrow>
     42 \<le> len \<and> be16 (frame ! 12) (frame ! 13) = 0x0806 \<and> be16 (frame ! 20) (frame ! 21) = 1 \<and>
     segm frame 38 4 = g_my_ip s"

lemma fill_segment:
  assumes "i + n \<le> length buf" "n \<le> 4294967295" "even k" "k + 1 < n"
    and "c = ip_checksum (segm (put_bytes buf (i + k) [0, 0]) i n)"
  shows "ip_checksum (segm (put_bytes (put_bytes buf (i + k) [0, 0]) (i + k) [hi8 c, lo8 c]) i n) = 0"
proof -
  let ?d = "segm (put_bytes buf (i + k) [0, 0]) i n"
  have "segm (put_bytes (put_bytes buf (i + k) [0, 0]) (i + k) [hi8 c, lo8 c]) i n = ?d[k := hi8 c, k + 1 := lo8 c]"
    using assms(1,4) by (subst segm_put_within) simp_all
  moreover have "ip_checksum (?d[k := hi8 (ip_checksum ?d), k + 1 := lo8 (ip_checksum ?d)]) = 0"
    using assms(1-4) by (intro inet.fill_verifies) (simp_all add: nth_segm nth_put_bytes del: put_bytes.simps)
  ultimately show ?thesis using assms(5) by simp
qed

lemma icmp_build_spec:
  assumes ok: "responder_ok s" and "20 \<le> ihl" "ihl \<le> 60" "ihl + 8 \<le> total_len" "total_len + 14 \<le> 1518"
    and "total_len + 14 \<le> length frame"
  shows "\<exists>tx. icmp_build frame ihl total_len s = Some tx \<and> length tx = 1518 \<and>
    segm tx 0 6 = segm frame 6 6 \<and> segm tx 6 6 = g_my_mac s \<and> segm tx 12 12 = segm frame 12 12 \<and>
    segm tx 26 4 = g_my_ip s \<and> segm tx 30 4 = segm frame 26 4 \<and>
    segm tx 34 (ihl - 20) = segm frame 34 (ihl - 20) \<and>
    ip_checksum (segm tx 14 ihl) = 0 \<and>
    tx ! (14 + ihl) = 0 \<and> tx ! (15 + ihl) = frame ! (15 + ihl) \<and>
    segm tx (18 + ihl) (total_len - ihl - 4) = segm frame (18 + ihl) (total_len - ihl - 4) \<and>
    ip_checksum (segm tx (14 + ihl) (total_len - ihl)) = 0 \<and>
    drop (14 + total_len) tx = drop (14 + total_len) (tx_reply s)"
proof -
  define t1 where "t1 = put_bytes (tx_reply s) 0 (segm frame 0 (14 + total_len))"
  define t2 where "t2 = put_bytes (put_bytes (put_bytes (put_bytes t1 0 (segm frame 6 6)) 6 (g_my_mac s))
    26 (g_my_ip s)) 30 (segm frame 26 4)"
  define c1 where "c1 = ip_checksum (segm (put_bytes t2 (14 + 10) [0, 0]) 14 ihl)"
  define t3 where "t3 = put_bytes (put_bytes t2 (14 + 10) [0, 0]) (14 + 10) [hi8 c1, lo8 c1]"
  define t4 where "t4 = put_bytes t3 (14 + ihl) [0]"
  define c2 where "c2 = ip_checksum (segm (put_bytes t4 (14 + ihl + 2) [0, 0]) (14 + ihl) (total_len - ihl))"
  define t5 where "t5 = put_bytes (put_bytes t4 (14 + ihl + 2) [0, 0]) (14 + ihl + 2) [hi8 c2, lo8 c2]"
  have len: "length t1 = 1518" "length t2 = 1518" "length t3 = 1518" "length t4 = 1518" "length t5 = 1518"
    using ok by (simp_all add: t1_def t2_def t3_def t4_def t5_def del: put_bytes.simps)
  have b: "icmp_build frame ihl total_len s = Some t5"
    using assms len by (simp add: icmp_build_def t1_def t2_def t3_def t4_def t5_def c1_def c2_def del: put_bytes.simps)
  have sum1: "ip_checksum (segm t3 14 ihl) = 0"
    unfolding t3_def using assms len c1_def by (intro fill_segment) simp_all
  have sum2: "ip_checksum (segm t5 (14 + ihl) (total_len - ihl)) = 0"
    unfolding t5_def using assms len c2_def by (intro fill_segment) simp_all
  have low: "segm t5 i n = segm t3 i n" if "i + n \<le> 14 + ihl" for i n
    using that unfolding t5_def t4_def by (simp add: segm_put_other del: put_bytes.simps)
  have mid: "segm t3 i n = segm t2 i n" if "i + n \<le> 24 \<or> 26 \<le> i" for i n
    using that unfolding t3_def by (simp add: segm_put_other del: put_bytes.simps)
  have body: "segm t1 i n = segm frame i n" if "i + n \<le> 14 + total_len" for i n
  proof -
    have "segm t1 i n = segm (segm t1 0 (14 + total_len)) i n" using that by (simp add: segm_segm)
    also have "segm t1 0 (14 + total_len) = segm frame 0 (14 + total_len)"
      unfolding t1_def using assms by (intro segm_put_same) simp_all
    finally show ?thesis using that by (simp add: segm_segm)
  qed
  have hi: "segm t5 i n = segm frame i n" if "18 + ihl \<le> i" "i + n \<le> 14 + total_len" for i n
    using that assms unfolding t5_def t4_def t3_def t2_def by (simp add: segm_put_other body del: put_bytes.simps)
  have t2: "segm t2 0 6 = segm frame 6 6" "segm t2 6 6 = g_my_mac s" "segm t2 26 4 = g_my_ip s"
    "segm t2 30 4 = segm frame 26 4"
    "segm t2 12 12 = segm frame 12 12" "segm t2 34 (ihl - 20) = segm frame 34 (ihl - 20)"
    unfolding t2_def using assms len by (simp_all add: segm_simps body del: put_bytes.simps)
  have "t5 ! (14 + ihl) = 0" "t5 ! (15 + ihl) = frame ! (15 + ihl)"
    using assms len unfolding t5_def t4_def t3_def t2_def t1_def
    by (auto simp: nth_put_bytes nth_segm simp del: put_bytes.simps)
  moreover have "drop (14 + total_len) t5 = drop (14 + total_len) (tx_reply s)"
    using assms unfolding t5_def t4_def t3_def t2_def t1_def by (simp add: drop_put_bytes del: put_bytes.simps)
  ultimately show ?thesis using b len sum1 sum2 assms by (simp add: low mid t2 hi)
qed

lemma ihl_le: "unat (b AND 0x0F :: u8) * 4 \<le> 60"
proof -
  have "b AND 0x0F \<le> 0x0F" by (rule word_and_le1)
  then show ?thesis by (simp add: word_le_nat_alt)
qed

lemma handle_arp_request:
  assumes "responder_ok s" "len \<le> length frame" "arp_request frame len s"
  shows "\<exists>s'. net_responder_handle frame len s = Some (1, s') \<and> responder_ok s' \<and>
    g_my_mac s' = g_my_mac s \<and> g_my_ip s' = g_my_ip s \<and>
    sent s' = sent s @ [segm frame 6 6 @ g_my_mac s @ [8, 6, 0, 1, 8, 0, 6, 4, 0, 2] @ g_my_mac s @ g_my_ip s @
                 segm frame 6 6 @ segm frame 28 4 @ replicate 18 0] \<and>
    g_arp_replies s' = g_arp_replies s + 1 \<and> g_icmp_replies s' = g_icmp_replies s"
proof -
  let ?t = "arp_log_request (segm frame 28 4) s"
  have "42 \<le> length frame" using assms by (simp add: arp_request_def)
  moreover have "responder_ok ?t" using assms(1) unfolding responder_ok_def by simp
  ultimately obtain tx where tx: "arp_build frame ?t = Some tx" "length tx = 1518" and
    t: "take 60 tx = segm frame 6 6 @ g_my_mac s @ [8, 6, 0, 1, 8, 0, 6, 4, 0, 2] @ g_my_mac s @ g_my_ip s @
                 segm frame 6 6 @ segm frame 28 4 @ replicate 18 0"
    using arp_build_spec [of ?t frame] by auto
  define s' where "s' = (genet_tx_frame tx 60 (?t\<lparr>tx_reply := tx\<rparr>))\<lparr>g_arp_replies := g_arp_replies s + 1\<rparr>"
  have "net_responder_handle frame len s = arp_handle frame s"
    using assms(2,3) by (simp add: net_responder_handle_def arp_request_def)
  also have "\<dots> = Some (1, s')"
    using assms tx(1) by (simp add: arp_handle_def arp_request_def genet_tx_frame_def s'_def)
  finally have h: "net_responder_handle frame len s = Some (1, s')" .
  have f: "g_my_mac s' = g_my_mac s" "g_my_ip s' = g_my_ip s" "sent s' = sent s @ [take 60 tx]" "tx_reply s' = tx"
    "g_arp_replies s' = g_arp_replies s + 1" "g_icmp_replies s' = g_icmp_replies s"
    by (simp_all add: s'_def genet_tx_frame_def)
  have "responder_ok s'" using assms(1) tx(2) unfolding responder_ok_def f by simp
  with h f t show ?thesis by metis
qed

lemma ipv4_handle_eq:
  assumes "responder_ok s" "34 \<le> length frame" and "ihl = unat (frame ! 14 AND 0x0F) * 4"
  shows "ipv4_handle frame len s =
    (if 20 \<le> ihl \<and> frame ! 23 = 1 \<and> segm frame 30 4 = g_my_ip s \<and> 14 + ihl + 8 \<le> len
     then icmp_handle frame len ihl s else Some (0, s))"
  using assms(1,2) unfolding assms(3) ipv4_handle_def Let_def by auto

lemma handle_echo_request:
  assumes "responder_ok s" "len \<le> length frame" "echo_request frame len s"
    and ihl: "ihl = unat (frame ! 14 AND 0x0F) * 4" and total_len: "total_len = unat (be16 (frame ! 16) (frame ! 17))"
  shows "\<exists>s' tx. net_responder_handle frame len s = Some (1, s') \<and> responder_ok s' \<and>
    g_my_mac s' = g_my_mac s \<and> g_my_ip s' = g_my_ip s \<and>
    sent s' = sent s @ [take (max 60 (14 + total_len)) tx] \<and> length tx = 1518 \<and>
    icmp_build frame ihl total_len (icmp_log_echo (segm frame 26 4) (total_len - ihl) s) = Some tx \<and>
    g_icmp_replies s' = g_icmp_replies s + 1 \<and> g_arp_replies s' = g_arp_replies s"
proof -
  let ?t = "icmp_log_echo (segm frame 26 4) (total_len - ihl) s"
  have e: "34 \<le> len" "be16 (frame ! 12) (frame ! 13) = 0x0800" "20 \<le> ihl" "frame ! 23 = 1"
    "segm frame 30 4 = g_my_ip s" "14 + ihl + 8 \<le> len" "frame ! (14 + ihl) = 8" "ihl + 8 \<le> total_len"
    "total_len + 14 \<le> 1518" "total_len + 14 \<le> len"
    using assms(3) unfolding echo_request_def Let_def ihl [symmetric] total_len [symmetric] by simp_all
  have ok: "responder_ok ?t" using assms(1) unfolding responder_ok_def by simp
  obtain tx where tx: "icmp_build frame ihl total_len ?t = Some tx" "length tx = 1518"
    using icmp_build_spec [OF ok e(3) _ e(8,9) order_trans [OF e(10) assms(2)]] ihl_le [of "frame ! 14"]
    unfolding ihl [symmetric] by blast
  define s' where "s' = (genet_tx_frame tx (if 14 + total_len < 60 then 60 else 14 + total_len) (?t\<lparr>tx_reply := tx\<rparr>))
      \<lparr>g_icmp_replies := g_icmp_replies s + 1\<rparr>"
  have "net_responder_handle frame len s = ipv4_handle frame len s"
    using e assms(2) by (simp add: net_responder_handle_def)
  also have "\<dots> = icmp_handle frame len ihl s"
    using ipv4_handle_eq [OF assms(1) _ ihl] e assms(2) by simp
  also have "\<dots> = Some (1, s')"
    using e assms(1,2) tx(1) by (simp add: icmp_handle_def total_len [symmetric] genet_tx_frame_def s'_def)
  finally have h: "net_responder_handle frame len s = Some (1, s')" .
  have f: "g_my_mac s' = g_my_mac s" "g_my_ip s' = g_my_ip s" "sent s' = sent s @ [take (max 60 (14 + total_len)) tx]"
    "tx_reply s' = tx" "g_icmp_replies s' = g_icmp_replies s + 1" "g_arp_replies s' = g_arp_replies s"
    by (simp_all add: s'_def genet_tx_frame_def max_def)
  have "responder_ok s'" using assms(1) tx(2) unfolding responder_ok_def f by simp
  with h f tx show ?thesis by metis
qed

lemma handle_ignored:
  assumes "responder_ok s" "len \<le> length frame" "\<not> arp_request frame len s" "\<not> echo_request frame len s"
  shows "net_responder_handle frame len s = Some (0, s)"
proof -
  consider "len < 14" | "14 \<le> len" "42 \<le> len" "be16 (frame ! 12) (frame ! 13) = 0x0806"
    | "34 \<le> len" "be16 (frame ! 12) (frame ! 13) = 0x0800"
    | "14 \<le> len" "\<not> (42 \<le> len \<and> be16 (frame ! 12) (frame ! 13) = 0x0806)"
      "\<not> (34 \<le> len \<and> be16 (frame ! 12) (frame ! 13) = 0x0800)"
    by linarith
  then show ?thesis
  proof cases
    case 2
    with assms show ?thesis by (auto simp: net_responder_handle_def arp_handle_def arp_request_def)
  next
    case 3
    define ihl where "ihl = unat (frame ! 14 AND 0x0F) * 4"
    have "net_responder_handle frame len s = ipv4_handle frame len s"
      using 3 assms(2) by (simp add: net_responder_handle_def)
    also have "\<dots> = Some (0, s)"
    proof (cases "20 \<le> ihl \<and> frame ! 23 = 1 \<and> segm frame 30 4 = g_my_ip s \<and> 14 + ihl + 8 \<le> len")
      case False
      with 3 assms(2) ipv4_handle_eq [OF assms(1) _ ihl_def, of len] show ?thesis by auto
    next
      case True
      then have "ipv4_handle frame len s = icmp_handle frame len ihl s"
        using 3 assms(2) ipv4_handle_eq [OF assms(1) _ ihl_def, of len] by simp
      also have "\<dots> = Some (0, s)"
        using True 3 assms unfolding echo_request_def Let_def ihl_def [symmetric]
        by (auto simp: icmp_handle_def Let_def not_le)
      finally show ?thesis .
    qed
    finally show ?thesis .
  qed (use assms(2) in \<open>auto simp: net_responder_handle_def\<close>)
qed

text \<open>C12: the responder is memory safe and replies only when asked. For every frame of up to len bytes, whatever its
  contents, the handler stays inside the frame and the reply buffer; it answers 1 exactly for an ARP
  request or an ICMP echo request to its own address, then hands the driver exactly one frame of 60
  to 1518 bytes addressed to the sender, and in every other case it leaves the whole state unchanged.\<close>

theorem responder_safe:
  assumes "responder_ok s" and "len \<le> length frame"
  shows "\<exists>r s'. net_responder_handle frame len s = Some (r, s') \<and> responder_ok s' \<and>
    g_my_mac s' = g_my_mac s \<and> g_my_ip s' = g_my_ip s \<and>
    (if arp_request frame len s \<or> echo_request frame len s
     then r = 1 \<and> (\<exists>f. sent s' = sent s @ [f] \<and> 60 \<le> length f \<and> length f \<le> 1518 \<and>
                     segm f 0 6 = segm frame 6 6 \<and> segm f 6 6 = g_my_mac s)
     else r = 0 \<and> s' = s)"
proof (cases "arp_request frame len s")
  case True
  obtain s' where h: "net_responder_handle frame len s = Some (1, s')" "responder_ok s'"
    "g_my_mac s' = g_my_mac s" "g_my_ip s' = g_my_ip s"
    and s: "sent s' = sent s @ [segm frame 6 6 @ g_my_mac s @ [8, 6, 0, 1, 8, 0, 6, 4, 0, 2] @ g_my_mac s @ g_my_ip s @
                 segm frame 6 6 @ segm frame 28 4 @ replicate 18 0]"
    using handle_arp_request [OF assms True] by blast
  have l: "42 \<le> length frame" using True assms(2) by (simp add: arp_request_def)
  define f where "f = segm frame 6 6 @ g_my_mac s @ [8, 6, 0, 1, 8, 0, 6, 4, 0, 2] @ g_my_mac s @ g_my_ip s @
                 segm frame 6 6 @ segm frame 28 4 @ replicate 18 0"
  have "length f = 60" "segm f 0 6 = segm frame 6 6" "segm f 6 6 = g_my_mac s"
    using l assms(1) by (simp_all add: f_def segm_def)
  moreover have "sent s' = sent s @ [f]" using s by (simp only: f_def)
  ultimately have "\<exists>f. sent s' = sent s @ [f] \<and> 60 \<le> length f \<and> length f \<le> 1518 \<and>
      segm f 0 6 = segm frame 6 6 \<and> segm f 6 6 = g_my_mac s" by (intro exI [of _ f]) simp
  with h True show ?thesis by auto
next
  case no: False
  show ?thesis
  proof (cases "echo_request frame len s")
    case True
    define ihl where "ihl = unat (frame ! 14 AND 0x0F) * 4"
    define total_len where "total_len = unat (be16 (frame ! 16) (frame ! 17))"
    have e: "20 \<le> ihl" "ihl \<le> 60" "ihl + 8 \<le> total_len" "total_len + 14 \<le> 1518" "total_len + 14 \<le> length frame"
      using True assms(2) ihl_le unfolding echo_request_def Let_def ihl_def [symmetric] total_len_def [symmetric]
      by (simp_all add: ihl_def)
    have ok: "responder_ok (icmp_log_echo (segm frame 26 4) (total_len - ihl) s)"
      using assms(1) unfolding responder_ok_def by simp
    obtain s' tx where h: "net_responder_handle frame len s = Some (1, s')" "responder_ok s'"
      "g_my_mac s' = g_my_mac s" "g_my_ip s' = g_my_ip s"
      and s: "sent s' = sent s @ [take (max 60 (14 + total_len)) tx]" "length tx = 1518"
      and b: "icmp_build frame ihl total_len (icmp_log_echo (segm frame 26 4) (total_len - ihl) s) = Some tx"
      using handle_echo_request [OF assms True ihl_def total_len_def] by blast
    have "segm tx 0 6 = segm frame 6 6" "segm tx 6 6 = g_my_mac s"
      using icmp_build_spec [OF ok e] b by auto
    then have "60 \<le> length (take (max 60 (14 + total_len)) tx) \<and> length (take (max 60 (14 + total_len)) tx) \<le> 1518 \<and>
      segm (take (max 60 (14 + total_len)) tx) 0 6 = segm frame 6 6 \<and>
      segm (take (max 60 (14 + total_len)) tx) 6 6 = g_my_mac s"
      using s(2) by (simp add: segm_take)
    with h s(1) True show ?thesis by auto
  next
    case False
    with no handle_ignored [OF assms no False] assms(1) show ?thesis by auto
  qed
qed

definition demo_responder :: responder where
  "demo_responder = \<lparr>g_arp_replies = 0, g_icmp_replies = 0, g_my_mac = [2, 0, 0, 0, 0, 1],
     g_my_ip = [192, 168, 3, 101], tx_reply = replicate 1518 0, arp_log = 8, icmp_log = 8, console = [], sent = []\<rparr>"

definition demo_arp :: bytes where
  "demo_arp = replicate 6 0xFF @ [2, 0, 0, 0, 0, 9] @ [8, 6, 0, 1, 8, 0, 6, 4, 0, 1] @ [2, 0, 0, 0, 0, 9] @
     [192, 168, 3, 7] @ replicate 6 0 @ [192, 168, 3, 101]"

definition demo_echo :: bytes where
  "demo_echo = [2, 0, 0, 0, 0, 1] @ [2, 0, 0, 0, 0, 9] @ [8, 0] @
     [0x45, 0, 0, 28, 0, 0, 0, 0, 64, 1, 0, 0] @ [192, 168, 3, 7] @ [192, 168, 3, 101] @ [8, 0, 0, 0, 0, 1, 0, 1]"

lemma demo_responder_ok: "responder_ok demo_responder"
  by (simp add: responder_ok_def demo_responder_def)

lemma demo_requests: "arp_request demo_arp 42 demo_responder" "echo_request demo_echo 42 demo_responder"
  "length demo_arp = 42" "length demo_echo = 42"
  by code_simp+

theorem responder_safe_witness:
  "\<exists>r s'. net_responder_handle demo_echo 42 demo_responder = Some (r, s') \<and> r = 1 \<and> length (sent s') = 1"
  using responder_safe [OF demo_responder_ok, of 42 demo_echo] demo_requests
  by (auto simp: demo_responder_def)

text \<open>The ARP reply is exactly the one the protocol asks for: an ARP request for the responder's address is
  answered with one 60-byte frame that is addressed to the requester, carries opcode 2, the
  responder's hardware and protocol address as sender and the requester's as target, and is padded
  with zeros; the counter of ARP replies goes up by one.\<close>

theorem arp_reply_exact:
  assumes "responder_ok s" and "len \<le> length frame" and "arp_request frame len s"
  shows "\<exists>s'. net_responder_handle frame len s = Some (1, s') \<and>
    sent s' = sent s @ [segm frame 6 6 @ g_my_mac s @ [8, 6, 0, 1, 8, 0, 6, 4, 0, 2] @ g_my_mac s @ g_my_ip s @
                        segm frame 6 6 @ segm frame 28 4 @ replicate 18 0] \<and>
    net_arp_replies s' = net_arp_replies s + 1 \<and> net_icmp_replies s' = net_icmp_replies s"
  using handle_arp_request [OF assms] unfolding net_arp_replies_def net_icmp_replies_def by blast

theorem arp_reply_exact_witness:
  "\<exists>s'. net_responder_handle demo_arp 42 demo_responder = Some (1, s') \<and> net_arp_replies s' = 1"
  using arp_reply_exact [OF demo_responder_ok, of 42 demo_arp] demo_requests
  by (auto simp: demo_responder_def net_arp_replies_def)

text \<open>C32: the echo reply mirrors the request and is valid. The frame sent for an ICMP echo request goes back to
  the sender with both address pairs swapped, type 0 and the request's identifier, sequence number,
  payload and IP options unchanged; its IP header checksum and its ICMP checksum verify. When the
  reply is shorter than 60 bytes, the padding is whatever the previous reply left in the buffer.\<close>

theorem echo_reply_exact:
  assumes "responder_ok s" and "len \<le> length frame" and "echo_request frame len s"
    and "ihl = unat (frame ! 14 AND 0x0F) * 4" and "total_len = unat (be16 (frame ! 16) (frame ! 17))"
  shows "\<exists>s' f. net_responder_handle frame len s = Some (1, s') \<and> sent s' = sent s @ [f] \<and>
    length f = max 60 (14 + total_len) \<and>
    segm f 0 6 = segm frame 6 6 \<and> segm f 6 6 = g_my_mac s \<and>
    segm f 26 4 = segm frame 30 4 \<and> segm f 30 4 = segm frame 26 4 \<and>
    segm f 34 (ihl - 20) = segm frame 34 (ihl - 20) \<and>
    ip_checksum (segm f 14 ihl) = 0 \<and> ip_checksum (segm f (14 + ihl) (total_len - ihl)) = 0 \<and>
    f ! (14 + ihl) = 0 \<and> f ! (15 + ihl) = frame ! (15 + ihl) \<and>
    segm f (18 + ihl) (total_len - ihl - 4) = segm frame (18 + ihl) (total_len - ihl - 4) \<and>
    drop (14 + total_len) f = segm (tx_reply s) (14 + total_len) (60 - (14 + total_len))"
proof -
  have e: "20 \<le> ihl" "ihl \<le> 60" "ihl + 8 \<le> total_len" "total_len + 14 \<le> 1518" "total_len + 14 \<le> length frame"
    and ip: "segm frame 30 4 = g_my_ip s"
    using assms(2,3) ihl_le [of "frame ! 14"]
    unfolding echo_request_def Let_def assms(4) [symmetric] assms(5) [symmetric] by simp_all
  have ok: "responder_ok (icmp_log_echo (segm frame 26 4) (total_len - ihl) s)"
    using assms(1) unfolding responder_ok_def by simp
  obtain s' tx where h: "net_responder_handle frame len s = Some (1, s')"
      "sent s' = sent s @ [take (max 60 (14 + total_len)) tx]" "length tx = 1518"
    and b: "icmp_build frame ihl total_len (icmp_log_echo (segm frame 26 4) (total_len - ihl) s) = Some tx"
    using handle_echo_request [OF assms] by blast
  define f where "f = take (max 60 (14 + total_len)) tx"
  have t: "segm f i n = segm tx i n" if "i + n \<le> max 60 (14 + total_len)" for i n
    using that by (simp add: f_def segm_take)
  have n: "f ! i = tx ! i" if "i < 14 + total_len" for i using that by (simp add: f_def)
  have d: "drop (14 + total_len) f = segm tx (14 + total_len) (60 - (14 + total_len))"
    by (simp add: f_def segm_def drop_take max_def)
  note p = icmp_build_spec [OF ok e] 
  have "drop (14 + total_len) tx = drop (14 + total_len) (tx_reply s)" using p b by auto
  then have d': "drop (14 + total_len) f = segm (tx_reply s) (14 + total_len) (60 - (14 + total_len))"
    unfolding d by (simp add: segm_def)
  have l: "length f = max 60 (14 + total_len)" using e h(3) by (simp add: f_def max_def)
  have "sent s' = sent s @ [f]" using h(2) by (simp add: f_def)
  moreover have "segm f 0 6 = segm frame 6 6 \<and> segm f 6 6 = g_my_mac s \<and>
    segm f 26 4 = segm frame 30 4 \<and> segm f 30 4 = segm frame 26 4 \<and>
    segm f 34 (ihl - 20) = segm frame 34 (ihl - 20) \<and>
    ip_checksum (segm f 14 ihl) = 0 \<and> ip_checksum (segm f (14 + ihl) (total_len - ihl)) = 0 \<and>
    f ! (14 + ihl) = 0 \<and> f ! (15 + ihl) = frame ! (15 + ihl) \<and>
    segm f (18 + ihl) (total_len - ihl - 4) = segm frame (18 + ihl) (total_len - ihl - 4)"
    using p b e ip by (auto simp: t n max_def)
  ultimately show ?thesis using h(1) l d' by blast
qed

theorem echo_reply_exact_witness:
  "\<exists>s' f. net_responder_handle demo_echo 42 demo_responder = Some (1, s') \<and> sent s' = [f] \<and>
     ip_checksum (segm f 14 20) = 0 \<and> ip_checksum (segm f 34 8) = 0"
proof -
  have v: "unat (demo_echo ! 14 AND 0x0F) * 4 = 20" "unat (be16 (demo_echo ! 16) (demo_echo ! 17)) = 28" by code_simp+
  show ?thesis
    using echo_reply_exact [OF demo_responder_ok, of 42 demo_echo, OF _ _ refl refl] demo_requests
    unfolding v by (auto simp: demo_responder_def)
qed

end
