(* ===== verification/Dhcp.thy ===== *)
theory Dhcp
  imports Responder
begin

text \<open>
  The DHCP client of \<open>system/dhcp_client.c\<close>: the frame builder on its 600-byte buffer, the option
  parser and the state machine INIT, DISCOVER_SENT, REQUEST_SENT, BOUND. Buffer accesses are
  checked as in the responder (\<open>None\<close> is an access outside a buffer), transmitted frames are
  collected in \<open>dh_sent\<close> and console output in \<open>dh_console\<close>.
\<close>

section \<open>State\<close>

datatype dhcp_state_t = DHCP_INIT | DHCP_DISCOVER_SENT | DHCP_REQUEST_SENT | DHCP_BOUND

record dhcp =
  dh_state :: dhcp_state_t
  dh_my_mac :: bytes
  dh_my_ip :: bytes
  dh_server_ip :: bytes
  dh_router_ip :: bytes
  dh_netmask :: bytes
  dh_dns_ip :: bytes
  dh_lease_secs :: u64
  dh_xid :: u64
  dh_discover_count :: u64
  dh_offer_count :: u64
  dh_request_count :: u64
  dh_ack_count :: u64
  tx_frame :: bytes
  dh_console :: string
  dh_sent :: "bytes list"

definition dhcp_boot :: dhcp where
  "dhcp_boot = \<lparr>dh_state = DHCP_INIT, dh_my_mac = replicate 6 0, dh_my_ip = replicate 4 0,
     dh_server_ip = replicate 4 0, dh_router_ip = replicate 4 0, dh_netmask = replicate 4 0,
     dh_dns_ip = replicate 4 0, dh_lease_secs = 0, dh_xid = 0xC0FFEE00, dh_discover_count = 0,
     dh_offer_count = 0, dh_request_count = 0, dh_ack_count = 0, tx_frame = replicate 600 0,
     dh_console = [], dh_sent = []\<rparr>"

definition dhcp_set_mac :: "bytes \<Rightarrow> dhcp \<Rightarrow> dhcp" where
  "dhcp_set_mac mac s = s\<lparr>dh_my_mac := take 6 mac,
     dh_xid := dh_xid s XOR (push_bit 16 (ucast (mac ! 3)) OR push_bit 8 (ucast (mac ! 4)) OR ucast (mac ! 5))\<rparr>"

definition dhcp_is_bound :: "dhcp \<Rightarrow> bool" where
  "dhcp_is_bound s \<longleftrightarrow> dh_state s = DHCP_BOUND"

definition dhcp_get_ip :: "dhcp \<Rightarrow> bytes" where "dhcp_get_ip s = dh_my_ip s"
definition dhcp_get_router :: "dhcp \<Rightarrow> bytes" where "dhcp_get_router s = dh_router_ip s"
definition dhcp_get_netmask :: "dhcp \<Rightarrow> bytes" where "dhcp_get_netmask s = dh_netmask s"
definition dhcp_get_dns :: "dhcp \<Rightarrow> bytes" where "dhcp_get_dns s = dh_dns_ip s"
definition dhcp_lease_seconds :: "dhcp \<Rightarrow> u64" where "dhcp_lease_seconds s = dh_lease_secs s"
definition dhcp_discover_count :: "dhcp \<Rightarrow> u64" where "dhcp_discover_count s = dh_discover_count s"
definition dhcp_offer_count :: "dhcp \<Rightarrow> u64" where "dhcp_offer_count s = dh_offer_count s"
definition dhcp_request_count :: "dhcp \<Rightarrow> u64" where "dhcp_request_count s = dh_request_count s"
definition dhcp_ack_count :: "dhcp \<Rightarrow> u64" where "dhcp_ack_count s = dh_ack_count s"

definition dh_puts :: "string \<Rightarrow> dhcp \<Rightarrow> dhcp" where
  "dh_puts str s = s\<lparr>dh_console := dh_console s @ str\<rparr>"

definition dh_tx :: "nat \<Rightarrow> dhcp \<Rightarrow> dhcp" where
  "dh_tx len s = s\<lparr>dh_sent := dh_sent s @ [take len (tx_frame s)]\<rparr>"

section \<open>The frame builder\<close>

text \<open>The UDP checksum; the two pseudo-header loops and the loop over the datagram are the loop of
  \<open>ip_checksum\<close> with another start value.\<close>

definition udp_sum :: "bytes \<Rightarrow> bytes \<Rightarrow> bytes \<Rightarrow> u64" where
  "udp_sum src_ip dst_ip udp =
     fold16 (sum16 udp (sum16 dst_ip (sum16 src_ip 0) + 17 + of_nat (length udp)))"

definition udp_checksum :: "bytes \<Rightarrow> bytes \<Rightarrow> bytes \<Rightarrow> u16" where
  "udp_checksum src_ip dst_ip udp =
     (let cs = ucast (NOT (udp_sum src_ip dst_ip udp) AND 0xFFFF) in if cs \<noteq> 0 then cs else 0xFFFF)"

definition put_option_byte :: "nat \<Rightarrow> u8 \<Rightarrow> u8 \<Rightarrow> bytes \<Rightarrow> (nat \<times> bytes) option" where
  "put_option_byte p opt v tx = do { tx \<leftarrow> wr_seg tx p [opt, 1, v]; Some (p + 3, tx) }"

definition put_option_data :: "nat \<Rightarrow> u8 \<Rightarrow> bytes \<Rightarrow> bytes \<Rightarrow> (nat \<times> bytes) option" where
  "put_option_data p opt src tx =
     do { tx \<leftarrow> wr_seg tx p [opt, of_nat (length src)];
          tx \<leftarrow> wr_seg tx (p + 2) src;
          Some (p + 2 + length src, tx) }"

definition put_option_opt :: "nat \<Rightarrow> u8 \<Rightarrow> bytes option \<Rightarrow> bytes \<Rightarrow> (nat \<times> bytes) option" where
  "put_option_opt p opt src tx =
     (case src of None \<Rightarrow> Some (p, tx) | Some ip \<Rightarrow> do { ip \<leftarrow> rd_seg ip 0 4; put_option_data p opt ip tx })"

text \<open>The Ethernet header and the fixed BOOTP part.\<close>

definition build_bootp :: "dhcp \<Rightarrow> bytes option" where
  "build_bootp s =
    do {
      mac \<leftarrow> rd_seg (dh_my_mac s) 0 6;
      tx \<leftarrow> wr_seg (tx_frame s) 0 (replicate 400 0);
      tx \<leftarrow> wr_seg tx 0 (replicate 6 0xFF);
      tx \<leftarrow> wr_seg tx 6 mac;
      tx \<leftarrow> wr_seg tx 12 [0x08, 0x00];
      tx \<leftarrow> wr_seg tx 42 [1, 1, 6, 0, ucast (drop_bit 24 (dh_xid s)), ucast (drop_bit 16 (dh_xid s)),
                         ucast (drop_bit 8 (dh_xid s)), ucast (dh_xid s), 0, 0, 0x80, 0x00];
      tx \<leftarrow> wr_seg tx (42 + 28) mac;
      wr_seg tx (42 + 236) [0x63, 0x82, 0x53, 0x63]
    }"

definition build_options :: "u8 \<Rightarrow> bytes option \<Rightarrow> bytes option \<Rightarrow> bytes \<Rightarrow> bytes \<Rightarrow> (nat \<times> bytes) option" where
  "build_options msg_type requested_ip server_ip mac tx =
    do {
      (opt, tx) \<leftarrow> put_option_byte (42 + 240) 53 msg_type tx;
      (opt, tx) \<leftarrow> put_option_data opt 61 (1 # mac) tx;
      (opt, tx) \<leftarrow> put_option_opt opt 50 requested_ip tx;
      (opt, tx) \<leftarrow> put_option_opt opt 54 server_ip tx;
      (opt, tx) \<leftarrow> put_option_data opt 55 [1, 3, 6, 15, 51] tx;
      tx \<leftarrow> wr_seg tx opt [255];
      Some (opt + 1, tx)
    }"

text \<open>The UDP and IP headers with their checksums; \<open>udp_len\<close> is \<open>opt - bp\<close> plus the header.\<close>

definition build_headers :: "nat \<Rightarrow> bytes \<Rightarrow> bytes option" where
  "build_headers udp_len tx =
    do {
      let ip_total = 20 + udp_len;
      tx \<leftarrow> wr_seg tx 34 [0, 68, 0, 67, of_nat (udp_len div 256), of_nat (udp_len mod 256), 0, 0];
      tx \<leftarrow> wr_seg tx 14 [0x45, 0, of_nat (ip_total div 256), of_nat (ip_total mod 256), 0, 0, 0, 0, 64, 17, 0, 0];
      tx \<leftarrow> wr_seg tx 30 [255, 255, 255, 255];
      hdr \<leftarrow> rd_seg tx 14 20;
      tx \<leftarrow> wr_seg tx 24 [hi8 (ip_checksum hdr), lo8 (ip_checksum hdr)];
      udp \<leftarrow> rd_seg tx 34 udp_len;
      let ucs = udp_checksum [0, 0, 0, 0] [255, 255, 255, 255] udp;
      wr_seg tx 40 [hi8 ucs, lo8 ucs]
    }"

definition build_dhcp :: "u8 \<Rightarrow> bytes option \<Rightarrow> bytes option \<Rightarrow> dhcp \<Rightarrow> (nat \<times> dhcp) option" where
  "build_dhcp msg_type requested_ip server_ip s =
    do {
      tx \<leftarrow> build_bootp s;
      mac \<leftarrow> rd_seg (dh_my_mac s) 0 6;
      (opt, tx) \<leftarrow> build_options msg_type requested_ip server_ip mac tx;
      let dhcp_len = opt - 42;
      tx \<leftarrow> build_headers (8 + dhcp_len) tx;
      Some (14 + (20 + (8 + dhcp_len)), s\<lparr>tx_frame := tx\<rparr>)
    }"

section \<open>Sending\<close>

definition dhcp_send_discover :: "int \<Rightarrow> dhcp \<Rightarrow> dhcp option" where
  "dhcp_send_discover rc s =
    do {
      let s = s\<lparr>dh_discover_count := dh_discover_count s + 1\<rparr>;
      (len, s) \<leftarrow> build_dhcp 1 None None s;
      let s = dh_tx len s;
      let s = dh_puts (''dhcp: DISCOVER sent len='' @ kp_putdec (of_nat len) @ '' rc='' @ puts_rc rc @ newline) s;
      Some (if dh_state s = DHCP_INIT then s\<lparr>dh_state := DHCP_DISCOVER_SENT\<rparr> else s)
    }"

definition dhcp_send_request :: "dhcp \<Rightarrow> dhcp option" where
  "dhcp_send_request s =
    do {
      let s = s\<lparr>dh_request_count := dh_request_count s + 1\<rparr>;
      (len, s) \<leftarrow> build_dhcp 3 (Some (dh_my_ip s)) (Some (dh_server_ip s)) s;
      let s = dh_puts (''dhcp: send REQUEST for '' @ puts_ip (dh_my_ip s) @ '' via '' @ puts_ip (dh_server_ip s) @ newline) s;
      let s = dh_tx len s;
      Some (s\<lparr>dh_state := DHCP_REQUEST_SENT\<rparr>)
    }"

section \<open>Receiving\<close>

record dhcp_opts =
  msg_type :: nat
  server_id :: bytes
  router :: bytes
  netmask :: bytes
  dns :: bytes
  lease :: u64

definition no_opts :: dhcp_opts where
  "no_opts = \<lparr>msg_type = 0, server_id = [0, 0, 0, 0], router = [0, 0, 0, 0], netmask = [0, 0, 0, 0],
     dns = [0, 0, 0, 0], lease = 0\<rparr>"

definition be32 :: "bytes \<Rightarrow> u64" where
  "be32 x = push_bit 24 (ucast (x ! 0)) OR push_bit 16 (ucast (x ! 1)) OR push_bit 8 (ucast (x ! 2)) OR ucast (x ! 3)"

text \<open>The switch on the option code; \<open>p\<close> is the offset of the option data in the frame.\<close>

definition read_option :: "bytes \<Rightarrow> nat \<Rightarrow> u8 \<Rightarrow> nat \<Rightarrow> dhcp_opts \<Rightarrow> dhcp_opts option" where
  "read_option frame p code olen ops =
     (if code = 53 then
        (if 1 \<le> olen then do { b \<leftarrow> rd frame p; Some (ops\<lparr>msg_type := unat b\<rparr>) } else Some ops)
      else if code \<in> {54, 3, 1, 6, 51} \<and> 4 \<le> olen then do {
        d \<leftarrow> rd_seg frame p 4;
        Some (if code = 54 then ops\<lparr>server_id := d\<rparr>
              else if code = 3 then ops\<lparr>router := d\<rparr>
              else if code = 1 then ops\<lparr>netmask := d\<rparr>
              else if code = 6 then ops\<lparr>dns := d\<rparr>
              else ops\<lparr>lease := be32 d\<rparr>) }
      else Some ops)"

text \<open>The option loop: \<open>bp\<close> is the offset of the BOOTP message in the frame, \<open>i\<close> the cursor.\<close>

function parse_options :: "bytes \<Rightarrow> nat \<Rightarrow> nat \<Rightarrow> nat \<Rightarrow> dhcp_opts \<Rightarrow> dhcp_opts option" where
  "parse_options frame bp bp_len i ops =
     (if i < bp_len then
        (case rd frame (bp + i) of
           None \<Rightarrow> None
         | Some code \<Rightarrow>
             if code = 0 then parse_options frame bp bp_len (i + 1) ops
             else if code = 255 then Some ops
             else if bp_len \<le> i + 1 then Some ops
             else (case rd frame (bp + (i + 1)) of
                     None \<Rightarrow> None
                   | Some l \<Rightarrow>
                       if bp_len < i + 2 + unat l then Some ops
                       else (case read_option frame (bp + (i + 2)) code (unat l) ops of
                               None \<Rightarrow> None
                             | Some ops' \<Rightarrow> parse_options frame bp bp_len (i + 2 + unat l) ops')))
      else Some ops)"
  by pat_completeness auto
termination
  by (relation "measure (\<lambda>(frame, bp, bp_len, i, ops). bp_len - i)") auto

declare parse_options.simps [simp del]

text \<open>The part of \<open>dhcp_handle_packet\<close> before the state machine: \<open>Some None\<close> is one of its early
  returns, \<open>Some (Some (yiaddr, options))\<close> a message for this client.\<close>

definition dhcp_decode :: "bytes \<Rightarrow> nat \<Rightarrow> u64 \<Rightarrow> (bytes \<times> dhcp_opts) option option" where
  "dhcp_decode frame len xid =
    (if len < 14 + 20 + 8 + 240 + 4 then Some None else do {
       ty \<leftarrow> rd_seg frame 12 2;
       if ty \<noteq> [0x08, 0x00] then Some None else do {
         b0 \<leftarrow> rd frame 14;
         if drop_bit 4 b0 \<noteq> 4 then Some None else do {
           let ihl = unat (b0 AND 0x0F) * 4;
           proto \<leftarrow> rd frame 23;
           if proto \<noteq> 17 then Some None else do {
             ports \<leftarrow> rd_seg frame (14 + ihl) 4;
             if be16 (ports ! 0) (ports ! 1) \<noteq> 67 \<or> be16 (ports ! 2) (ports ! 3) \<noteq> 68 then Some None else do {
               let bp = 14 + ihl + 8;
               if len < bp + 240 then Some None else do {
                 x \<leftarrow> rd_seg frame (bp + 4) 4;
                 if be32 x \<noteq> xid then Some None else do {
                   magic \<leftarrow> rd_seg frame (bp + 236) 4;
                   if magic \<noteq> [0x63, 0x82, 0x53, 0x63] then Some None else do {
                     yiaddr \<leftarrow> rd_seg frame (bp + 16) 4;
                     ops \<leftarrow> parse_options frame bp (len - bp) 240 no_opts;
                     Some (Some (yiaddr, ops))
                   } } } } } } } })"

definition dhcp_act :: "bytes \<Rightarrow> dhcp_opts \<Rightarrow> dhcp \<Rightarrow> (nat \<times> dhcp) option" where
  "dhcp_act yiaddr ops s =
     (if msg_type ops = 2 \<and> dh_state s = DHCP_DISCOVER_SENT then do {
        let s = s\<lparr>dh_offer_count := dh_offer_count s + 1, dh_my_ip := yiaddr, dh_server_ip := server_id ops,
                  dh_router_ip := router ops, dh_netmask := netmask ops, dh_dns_ip := dns ops, dh_lease_secs := lease ops\<rparr>;
        let s = dh_puts (''dhcp: OFFER '' @ puts_ip yiaddr @ '' from server '' @ puts_ip (server_id ops) @ newline) s;
        s \<leftarrow> dhcp_send_request s;
        Some (1, s) }
      else if msg_type ops = 5 \<and> dh_state s = DHCP_REQUEST_SENT then
        Some (1, dh_puts (''dhcp: BOUND ip='' @ puts_ip yiaddr @ '' mask='' @ puts_ip (netmask ops) @ '' gw='' @
                          puts_ip (router ops) @ '' lease='' @ kp_putdec (lease ops) @ ''s'' @ newline)
                (s\<lparr>dh_ack_count := dh_ack_count s + 1, dh_my_ip := yiaddr, dh_state := DHCP_BOUND\<rparr>))
      else if msg_type ops = 6 then
        Some (1, (dh_puts (''dhcp: NAK '' @ map char_of [0xE2 :: nat, 0x80, 0x94] @ '' resetting to INIT'' @ newline) s)\<lparr>dh_state := DHCP_INIT\<rparr>)
      else Some (0, s))"

definition dhcp_handle_packet :: "bytes \<Rightarrow> nat \<Rightarrow> dhcp \<Rightarrow> (nat \<times> dhcp) option" where
  "dhcp_handle_packet frame len s =
    do {
      m \<leftarrow> dhcp_decode frame len (dh_xid s);
      (case m of None \<Rightarrow> Some (0, s) | Some (yiaddr, ops) \<Rightarrow> dhcp_act yiaddr ops s)
    }"

section \<open>The option parser against a reference on lists\<close>

definition apply_option :: "u8 \<Rightarrow> bytes \<Rightarrow> dhcp_opts \<Rightarrow> dhcp_opts" where
  "apply_option code d ops =
     (if code = 53 then (if d \<noteq> [] then ops\<lparr>msg_type := unat (hd d)\<rparr> else ops)
      else if length d < 4 then ops
      else if code = 54 then ops\<lparr>server_id := take 4 d\<rparr>
      else if code = 3 then ops\<lparr>router := take 4 d\<rparr>
      else if code = 1 then ops\<lparr>netmask := take 4 d\<rparr>
      else if code = 6 then ops\<lparr>dns := take 4 d\<rparr>
      else if code = 51 then ops\<lparr>lease := be32 (take 4 d)\<rparr>
      else ops)"

text \<open>Tag, length and value triples, padding bytes and the end marker, on the bytes alone.\<close>

fun tlv_options :: "bytes \<Rightarrow> dhcp_opts \<Rightarrow> dhcp_opts" where
  "tlv_options (c # l # d) ops =
     (if c = 0 then tlv_options (l # d) ops
      else if c = 255 then ops
      else if length d < unat l then ops
      else tlv_options (drop (unat l) d) (apply_option c (take (unat l) d) ops))"
| "tlv_options _ ops = ops"

definition opts_ok :: "dhcp_opts \<Rightarrow> bool" where
  "opts_ok ops \<longleftrightarrow> length (server_id ops) = 4 \<and> length (router ops) = 4 \<and> length (netmask ops) = 4 \<and> length (dns ops) = 4"

lemma apply_option_ok: "opts_ok ops \<Longrightarrow> opts_ok (apply_option c d ops)"
  by (auto simp: apply_option_def opts_ok_def)

lemma tlv_options_ok: "opts_ok ops \<Longrightarrow> opts_ok (tlv_options d ops)"
  by (induction d ops rule: tlv_options.induct) (auto simp: apply_option_ok)

lemma no_opts_ok: "opts_ok no_opts"
  by (simp add: opts_ok_def no_opts_def)

lemma read_option_eq:
  assumes "p + olen \<le> length frame"
  shows "read_option frame p code olen ops = Some (apply_option code (segm frame p olen) ops)"
proof -
  have "take 4 (segm frame p olen) = segm frame p 4" if "4 \<le> olen"
    using that by (simp add: segm_def min_def)
  moreover have "hd (segm frame p olen) = frame ! p" if "1 \<le> olen"
    using that assms by (simp add: segm_def hd_drop_conv_nth)
  moreover have "segm frame p olen = [] \<longleftrightarrow> olen = 0" using assms by (auto simp: segm_def)
  ultimately show ?thesis
    using assms by (auto simp: read_option_def apply_option_def)
qed

lemma segm_Cons:
  assumes "i < length buf" "0 < n"
  shows "segm buf i n = buf ! i # segm buf (i + 1) (n - 1)"
  using assms by (cases n) (simp_all add: segm_def Cons_nth_drop_Suc [symmetric])

lemma parse_options_eq:
  "bp + bp_len \<le> length frame \<Longrightarrow>
   parse_options frame bp bp_len i ops = Some (tlv_options (segm frame (bp + i) (bp_len - i)) ops)"
proof (induction frame bp bp_len i ops rule: parse_options.induct)
  case (1 frame bp bp_len i ops)
  show ?case
  proof (cases "i < bp_len")
    case False
    then show ?thesis by (subst parse_options.simps) (simp add: segm_def)
  next
    case i: True
    define c where "c = frame ! (bp + i)"
    have rd: "rd frame (bp + i) = Some c" using i 1(3) by (simp add: c_def)
    have g: "segm frame (bp + i) (bp_len - i) = c # segm frame (bp + i + 1) (bp_len - i - 1)"
      using i 1(3) by (subst segm_Cons) (simp_all add: c_def)
    show ?thesis
    proof (cases "i + 1 < bp_len")
      case False
      then have "segm frame (bp + i + 1) (bp_len - i - 1) = []" by (simp add: segm_def)
      with False i rd g show ?thesis
        using 1(1) [OF i rd] 1(3) by (subst parse_options.simps) (auto simp: segm_def)
    next
      case j: True
      define l where "l = frame ! (bp + (i + 1))"
      have rl: "rd frame (bp + (i + 1)) = Some l" using j 1(3) by (simp add: l_def)
      have g1: "segm frame (bp + i + 1) (bp_len - i - 1) = l # segm frame (bp + (i + 2)) (bp_len - (i + 2))"
        using j 1(3) by (subst segm_Cons) (simp_all add: l_def numeral_2_eq_2)
      have len: "length (segm frame (bp + (i + 2)) (bp_len - (i + 2))) = bp_len - (i + 2)" using 1(3) by simp
      show ?thesis
      proof (cases "c = 0 \<or> c = 255 \<or> bp_len < i + 2 + unat l")
        case True
        with 1(1) [OF i rd] 1(3) i j rd rl g g1 len show ?thesis
          by (subst parse_options.simps) (auto simp: add.assoc)
      next
        case False
        have le: "unat l \<le> bp_len - (i + 2)" using False by linarith
        have t: "take (unat l) (segm frame (bp + (i + 2)) (bp_len - (i + 2))) = segm frame (bp + (i + 2)) (unat l)"
          and d: "drop (unat l) (segm frame (bp + (i + 2)) (bp_len - (i + 2))) =
                  segm frame (bp + (i + 2 + unat l)) (bp_len - (i + 2 + unat l))"
          using le by (simp_all add: segm_def drop_take min_absorb1 add.commute add.left_commute)
        have ro: "read_option frame (bp + (i + 2)) c (unat l) ops =
            Some (apply_option c (segm frame (bp + (i + 2)) (unat l)) ops)"
          using False 1(3) by (intro read_option_eq) simp
        show ?thesis
          using 1(2) [OF i rd _ _ _ rl _ ro] False le 1(3) i j rd rl ro g g1 len t d
          by (subst parse_options.simps) simp
      qed
    qed
  qed
qed

lemma decode_total:
  assumes "len \<le> length frame"
  shows "\<exists>m. dhcp_decode frame len xid = Some m \<and>
    (\<forall>yiaddr ops. m = Some (yiaddr, ops) \<longrightarrow> length yiaddr = 4 \<and> opts_ok ops \<and>
      (\<exists>bp. bp + 240 \<le> len \<and> be32 (segm frame (bp + 4) 4) = xid \<and> yiaddr = segm frame (bp + 16) 4 \<and>
         segm frame (bp + 236) 4 = [0x63, 0x82, 0x53, 0x63] \<and>
         ops = tlv_options (segm frame (bp + 240) (len - (bp + 240))) no_opts))"
proof (cases "len < 14 + 20 + 8 + 240 + 4")
  case True
  then show ?thesis by (simp add: dhcp_decode_def)
next
  case False
  define ihl where "ihl = unat (frame ! 14 AND 0x0F) * 4"
  define bp where "bp = 14 + ihl + 8"
  have ihl: "ihl \<le> 60" unfolding ihl_def by (rule ihl_le)
  show ?thesis
  proof (cases "len < bp + 240")
    case True
    then show ?thesis
      using False ihl assms unfolding dhcp_decode_def
      by (simp add: Let_def ihl_def [symmetric] bp_def)
  next
    case bp: False
    then have p: "parse_options frame bp (len - bp) 240 no_opts =
        Some (tlv_options (segm frame (bp + 240) (len - (bp + 240))) no_opts)"
      using assms by (subst parse_options_eq) simp_all
    have e: "dhcp_decode frame len xid =
      (if segm frame 12 2 \<noteq> [0x08, 0x00] \<or> drop_bit 4 (frame ! 14) \<noteq> 4 \<or> frame ! 23 \<noteq> 17 \<or>
          be16 (segm frame (14 + ihl) 4 ! 0) (segm frame (14 + ihl) 4 ! 1) \<noteq> 67 \<or>
          be16 (segm frame (14 + ihl) 4 ! 2) (segm frame (14 + ihl) 4 ! 3) \<noteq> 68 \<or>
          be32 (segm frame (bp + 4) 4) \<noteq> xid \<or> segm frame (bp + 236) 4 \<noteq> [0x63, 0x82, 0x53, 0x63]
       then Some None
       else Some (Some (segm frame (bp + 16) 4, tlv_options (segm frame (bp + 240) (len - (bp + 240))) no_opts)))"
      using False bp ihl assms p unfolding dhcp_decode_def
      by (simp add: Let_def ihl_def [symmetric] bp_def [symmetric])
    show ?thesis
      unfolding e using bp assms tlv_options_ok [OF no_opts_ok] by (auto intro!: exI [of _ bp])
  qed
qed

definition dhcp_ok :: "dhcp \<Rightarrow> bool" where
  "dhcp_ok s \<longleftrightarrow> length (dh_my_mac s) = 6 \<and> length (dh_my_ip s) = 4 \<and> length (dh_server_ip s) = 4 \<and>
     length (tx_frame s) = 600"

section \<open>The frames the client builds\<close>

text \<open>The option bytes of a message.\<close>

definition option_bytes :: "u8 \<Rightarrow> bytes option \<Rightarrow> bytes option \<Rightarrow> bytes \<Rightarrow> bytes" where
  "option_bytes m req srv mac =
     [53, 1, m] @ [61, 7, 1] @ mac @ (case req of None \<Rightarrow> [] | Some ip \<Rightarrow> [50, 4] @ ip) @
     (case srv of None \<Rightarrow> [] | Some ip \<Rightarrow> [54, 4] @ ip) @ [55, 5, 1, 3, 6, 15, 51] @ [255]"

definition addr_ok :: "bytes option \<Rightarrow> bool" where
  "addr_ok a \<longleftrightarrow> (case a of None \<Rightarrow> True | Some ip \<Rightarrow> length ip = 4)"

lemma put_bytes_append: "put_bytes (put_bytes buf i xs) (i + length xs) ys = put_bytes buf i (xs @ ys)"
  by (induction xs arbitrary: buf i) (auto simp flip: add_Suc)

lemma put_option_data_eq:
  assumes "282 + length xs + 2 + length src \<le> length tx" "length src < 256"
  shows "put_option_data (282 + length xs) c src (put_bytes tx 282 xs) =
    Some (282 + length (xs @ [c, of_nat (length src)] @ src), put_bytes tx 282 (xs @ [c, of_nat (length src)] @ src))"
  using assms put_bytes_append [of tx 282 xs "[c, of_nat (length src)]"]
    put_bytes_append [of tx 282 "xs @ [c, of_nat (length src)]" src]
  by (simp add: put_option_data_def add.assoc del: put_bytes.simps)

lemma put_option_opt_eq:
  assumes "282 + length xs + 6 \<le> length tx" "addr_ok a"
  shows "put_option_opt (282 + length xs) c a (put_bytes tx 282 xs) =
    (let ys = xs @ (case a of None \<Rightarrow> [] | Some ip \<Rightarrow> [c, 4] @ ip) in Some (282 + length ys, put_bytes tx 282 ys))"
  using assms put_option_data_eq [of xs _ tx c]
  by (auto simp: put_option_opt_def addr_ok_def Let_def split: option.splits simp del: put_bytes.simps)

lemma build_options_eq:
  assumes "length tx = 600" "length mac = 6" "addr_ok req" "addr_ok srv"
  shows "build_options m req srv mac tx =
    Some (282 + length (option_bytes m req srv mac), put_bytes tx 282 (option_bytes m req srv mac))"
proof -
  define x1 where "x1 = [53, 1, m]"
  define x2 where "x2 = x1 @ [61, 7] @ (1 # mac)"
  define x3 where "x3 = x2 @ (case req of None \<Rightarrow> [] | Some ip \<Rightarrow> [50, 4] @ ip)"
  define x4 where "x4 = x3 @ (case srv of None \<Rightarrow> [] | Some ip \<Rightarrow> [54, 4] @ ip)"
  define x5 where "x5 = x4 @ [55, 5] @ [1, 3, 6, 15, 51]"
  have l: "length x1 = 3" "length x2 = 12" "length x3 \<le> 18" "length x4 \<le> 24" "length x5 \<le> 31"
    using assms by (auto simp: x1_def x2_def x3_def x4_def x5_def addr_ok_def split: option.splits)
  have 1: "put_option_byte (42 + 240) 53 m tx = Some (282 + length x1, put_bytes tx 282 x1)"
    using assms by (simp add: put_option_byte_def x1_def del: put_bytes.simps)
  have 2: "put_option_data (282 + length x1) 61 (1 # mac) (put_bytes tx 282 x1) = Some (282 + length x2, put_bytes tx 282 x2)"
    using put_option_data_eq [of x1 "1 # mac" tx 61] assms l by (simp add: x2_def del: put_bytes.simps)
  have 3: "put_option_opt (282 + length x2) 50 req (put_bytes tx 282 x2) = Some (282 + length x3, put_bytes tx 282 x3)"
    using put_option_opt_eq [of x2 tx req 50] assms l by (simp add: x3_def Let_def)
  have 4: "put_option_opt (282 + length x3) 54 srv (put_bytes tx 282 x3) = Some (282 + length x4, put_bytes tx 282 x4)"
    using put_option_opt_eq [of x3 tx srv 54] assms l by (simp add: x4_def Let_def)
  have 5: "put_option_data (282 + length x4) 55 [1, 3, 6, 15, 51] (put_bytes tx 282 x4) = Some (282 + length x5, put_bytes tx 282 x5)"
    using put_option_data_eq [of x4 "[1, 3, 6, 15, 51]" tx 55] assms l by (simp add: x5_def del: put_bytes.simps)
  have 6: "wr_seg (put_bytes tx 282 x5) (282 + length x5) [255] = Some (put_bytes tx 282 (x5 @ [255]))"
    using assms l by (simp only: put_bytes_append [symmetric] wr_seg_in length_put_bytes) simp
  have x: "option_bytes m req srv mac = x5 @ [255]"
    by (simp add: option_bytes_def x1_def x2_def x3_def x4_def x5_def)
  show ?thesis
    unfolding build_options_def 1 x by (simp only: bind.bind_lunit prod.case 2 3 4 5 6) simp
qed

lemma unat_udp_sum:
  assumes "length src = 4" "length dst = 4" "length udp \<le> 65535"
  shows "unat (udp_sum src dst udp) = ones (wsum 256 1 src + wsum 256 1 dst + 17 + length udp + wsum 256 1 udp)"
  using unat_pseudo_sum [OF assms, of 17] by (simp add: udp_sum_def)

lemma udp_fill:
  assumes "length src = 4" "length dst = 4" "length udp \<le> 65535" "even k" "k + 1 < length udp"
    and "udp ! k = 0" "udp ! (k + 1) = 0" and "c = udp_checksum src dst udp"
  shows "udp_sum src dst (udp[k := hi8 c, k + 1 := lo8 c]) = 0xFFFF"
proof -
  define W where "W = wsum 256 1 src + wsum 256 1 dst + 17 + length udp + wsum 256 1 udp"
  have s: "unat (udp_sum src dst udp) = ones W" using unat_udp_sum [OF assms(1-3)] by (simp add: W_def)
  have cs: "unat (ucast (NOT (udp_sum src dst udp) AND 0xFFFF) :: u16) = 65535 - ones W"
    using s ones_le [of W] unat_complement [of "udp_sum src dst udp"] by simp
  obtain q where q: "W = ones W + 65535 * q" using ones_split by blast
  have "\<exists>r. W + unat c = 65535 * (r + 1)"
  proof (cases "ones W = 65535")
    case True
    then have "c = 0xFFFF" using cs unfolding assms(8) udp_checksum_def Let_def by (simp add: unat_eq_0)
    then have "unat c = 65535" by simp
    moreover have "W = 65535 + 65535 * q" using q unfolding True .
    ultimately have "W + unat c = 65535 * (q + 1 + 1)" by simp
    then show ?thesis by blast
  next
    case False
    then have nz: "65535 - ones W \<noteq> 0" using ones_le [of W] by simp
    define cs' :: u16 where "cs' = ucast (NOT (udp_sum src dst udp) AND 0xFFFF)"
    have "cs' \<noteq> 0" using nz cs unfolding cs'_def [symmetric] by (metis unat_0)
    then have "unat c = 65535 - ones W"
      using cs unfolding assms(8) udp_checksum_def Let_def cs'_def [symmetric] by simp
    with complement_sum [OF q ones_le] have "W + unat c = 65535 * (q + 1)" by (simp only:)
    then show ?thesis by blast
  qed
  then obtain r where r: "W + unat c = 65535 * (r + 1)" by blast
  have "wsum 256 1 (udp[k := hi8 c, k + 1 := lo8 c]) = wsum 256 1 udp + unat c"
    using wsum_put [OF assms(4-7)] inet.stored [of c] by simp
  then have "unat (udp_sum src dst (udp[k := hi8 c, k + 1 := lo8 c])) = ones (W + unat c)"
    using unat_udp_sum [OF assms(1,2), of "udp[k := hi8 c, k + 1 := lo8 c]"] assms(3) by (simp add: W_def add.assoc)
  also have "\<dots> = 65535" using r by (intro ones_full [of _ "r + 1"]) simp_all
  finally show ?thesis by (simp add: u64_eq_iff_unat)
qed

lemma build_bootp_spec:
  assumes "dhcp_ok s"
  shows "\<exists>tx. build_bootp s = Some tx \<and> length tx = 600 \<and> segm tx 0 6 = replicate 6 0xFF \<and>
    segm tx 6 6 = dh_my_mac s \<and> segm tx 12 2 = [8, 0] \<and> segm tx 26 4 = [0, 0, 0, 0] \<and>
    segm tx 46 4 = [ucast (drop_bit 24 (dh_xid s)), ucast (drop_bit 16 (dh_xid s)), ucast (drop_bit 8 (dh_xid s)), ucast (dh_xid s)] \<and>
    segm tx 70 6 = dh_my_mac s \<and> segm tx 278 4 = [0x63, 0x82, 0x53, 0x63]"
proof -
  have len: "length (tx_frame s) = 600" "length (dh_my_mac s) = 6" using assms by (simp_all add: dhcp_ok_def)
  define x where "x = [1, 1, 6, 0, ucast (drop_bit 24 (dh_xid s)), ucast (drop_bit 16 (dh_xid s)),
                         ucast (drop_bit 8 (dh_xid s)), ucast (dh_xid s), 0, 0, 0x80, 0x00 :: u8]"
  define t0 where "t0 = put_bytes (tx_frame s) 0 (replicate 400 0)"
  define tx where "tx = put_bytes (put_bytes (put_bytes (put_bytes (put_bytes (put_bytes t0
     0 (replicate 6 0xFF)) 6 (dh_my_mac s)) 12 [8, 0]) 42 x) 70 (dh_my_mac s)) 278 [0x63, 0x82, 0x53, 0x63]"
  have lx: "length x = 12" by (simp add: x_def)
  have l0: "length t0 = 600" using len by (simp add: t0_def)
  have b: "build_bootp s = Some tx"
    using len lx unfolding build_bootp_def x_def [symmetric] by (simp add: tx_def t0_def del: put_bytes.simps)
  have z: "segm t0 26 4 = [0, 0, 0, 0]"
  proof -
    have "segm t0 26 4 = segm (segm t0 0 400) 26 4" by (simp add: segm_segm)
    also have "segm t0 0 400 = replicate 400 0" unfolding t0_def using len by (intro segm_put_same) simp_all
    finally show ?thesis by (simp add: segm_def numeral_eq_Suc)
  qed
  have "segm tx 46 4 = segm (segm tx 42 12) 4 4" by (simp add: segm_segm)
  also have "segm tx 42 12 = x" unfolding tx_def using l0 len lx by (simp add: segm_simps del: put_bytes.simps)
  finally have "segm tx 46 4 = [ucast (drop_bit 24 (dh_xid s)), ucast (drop_bit 16 (dh_xid s)), ucast (drop_bit 8 (dh_xid s)), ucast (dh_xid s)]"
    by (simp add: x_def segm_def)
  moreover have "length tx = 600" using l0 by (simp add: tx_def)
  moreover have "segm tx 0 6 = replicate 6 0xFF" "segm tx 6 6 = dh_my_mac s" "segm tx 12 2 = [8, 0]" "segm tx 26 4 = [0, 0, 0, 0]"
    "segm tx 70 6 = dh_my_mac s" "segm tx 278 4 = [0x63, 0x82, 0x53, 0x63]"
    unfolding tx_def using l0 len lx z by (simp_all add: segm_simps del: put_bytes.simps)
  ultimately show ?thesis using b by blast
qed

lemma build_headers_spec:
  assumes len: "length tx = 600" and n: "8 \<le> n" "n \<le> 500" and z: "segm tx 26 4 = [0, 0, 0, 0]"
  shows "\<exists>t. build_headers n tx = Some t \<and> length t = 600 \<and>
    (\<forall>i k. 42 \<le> i \<or> i + k \<le> 14 \<longrightarrow> segm t i k = segm tx i k) \<and>
    segm t 14 10 = [0x45, 0, of_nat ((20 + n) div 256), of_nat ((20 + n) mod 256), 0, 0, 0, 0, 64, 17] \<and>
    segm t 26 4 = [0, 0, 0, 0] \<and> segm t 30 4 = [255, 255, 255, 255] \<and>
    segm t 34 6 = [0, 68, 0, 67, of_nat (n div 256), of_nat (n mod 256)] \<and>
    ip_checksum (segm t 14 20) = 0 \<and> udp_sum [0, 0, 0, 0] [255, 255, 255, 255] (segm t 34 n) = 0xFFFF"
proof -
  define a where "a = [0, 68, 0, 67, of_nat (n div 256), of_nat (n mod 256), 0, 0 :: u8]"
  define b where "b = [0x45, 0, of_nat ((20 + n) div 256), of_nat ((20 + n) mod 256), 0, 0, 0, 0, 64, 17, 0, 0 :: u8]"
  have lab: "length a = 8" "length b = 12" by (simp_all add: a_def b_def)
  define t3 where "t3 = put_bytes (put_bytes (put_bytes tx 34 a) 14 b) 30 [255, 255, 255, 255]"
  define c1 where "c1 = ip_checksum (segm t3 14 20)"
  define t4 where "t4 = put_bytes t3 24 [hi8 c1, lo8 c1]"
  define c2 where "c2 = udp_checksum [0, 0, 0, 0] [255, 255, 255, 255] (segm t4 34 n)"
  define t5 where "t5 = put_bytes t4 40 [hi8 c2, lo8 c2]"
  have l: "length t3 = 600" "length t4 = 600" "length t5 = 600"
    using len by (simp_all add: t3_def t4_def t5_def del: put_bytes.simps)
  have h: "build_headers n tx = Some t5"
    using len lab l n unfolding build_headers_def a_def [symmetric] b_def [symmetric] Let_def
    by (simp add: t3_def t4_def t5_def c1_def c2_def del: put_bytes.simps)
  have keep: "segm t5 i k = segm tx i k" if "42 \<le> i \<or> i + k \<le> 14" for i k
    using that lab unfolding t5_def t4_def t3_def by (auto simp: segm_put_other simp del: put_bytes.simps)
  have f3: "segm t3 14 12 = b" "segm t3 30 4 = [255, 255, 255, 255]" "segm t3 26 4 = [0, 0, 0, 0]" "segm t3 34 8 = a"
    using len lab z unfolding t3_def by (simp_all add: segm_simps del: put_bytes.simps)
  have b5: "segm t5 14 10 = [0x45, 0, of_nat ((20 + n) div 256), of_nat ((20 + n) mod 256), 0, 0, 0, 0, 64, 17]"
  proof -
    have "segm t5 14 10 = segm (segm t3 14 12) 0 10"
      unfolding t5_def t4_def by (simp add: segm_put_other segm_segm del: put_bytes.simps)
    then show ?thesis unfolding f3 by (simp add: b_def segm_def)
  qed
  have a5: "segm t5 34 6 = [0, 68, 0, 67, of_nat (n div 256), of_nat (n mod 256)]"
  proof -
    have "segm t5 34 6 = segm (segm t3 34 8) 0 6"
      unfolding t5_def t4_def by (simp add: segm_put_other segm_segm del: put_bytes.simps)
    then show ?thesis unfolding f3 by (simp add: a_def segm_def)
  qed
  have ips: "segm t5 26 4 = [0, 0, 0, 0]" "segm t5 30 4 = [255, 255, 255, 255]"
    using f3 unfolding t5_def t4_def by (simp_all add: segm_put_other del: put_bytes.simps)
  have zero: "segm t3 14 20 ! 10 = 0" "segm t3 14 20 ! 11 = 0" "segm t4 34 n ! 6 = 0" "segm t4 34 n ! 7 = 0"
    using len l lab n by (simp_all add: nth_segm t3_def t4_def nth_put_bytes a_def b_def del: put_bytes.simps)
  have "ip_checksum ((segm t3 14 20)[10 := hi8 c1, 10 + 1 := lo8 c1]) = 0"
    unfolding c1_def using zero l by (intro inet.fill_verifies) simp_all
  moreover have "segm t5 14 20 = (segm t3 14 20)[10 := hi8 c1, 10 + 1 := lo8 c1]"
    unfolding t5_def t4_def using l by (subst segm_put_other, simp, subst segm_put_within) simp_all
  moreover have "udp_sum [0, 0, 0, 0] [255, 255, 255, 255] ((segm t4 34 n)[6 := hi8 c2, 6 + 1 := lo8 c2]) = 0xFFFF"
    using zero l n c2_def by (intro udp_fill) simp_all
  moreover have "segm t5 34 n = (segm t4 34 n)[6 := hi8 c2, 6 + 1 := lo8 c2]"
    unfolding t5_def using l n by (subst segm_put_within) simp_all
  ultimately show ?thesis using h l keep a5 b5 ips by (intro exI [of _ t5]) simp
qed

lemma be32_xid:
  assumes "drop_bit 32 x = 0"
  shows "be32 [ucast (drop_bit 24 x), ucast (drop_bit 16 x), ucast (drop_bit 8 x), ucast (x :: u64)] = x"
proof -
  have b: "n < 32" if "bit x n" for n
  proof (rule ccontr)
    assume "\<not> n < 32"
    then have "bit (drop_bit 32 x) (n - 32)" using that by (simp add: bit_drop_bit_eq)
    with assms show False by simp
  qed
  show ?thesis
  proof (rule bit_word_eqI)
    fix n :: nat
    consider "n < 8" | "8 \<le> n" "n < 16" | "16 \<le> n" "n < 24" | "24 \<le> n" "n < 32" | "32 \<le> n" by linarith
    then show "bit (be32 [ucast (drop_bit 24 x), ucast (drop_bit 16 x), ucast (drop_bit 8 x), ucast x]) n = bit x n"
      using b [of n] by cases (auto simp: be32_def bit_simps)
  qed
qed

lemma of_nat_bytes: "n < 65536 \<Longrightarrow> unat (be16 (of_nat (n div 256)) (of_nat (n mod 256))) = n"
  by (simp add: be16_def unat_pair unat_of_nat take_bit_nat_eq_self less_mult_imp_div_less)

lemma build_dhcp_spec:
  assumes "dhcp_ok s" "addr_ok req" "addr_ok srv"
  shows "\<exists>t n. build_dhcp m req srv s = Some (282 + n, s\<lparr>tx_frame := t\<rparr>) \<and> length t = 600 \<and>
    n = length (option_bytes m req srv (dh_my_mac s)) \<and>
    segm t 0 6 = replicate 6 0xFF \<and> segm t 6 6 = dh_my_mac s \<and> segm t 12 2 = [8, 0] \<and>
    segm t 14 10 = [0x45, 0, of_nat ((268 + n) div 256), of_nat ((268 + n) mod 256), 0, 0, 0, 0, 64, 17] \<and>
    segm t 26 4 = [0, 0, 0, 0] \<and> segm t 30 4 = [255, 255, 255, 255] \<and>
    segm t 34 6 = [0, 68, 0, 67, of_nat ((248 + n) div 256), of_nat ((248 + n) mod 256)] \<and>
    ip_checksum (segm t 14 20) = 0 \<and> udp_sum [0, 0, 0, 0] [255, 255, 255, 255] (segm t 34 (248 + n)) = 0xFFFF \<and>
    segm t 46 4 = [ucast (drop_bit 24 (dh_xid s)), ucast (drop_bit 16 (dh_xid s)), ucast (drop_bit 8 (dh_xid s)), ucast (dh_xid s)] \<and>
    segm t 70 6 = dh_my_mac s \<and> segm t 278 4 = [0x63, 0x82, 0x53, 0x63] \<and>
    segm t 282 n = option_bytes m req srv (dh_my_mac s)"
proof -
  define op where "op = option_bytes m req srv (dh_my_mac s)"
  have mac: "length (dh_my_mac s) = 6" using assms(1) by (simp add: dhcp_ok_def)
  have n: "length op \<le> 32" using assms(2,3) mac by (auto simp: op_def option_bytes_def addr_ok_def split: option.splits)
  obtain t0 where t0: "build_bootp s = Some t0" "length t0 = 600" "segm t0 0 6 = replicate 6 0xFF"
    "segm t0 6 6 = dh_my_mac s" "segm t0 12 2 = [8, 0]" "segm t0 26 4 = [0, 0, 0, 0]"
    "segm t0 46 4 = [ucast (drop_bit 24 (dh_xid s)), ucast (drop_bit 16 (dh_xid s)), ucast (drop_bit 8 (dh_xid s)), ucast (dh_xid s)]"
    "segm t0 70 6 = dh_my_mac s" "segm t0 278 4 = [0x63, 0x82, 0x53, 0x63]"
    using build_bootp_spec [OF assms(1)] by blast
  define t1 where "t1 = put_bytes t0 282 op"
  have o: "build_options m req srv (dh_my_mac s) t0 = Some (282 + length op, t1)"
    using build_options_eq [OF t0(2) mac assms(2,3)] by (simp add: op_def t1_def)
  have l1: "length t1 = 600" "segm t1 26 4 = [0, 0, 0, 0]" using t0 by (simp_all add: t1_def segm_put_other)
  obtain t where t: "build_headers (248 + length op) t1 = Some t" "length t = 600"
    and keep: "\<forall>i k. 42 \<le> i \<or> i + k \<le> 14 \<longrightarrow> segm t i k = segm t1 i k"
    and h: "segm t 14 10 = [0x45, 0, of_nat ((20 + (248 + length op)) div 256), of_nat ((20 + (248 + length op)) mod 256), 0, 0, 0, 0, 64, 17]"
    "segm t 26 4 = [0, 0, 0, 0]" "segm t 30 4 = [255, 255, 255, 255]"
    "segm t 34 6 = [0, 68, 0, 67, of_nat ((248 + length op) div 256), of_nat ((248 + length op) mod 256)]"
    "ip_checksum (segm t 14 20) = 0" "udp_sum [0, 0, 0, 0] [255, 255, 255, 255] (segm t 34 (248 + length op)) = 0xFFFF"
    using build_headers_spec [OF l1(1) _ _ l1(2), of "248 + length op"] n by auto
  have b: "build_dhcp m req srv s = Some (282 + length op, s\<lparr>tx_frame := t\<rparr>)"
    using t0(1) o t(1) mac by (simp add: build_dhcp_def)
  have k: "segm t 0 6 = replicate 6 0xFF" "segm t 6 6 = dh_my_mac s" "segm t 12 2 = [8, 0]"
    "segm t 46 4 = [ucast (drop_bit 24 (dh_xid s)), ucast (drop_bit 16 (dh_xid s)), ucast (drop_bit 8 (dh_xid s)), ucast (dh_xid s)]"
    "segm t 70 6 = dh_my_mac s" "segm t 278 4 = [0x63, 0x82, 0x53, 0x63]"
    using keep t0 by (simp_all add: t1_def segm_put_other)
  have "segm t 282 (length op) = op" using keep t0(2) n by (simp add: t1_def segm_put_same)
  then have e: "build_dhcp m req srv s = Some (282 + length op, s\<lparr>tx_frame := t\<rparr>)" "segm t 282 (length op) = op"
    using b by simp_all
  show ?thesis
    by (rule exI [of _ t], rule exI [of _ "length op"]) (simp add: e h [simplified] k t(2) op_def [symmetric])
qed

text \<open>C34: every frame the client transmits is a well-formed DHCP message. The builder stays inside the 600-byte
  buffer and the frame it returns has matching IP and UDP length fields, a valid IP header checksum
  and a valid UDP checksum over the pseudo header, carries the transaction id and the hardware
  address, and the option parser of the client reads the message type and the server identifier
  back from it.\<close>

theorem build_dhcp_wellformed:
  assumes "dhcp_ok s" "addr_ok req" "addr_ok srv" "drop_bit 32 (dh_xid s) = 0"
  shows "\<exists>len s'. build_dhcp m req srv s = Some (len, s') \<and> len \<le> 314 \<and>
    (let f = take len (tx_frame s') in
      length f = len \<and> segm f 0 14 = replicate 6 0xFF @ dh_my_mac s @ [8, 0] \<and>
      unat (be16 (f ! 16) (f ! 17)) = len - 14 \<and> unat (be16 (f ! 38) (f ! 39)) = len - 34 \<and>
      ip_checksum (segm f 14 20) = 0 \<and> udp_sum (segm f 26 4) (segm f 30 4) (segm f 34 (len - 34)) = 0xFFFF \<and>
      be32 (segm f 46 4) = dh_xid s \<and> segm f 70 6 = dh_my_mac s \<and>
      parse_options f 42 (len - 42) 240 no_opts =
        Some (no_opts\<lparr>msg_type := unat m, server_id := (case srv of None \<Rightarrow> [0, 0, 0, 0] | Some ip \<Rightarrow> ip)\<rparr>))"
proof -
  obtain t n where b: "build_dhcp m req srv s = Some (282 + n, s\<lparr>tx_frame := t\<rparr>)" and t: "length t = 600"
    and n: "n = length (option_bytes m req srv (dh_my_mac s))"
    and f: "segm t 0 6 = replicate 6 0xFF" "segm t 6 6 = dh_my_mac s" "segm t 12 2 = [8, 0]"
    "segm t 14 10 = [0x45, 0, of_nat ((268 + n) div 256), of_nat ((268 + n) mod 256), 0, 0, 0, 0, 64, 17]"
    "segm t 26 4 = [0, 0, 0, 0]" "segm t 30 4 = [255, 255, 255, 255]"
    "segm t 34 6 = [0, 68, 0, 67, of_nat ((248 + n) div 256), of_nat ((248 + n) mod 256)]"
    "ip_checksum (segm t 14 20) = 0" "udp_sum [0, 0, 0, 0] [255, 255, 255, 255] (segm t 34 (248 + n)) = 0xFFFF"
    "segm t 46 4 = [ucast (drop_bit 24 (dh_xid s)), ucast (drop_bit 16 (dh_xid s)), ucast (drop_bit 8 (dh_xid s)), ucast (dh_xid s)]"
    "segm t 70 6 = dh_my_mac s" "segm t 278 4 = [0x63, 0x82, 0x53, 0x63]"
    "segm t 282 n = option_bytes m req srv (dh_my_mac s)"
    using build_dhcp_spec [OF assms(1-3), of m] by blast
  define f where "f = take (282 + n) t"
  have mac: "length (dh_my_mac s) = 6" using assms(1) by (simp add: dhcp_ok_def)
  have n32: "n \<le> 32" using assms(2,3) mac by (auto simp: n option_bytes_def addr_ok_def split: option.splits)
  have s: "segm f i k = segm t i k" if "i + k \<le> 282 + n" for i k using that by (simp add: f_def segm_take)
  have nth: "f ! (i + j) = segm t i k ! j" if "j < k" "i + k \<le> 282 + n" for i j k
    using that t n32 by (simp add: f_def nth_segm)
  have eth: "segm f 0 14 = replicate 6 0xFF @ dh_my_mac s @ [8, 0]"
  proof -
    have "segm f 0 14 = segm t 0 (6 + (6 + 2))" by (simp add: s)
    then show ?thesis unfolding segm_append by (simp add: f)
  qed
  have lens: "unat (be16 (f ! 16) (f ! 17)) = 282 + n - 14" "unat (be16 (f ! 38) (f ! 39)) = 282 + n - 34"
    using nth [of 2 10 14] nth [of 3 10 14] nth [of 4 6 34] nth [of 5 6 34] n32
      of_nat_bytes [of "268 + n"] of_nat_bytes [of "248 + n"] by (simp_all add: f)
  have p: "parse_options f 42 (282 + n - 42) 240 no_opts =
        Some (no_opts\<lparr>msg_type := unat m, server_id := (case srv of None \<Rightarrow> [0, 0, 0, 0] | Some ip \<Rightarrow> ip)\<rparr>)"
  proof -
    have "parse_options f 42 (282 + n - 42) 240 no_opts = Some (tlv_options (option_bytes m req srv (dh_my_mac s)) no_opts)"
      using t n32 by (subst parse_options_eq) (simp_all add: f_def [symmetric] s f, simp add: f_def)
    also have "tlv_options (option_bytes m req srv (dh_my_mac s)) no_opts =
        no_opts\<lparr>msg_type := unat m, server_id := (case srv of None \<Rightarrow> [0, 0, 0, 0] | Some ip \<Rightarrow> ip)\<rparr>"
      using mac assms(2,3)
      by (auto simp: option_bytes_def apply_option_def addr_ok_def no_opts_def drop_Cons' split: option.splits)
    finally show ?thesis .
  qed
  have "udp_sum (segm f 26 4) (segm f 30 4) (segm f 34 (282 + n - 34)) = 0xFFFF" by (simp add: s f)
  moreover have "be32 (segm f 46 4) = dh_xid s" by (simp add: s f be32_xid [OF assms(4)])
  moreover have "ip_checksum (segm f 14 20) = 0" "segm f 70 6 = dh_my_mac s" "length f = 282 + n"
    using t n32 by (simp_all add: s f) (simp add: f_def)
  ultimately show ?thesis
    using b n32 eth lens p
    by (intro exI [of _ "282 + n"] exI [of _ "s\<lparr>tx_frame := t\<rparr>"]) (simp add: f_def [symmetric])
qed

theorem build_dhcp_wellformed_witness:
  "\<exists>len s'. build_dhcp 3 (Some [192, 168, 3, 9]) (Some [192, 168, 3, 1]) dhcp_boot = Some (len, s') \<and> len \<le> 314 \<and>
     ip_checksum (segm (take len (tx_frame s')) 14 20) = 0"
proof -
  have "dhcp_ok dhcp_boot" "addr_ok (Some [192, 168, 3, 9])" "addr_ok (Some [192, 168, 3, 1])" "drop_bit 32 (dh_xid dhcp_boot) = 0"
    by (simp_all add: dhcp_ok_def dhcp_boot_def addr_ok_def) 
  from build_dhcp_wellformed [OF this, of 3] show ?thesis by (auto simp: Let_def)
qed

section \<open>The state machine\<close>

lemma dhcp_send_request_spec:
  assumes "dhcp_ok s"
  shows "\<exists>s' f. dhcp_send_request s = Some s' \<and> dhcp_ok s' \<and> dh_state s' = DHCP_REQUEST_SENT \<and>
    dh_my_ip s' = dh_my_ip s \<and> dh_server_ip s' = dh_server_ip s \<and> dh_router_ip s' = dh_router_ip s \<and>
    dh_netmask s' = dh_netmask s \<and> dh_dns_ip s' = dh_dns_ip s \<and> dh_lease_secs s' = dh_lease_secs s \<and>
    dh_xid s' = dh_xid s \<and> dh_sent s' = dh_sent s @ [f]"
proof -
  define s0 where "s0 = s\<lparr>dh_request_count := dh_request_count s + 1\<rparr>"
  have ok: "dhcp_ok s0" "addr_ok (Some (dh_my_ip s0))" "addr_ok (Some (dh_server_ip s0))"
    using assms by (simp_all add: s0_def dhcp_ok_def addr_ok_def)
  obtain t n where b: "build_dhcp 3 (Some (dh_my_ip s0)) (Some (dh_server_ip s0)) s0 = Some (282 + n, s0\<lparr>tx_frame := t\<rparr>)"
    "length t = 600"
    using build_dhcp_spec [OF ok, of 3] by blast
  then show ?thesis
    using assms by (simp add: dhcp_send_request_def s0_def [symmetric])
      (simp add: s0_def dh_puts_def dh_tx_def dhcp_ok_def)
qed

lemma dhcp_send_discover_spec:
  assumes "dhcp_ok s"
  shows "\<exists>s' f. dhcp_send_discover rc s = Some s' \<and> dhcp_ok s' \<and>
    dh_state s' = (if dh_state s = DHCP_INIT then DHCP_DISCOVER_SENT else dh_state s) \<and>
    dh_my_ip s' = dh_my_ip s \<and> dh_server_ip s' = dh_server_ip s \<and> dh_router_ip s' = dh_router_ip s \<and>
    dh_netmask s' = dh_netmask s \<and> dh_dns_ip s' = dh_dns_ip s \<and> dh_lease_secs s' = dh_lease_secs s \<and>
    dh_xid s' = dh_xid s \<and> dh_sent s' = dh_sent s @ [f]"
proof -
  define s0 where "s0 = s\<lparr>dh_discover_count := dh_discover_count s + 1\<rparr>"
  have ok: "dhcp_ok s0" "addr_ok None" using assms by (simp_all add: s0_def dhcp_ok_def addr_ok_def)
  obtain t n where b: "build_dhcp 1 None None s0 = Some (282 + n, s0\<lparr>tx_frame := t\<rparr>)" "length t = 600"
    using build_dhcp_spec [OF ok ok(2), of 1] by blast
  then show ?thesis
    using assms by (simp add: dhcp_send_discover_def s0_def [symmetric])
      (simp add: s0_def dh_puts_def dh_tx_def dhcp_ok_def)
qed

text \<open>The effect of one accepted message, as a relation on the state.\<close>

definition same_lease :: "dhcp \<Rightarrow> dhcp \<Rightarrow> bool" where
  "same_lease s s' \<longleftrightarrow> dh_server_ip s' = dh_server_ip s \<and> dh_router_ip s' = dh_router_ip s \<and>
     dh_netmask s' = dh_netmask s \<and> dh_dns_ip s' = dh_dns_ip s \<and> dh_lease_secs s' = dh_lease_secs s"

definition offer_step :: "bytes \<Rightarrow> dhcp_opts \<Rightarrow> dhcp \<Rightarrow> dhcp \<Rightarrow> bool" where
  "offer_step yiaddr ops s s' \<longleftrightarrow> msg_type ops = 2 \<and> dh_state s = DHCP_DISCOVER_SENT \<and> dh_state s' = DHCP_REQUEST_SENT \<and>
     dh_my_ip s' = yiaddr \<and> dh_server_ip s' = server_id ops \<and> dh_router_ip s' = router ops \<and>
     dh_netmask s' = netmask ops \<and> dh_dns_ip s' = dns ops \<and> dh_lease_secs s' = lease ops \<and>
     (\<exists>f. dh_sent s' = dh_sent s @ [f])"

definition ack_step :: "bytes \<Rightarrow> dhcp_opts \<Rightarrow> dhcp \<Rightarrow> dhcp \<Rightarrow> bool" where
  "ack_step yiaddr ops s s' \<longleftrightarrow> msg_type ops = 5 \<and> dh_state s = DHCP_REQUEST_SENT \<and> dh_state s' = DHCP_BOUND \<and>
     dh_my_ip s' = yiaddr \<and> same_lease s s' \<and> dh_sent s' = dh_sent s"

definition nak_step :: "dhcp_opts \<Rightarrow> dhcp \<Rightarrow> dhcp \<Rightarrow> bool" where
  "nak_step ops s s' \<longleftrightarrow> msg_type ops = 6 \<and> dh_state s' = DHCP_INIT \<and> dh_my_ip s' = dh_my_ip s \<and>
     same_lease s s' \<and> dh_sent s' = dh_sent s"

lemma dhcp_act_spec:
  assumes "dhcp_ok s" "length yiaddr = 4" "opts_ok ops"
  shows "\<exists>r s'. dhcp_act yiaddr ops s = Some (r, s') \<and> dhcp_ok s' \<and> dh_xid s' = dh_xid s \<and>
    (r = 0 \<and> s' = s \<or> r = 1 \<and> (offer_step yiaddr ops s s' \<or> ack_step yiaddr ops s s' \<or> nak_step ops s s'))"
proof (cases "msg_type ops = 2 \<and> dh_state s = DHCP_DISCOVER_SENT")
  case True
  define s1 where "s1 = dh_puts (''dhcp: OFFER '' @ puts_ip yiaddr @ '' from server '' @ puts_ip (server_id ops) @ newline)
    (s\<lparr>dh_offer_count := dh_offer_count s + 1, dh_my_ip := yiaddr, dh_server_ip := server_id ops,
       dh_router_ip := router ops, dh_netmask := netmask ops, dh_dns_ip := dns ops, dh_lease_secs := lease ops\<rparr>)"
  have "dhcp_ok s1" using assms by (simp add: s1_def dh_puts_def dhcp_ok_def opts_ok_def)
  then obtain s' f where r: "dhcp_send_request s1 = Some s'" "dhcp_ok s'" "dh_state s' = DHCP_REQUEST_SENT"
    "dh_my_ip s' = dh_my_ip s1" "dh_server_ip s' = dh_server_ip s1" "dh_router_ip s' = dh_router_ip s1"
    "dh_netmask s' = dh_netmask s1" "dh_dns_ip s' = dh_dns_ip s1" "dh_lease_secs s' = dh_lease_secs s1"
    "dh_xid s' = dh_xid s1" "dh_sent s' = dh_sent s1 @ [f]"
    using dhcp_send_request_spec by blast
  have "dhcp_act yiaddr ops s = Some (1, s')"
    using True r(1) by (simp add: dhcp_act_def s1_def)
  moreover have "dh_xid s' = dh_xid s" "offer_step yiaddr ops s s'"
    using r True by (simp_all add: offer_step_def s1_def dh_puts_def)
  ultimately show ?thesis using r(2) by blast
next
  case False
  show ?thesis
    unfolding dhcp_act_def if_not_P [OF False] using assms
    by (auto simp: dh_puts_def ack_step_def nak_step_def same_lease_def dhcp_ok_def)
qed

text \<open>C33: the DHCP receive path is memory safe and implements the client state machine. For every frame,
  whatever its contents, dhcp_handle_packet terminates and stays inside the frame and the transmit
  buffer. It either ignores the frame and leaves the state unchanged, or the frame is a message with
  the client's transaction id, and then the step is the one the state machine allows: an OFFER only
  after DISCOVER, answered with exactly one REQUEST and taking all lease data from the offer; an ACK
  only after REQUEST, which binds the address; a NAK, in any state, which returns to INIT.\<close>

theorem dhcp_packet_safe:
  assumes "dhcp_ok s" and "len \<le> length frame"
  shows "\<exists>r s'. dhcp_handle_packet frame len s = Some (r, s') \<and> dhcp_ok s' \<and>
    (r = 0 \<and> s' = s \<or>
     r = 1 \<and> (\<exists>bp yiaddr ops. bp + 240 \<le> len \<and> be32 (segm frame (bp + 4) 4) = dh_xid s \<and>
       yiaddr = segm frame (bp + 16) 4 \<and> ops = tlv_options (segm frame (bp + 240) (len - (bp + 240))) no_opts \<and>
       (offer_step yiaddr ops s s' \<or> ack_step yiaddr ops s s' \<or> nak_step ops s s')))"
proof -
  obtain m where m: "dhcp_decode frame len (dh_xid s) = Some m"
    and p: "\<And>yiaddr ops. m = Some (yiaddr, ops) \<Longrightarrow> length yiaddr = 4 \<and> opts_ok ops \<and>
      (\<exists>bp. bp + 240 \<le> len \<and> be32 (segm frame (bp + 4) 4) = dh_xid s \<and> yiaddr = segm frame (bp + 16) 4 \<and>
         segm frame (bp + 236) 4 = [0x63, 0x82, 0x53, 0x63] \<and>
         ops = tlv_options (segm frame (bp + 240) (len - (bp + 240))) no_opts)"
    using decode_total [OF assms(2), of "dh_xid s"] by blast
  show ?thesis
  proof (cases m)
    case None
    with m assms(1) show ?thesis by (simp add: dhcp_handle_packet_def)
  next
    case (Some a)
    obtain yiaddr ops where a: "a = (yiaddr, ops)" by (cases a)
    have h: "dhcp_handle_packet frame len s = dhcp_act yiaddr ops s"
      using m Some a by (simp add: dhcp_handle_packet_def)
    show ?thesis
      unfolding h using dhcp_act_spec [OF assms(1), of yiaddr ops] p [of yiaddr ops] Some a by blast
  qed
qed

text \<open>A history of the client: repeated DISCOVERs and received frames; \<open>hist\<close> holds the accepted
  messages, newest first.\<close>

inductive dhcp_run :: "dhcp \<Rightarrow> (bytes \<times> dhcp_opts) list \<Rightarrow> dhcp \<Rightarrow> bool" for s0 where
  start: "dhcp_run s0 [] s0"
| discover: "dhcp_run s0 hist s \<Longrightarrow> dhcp_send_discover rc s = Some s' \<Longrightarrow> dhcp_run s0 hist s'"
| ignored: "dhcp_run s0 hist s \<Longrightarrow> len \<le> length frame \<Longrightarrow> dhcp_handle_packet frame len s = Some (0, s') \<Longrightarrow>
    dhcp_run s0 hist s'"
| accepted: "dhcp_run s0 hist s \<Longrightarrow> len \<le> length frame \<Longrightarrow> dhcp_decode frame len (dh_xid s) = Some (Some (yiaddr, ops)) \<Longrightarrow>
    dhcp_handle_packet frame len s = Some (1, s') \<Longrightarrow> dhcp_run s0 ((yiaddr, ops) # hist) s'"

text \<open>What the state says about the accepted messages.\<close>

definition from_offer :: "dhcp \<Rightarrow> dhcp_opts \<Rightarrow> bool" where
  "from_offer s offer \<longleftrightarrow> msg_type offer = 2 \<and> dh_server_ip s = server_id offer \<and> dh_router_ip s = router offer \<and>
     dh_netmask s = netmask offer \<and> dh_dns_ip s = dns offer \<and> dh_lease_secs s = lease offer"

definition lease_inv :: "(bytes \<times> dhcp_opts) list \<Rightarrow> dhcp \<Rightarrow> bool" where
  "lease_inv hist s \<longleftrightarrow> dhcp_ok s \<and>
     (case dh_state s of
        DHCP_REQUEST_SENT \<Rightarrow> \<exists>yi offer rest. hist = (yi, offer) # rest \<and> dh_my_ip s = yi \<and> from_offer s offer
      | DHCP_BOUND \<Rightarrow> \<exists>yi ack yi' offer rest. hist = (yi, ack) # (yi', offer) # rest \<and> msg_type ack = 5 \<and>
                       dh_my_ip s = yi \<and> from_offer s offer
      | _ \<Rightarrow> True)"

lemma dhcp_packet_step:
  assumes "dhcp_ok s" "len \<le> length frame" "dhcp_handle_packet frame len s = Some (0, s')"
  shows "s' = s"
proof -
  obtain m where m: "dhcp_decode frame len (dh_xid s) = Some m"
    and p: "\<And>yiaddr ops. m = Some (yiaddr, ops) \<Longrightarrow> length yiaddr = 4 \<and> opts_ok ops"
    using decode_total [OF assms(2), of "dh_xid s"] by blast
  show ?thesis
  proof (cases m)
    case None
    with m assms(3) show ?thesis by (simp add: dhcp_handle_packet_def)
  next
    case (Some a)
    then show ?thesis
      using m assms(3) p dhcp_act_spec [OF assms(1), of "fst a" "snd a"]
      by (cases a) (auto simp: dhcp_handle_packet_def)
  qed
qed

lemma dhcp_run_lease:
  assumes "dhcp_run s0 hist s" and "dhcp_ok s0" "dh_state s0 = DHCP_INIT"
  shows "lease_inv hist s"
  using assms(1)
proof (induction rule: dhcp_run.induct)
  case start
  then show ?case using assms(2,3) by (simp add: lease_inv_def)
next
  case (discover hist s rc s')
  then have "dhcp_ok s" by (simp add: lease_inv_def)
  from dhcp_send_discover_spec [OF this, of rc] discover show ?case
    by (auto simp: lease_inv_def from_offer_def split: dhcp_state_t.splits if_splits)
next
  case (ignored hist s len frame s')
  then have "dhcp_ok s" by (simp add: lease_inv_def)
  from dhcp_packet_step [OF this ignored(2,3)] ignored show ?case by auto
next
  case (accepted hist s len frame yiaddr ops s')
  then have ok: "dhcp_ok s" by (simp add: lease_inv_def)
  have h: "dhcp_act yiaddr ops s = Some (1, s')" using accepted by (simp add: dhcp_handle_packet_def)
  have w: "length yiaddr = 4 \<and> opts_ok ops" using decode_total [OF accepted(2), of "dh_xid s"] accepted(3) by auto
  then have "dhcp_ok s'" "offer_step yiaddr ops s s' \<or> ack_step yiaddr ops s s' \<or> nak_step ops s s'"
    using dhcp_act_spec [OF ok, of yiaddr ops] h by auto
  then show ?case
    using accepted.IH
    by (auto simp: lease_inv_def offer_step_def ack_step_def nak_step_def from_offer_def same_lease_def)
qed

definition demo_mac :: bytes where "demo_mac = [2, 0, 0, 0, 0, 0]"

definition demo_client :: dhcp where "demo_client = dhcp_set_mac demo_mac dhcp_boot"

text \<open>A server message of 290 bytes with the given message type for the client above.\<close>

definition demo_reply :: "u8 \<Rightarrow> bytes" where
  "demo_reply m = replicate 12 0 @ [8, 0, 0x45] @ replicate 8 0 @ [17] @ replicate 10 0 @ [0, 67, 0, 68] @ replicate 4 0 @
     [2, 1, 6, 0, 0xC0, 0xFF, 0xEE, 0x00] @ replicate 8 0 @ [192, 168, 3, 50] @ replicate 216 0 @
     [0x63, 0x82, 0x53, 0x63] @ [53, 1, m, 255, 0, 0, 0, 0]"

lemma demo_client_ok: "dhcp_ok demo_client" "dh_state demo_client = DHCP_INIT" "dh_xid demo_client = 0xC0FFEE00"
  by (simp_all add: demo_client_def demo_mac_def dhcp_set_mac_def dhcp_boot_def dhcp_ok_def)

lemma demo_reply_decode:
  "length (demo_reply m) = 290"
  "dhcp_decode (demo_reply 2) 290 0xC0FFEE00 = Some (Some ([192, 168, 3, 50], no_opts\<lparr>msg_type := 2\<rparr>))"
  "dhcp_decode (demo_reply 5) 290 0xC0FFEE00 = Some (Some ([192, 168, 3, 50], no_opts\<lparr>msg_type := 5\<rparr>))"
    apply (simp add: demo_reply_def)
   apply code_simp
  apply code_simp
  done

lemma demo_opts_ok: "opts_ok (no_opts\<lparr>msg_type := n\<rparr>)"
  by (simp add: opts_ok_def no_opts_def)

theorem dhcp_packet_safe_witness:
  "\<exists>r s'. dhcp_handle_packet (demo_reply 2) 290 demo_client = Some (r, s') \<and> dhcp_ok s'"
  using dhcp_packet_safe [OF demo_client_ok(1), of 290 "demo_reply 2"] demo_reply_decode(1) by auto

lemma demo_bound_run:
  "\<exists>s hist. dhcp_run demo_client hist s \<and> dhcp_is_bound s"
proof -
  obtain s1 where s1: "dhcp_send_discover 0 demo_client = Some s1" "dhcp_ok s1" "dh_state s1 = DHCP_DISCOVER_SENT"
    "dh_xid s1 = 0xC0FFEE00"
    using dhcp_send_discover_spec [OF demo_client_ok(1), of 0] demo_client_ok by auto
  then have r1: "dhcp_run demo_client [] s1" by (blast intro: dhcp_run.intros)
  obtain r s2 where s2: "dhcp_act [192, 168, 3, 50] (no_opts\<lparr>msg_type := 2\<rparr>) s1 = Some (r, s2)" "dhcp_ok s2"
    "dh_xid s2 = 0xC0FFEE00"
    "r = 0 \<and> s2 = s1 \<or> r = 1 \<and> (offer_step [192, 168, 3, 50] (no_opts\<lparr>msg_type := 2\<rparr>) s1 s2 \<or>
       ack_step [192, 168, 3, 50] (no_opts\<lparr>msg_type := 2\<rparr>) s1 s2 \<or> nak_step (no_opts\<lparr>msg_type := 2\<rparr>) s1 s2)"
    using dhcp_act_spec [OF s1(2) _ demo_opts_ok, of "[192, 168, 3, 50]" 2] s1(4) by auto
  then have "r = 1" using s1(3) by (auto simp: dhcp_act_def split: bind_splits)
  with s2 s1 have st2: "dh_state s2 = DHCP_REQUEST_SENT" by (auto simp: offer_step_def ack_step_def nak_step_def)
  have "dhcp_handle_packet (demo_reply 2) 290 s1 = Some (1, s2)"
    using s1(4) s2(1) \<open>r = 1\<close> by (simp add: dhcp_handle_packet_def demo_reply_decode)
  then have r2: "dhcp_run demo_client [([192, 168, 3, 50], no_opts\<lparr>msg_type := 2\<rparr>)] s2"
    using dhcp_run.accepted [OF r1, of 290 "demo_reply 2"] s1(4) by (simp add: demo_reply_decode)
  define s3 where "s3 = snd (the (dhcp_act [192, 168, 3, 50] (no_opts\<lparr>msg_type := 5\<rparr>) s2))"
  have a3: "dhcp_act [192, 168, 3, 50] (no_opts\<lparr>msg_type := 5\<rparr>) s2 = Some (1, s3)" and st3: "dh_state s3 = DHCP_BOUND"
    using st2 by (simp_all add: s3_def dhcp_act_def dh_puts_def)
  have "dhcp_handle_packet (demo_reply 5) 290 s2 = Some (1, s3)"
    using s2(3) a3 by (simp add: dhcp_handle_packet_def demo_reply_decode)
  then have "dhcp_run demo_client [([192, 168, 3, 50], no_opts\<lparr>msg_type := 5\<rparr>), ([192, 168, 3, 50], no_opts\<lparr>msg_type := 2\<rparr>)] s3"
    using dhcp_run.accepted [OF r2, of 290 "demo_reply 5"] s2(3) by (simp add: demo_reply_decode)
  with st3 show ?thesis unfolding dhcp_is_bound_def by blast
qed

text \<open>C11: a bound lease has a proper provenance. In every history of the client from boot, however many DISCOVERs
  it sent and whatever frames arrived, when the client is bound the last two messages it accepted
  are an OFFER followed by an ACK; its address is the one in the ACK, and its server, router,
  netmask, name server and lease time are those of that OFFER.\<close>

theorem bound_lease_provenance:
  assumes "dhcp_run (dhcp_set_mac mac dhcp_boot) hist s" and "6 \<le> length mac" and "dhcp_is_bound s"
  shows "\<exists>yi ack yi' offer rest. hist = (yi, ack) # (yi', offer) # rest \<and> msg_type ack = 5 \<and> msg_type offer = 2 \<and>
    dhcp_get_ip s = yi \<and> dhcp_get_router s = router offer \<and> dhcp_get_netmask s = netmask offer \<and>
    dhcp_get_dns s = dns offer \<and> dhcp_lease_seconds s = lease offer \<and> dh_server_ip s = server_id offer"
proof -
  have "lease_inv hist s"
    using assms(2) by (intro dhcp_run_lease [OF assms(1)]) (simp_all add: dhcp_set_mac_def dhcp_boot_def dhcp_ok_def)
  then show ?thesis
    using assms(3) unfolding lease_inv_def dhcp_is_bound_def from_offer_def dhcp_get_ip_def dhcp_get_router_def
      dhcp_get_netmask_def dhcp_get_dns_def dhcp_lease_seconds_def by auto
qed

theorem bound_lease_provenance_witness:
  "\<exists>hist s. dhcp_run demo_client hist s \<and> dhcp_is_bound s \<and> 2 \<le> length hist"
proof -
  obtain s hist where h: "dhcp_run demo_client hist s" "dhcp_is_bound s" using demo_bound_run by blast
  have "6 \<le> length demo_mac" by (simp add: demo_mac_def)
  from bound_lease_provenance [OF h(1) [unfolded demo_client_def] this h(2)] have "2 \<le> length hist" by auto
  with h show ?thesis by blast
qed

end
