(* ===== verification/Fat32.thy ===== *)
theory Fat32
  imports Prelude
begin

text \<open>
  The FAT32 reader and writer of \<open>fs/fat32.c\<close>. The mounted volume is the record \<open>fat32_t\<close> with the
  two block-device function pointers as fields, as in the C struct: \<open>rd_blk\<close> gives the 512 bytes of
  a block or \<open>None\<close> on an I/O error, \<open>wr_blk\<close> the device after a write or \<open>None\<close>. Cluster numbers are
  32-bit words, block addresses 64-bit words. The static sector buffer \<open>scratch\<close> never carries data
  from one block access to the next and is the value that was read. Names are byte lists without
  their terminating zero.
\<close>

definition SD_BLOCK_SIZE :: nat where "SD_BLOCK_SIZE = 512"

definition le16 :: "bytes \<Rightarrow> nat \<Rightarrow> u32" where
  "le16 p i = ucast (p ! i) OR push_bit 8 (ucast (p ! (i + 1)))"

definition le32 :: "bytes \<Rightarrow> nat \<Rightarrow> u32" where
  "le32 p i = ucast (p ! i) OR push_bit 8 (ucast (p ! (i + 1))) OR push_bit 16 (ucast (p ! (i + 2))) OR
     push_bit 24 (ucast (p ! (i + 3)))"

record 'd fat32_t =
  bytes_per_sector :: u32
  sectors_per_cluster :: u32
  reserved_sectors :: u32
  num_fats :: u32
  sectors_per_fat :: u32
  root_cluster :: u32
  part_lba :: u64
  fat_lba :: u64
  data_lba :: u64
  rd_blk :: "u64 \<Rightarrow> 'd \<Rightarrow> bytes option"
  wr_blk :: "u64 \<Rightarrow> bytes \<Rightarrow> 'd \<Rightarrow> 'd option"

section \<open>Mounting\<close>

text \<open>The BPB fields of the boot sector \<open>b\<close>.\<close>

definition read_bpb :: "bytes \<Rightarrow> 'd fat32_t \<Rightarrow> 'd fat32_t" where
  "read_bpb b fs = fs\<lparr>bytes_per_sector := le16 b 0x0B, sectors_per_cluster := ucast (b ! 0x0D),
     reserved_sectors := le16 b 0x0E, num_fats := ucast (b ! 0x10), sectors_per_fat := le32 b 0x24,
     root_cluster := le32 b 0x2C\<rparr>"

definition fat32_finish_mount :: "'d fat32_t \<Rightarrow> 'd \<Rightarrow> int \<times> 'd fat32_t" where
  "fat32_finish_mount fs d =
     (case rd_blk fs 0 d of
        None \<Rightarrow> (-1, fs)
      | Some mbr \<Rightarrow>
          if mbr ! 510 \<noteq> 0x55 \<or> mbr ! 511 \<noteq> 0xAA then (-1, fs)
          else if mbr ! (0x1BE + 0x04) \<noteq> 0x0B \<and> mbr ! (0x1BE + 0x04) \<noteq> 0x0C then (-1, fs)
          else let fs = fs\<lparr>part_lba := ucast (le32 mbr (0x1BE + 0x08))\<rparr> in
            (case rd_blk fs (part_lba fs) d of
               None \<Rightarrow> (-1, fs)
             | Some b \<Rightarrow>
                 if b ! 510 \<noteq> 0x55 \<or> b ! 511 \<noteq> 0xAA then (-1, fs)
                 else let fs = read_bpb b fs in
                   if unat (bytes_per_sector fs) \<noteq> SD_BLOCK_SIZE then (-1, fs)
                   else if sectors_per_cluster fs = 0 then (-1, fs)
                   else if root_cluster fs < 2 then (-1, fs)
                   else let fs = fs\<lparr>fat_lba := part_lba fs + ucast (reserved_sectors fs)\<rparr> in
                     (0, fs\<lparr>data_lba := fat_lba fs + ucast (num_fats fs) * ucast (sectors_per_fat fs)\<rparr>)))"

definition fat32_mount_dev ::
  "'d fat32_t \<Rightarrow> (u64 \<Rightarrow> 'd \<Rightarrow> bytes option) option \<Rightarrow> (u64 \<Rightarrow> bytes \<Rightarrow> 'd \<Rightarrow> 'd option) \<Rightarrow> 'd \<Rightarrow> int \<times> 'd fat32_t" where
  "fat32_mount_dev fs rdf wrf d =
     (case rdf of None \<Rightarrow> (-1, fs) | Some f \<Rightarrow> fat32_finish_mount (fs\<lparr>rd_blk := f, wr_blk := wrf\<rparr>) d)"

text \<open>\<open>fat32_mount\<close> binds the two functions of the SD driver.\<close>

definition fat32_mount ::
  "(u64 \<Rightarrow> 'd \<Rightarrow> bytes option) \<Rightarrow> (u64 \<Rightarrow> bytes \<Rightarrow> 'd \<Rightarrow> 'd option) \<Rightarrow> 'd fat32_t \<Rightarrow> 'd \<Rightarrow> int \<times> 'd fat32_t" where
  "fat32_mount sd_read_block sd_write_block fs d =
     fat32_finish_mount (fs\<lparr>rd_blk := sd_read_block, wr_blk := sd_write_block\<rparr>) d"

section \<open>Clusters and FAT entries\<close>

definition cluster_to_lba :: "'d fat32_t \<Rightarrow> u32 \<Rightarrow> u64" where
  "cluster_to_lba fs cluster = data_lba fs + ucast (cluster - 2) * ucast (sectors_per_cluster fs)"

definition fat_sector :: "u32 \<Rightarrow> u64" where
  "fat_sector cluster = (ucast cluster * 4) div 512"

definition fat_off :: "u32 \<Rightarrow> nat" where
  "fat_off cluster = unat ((ucast cluster * 4 :: u64) mod 512)"

definition fat32_next_cluster :: "'d fat32_t \<Rightarrow> u32 \<Rightarrow> 'd \<Rightarrow> u32" where
  "fat32_next_cluster fs cluster d =
     (case rd_blk fs (fat_lba fs + fat_sector cluster) d of
        None \<Rightarrow> 0x0FFFFFFF
      | Some b \<Rightarrow> le32 b (fat_off cluster) AND 0x0FFFFFFF)"

text \<open>The loop test of every cluster-chain walk.\<close>

definition in_chain :: "u32 \<Rightarrow> bool" where
  "in_chain cur \<longleftrightarrow> 2 \<le> cur \<and> cur < 0x0FFFFFF8"

section \<open>Names\<close>

text \<open>The three loops of \<open>format_8_3\<close>; \<open>room\<close> is \<open>outlen - 1\<close>.\<close>

definition format_8_3 :: "bytes \<Rightarrow> nat \<Rightarrow> bytes" where
  "format_8_3 raw outlen =
     (let room = outlen - 1;
          base = take room (takeWhile (\<lambda>x. x \<noteq> 0x20) (take 8 raw));
          ext_present = (\<exists>x \<in> set (take 3 (drop 8 raw)). x \<noteq> 0x20);
          dotted = (if ext_present \<and> length base < room then base @ [0x2E] else base)
      in dotted @ take (room - length dotted) (takeWhile (\<lambda>x. x \<noteq> 0x20) (take 3 (drop 8 raw))))"

definition upcase :: "u8 \<Rightarrow> u8" where
  "upcase c = (if 97 \<le> c \<and> c \<le> 122 then c - 32 else c)"

definition pad :: "nat \<Rightarrow> bytes \<Rightarrow> bytes" where
  "pad n xs = xs @ replicate (n - length xs) 0x20"

definition name_to_8_3 :: "bytes \<Rightarrow> bytes" where
  "name_to_8_3 name =
     pad 8 (map upcase (take 8 (takeWhile (\<lambda>c. c \<noteq> 0x2E) name))) @
     pad 3 (map upcase (take 3 (drop 1 (dropWhile (\<lambda>c. c \<noteq> 0x2E) name))))"

section \<open>Reading files\<close>

text \<open>The inner loop over the sectors of one cluster; \<open>out\<close> is what has been copied so far (\<open>done\<close> is
  its length). The flag says that a read failed.\<close>

fun read_sectors :: "'d fat32_t \<Rightarrow> 'd \<Rightarrow> u64 \<Rightarrow> nat list \<Rightarrow> nat \<Rightarrow> bytes \<Rightarrow> bool \<times> bytes" where
  "read_sectors fs d base [] want out = (False, out)"
| "read_sectors fs d base (s # ss) want out =
     (if length out < want
      then (case rd_blk fs (base + of_nat s) d of
              None \<Rightarrow> (True, out)
            | Some b \<Rightarrow> read_sectors fs d base ss want (out @ take (min (want - length out) SD_BLOCK_SIZE) b))
      else (False, out))"

fun read_loop :: "'d fat32_t \<Rightarrow> 'd \<Rightarrow> nat \<Rightarrow> u32 \<Rightarrow> nat \<Rightarrow> bytes \<Rightarrow> bytes" where
  "read_loop fs d 0 cur want out = out"
| "read_loop fs d (Suc safety) cur want out =
     (if in_chain cur \<and> length out < want
      then (case read_sectors fs d (cluster_to_lba fs cur) [0..<unat (sectors_per_cluster fs)] want out of
              (True, out) \<Rightarrow> out
            | (False, out) \<Rightarrow> read_loop fs d safety (fat32_next_cluster fs cur d) want out)
      else out)"

definition fat32_read_file :: "'d fat32_t \<Rightarrow> u32 \<Rightarrow> u64 \<Rightarrow> u64 \<Rightarrow> 'd \<Rightarrow> int \<times> bytes" where
  "fat32_read_file fs first_cluster sz maxlen d =
     (if first_cluster < 2 then (0, [])
      else let out = read_loop fs d 1048576 first_cluster (unat (min sz maxlen)) []
           in (sint (of_nat (length out) :: u32), out))"

section \<open>Writing\<close>

text \<open>The four byte stores of \<open>fat_set_entry\<close>, the last one keeping the reserved top nibble.\<close>

definition fat_patch :: "bytes \<Rightarrow> nat \<Rightarrow> u32 \<Rightarrow> bytes" where
  "fat_patch b off value =
     b[off := ucast (value AND 0xFF), off + 1 := ucast (drop_bit 8 value AND 0xFF),
       off + 2 := ucast (drop_bit 16 value AND 0xFF),
       off + 3 := ucast (drop_bit 24 value AND 0x0F) OR (b ! (off + 3) AND 0xF0)]"

fun fat_set_entry_loop :: "'d fat32_t \<Rightarrow> u32 \<Rightarrow> u32 \<Rightarrow> nat list \<Rightarrow> 'd \<Rightarrow> int \<times> 'd" where
  "fat_set_entry_loop fs cluster value [] d = (0, d)"
| "fat_set_entry_loop fs cluster value (f # fats) d =
     (let sec = fat_lba fs + of_nat f * ucast (sectors_per_fat fs) + fat_sector cluster in
      (case rd_blk fs sec d of
         None \<Rightarrow> (-1, d)
       | Some b \<Rightarrow>
           (case wr_blk fs sec (fat_patch b (fat_off cluster) value) d of
              None \<Rightarrow> (-1, d)
            | Some d \<Rightarrow> fat_set_entry_loop fs cluster value fats d)))"

definition fat_set_entry :: "'d fat32_t \<Rightarrow> u32 \<Rightarrow> u32 \<Rightarrow> 'd \<Rightarrow> int \<times> 'd" where
  "fat_set_entry fs cluster value d = fat_set_entry_loop fs cluster value [0..<unat (num_fats fs)] d"

text \<open>The scan for a free cluster. The counter is a 32-bit word compared with a 64-bit bound, so a
  scan without result over more than \<open>2 ^ 32\<close> entries would not return (\<open>None\<close>).\<close>

definition fat_total :: "'d fat32_t \<Rightarrow> nat" where
  "fat_total fs = unat (sectors_per_fat fs) * (SD_BLOCK_SIZE div 4)"

partial_function (option) scan_free :: "'d fat32_t \<Rightarrow> 'd \<Rightarrow> u32 \<Rightarrow> u32 option" where
  "scan_free fs d c =
     (if unat c < fat_total fs
      then if fat32_next_cluster fs c d AND 0x0FFFFFFF = 0 then Some c else scan_free fs d (c + 1)
      else Some 0)"

definition fat_find_free :: "'d fat32_t \<Rightarrow> 'd \<Rightarrow> u32 option" where
  "fat_find_free fs d = scan_free fs d 2"

definition fat_scan_free_from :: "'d fat32_t \<Rightarrow> u32 \<Rightarrow> 'd \<Rightarrow> u32 option" where
  "fat_scan_free_from fs from d = scan_free fs d (if from < 2 then 2 else from)"

text \<open>The loop that fills the sectors of a cluster with the data, zero-padded. \<open>stop\<close> is the early
  \<open>break\<close> of \<open>fat32_write_file_full\<close>; the result carries the data that is left.\<close>

definition sector_fill :: "bytes \<Rightarrow> bytes" where
  "sector_fill src = take SD_BLOCK_SIZE src @ replicate (SD_BLOCK_SIZE - length src) 0"

fun write_sectors :: "'d fat32_t \<Rightarrow> bool \<Rightarrow> u64 \<Rightarrow> nat list \<Rightarrow> bytes \<Rightarrow> 'd \<Rightarrow> int \<times> bytes \<times> 'd" where
  "write_sectors fs stop base [] src d = (0, src, d)"
| "write_sectors fs stop base (s # ss) src d =
     (case wr_blk fs (base + of_nat s) (sector_fill src) d of
        None \<Rightarrow> (-1, src, d)
      | Some d \<Rightarrow>
          let src = drop SD_BLOCK_SIZE src in
          if stop \<and> src = [] then (0, src, d) else write_sectors fs stop base ss src d)"

text \<open>The fields of a directory entry, as the writer stores them and the reader unpacks them.\<close>

definition put_entry_ref :: "bytes \<Rightarrow> nat \<Rightarrow> u32 \<Rightarrow> u32 \<Rightarrow> bytes" where
  "put_entry_ref b off first len =
     put_bytes (put_bytes (put_bytes b (off + 20) [ucast (drop_bit 16 first), ucast (drop_bit 24 first)])
       (off + 26) [ucast first, ucast (drop_bit 8 first)])
       (off + 28) [ucast len, ucast (drop_bit 8 len), ucast (drop_bit 16 len), ucast (drop_bit 24 len)]"

definition put_entry :: "bytes \<Rightarrow> nat \<Rightarrow> bytes \<Rightarrow> u32 \<Rightarrow> u32 \<Rightarrow> bytes" where
  "put_entry b off raw first len =
     put_entry_ref (put_bytes (put_bytes (put_bytes b off (replicate 32 0)) off raw) (off + 11) [0x20]) off first len"

definition entry_offsets :: "nat list" where
  "entry_offsets = map (\<lambda>i. 32 * i) [0..<16]"

definition entry_matches :: "bytes \<Rightarrow> bytes \<Rightarrow> nat \<Rightarrow> bool" where
  "entry_matches raw b off \<longleftrightarrow> segm b off 11 = raw"

definition entry_free :: "bytes \<Rightarrow> nat \<Rightarrow> bool" where
  "entry_free b off \<longleftrightarrow> b ! off = 0x00 \<or> b ! off = 0xE5"

text \<open>A search through the sectors of a directory: the first sector and offset that satisfy \<open>P\<close>.
  \<open>Inl\<close> is a failed read.\<close>

fun search_sectors :: "'d fat32_t \<Rightarrow> (bytes \<Rightarrow> nat \<Rightarrow> bool) \<Rightarrow> u64 \<Rightarrow> nat list \<Rightarrow> 'd \<Rightarrow> unit + (u64 \<times> nat \<times> bytes) option" where
  "search_sectors fs P base [] d = Inr None"
| "search_sectors fs P base (s # ss) d =
     (case rd_blk fs (base + of_nat s) d of
        None \<Rightarrow> Inl ()
      | Some b \<Rightarrow>
          (case find (P b) entry_offsets of
             Some off \<Rightarrow> Inr (Some (base + of_nat s, off, b))
           | None \<Rightarrow> search_sectors fs P base ss d))"

fun search_dir :: "'d fat32_t \<Rightarrow> (bytes \<Rightarrow> nat \<Rightarrow> bool) \<Rightarrow> nat \<Rightarrow> u32 \<Rightarrow> 'd \<Rightarrow> unit + (u64 \<times> nat \<times> bytes) option" where
  "search_dir fs P 0 cur d = Inr None"
| "search_dir fs P (Suc safety) cur d =
     (if in_chain cur
      then (case search_sectors fs P (cluster_to_lba fs cur) [0..<unat (sectors_per_cluster fs)] d of
              Inl u \<Rightarrow> Inl u
            | Inr (Some r) \<Rightarrow> Inr (Some r)
            | Inr None \<Rightarrow> search_dir fs P safety (fat32_next_cluster fs cur d) d)
      else Inr None)"

definition fat32_write_file ::
  "'d fat32_t \<Rightarrow> u32 \<Rightarrow> bytes \<Rightarrow> bytes \<Rightarrow> 'd \<Rightarrow> (int \<times> 'd) option" where
  "fat32_write_file fs dir_cluster name buf d =
     (if unat (sectors_per_cluster fs) * SD_BLOCK_SIZE < length buf then Some (-1, d)
      else (case fat_find_free fs d of
        None \<Rightarrow> None
      | Some newc \<Rightarrow>
          Some (if newc < 2 then (-1, d)
          else (case fat_set_entry fs newc 0x0FFFFFFF d of (rc, d) \<Rightarrow>
            if rc \<noteq> 0 then (-1, d)
            else (case write_sectors fs False (cluster_to_lba fs newc) [0..<unat (sectors_per_cluster fs)] buf d of
              (rc, rest, d) \<Rightarrow>
                if rc \<noteq> 0 then (-1, d)
                else let raw = name_to_8_3 name in
                  (case search_dir fs (\<lambda>b off. entry_free b off \<or> entry_matches raw b off) 1024 dir_cluster d of
                     Inl u \<Rightarrow> (-1, d)
                   | Inr None \<Rightarrow> (-1, d)
                   | Inr (Some (sec, off, b)) \<Rightarrow>
                       (case wr_blk fs sec (put_entry b off raw newc (of_nat (length buf))) d of
                          None \<Rightarrow> (-1, d)
                        | Some d \<Rightarrow> (0, d))))))))"

section \<open>Directory listing\<close>

text \<open>What the visitor is called with: name, directory flag, size and first cluster.\<close>

record dirent =
  de_name :: bytes
  de_is_dir :: bool
  de_size :: u64
  de_first :: u32

definition entry_at :: "bytes \<Rightarrow> nat \<Rightarrow> dirent" where
  "entry_at b off = \<lparr>de_name = format_8_3 (segm b off 11) 16, de_is_dir = (b ! (off + 11) AND 0x10 \<noteq> 0),
     de_size = ucast (le32 b (off + 28)), de_first = push_bit 16 (le16 b (off + 20)) OR le16 b (off + 26)\<rparr>"

definition is_dot :: "bytes \<Rightarrow> bool" where
  "is_dot name \<longleftrightarrow> name = [0x2E] \<or> name = [0x2E, 0x2E]"

text \<open>The loop over the entries of a sector: the visited entries, and whether the end marker was met.\<close>

fun walk_entries :: "bytes \<Rightarrow> nat list \<Rightarrow> dirent list \<times> bool" where
  "walk_entries b [] = ([], False)"
| "walk_entries b (off # offs) =
     (if b ! off = 0x00 then ([], True)
      else if b ! off = 0xE5 \<or> (b ! (off + 11) AND 0x0F) = 0x0F \<or> (b ! (off + 11) AND 0x08) \<noteq> 0 \<or>
              is_dot (de_name (entry_at b off))
      then walk_entries b offs
      else (case walk_entries b offs of (es, stop) \<Rightarrow> (entry_at b off # es, stop)))"

text \<open>\<open>Some rc\<close> is a return from inside the loop.\<close>

fun walk_sectors :: "'d fat32_t \<Rightarrow> u64 \<Rightarrow> nat list \<Rightarrow> 'd \<Rightarrow> dirent list \<times> int option" where
  "walk_sectors fs base [] d = ([], None)"
| "walk_sectors fs base (s # ss) d =
     (case rd_blk fs (base + of_nat s) d of
        None \<Rightarrow> ([], Some (-1))
      | Some b \<Rightarrow>
          (case walk_entries b entry_offsets of
             (es, True) \<Rightarrow> (es, Some 0)
           | (es, False) \<Rightarrow> (case walk_sectors fs base ss d of (es', rc) \<Rightarrow> (es @ es', rc))))"

fun walk_loop :: "'d fat32_t \<Rightarrow> nat \<Rightarrow> u32 \<Rightarrow> 'd \<Rightarrow> dirent list \<times> int" where
  "walk_loop fs 0 cur d = ([], 0)"
| "walk_loop fs (Suc safety) cur d =
     (if in_chain cur
      then (case walk_sectors fs (cluster_to_lba fs cur) [0..<unat (sectors_per_cluster fs)] d of
              (es, Some rc) \<Rightarrow> (es, rc)
            | (es, None) \<Rightarrow> (case walk_loop fs safety (fat32_next_cluster fs cur d) d of (es', rc) \<Rightarrow> (es @ es', rc)))
      else ([], 0))"

definition fat32_walk_dir :: "'d fat32_t \<Rightarrow> u32 \<Rightarrow> 'd \<Rightarrow> dirent list \<times> int" where
  "fat32_walk_dir fs cluster d = walk_loop fs 1024 cluster d"

section \<open>Multi-cluster files\<close>

text \<open>Freeing the old chain of an overwritten file; the results of the FAT updates are ignored.\<close>

fun free_chain :: "'d fat32_t \<Rightarrow> nat \<Rightarrow> u32 \<Rightarrow> 'd \<Rightarrow> 'd" where
  "free_chain fs 0 c d = d"
| "free_chain fs (Suc safety) c d =
     (if in_chain c then free_chain fs safety (fat32_next_cluster fs c d) (snd (fat_set_entry fs c 0 d)) else d)"

text \<open>The allocate, link and write loop; \<open>fuel\<close> bounds its rounds (each takes a cluster above the
  last one, so \<open>fat_total\<close> rounds are enough).\<close>

fun alloc_loop ::
  "'d fat32_t \<Rightarrow> nat \<Rightarrow> u32 \<Rightarrow> u32 \<Rightarrow> u32 \<Rightarrow> bytes \<Rightarrow> 'd \<Rightarrow> (int \<times> u32 \<times> 'd) option" where
  "alloc_loop fs 0 first prev cursor src d = None"
| "alloc_loop fs (Suc fuel) first prev cursor src d =
     (case fat_scan_free_from fs cursor d of
        None \<Rightarrow> None
      | Some c \<Rightarrow>
          if sint c < 2 then Some (-1, first, d)
          else (case fat_set_entry fs c 0x0FFFFFFF d of (rc, d) \<Rightarrow>
            if rc \<noteq> 0 then Some (-1, first, d)
            else (case (if prev \<noteq> 0 then fat_set_entry fs prev c d else (0, d)) of (rc, d) \<Rightarrow>
              if rc \<noteq> 0 then Some (-1, first, d)
              else let first = (if prev \<noteq> 0 then first else c) in
                (case write_sectors fs True (cluster_to_lba fs c) [0..<unat (sectors_per_cluster fs)] src d of
                  (rc, rest, d) \<Rightarrow>
                    if rc \<noteq> 0 then Some (-1, first, d)
                    else if rest = [] then Some (0, first, d)
                    else alloc_loop fs fuel first c (c + 1) rest d))))"

definition entry_named :: "bytes \<Rightarrow> bytes \<Rightarrow> nat \<Rightarrow> bool" where
  "entry_named raw b off \<longleftrightarrow> b ! (off + 11) \<noteq> 0x0F \<and> entry_matches raw b off"

definition old_first :: "bytes \<Rightarrow> nat \<Rightarrow> u32" where
  "old_first b off = push_bit 24 (ucast (b ! (off + 21))) OR push_bit 16 (ucast (b ! (off + 20))) OR
     push_bit 8 (ucast (b ! (off + 27))) OR ucast (b ! (off + 26))"

text \<open>The last part: read the sector of the entry again, patch it and write it back.\<close>

definition commit_entry :: "'d fat32_t \<Rightarrow> bool \<Rightarrow> u64 \<Rightarrow> nat \<Rightarrow> bytes \<Rightarrow> u32 \<Rightarrow> u32 \<Rightarrow> 'd \<Rightarrow> int \<times> 'd" where
  "commit_entry fs present sec off raw first len d =
     (case rd_blk fs sec d of
        None \<Rightarrow> (-1, d)
      | Some b \<Rightarrow>
          (case wr_blk fs sec (if present then put_entry_ref b off first len else put_entry b off raw first len) d of
             None \<Rightarrow> (-1, d)
           | Some d \<Rightarrow> (0, d)))"

definition fat32_write_file_full :: "'d fat32_t \<Rightarrow> nat \<Rightarrow> bytes \<Rightarrow> bytes \<Rightarrow> 'd \<Rightarrow> (int \<times> 'd) option" where
  "fat32_write_file_full fs fuel name data d =
     (let raw = name_to_8_3 name in
      (case search_dir fs (entry_named raw) 1024 (root_cluster fs) d of
         Inl u \<Rightarrow> Some (-1, d)
       | Inr slot \<Rightarrow>
           let d = (case slot of
                      Some (sec, off, b) \<Rightarrow>
                        if 2 \<le> old_first b off then free_chain fs 1048576 (old_first b off) d else d
                    | None \<Rightarrow> d) in
           (case alloc_loop fs fuel 0 0 2 data d of
              None \<Rightarrow> None
            | Some (rc, first, d) \<Rightarrow>
                if rc \<noteq> 0 then Some (-1, d)
                else (case slot of
                  Some (sec, off, b) \<Rightarrow> Some (commit_entry fs True sec off raw first (of_nat (length data)) d)
                | None \<Rightarrow>
                    (case search_dir fs entry_free 1024 (root_cluster fs) d of
                       Inl u \<Rightarrow> Some (-1, d)
                     | Inr None \<Rightarrow> Some (-1, d)
                     | Inr (Some (sec, off, b)) \<Rightarrow>
                         Some (commit_entry fs False sec off raw first (of_nat (length data)) d))))))"

section \<open>Assumptions on the device and the volume\<close>

text \<open>A block device with invariant \<open>P\<close>: blocks have 512 bytes, and a successful write changes
  exactly its block. Both operations may fail at any time.\<close>

definition block_device :: "'d fat32_t \<Rightarrow> ('d \<Rightarrow> bool) \<Rightarrow> bool" where
  "block_device fs P \<longleftrightarrow>
     (\<forall>d l b. P d \<longrightarrow> rd_blk fs l d = Some b \<longrightarrow> length b = 512) \<and>
     (\<forall>d l b d'. P d \<longrightarrow> length b = 512 \<longrightarrow> wr_blk fs l b d = Some d' \<longrightarrow>
        P d' \<and> rd_blk fs l d' = Some b \<and> (\<forall>l'. l' \<noteq> l \<longrightarrow> rd_blk fs l' d' = rd_blk fs l' d))"

text \<open>A mounted volume: the geometry the mount code computes, without wrap-around, and a FAT whose
  cluster numbers are below the end-of-chain marks.\<close>

definition fs_ok :: "'d fat32_t \<Rightarrow> bool" where
  "fs_ok fs \<longleftrightarrow> 1 \<le> unat (sectors_per_cluster fs) \<and> unat (sectors_per_cluster fs) \<le> 255 \<and>
     1 \<le> unat (num_fats fs) \<and> unat (num_fats fs) \<le> 255 \<and>
     unat (data_lba fs) = unat (fat_lba fs) + unat (num_fats fs) * unat (sectors_per_fat fs) \<and>
     unat (data_lba fs) < 2 ^ 48 \<and> fat_total fs \<le> 0x0FFFFFF8"

lemma rd_length: "block_device fs P \<Longrightarrow> P d \<Longrightarrow> rd_blk fs l d = Some b \<Longrightarrow> length b = 512"
  unfolding block_device_def by blast

lemma wr_effect:
  assumes "block_device fs P" "P d" "length b = 512" "wr_blk fs l b d = Some d'"
  shows "P d'" "rd_blk fs l d' = Some b" "\<And>l'. l' \<noteq> l \<Longrightarrow> rd_blk fs l' d' = rd_blk fs l' d"
  using assms unfolding block_device_def by blast+

lemma unat_u8_le: "unat (b :: u8) \<le> 255"
  using unat_byte_less [of b] by simp

lemma unat_ucast_u8_32: "unat (ucast (b :: u8) :: u32) = unat b"
  using unat_u8_le [of b] by (simp add: unsigned_ucast_eq take_bit_nat_eq_self)

lemma unat_mult_ucast64: "unat (ucast (a :: u32) * ucast (b :: u32) :: u64) = unat a * unat b"
proof -
  have "unat a * unat b < 4294967296 * 4294967296"
    using unat_bound32 [of a] unat_bound32 [of b] by (intro mult_strict_mono) simp_all
  then show ?thesis by (simp add: unat_word_ariths unat_ucast_32_64)
qed

lemma unat_fat_sector: "unat (fat_sector c) = unat c div 128"
proof -
  have "unat (ucast c * 4 :: u64) = unat c * 4"
    using unat_bound32 [of c] by (simp add: unat_word_ariths unat_ucast_32_64)
  then show ?thesis by (simp add: fat_sector_def unat_div)
qed

lemma fat_off_eq: "fat_off c = 4 * (unat c mod 128)"
proof -
  have "unat (ucast c * 4 :: u64) = unat c * 4"
    using unat_bound32 [of c] by (simp add: unat_word_ariths unat_ucast_32_64)
  then have "fat_off c = (4 * unat c) mod (4 * 128)" by (simp add: fat_off_def unat_mod mult.commute)
  then show ?thesis by (simp only: mult_mod_right)
qed

lemma mount_fs_ok:
  assumes "fat32_finish_mount fs0 d = (0, fs)" and "num_fats fs \<noteq> 0" and "fat_total fs \<le> 0x0FFFFFF8"
  shows "fs_ok fs"
proof -
  have "\<exists>b x. data_lba fs = fat_lba fs + ucast (num_fats fs) * ucast (sectors_per_fat fs) \<and>
      fat_lba fs = part_lba fs + ucast (reserved_sectors fs) \<and> part_lba fs = ucast (x :: u32) \<and>
      sectors_per_cluster fs = ucast (b ! 0x0D :: u8) \<and> sectors_per_cluster fs \<noteq> 0 \<and> num_fats fs = ucast (b ! 0x10)"
    using assms(1) unfolding fat32_finish_mount_def read_bpb_def Let_def
    by (auto split: option.splits if_splits)
  then obtain b x where dl: "data_lba fs = fat_lba fs + ucast (num_fats fs) * ucast (sectors_per_fat fs)"
    and lba: "fat_lba fs = part_lba fs + ucast (reserved_sectors fs)" and part: "part_lba fs = ucast (x :: u32)"
    and spc: "sectors_per_cluster fs = ucast (b ! 0x0D :: u8)" "sectors_per_cluster fs \<noteq> 0"
    and nf: "num_fats fs = ucast (b ! 0x10 :: u8)" by blast
  have f: "unat (fat_lba fs) = unat x + unat (reserved_sectors fs)"
    unfolding lba part using unat_bound32 [of x] unat_bound32 [of "reserved_sectors fs"]
    by (simp add: unat_add64 unat_ucast_32_64)
  have n: "unat (num_fats fs) \<le> 255" unfolding nf by (simp add: unat_ucast_u8_32 unat_u8_le)
  have "unat (num_fats fs) * unat (sectors_per_fat fs) \<le> 255 * 4294967296"
    using n unat_bound32 [of "sectors_per_fat fs"] by (intro mult_le_mono) simp_all
  then have "unat (data_lba fs) = unat (fat_lba fs) + unat (num_fats fs) * unat (sectors_per_fat fs)"
    and "unat (data_lba fs) < 2 ^ 48"
    unfolding dl using f unat_bound32 [of x] unat_bound32 [of "reserved_sectors fs"]
    by (simp_all add: unat_add64 unat_mult_ucast64)
  moreover have "1 \<le> unat (sectors_per_cluster fs)" using spc(2) unat_gt_0 [of "sectors_per_cluster fs"] by linarith
  moreover have "unat (sectors_per_cluster fs) \<le> 255" unfolding spc by (simp add: unat_ucast_u8_32 unat_u8_le)
  moreover have "1 \<le> unat (num_fats fs)" using assms(2) unat_gt_0 [of "num_fats fs"] by linarith
  ultimately show ?thesis using n assms(3) by (simp add: fs_ok_def)
qed

section \<open>Reading a cluster chain\<close>

text \<open>The contents of a list of clusters, and a chain of readable clusters in the FAT.\<close>

definition sector_at :: "'d fat32_t \<Rightarrow> 'd \<Rightarrow> u64 \<Rightarrow> bytes" where
  "sector_at fs d l = (case rd_blk fs l d of Some b \<Rightarrow> b | None \<Rightarrow> [])"

definition sectors_at :: "'d fat32_t \<Rightarrow> 'd \<Rightarrow> u64 \<Rightarrow> nat list \<Rightarrow> bytes" where
  "sectors_at fs d base ss = concat (map (\<lambda>s. sector_at fs d (base + of_nat s)) ss)"

definition cluster_at :: "'d fat32_t \<Rightarrow> 'd \<Rightarrow> u32 \<Rightarrow> bytes" where
  "cluster_at fs d c = sectors_at fs d (cluster_to_lba fs c) [0..<unat (sectors_per_cluster fs)]"

definition readable :: "'d fat32_t \<Rightarrow> 'd \<Rightarrow> u32 \<Rightarrow> bool" where
  "readable fs d c \<longleftrightarrow> (\<forall>s < unat (sectors_per_cluster fs). rd_blk fs (cluster_to_lba fs c + of_nat s) d \<noteq> None)"

fun file_chain :: "'d fat32_t \<Rightarrow> 'd \<Rightarrow> u32 \<Rightarrow> u32 list \<Rightarrow> bool" where
  "file_chain fs d cur [] \<longleftrightarrow> \<not> in_chain cur"
| "file_chain fs d cur (c # cs) \<longleftrightarrow>
     cur = c \<and> in_chain c \<and> readable fs d c \<and> file_chain fs d (fat32_next_cluster fs c d) cs"

lemma read_sectors_eq:
  assumes "block_device fs P" "P d" "\<And>s. s \<in> set ss \<Longrightarrow> rd_blk fs (base + of_nat s) d \<noteq> None"
  shows "read_sectors fs d base ss want out = (False, out @ take (want - length out) (sectors_at fs d base ss))"
  using assms(3)
proof (induction ss arbitrary: out)
  case Nil
  then show ?case by (simp add: sectors_at_def)
next
  case (Cons s ss)
  obtain b where b: "rd_blk fs (base + of_nat s) d = Some b" using Cons.prems by auto
  have len: "length b = 512" using rd_length [OF assms(1,2) b] .
  have e: "sectors_at fs d base (s # ss) = b @ sectors_at fs d base ss"
    by (simp add: sectors_at_def sector_at_def b)
  show ?case
  proof (cases "length out < want")
    case True
    define out' where "out' = out @ take (min (want - length out) SD_BLOCK_SIZE) b"
    have o: "out' = out @ take (want - length out) b" using len by (simp add: out'_def SD_BLOCK_SIZE_def min_def)
    have "read_sectors fs d base (s # ss) want out = read_sectors fs d base ss want out'"
      using True b by (simp add: out'_def)
    also have "\<dots> = (False, out' @ take (want - length out') (sectors_at fs d base ss))"
      using Cons by auto
    also have "want - length out' = want - length out - 512" unfolding o using len by (simp add: min_def)
    finally show ?thesis using len by (simp add: o e)
  next
    case False
    then show ?thesis by simp
  qed
qed

lemma read_loop_eq:
  assumes "block_device fs P" "P d"
  shows "file_chain fs d cur cs \<Longrightarrow> length cs \<le> safety \<Longrightarrow>
    read_loop fs d safety cur want out = out @ take (want - length out) (concat (map (cluster_at fs d) cs))"
proof (induction cs arbitrary: cur out safety)
  case Nil
  then show ?case by (cases safety) auto
next
  case (Cons c cs)
  then obtain n where n: "safety = Suc n" by (cases safety) auto
  show ?case
  proof (cases "length out < want")
    case True
    have "read_sectors fs d (cluster_to_lba fs c) [0..<unat (sectors_per_cluster fs)] want out =
        (False, out @ take (want - length out) (cluster_at fs d c))"
      unfolding cluster_at_def using Cons.prems
      by (intro read_sectors_eq [OF assms]) (auto simp: readable_def)
    then have "read_loop fs d safety cur want out =
        read_loop fs d n (fat32_next_cluster fs c d) want (out @ take (want - length out) (cluster_at fs d c))"
      using True Cons.prems by (simp add: n)
    also have "\<dots> = (out @ take (want - length out) (cluster_at fs d c)) @
        take (want - length (out @ take (want - length out) (cluster_at fs d c))) (concat (map (cluster_at fs d) cs))"
      using Cons.prems by (intro Cons.IH) (simp_all add: n)
    also have "want - length (out @ take (want - length out) (cluster_at fs d c)) = want - length out - length (cluster_at fs d c)"
      by (simp add: min_def)
    finally show ?thesis by simp
  next
    case False
    then show ?thesis by (simp add: n)
  qed
qed

section \<open>Updating FAT entries\<close>

lemma length_fat_patch [simp]: "length (fat_patch b off v) = length b"
  by (simp add: fat_patch_def)

lemma bit_le32:
  "bit (le32 p i) k \<longleftrightarrow>
     (if k < 8 then bit (p ! i) k else if k < 16 then bit (p ! (i + 1)) (k - 8)
      else if k < 24 then bit (p ! (i + 2)) (k - 16) else k < 32 \<and> bit (p ! (i + 3)) (k - 24))"
proof -
  have "\<not> bit (x :: u8) j" if "8 \<le> j" for x j using that bit_imp_le_length [of x j] by auto
  then show ?thesis unfolding le32_def by (auto simp: bit_simps)
qed

lemma le32_patch_same:
  assumes "off + 3 < length b"
  shows "le32 (fat_patch b off v) off AND 0x0FFFFFFF = v AND 0x0FFFFFFF"
proof -
  have n: "fat_patch b off v ! off = ucast (v AND 0xFF)" "fat_patch b off v ! (off + 1) = ucast (drop_bit 8 v AND 0xFF)"
    "fat_patch b off v ! (off + 2) = ucast (drop_bit 16 v AND 0xFF)"
    "fat_patch b off v ! (off + 3) = ucast (drop_bit 24 v AND 0x0F) OR (b ! (off + 3) AND 0xF0)"
    using assms by (simp_all add: fat_patch_def nth_list_update)
  have m: "(0xFF :: u32) = mask 8" "(0x0F :: u32) = mask 4" "(0xF0 :: u8) = push_bit 4 (mask 4)" "(0x0FFFFFFF :: u32) = mask 28"
    by (simp_all add: mask_eq_exp_minus_1 push_bit_eq_mult)
  show ?thesis
  proof (rule bit_word_eqI)
    fix k :: nat
    assume "k < LENGTH(32)"
    then show "bit (le32 (fat_patch b off v) off AND 0x0FFFFFFF) k = bit (v AND 0x0FFFFFFF) k"
      unfolding m bit_and_iff bit_le32 n by (auto simp: bit_simps)
  qed
qed

lemma le32_patch_other:
  assumes "off' + 3 < off \<or> off + 3 < off'"
  shows "le32 (fat_patch b off v) off' = le32 b off'"
  using assms unfolding le32_def fat_patch_def by (auto simp: nth_list_update)

lemma unat_fat_sec:
  assumes "fs_ok fs" "f < unat (num_fats fs)" "unat c < fat_total fs"
  shows "unat (fat_lba fs + of_nat f * ucast (sectors_per_fat fs) + fat_sector c) =
      unat (fat_lba fs) + f * unat (sectors_per_fat fs) + unat c div 128"
    and "unat (fat_lba fs) + f * unat (sectors_per_fat fs) + unat c div 128 < unat (data_lba fs)"
    and "unat c div 128 < unat (sectors_per_fat fs)"
proof -
  define spf where "spf = unat (sectors_per_fat fs)"
  show c: "unat c div 128 < unat (sectors_per_fat fs)"
    using assms(3) by (simp add: fat_total_def SD_BLOCK_SIZE_def less_mult_imp_div_less)
  have "f * spf + spf \<le> unat (num_fats fs) * spf"
    using mult_le_mono1 [of "Suc f" "unat (num_fats fs)" spf] assms(2) by (simp add: add.commute)
  then show lt: "unat (fat_lba fs) + f * unat (sectors_per_fat fs) + unat c div 128 < unat (data_lba fs)"
    using c assms(1) unfolding fs_ok_def spf_def by linarith
  have d: "unat (data_lba fs) < 2 ^ 48" using assms(1) by (simp add: fs_ok_def)
  have "unat (of_nat f :: u64) = f" using assms(1,2) by (simp add: fs_ok_def unat_of_nat take_bit_nat_eq_self)
  then have m: "unat (of_nat f * ucast (sectors_per_fat fs) :: u64) = f * unat (sectors_per_fat fs)"
    using lt d by (simp add: unat_word_ariths unat_ucast_32_64)
  then show "unat (fat_lba fs + of_nat f * ucast (sectors_per_fat fs) + fat_sector c) =
      unat (fat_lba fs) + f * unat (sectors_per_fat fs) + unat c div 128"
    using lt d by (simp add: unat_add64 unat_fat_sector)
qed

lemma set_entry_loop_frame:
  assumes "block_device fs P"
  shows "P d \<Longrightarrow> fat_set_entry_loop fs c v fats d = (0, d') \<Longrightarrow> P d' \<and>
    (\<forall>l. (\<forall>f \<in> set fats. l \<noteq> fat_lba fs + of_nat f * ucast (sectors_per_fat fs) + fat_sector c) \<longrightarrow>
       rd_blk fs l d' = rd_blk fs l d)"
proof (induction fats arbitrary: d)
  case Nil
  then show ?case by simp
next
  case (Cons f fats)
  let ?sec = "fat_lba fs + of_nat f * ucast (sectors_per_fat fs) + fat_sector c"
  obtain b d1 where b: "rd_blk fs ?sec d = Some b" and w: "wr_blk fs ?sec (fat_patch b (fat_off c) v) d = Some d1"
    and r: "fat_set_entry_loop fs c v fats d1 = (0, d')"
    using Cons.prems(2) by (auto simp: Let_def split: option.splits)
  have "length (fat_patch b (fat_off c) v) = 512" using rd_length [OF assms Cons.prems(1) b] by simp
  note e = wr_effect [OF assms Cons.prems(1) this w]
  from Cons.IH [OF e(1) r] e(3) show ?case by simp
qed

lemma set_entry_effect:
  assumes bd: "block_device fs P" and ok: "fs_ok fs" and "P d" and c: "unat c < fat_total fs"
    and s: "fat_set_entry fs c v d = (0, d')"
  shows "P d'" and "\<And>l. unat (data_lba fs) \<le> unat l \<Longrightarrow> rd_blk fs l d' = rd_blk fs l d"
    and "fat32_next_cluster fs c d' = v AND 0x0FFFFFFF"
    and "\<And>c'. unat c' < fat_total fs \<Longrightarrow> c' \<noteq> c \<Longrightarrow> fat32_next_cluster fs c' d' = fat32_next_cluster fs c' d"
proof -
  define sec where "sec f = fat_lba fs + of_nat f * ucast (sectors_per_fat fs) + fat_sector c" for f :: nat
  have nf: "1 \<le> unat (num_fats fs)" using ok by (simp add: fs_ok_def)
  then have fats: "[0..<unat (num_fats fs)] = 0 # [1..<unat (num_fats fs)]" by (simp add: upt_rec)
  obtain b d1 where b: "rd_blk fs (sec 0) d = Some b" and w: "wr_blk fs (sec 0) (fat_patch b (fat_off c) v) d = Some d1"
    and r: "fat_set_entry_loop fs c v [1..<unat (num_fats fs)] d1 = (0, d')"
    using s unfolding fat_set_entry_def fats sec_def by (auto simp: Let_def split: option.splits)
  have lb: "length b = 512" using rd_length [OF bd assms(3) b] .
  note e = wr_effect [OF bd assms(3) _ w]
  have P1: "P d1" using e lb by simp
  note l = set_entry_loop_frame [OF bd P1 r]
  show "P d'" using l by simp
  have fr: "rd_blk fs l d' = rd_blk fs l d" if "\<And>f. f < unat (num_fats fs) \<Longrightarrow> l \<noteq> sec f" for l
  proof -
    have "l \<noteq> sec 0" using that [of 0] nf by simp
    then have "rd_blk fs l d1 = rd_blk fs l d" using e(3) lb by simp
    moreover have "rd_blk fs l d' = rd_blk fs l d1" using l that by (auto simp: sec_def)
    ultimately show ?thesis by simp
  qed
  show "rd_blk fs l d' = rd_blk fs l d" if "unat (data_lba fs) \<le> unat l" for l
  proof (rule fr)
    fix f assume f: "f < unat (num_fats fs)"
    show "l \<noteq> sec f" using that unat_fat_sec(1,2) [OF ok f c] by (auto simp: sec_def)
  qed
  have here: "rd_blk fs (sec 0) d' = Some (fat_patch b (fat_off c) v)"
  proof -
    have "sec f \<noteq> sec 0" if "1 \<le> f" "f < unat (num_fats fs)" for f
    proof
      assume "sec f = sec 0"
      then have "unat (sec f) = unat (sec 0)" by simp
      then show False using unat_fat_sec(1) [OF ok that(2) c] unat_fat_sec [OF ok, of 0 c] nf c that
        by (auto simp: sec_def)
    qed
    then have "rd_blk fs (sec 0) d' = rd_blk fs (sec 0) d1" using l by (auto simp: sec_def)
    then show ?thesis using e(2) lb by simp
  qed
  have s0: "sec 0 = fat_lba fs + fat_sector c" by (simp add: sec_def)
  have off: "fat_off c + 3 < length b" unfolding lb fat_off_eq using mod_less_divisor [of 128 "unat c"] by simp
  show "fat32_next_cluster fs c d' = v AND 0x0FFFFFFF"
    using here unfolding s0 fat32_next_cluster_def by (simp add: le32_patch_same [OF off])
  show "fat32_next_cluster fs c' d' = fat32_next_cluster fs c' d" if "unat c' < fat_total fs" "c' \<noteq> c" for c'
  proof (cases "fat_sector c' = fat_sector c")
    case True
    then have "unat c' div 128 = unat c div 128" by (metis unat_fat_sector)
    moreover have "unat c' \<noteq> unat c" using that(2) by (simp add: word_unat_eq_iff)
    ultimately have "unat c' mod 128 \<noteq> unat c mod 128" by (metis div_mult_mod_eq)
    then have "fat_off c' + 3 < fat_off c \<or> fat_off c + 3 < fat_off c'" unfolding fat_off_eq by linarith
    then show ?thesis
      using here b True unfolding s0 fat32_next_cluster_def by (simp add: le32_patch_other)
  next
    case False
    have "fat_lba fs + fat_sector c' \<noteq> sec f" if f: "f < unat (num_fats fs)" for f
    proof
      assume "fat_lba fs + fat_sector c' = sec f"
      then have "unat (fat_lba fs + of_nat 0 * ucast (sectors_per_fat fs) + fat_sector c') = unat (sec f)" by simp
      then have q: "unat c' div 128 = f * unat (sectors_per_fat fs) + unat c div 128"
        using unat_fat_sec(1) [OF ok f c] unat_fat_sec(1) [OF ok _ \<open>unat c' < fat_total fs\<close>, of 0] nf by (simp add: sec_def)
      moreover have "unat c' div 128 < unat (sectors_per_fat fs)"
        using unat_fat_sec(3) [OF ok f \<open>unat c' < fat_total fs\<close>] .
      ultimately have "f = 0" by (cases f) auto
      with q have "unat (fat_sector c') = unat (fat_sector c)" by (simp add: unat_fat_sector)
      with False show False by (simp add: word_unat_eq_iff)
    qed
    then have "rd_blk fs (fat_lba fs + fat_sector c') d' = rd_blk fs (fat_lba fs + fat_sector c') d" by (intro fr)
    then show ?thesis by (simp add: fat32_next_cluster_def)
  qed
qed

section \<open>Writing the data of a cluster\<close>

lemma unat_lba:
  assumes "fs_ok fs" "2 \<le> c" "unat c < 0x0FFFFFF8" "s < unat (sectors_per_cluster fs)"
  shows "unat (cluster_to_lba fs c + of_nat s) = unat (data_lba fs) + (unat c - 2) * unat (sectors_per_cluster fs) + s"
proof -
  define spc where "spc = unat (sectors_per_cluster fs)"
  have spc: "spc \<le> 255" "s < spc" using assms by (simp_all add: fs_ok_def spc_def)
  have c: "unat (c - 2) = unat c - 2" using assms(2) by (simp add: unat_sub_if_size word_le_nat_alt)
  have "(unat c - 2) * spc \<le> 0x0FFFFFF8 * 255" using assms(3) spc by (intro mult_le_mono) simp_all
  moreover have "unat (data_lba fs) < 2 ^ 48" using assms(1) by (simp add: fs_ok_def)
  moreover have "unat (of_nat s :: u64) = s" using spc by (simp add: unat_of_nat take_bit_nat_eq_self)
  moreover have "unat (ucast (c - 2) * ucast (sectors_per_cluster fs) :: u64) = (unat c - 2) * spc"
    by (simp add: unat_mult_ucast64 c spc_def)
  ultimately show ?thesis using spc unfolding cluster_to_lba_def spc_def [symmetric] by (simp add: unat_add64)
qed

lemma lba_inj:
  assumes "fs_ok fs" "2 \<le> c" "unat c < 0x0FFFFFF8" "s < unat (sectors_per_cluster fs)"
    and "2 \<le> c'" "unat c' < 0x0FFFFFF8" "s' < unat (sectors_per_cluster fs)"
    and "cluster_to_lba fs c + of_nat s = cluster_to_lba fs c' + of_nat s'"
  shows "c = c' \<and> s = s'"
proof -
  define n where "n = unat (sectors_per_cluster fs)"
  have e: "(unat c - 2) * n + s = (unat c' - 2) * n + s'"
    using unat_lba [OF assms(1-4)] unat_lba [OF assms(1,5-7)] assms(8) by (simp add: n_def)
  have "((unat c - 2) * n + s) div n = unat c - 2" "((unat c' - 2) * n + s') div n = unat c' - 2"
    using assms(4,7) by (simp_all add: n_def div_mult_self3)
  with e have "unat c - 2 = unat c' - 2" by simp
  moreover have "2 \<le> unat c" "2 \<le> unat c'" using assms(2,5) by (simp_all add: word_le_nat_alt)
  ultimately have "unat c = unat c'" by linarith
  with e show ?thesis by (simp add: word_unat_eq_iff)
qed

lemma length_sector_fill [simp]: "length (sector_fill src) = 512"
  by (simp add: sector_fill_def SD_BLOCK_SIZE_def)

text \<open>The sectors that were written hold the data in order; the rest of the device is unchanged.\<close>

lemma write_sectors_effect:
  assumes bd: "block_device fs P" and inj: "inj_on (\<lambda>s. base + of_nat s) (set ss)" and "distinct ss"
  shows "P d \<Longrightarrow> write_sectors fs stop base ss src d = (0, rest, d') \<Longrightarrow>
    P d' \<and> rest = drop (512 * length ss) src \<and>
    (\<forall>l. (\<forall>s \<in> set ss. l \<noteq> base + of_nat s) \<longrightarrow> rd_blk fs l d' = rd_blk fs l d) \<and>
    (\<forall>s \<in> set ss. rd_blk fs (base + of_nat s) d \<noteq> None \<longrightarrow> rd_blk fs (base + of_nat s) d' \<noteq> None) \<and>
    (\<forall>i < length ss. 512 * i < length src \<or> \<not> stop \<longrightarrow>
       rd_blk fs (base + of_nat (ss ! i)) d' = Some (sector_fill (drop (512 * i) src)))"
  using inj assms(3)
proof (induction ss arbitrary: src d)
  case Nil
  then show ?case by simp
next
  case (Cons s ss)
  obtain d1 where w: "wr_blk fs (base + of_nat s) (sector_fill src) d = Some d1"
    and r: "(if stop \<and> drop 512 src = [] then (0, drop 512 src, d1) else write_sectors fs stop base ss (drop 512 src) d1) = (0, rest, d')"
    using Cons.prems(2) by (auto simp: Let_def SD_BLOCK_SIZE_def split: option.splits)
  note e = wr_effect [OF bd Cons.prems(1) length_sector_fill w]
  have ne: "base + of_nat s \<noteq> base + of_nat t" if "t \<in> set ss" for t
    using that Cons.prems(3,4) by (auto simp: inj_on_def)
  show ?case
  proof (cases "stop \<and> drop 512 src = []")
    case True
    then have "rest = []" "d' = d1" "length src \<le> 512" using r by auto
    then show ?thesis
      using e(1,2,3) e(3) [OF ne [THEN not_sym]] True by (auto simp: nth_Cons' less_Suc_eq_0_disj)
  next
    case False
    then have r': "write_sectors fs stop base ss (drop 512 src) d1 = (0, rest, d')" using r by (auto split: if_splits)
    have ih: "P d' \<and> rest = drop (512 * length ss) (drop 512 src) \<and>
      (\<forall>l. (\<forall>s \<in> set ss. l \<noteq> base + of_nat s) \<longrightarrow> rd_blk fs l d' = rd_blk fs l d1) \<and>
      (\<forall>s \<in> set ss. rd_blk fs (base + of_nat s) d1 \<noteq> None \<longrightarrow> rd_blk fs (base + of_nat s) d' \<noteq> None) \<and>
      (\<forall>i < length ss. 512 * i < length (drop 512 src) \<or> \<not> stop \<longrightarrow>
         rd_blk fs (base + of_nat (ss ! i)) d' = Some (sector_fill (drop (512 * i) (drop 512 src))))"
      using Cons.prems by (intro Cons.IH [OF e(1) r']) (auto intro: inj_on_subset)
    have first: "rd_blk fs (base + of_nat s) d' = Some (sector_fill src)" using ih ne e(2) by auto
    have "rd_blk fs (base + of_nat ((s # ss) ! i)) d' = Some (sector_fill (drop (512 * i) src))"
      if "i < length (s # ss)" "512 * i < length src \<or> \<not> stop" for i
    proof (cases i)
      case 0
      then show ?thesis using first by simp
    next
      case (Suc j)
      then show ?thesis using ih that by (auto simp: add.commute)
    qed
    moreover have "rest = drop (512 * length (s # ss)) src" using ih by (simp add: add.commute)
    moreover have "rd_blk fs l d' = rd_blk fs l d" if "\<forall>t \<in> set (s # ss). l \<noteq> base + of_nat t" for l
      using that ih e(3) by auto
    moreover have "rd_blk fs (base + of_nat t) d' \<noteq> None" if "t \<in> set (s # ss)" "rd_blk fs (base + of_nat t) d \<noteq> None" for t
    proof (cases "t = s")
      case False
      then have "t \<in> set ss" using that by simp
      moreover from this have "rd_blk fs (base + of_nat t) d1 \<noteq> None" using e(3) [OF ne [THEN not_sym]] that by simp
      ultimately show ?thesis using ih by blast
    qed (use first in simp)
    ultimately show ?thesis using ih by blast
  qed
qed

lemma concat_sector_fill:
  "concat (map (\<lambda>i. sector_fill (drop (512 * i) src)) [0..<n]) = take (512 * n) src @ replicate (512 * n - length src) 0"
proof (induction n)
  case (Suc n)
  have "take (512 * n) src @ replicate (512 * n - length src) 0 @ sector_fill (drop (512 * n) src) =
      take (512 * Suc n) src @ replicate (512 * Suc n - length src) 0"
  proof (cases "length src \<le> 512 * n")
    case True
    have "512 * Suc n - length src = (512 * n - length src) + 512" using True by simp
    then have "replicate (512 * Suc n - length src) (0 :: u8) = replicate (512 * n - length src) 0 @ replicate 512 0"
      by (simp only: replicate_add)
    then show ?thesis using True by (simp add: sector_fill_def SD_BLOCK_SIZE_def)
  next
    case False
    then have "take (512 * Suc n) src = take (512 * n) src @ take 512 (drop (512 * n) src)"
      using take_add [of "512 * n" 512 src] by (simp add: add.commute)
    moreover have "512 * Suc n - length src = 512 - (length src - 512 * n)" using False by simp
    ultimately show ?thesis using False by (simp add: sector_fill_def SD_BLOCK_SIZE_def)
  qed
  with Suc show ?case by simp
qed simp

text \<open>Everything the allocation of one cluster and the writing of its data do to the device.\<close>

lemma write_cluster_effect:
  assumes bd: "block_device fs P" and ok: "fs_ok fs" and "P d" and c: "2 \<le> c" "unat c < fat_total fs"
    and w: "write_sectors fs stop (cluster_to_lba fs c) [0..<unat (sectors_per_cluster fs)] src d = (0, rest, d')"
  shows "P d'" and "rest = drop (512 * unat (sectors_per_cluster fs)) src"
    and "\<And>l. unat l < unat (data_lba fs) \<Longrightarrow> rd_blk fs l d' = rd_blk fs l d"
    and "\<And>c' s. 2 \<le> c' \<Longrightarrow> unat c' < fat_total fs \<Longrightarrow> c' \<noteq> c \<Longrightarrow> s < unat (sectors_per_cluster fs) \<Longrightarrow>
      rd_blk fs (cluster_to_lba fs c' + of_nat s) d' = rd_blk fs (cluster_to_lba fs c' + of_nat s) d"
    and "\<And>i. i < unat (sectors_per_cluster fs) \<Longrightarrow> 512 * i < length src \<or> \<not> stop \<Longrightarrow>
      rd_blk fs (cluster_to_lba fs c + of_nat i) d' = Some (sector_fill (drop (512 * i) src))"
    and "\<And>i. i < unat (sectors_per_cluster fs) \<Longrightarrow> rd_blk fs (cluster_to_lba fs c + of_nat i) d \<noteq> None \<Longrightarrow>
      rd_blk fs (cluster_to_lba fs c + of_nat i) d' \<noteq> None"
proof -
  have tot: "unat c' < 0x0FFFFFF8" if "unat c' < fat_total fs" for c' :: u32 using that ok by (simp add: fs_ok_def)
  have inj: "inj_on (\<lambda>s. cluster_to_lba fs c + of_nat s) (set [0..<unat (sectors_per_cluster fs)])"
  proof (rule inj_onI)
    fix s t assume "s \<in> set [0..<unat (sectors_per_cluster fs)]" "t \<in> set [0..<unat (sectors_per_cluster fs)]"
      and "cluster_to_lba fs c + of_nat s = cluster_to_lba fs c + of_nat t"
    then show "s = t" using lba_inj [OF ok c(1) tot [OF c(2)] _ c(1) tot [OF c(2)], of s t] by simp
  qed
  note e = write_sectors_effect [OF bd inj distinct_upt assms(3) w]
  show "P d'" "rest = drop (512 * unat (sectors_per_cluster fs)) src" using e by simp_all
  show "rd_blk fs l d' = rd_blk fs l d" if "unat l < unat (data_lba fs)" for l
  proof -
    have "l \<noteq> cluster_to_lba fs c + of_nat s" if "s < unat (sectors_per_cluster fs)" for s
      using unat_lba [OF ok c(1) tot [OF c(2)] that] \<open>unat l < _\<close> by auto
    then show ?thesis using e by simp
  qed
  show "rd_blk fs (cluster_to_lba fs c' + of_nat s) d' = rd_blk fs (cluster_to_lba fs c' + of_nat s) d"
    if "2 \<le> c'" "unat c' < fat_total fs" "c' \<noteq> c" "s < unat (sectors_per_cluster fs)" for c' s
  proof -
    have "cluster_to_lba fs c' + of_nat s \<noteq> cluster_to_lba fs c + of_nat t" if "t < unat (sectors_per_cluster fs)" for t
      using lba_inj [OF ok \<open>2 \<le> c'\<close> tot [OF \<open>unat c' < _\<close>] \<open>s < _\<close> c(1) tot [OF c(2)] that] \<open>c' \<noteq> c\<close> by blast
    then show ?thesis using e by simp
  qed
  show "rd_blk fs (cluster_to_lba fs c + of_nat i) d' = Some (sector_fill (drop (512 * i) src))"
    if "i < unat (sectors_per_cluster fs)" "512 * i < length src \<or> \<not> stop" for i
    using e that by auto
  show "rd_blk fs (cluster_to_lba fs c + of_nat i) d' \<noteq> None"
    if "i < unat (sectors_per_cluster fs)" "rd_blk fs (cluster_to_lba fs c + of_nat i) d \<noteq> None" for i
    using e that by auto
qed

lemma next_cluster_frame:
  assumes "fs_ok fs" "unat c < fat_total fs" "\<And>l. unat l < unat (data_lba fs) \<Longrightarrow> rd_blk fs l d' = rd_blk fs l d"
  shows "fat32_next_cluster fs c d' = fat32_next_cluster fs c d"
proof -
  have "unat (fat_lba fs + fat_sector c) < unat (data_lba fs)"
    using unat_fat_sec [OF assms(1) _ assms(2), of 0] assms(1) by (simp add: fs_ok_def)
  then show ?thesis using assms(3) by (simp add: fat32_next_cluster_def)
qed

section \<open>The scan for a free cluster\<close>

lemma scan_free_result:
  assumes "scan_free fs d c = Some r" "2 \<le> c"
  shows "r = 0 \<or> c \<le> r \<and> 2 \<le> r \<and> unat r < fat_total fs \<and> fat32_next_cluster fs r d AND 0x0FFFFFFF = 0 \<or> fat_total fs > 4294967295"
proof -
  have "2 \<le> c \<longrightarrow> (r = 0 \<or> c \<le> r \<and> 2 \<le> r \<and> unat r < fat_total fs \<and> fat32_next_cluster fs r d AND 0x0FFFFFFF = 0 \<or> fat_total fs > 4294967295)"
  proof (rule scan_free.raw_induct [of "\<lambda>fs d c r. 2 \<le> c \<longrightarrow> (r = 0 \<or> c \<le> r \<and> 2 \<le> r \<and> unat r < fat_total fs \<and>
      fat32_next_cluster fs r d AND 0x0FFFFFFF = 0 \<or> fat_total fs > 4294967295)", OF _ assms(1)], intro impI)
    fix scan and fs :: "'a fat32_t" and d c r
    assume ih: "\<And>fs d c r. scan fs d c = Some r \<Longrightarrow> 2 \<le> c \<longrightarrow> (r = 0 \<or> c \<le> r \<and> 2 \<le> r \<and> unat r < fat_total fs \<and>
        fat32_next_cluster fs r d AND 0x0FFFFFFF = 0 \<or> fat_total fs > 4294967295)"
      and e: "(if unat c < fat_total fs then if fat32_next_cluster fs c d AND 0x0FFFFFFF = 0 then Some c else scan fs d (c + 1) else Some 0) = Some r"
      and c: "2 \<le> c"
    show "r = 0 \<or> c \<le> r \<and> 2 \<le> r \<and> unat r < fat_total fs \<and> fat32_next_cluster fs r d AND 0x0FFFFFFF = 0 \<or> fat_total fs > 4294967295"
    proof (cases "unat c + 1 < 4294967296")
      case True
      then have "unat (c + 1) = unat c + 1" by (simp add: unat_add_no_wrap)
      then have "2 \<le> c + 1" "c \<le> c + 1" using c by (simp_all add: word_le_nat_alt)
      then show ?thesis using e ih [of fs d "c + 1" r] c by (auto split: if_splits)
    next
      case False
      then show ?thesis using e c unat_bound32 [of c] by (auto split: if_splits)
    qed
  qed
  then show ?thesis using assms(2) by blast
qed

lemma scan_free_terminates:
  assumes "fat_total fs < 4294967296"
  shows "\<exists>r. scan_free fs d c = Some r"
proof (induction "fat_total fs - unat c" arbitrary: c rule: less_induct)
  case less
  show ?case
  proof (cases "unat c < fat_total fs")
    case True
    then have "unat (c + 1) = unat c + 1" using assms by (simp add: unat_add_no_wrap)
    with True less [of "c + 1"] show ?thesis by (subst scan_free.simps) auto
  qed (subst scan_free.simps, simp)
qed

lemma next_cluster_masked: "fat32_next_cluster fs c d AND 0x0FFFFFFF = fat32_next_cluster fs c d"
  by (simp add: fat32_next_cluster_def and.assoc split: option.split)

section \<open>Directories\<close>

fun dir_ok :: "'d fat32_t \<Rightarrow> 'd \<Rightarrow> nat \<Rightarrow> u32 \<Rightarrow> bool" where
  "dir_ok fs d 0 cur \<longleftrightarrow> True"
| "dir_ok fs d (Suc n) cur \<longleftrightarrow>
     (in_chain cur \<longrightarrow> unat cur < fat_total fs \<and> fat32_next_cluster fs cur d \<noteq> 0 \<and>
        dir_ok fs d n (fat32_next_cluster fs cur d))"

fun dir_clusters :: "'d fat32_t \<Rightarrow> 'd \<Rightarrow> nat \<Rightarrow> u32 \<Rightarrow> u32 list" where
  "dir_clusters fs d 0 cur = []"
| "dir_clusters fs d (Suc n) cur =
     (if in_chain cur then cur # dir_clusters fs d n (fat32_next_cluster fs cur d) else [])"

lemma dir_frame:
  assumes "\<And>c. unat c < fat_total fs \<Longrightarrow> fat32_next_cluster fs c d \<noteq> 0 \<Longrightarrow> fat32_next_cluster fs c d' = fat32_next_cluster fs c d"
  shows "dir_ok fs d n cur \<Longrightarrow> dir_ok fs d' n cur \<and> dir_clusters fs d' n cur = dir_clusters fs d n cur"
  using assms by (induction n arbitrary: cur) auto

lemma dir_frame2:
  assumes "\<And>c. 2 \<le> c \<Longrightarrow> unat c < fat_total fs \<Longrightarrow> fat32_next_cluster fs c d \<noteq> 0 \<Longrightarrow> fat32_next_cluster fs c d' = fat32_next_cluster fs c d"
  shows "dir_ok fs d n cur \<Longrightarrow> dir_ok fs d' n cur \<and> dir_clusters fs d' n cur = dir_clusters fs d n cur"
  using assms by (induction n arbitrary: cur) (auto simp: in_chain_def)

lemma dir_clusters_ok:
  "dir_ok fs d n cur \<Longrightarrow> c \<in> set (dir_clusters fs d n cur) \<Longrightarrow>
   2 \<le> c \<and> unat c < fat_total fs \<and> fat32_next_cluster fs c d \<noteq> 0"
  by (induction n arbitrary: cur) (auto simp: in_chain_def split: if_splits)

lemma find_split:
  "find Q xs = Some x \<Longrightarrow> \<exists>pre post. xs = pre @ x # post \<and> Q x \<and> (\<forall>y \<in> set pre. \<not> Q y)"
  by (induction xs) (auto split: if_splits intro: exI [of _ "[]"], metis append_Cons set_ConsD)

lemma search_sectors_some:
  "search_sectors fs Q base ss d = Inr (Some (sec, off, b)) \<Longrightarrow>
   \<exists>pre s post. ss = pre @ s # post \<and> sec = base + of_nat s \<and> rd_blk fs sec d = Some b \<and>
     find (Q b) entry_offsets = Some off \<and>
     (\<forall>t \<in> set pre. \<exists>x. rd_blk fs (base + of_nat t) d = Some x \<and> find (Q x) entry_offsets = None)"
proof (induction ss)
  case (Cons s ss)
  then obtain x where x: "rd_blk fs (base + of_nat s) d = Some x" by (auto split: option.splits)
  show ?case
  proof (cases "find (Q x) entry_offsets")
    case None
    then have "search_sectors fs Q base ss d = Inr (Some (sec, off, b))" using Cons.prems x by simp
    from Cons.IH [OF this] obtain pre s' post where "ss = pre @ s' # post" "sec = base + of_nat s'"
      "rd_blk fs sec d = Some b" "find (Q b) entry_offsets = Some off"
      "\<forall>t \<in> set pre. \<exists>x. rd_blk fs (base + of_nat t) d = Some x \<and> find (Q x) entry_offsets = None" by blast
    then show ?thesis using x None by (intro exI [of _ "s # pre"] exI [of _ s'] exI [of _ post]) simp
  next
    case (Some o1)
    then show ?thesis using Cons.prems x by (intro exI [of _ "[]"] exI [of _ s] exI [of _ ss]) simp
  qed
qed simp

lemma search_sectors_none:
  "search_sectors fs Q base ss d = Inr None \<Longrightarrow> t \<in> set ss \<Longrightarrow>
   \<exists>x. rd_blk fs (base + of_nat t) d = Some x \<and> find (Q x) entry_offsets = None"
  by (induction ss) (auto split: option.splits)

lemma search_dir_some:
  "search_dir fs Q n cur d = Inr (Some (sec, off, b)) \<Longrightarrow>
   \<exists>c s. c \<in> set (dir_clusters fs d n cur) \<and> s < unat (sectors_per_cluster fs) \<and>
     sec = cluster_to_lba fs c + of_nat s \<and> rd_blk fs sec d = Some b \<and> find (Q b) entry_offsets = Some off"
proof (induction n arbitrary: cur)
  case (Suc n)
  then have ic: "in_chain cur" by (auto split: if_splits)
  define r where "r = search_sectors fs Q (cluster_to_lba fs cur) [0..<unat (sectors_per_cluster fs)] d"
  show ?case
  proof (cases "r = Inr None")
    case True
    then show ?thesis using Suc.IH [of "fat32_next_cluster fs cur d"] Suc.prems ic by (auto simp: r_def [symmetric])
  next
    case False
    have "r = Inr (Some (sec, off, b))"
    proof (cases r)
      case (Inl u)
      then show ?thesis using Suc.prems ic unfolding r_def by simp
    next
      case (Inr x)
      then show ?thesis using Suc.prems ic False unfolding r_def by (cases x) simp_all
    qed
    then obtain pre s post where p: "[0..<unat (sectors_per_cluster fs)] = pre @ s # post" "sec = cluster_to_lba fs cur + of_nat s"
      "rd_blk fs sec d = Some b" "find (Q b) entry_offsets = Some off"
      using search_sectors_some [of fs Q "cluster_to_lba fs cur"] unfolding r_def by blast
    have "s \<in> set [0..<unat (sectors_per_cluster fs)]" unfolding p(1) by simp
    then have "s < unat (sectors_per_cluster fs)" by simp
    moreover have "cur \<in> set (dir_clusters fs d (Suc n) cur)" using ic by simp
    ultimately show ?thesis using p by blast
  qed
qed simp

lemma length_name_to_8_3 [simp]: "length (name_to_8_3 name) = 11"
  by (simp add: name_to_8_3_def pad_def)

lemma le_byte_split: "le32 [ucast x, ucast (drop_bit 8 x), ucast (drop_bit 16 x), ucast (drop_bit 24 x)] 0 = (x :: u32)"
proof (rule bit_word_eqI)
  fix k :: nat
  assume "k < LENGTH(32)"
  then show "bit (le32 [ucast x, ucast (drop_bit 8 x), ucast (drop_bit 16 x), ucast (drop_bit 24 x)] 0) k = bit x k"
    unfolding bit_le32 by (auto simp: bit_simps)
qed

lemma le16_pair: "push_bit 16 (le16 p i) OR le16 q j = le32 [q ! j, q ! (j + 1), p ! i, p ! (i + 1)] 0"
  unfolding le16_def le32_def by (rule bit_word_eqI) (auto simp: bit_simps)

lemma le32_nth: "le32 p i = le32 [p ! i, p ! (i + 1), p ! (i + 2), p ! (i + 3)] 0"
  by (simp add: le32_def)

lemma put_entry_fields:
  assumes "length b = 512" "off + 32 \<le> 512" "length raw = 11" and b': "b' = put_entry b off raw first len"
  shows "length b' = 512" and "segm b' off 11 = raw" and "b' ! (off + 11) = 0x20"
    and "le32 b' (off + 28) = len" and "push_bit 16 (le16 b' (off + 20)) OR le16 b' (off + 26) = first"
    and "\<And>k. k < 512 \<Longrightarrow> k < off \<or> off + 32 \<le> k \<Longrightarrow> b' ! k = b ! k"
proof -
  show len: "length b' = 512" using assms by (simp add: b' put_entry_def put_entry_ref_def)
  show "segm b' off 11 = raw"
    using assms unfolding b' put_entry_def put_entry_ref_def
    by (simp add: segm_put_other segm_put_same del: put_bytes.simps)
  have n: "b' ! (off + 11) = 0x20" "b' ! (off + 20) = ucast (drop_bit 16 first)" "b' ! (off + 21) = ucast (drop_bit 24 first)"
    "b' ! (off + 26) = ucast first" "b' ! (off + 27) = ucast (drop_bit 8 first)"
    "b' ! (off + 28) = ucast len" "b' ! (off + 29) = ucast (drop_bit 8 len)" "b' ! (off + 30) = ucast (drop_bit 16 len)"
    "b' ! (off + 31) = ucast (drop_bit 24 len)"
    using assms(1-3) unfolding b' put_entry_def put_entry_ref_def by (simp_all add: nth_put_bytes del: put_bytes.simps)
  then show "b' ! (off + 11) = 0x20" by simp
  have "le32 b' (off + 28) = le32 [ucast len, ucast (drop_bit 8 len), ucast (drop_bit 16 len), ucast (drop_bit 24 len)] 0"
    by (subst le32_nth) (simp only: add.assoc numeral_plus_numeral numeral_plus_one semiring_norm n)
  then show "le32 b' (off + 28) = len" by (simp only: le_byte_split)
  show "push_bit 16 (le16 b' (off + 20)) OR le16 b' (off + 26) = first"
    unfolding le16_pair using le_byte_split [of first]
    by (simp only: add.assoc numeral_plus_numeral numeral_plus_one semiring_norm n)
  show "b' ! k = b ! k" if "k < 512" "k < off \<or> off + 32 \<le> k" for k
    using that assms(1-3) unfolding b' put_entry_def put_entry_ref_def by (auto simp: nth_put_bytes simp del: put_bytes.simps)
qed

lemma walk_entries_member:
  "entry_free b off \<noteq> True \<Longrightarrow> b ! (off + 11) = 0x20 \<Longrightarrow> \<not> is_dot (de_name (entry_at b off)) \<Longrightarrow>
   (\<forall>x \<in> set pre. b ! x \<noteq> 0) \<Longrightarrow> entry_at b off \<in> set (fst (walk_entries b (pre @ off # post)))"
proof (induction pre)
  case Nil
  then show ?case by (simp add: entry_free_def split: prod.split)
next
  case (Cons x pre)
  then show ?case by (auto simp: split_beta)
qed

lemma walk_entries_no_stop: "(\<forall>x \<in> set offs. b ! x \<noteq> 0) \<Longrightarrow> snd (walk_entries b offs) = False"
  by (induction offs) (auto simp: split_beta)

lemma find_None_offsets:
  "find (\<lambda>off. entry_free b off \<or> Q off) entry_offsets = None \<Longrightarrow> x \<in> set entry_offsets \<Longrightarrow> b ! x \<noteq> 0"
  by (auto simp: find_None_iff entry_free_def)

lemma walk_sectors_member:
  "ss = pre @ s # post \<Longrightarrow> rd_blk fs (base + of_nat s) d = Some b \<Longrightarrow>
   (\<forall>t \<in> set pre. \<exists>x. rd_blk fs (base + of_nat t) d = Some x \<and> (\<forall>k \<in> set entry_offsets. x ! k \<noteq> 0)) \<Longrightarrow>
   e \<in> set (fst (walk_entries b entry_offsets)) \<Longrightarrow> e \<in> set (fst (walk_sectors fs base ss d))"
proof (induction pre arbitrary: ss)
  case Nil
  then show ?case by (auto split: prod.splits bool.splits)
next
  case (Cons t pre)
  then obtain x where x: "rd_blk fs (base + of_nat t) d = Some x" "\<forall>k \<in> set entry_offsets. x ! k \<noteq> 0" by auto
  have "e \<in> set (fst (walk_sectors fs base (pre @ s # post) d))" using Cons by simp
  moreover have "snd (walk_entries x entry_offsets) = False" by (rule walk_entries_no_stop [OF x(2)])
  ultimately show ?case using x(1) Cons.prems(1) by (auto split: prod.splits bool.splits)
qed

lemma walk_sectors_continue:
  "(\<forall>t \<in> set ss. \<exists>x. rd_blk fs (base + of_nat t) d = Some x \<and> (\<forall>k \<in> set entry_offsets. x ! k \<noteq> 0)) \<Longrightarrow>
   snd (walk_sectors fs base ss d) = None"
proof (induction ss)
  case (Cons t ss)
  then obtain x where x: "rd_blk fs (base + of_nat t) d = Some x" "\<forall>k \<in> set entry_offsets. x ! k \<noteq> 0" by auto
  have "snd (walk_entries x entry_offsets) = False" by (rule walk_entries_no_stop [OF x(2)])
  then show ?case using Cons x(1) by (auto split: prod.splits bool.splits)
qed simp

text \<open>If the search for a slot in \<open>d\<close> chose \<open>sec\<close> and \<open>off\<close>, then after the entry was written there the
  listing of the directory shows it.\<close>

lemma walk_finds_entry:
  assumes Q: "Q = (\<lambda>b off. entry_free b off \<or> R b off)"
    and other: "\<And>l. l \<noteq> sec \<Longrightarrow> rd_blk fs l d' = rd_blk fs l d" and new: "rd_blk fs sec d' = Some b'"
    and before: "rd_blk fs sec d = Some b" "find (Q b) entry_offsets = Some off"
    and keep: "\<And>k. k < 512 \<Longrightarrow> k < off \<or> off + 32 \<le> k \<Longrightarrow> b' ! k = b ! k"
    and entry: "\<not> entry_free b' off" "b' ! (off + 11) = 0x20" "\<not> is_dot (de_name (entry_at b' off))"
    and fat: "\<And>c. c \<in> set (dir_clusters fs d n cur) \<Longrightarrow> fat32_next_cluster fs c d' = fat32_next_cluster fs c d"
  shows "search_dir fs Q n cur d = Inr (Some (sec, off, b)) \<Longrightarrow> entry_at b' off \<in> set (fst (walk_loop fs n cur d'))"
  using fat
proof (induction n arbitrary: cur)
  case (Suc n)
  then have ic: "in_chain cur" by (auto split: if_splits)
  define base where "base = cluster_to_lba fs cur"
  define ss where "ss = [0..<unat (sectors_per_cluster fs)]"
  have same: "\<exists>x. rd_blk fs (base + of_nat t) d' = Some x \<and> (\<forall>k \<in> set entry_offsets. x ! k \<noteq> 0)"
    if "\<exists>x. rd_blk fs (base + of_nat t) d = Some x \<and> find (Q x) entry_offsets = None" for t
  proof -
    from that obtain x where x: "rd_blk fs (base + of_nat t) d = Some x" "find (Q x) entry_offsets = None" by blast
    then have "base + of_nat t \<noteq> sec" using before by auto
    then have "rd_blk fs (base + of_nat t) d' = Some x" using other x(1) by simp
    then show ?thesis using find_None_offsets [of x "R x"] x(2) by (auto simp: Q)
  qed
  have member: "entry_at b' off \<in> set (fst (walk_entries b' entry_offsets))"
  proof -
    obtain pre post where p: "entry_offsets = pre @ off # post" "\<forall>y \<in> set pre. \<not> Q b y"
      using find_split [OF before(2)] by blast
    have "y < off \<and> y < 512" if "y \<in> set pre" for y
    proof -
      have s: "sorted_wrt (<) (pre @ off # post)" unfolding p(1) [symmetric] by (simp add: entry_offsets_def sorted_wrt_map)
      have "off \<in> set entry_offsets" unfolding p(1) by simp
      then have "off \<le> 480" by (auto simp: entry_offsets_def)
      with s that show ?thesis by (auto simp: sorted_wrt_append)
    qed
    then have "\<forall>y \<in> set pre. b' ! y \<noteq> 0" using p(2) keep by (auto simp: Q entry_free_def)
    then show ?thesis unfolding p(1) using entry by (intro walk_entries_member) simp_all
  qed
  show ?case
  proof (cases "search_sectors fs Q base ss d = Inr None")
    case True
    then have c: "snd (walk_sectors fs base ss d') = None"
      using same search_sectors_none [OF True] by (intro walk_sectors_continue) blast
    have "search_dir fs Q n (fat32_next_cluster fs cur d) d = Inr (Some (sec, off, b))"
      using Suc.prems(1) ic True by (simp add: base_def ss_def)
    moreover have "fat32_next_cluster fs cur d' = fat32_next_cluster fs cur d" using Suc.prems(2) ic by simp
    ultimately have "entry_at b' off \<in> set (fst (walk_loop fs n (fat32_next_cluster fs cur d') d'))"
      using Suc.IH [of "fat32_next_cluster fs cur d"] Suc.prems(2) ic by simp
    then show ?thesis using ic c by (auto simp: base_def [symmetric] ss_def [symmetric] split: prod.splits)
  next
    case False
    define r where "r = search_sectors fs Q base ss d"
    have e: "search_dir fs Q (Suc n) cur d = (case r of Inl u \<Rightarrow> Inl u | Inr (Some x) \<Rightarrow> Inr (Some x)
        | Inr None \<Rightarrow> search_dir fs Q n (fat32_next_cluster fs cur d) d)"
      using ic by (simp add: r_def base_def ss_def)
    have "r = Inr (Some (sec, off, b))"
    proof (cases r)
      case (Inl u)
      then show ?thesis using Suc.prems(1) e by simp
    next
      case (Inr x)
      then show ?thesis using Suc.prems(1) e False unfolding r_def [symmetric] by (cases x) simp_all
    qed
    from search_sectors_some [OF this [unfolded r_def]] obtain pre s post
      where p: "ss = pre @ s # post" "sec = base + of_nat s"
        "\<forall>t \<in> set pre. \<exists>x. rd_blk fs (base + of_nat t) d = Some x \<and> find (Q x) entry_offsets = None" by blast
    have "entry_at b' off \<in> set (fst (walk_sectors fs base ss d'))"
      using walk_sectors_member [OF p(1), of fs base d' b'] new p(2,3) same member by blast
    then show ?thesis using ic by (auto simp: base_def [symmetric] ss_def [symmetric] split: prod.splits option.splits)
  qed
qed simp

section \<open>Write and read back\<close>

lemma cluster_at_cong:
  assumes "\<And>s. s < unat (sectors_per_cluster fs) \<Longrightarrow>
    rd_blk fs (cluster_to_lba fs c + of_nat s) d' = rd_blk fs (cluster_to_lba fs c + of_nat s) d"
  shows "cluster_at fs d' c = cluster_at fs d c"
  unfolding cluster_at_def sectors_at_def sector_at_def
  using assms by (intro arg_cong [of _ _ concat] map_cong refl) simp

lemma offset_bound: "find Q entry_offsets = Some off \<Longrightarrow> off + 32 \<le> 512"
  using find_split [of Q entry_offsets off] by (fastforce simp: entry_offsets_def dest: arg_cong [of _ _ set])

lemma write_file_cases:
  assumes "fat32_write_file fs dir name buf d = Some (0, d')"
  obtains c d1 d2 rest sec off b where "length buf \<le> unat (sectors_per_cluster fs) * 512"
    "scan_free fs d 2 = Some c" "2 \<le> c" "fat_set_entry fs c 0x0FFFFFFF d = (0, d1)"
    "write_sectors fs False (cluster_to_lba fs c) [0..<unat (sectors_per_cluster fs)] buf d1 = (0, rest, d2)"
    "search_dir fs (\<lambda>b off. entry_free b off \<or> entry_matches (name_to_8_3 name) b off) 1024 dir d2 = Inr (Some (sec, off, b))"
    "wr_blk fs sec (put_entry b off (name_to_8_3 name) c (of_nat (length buf))) d2 = Some d'"
  using assms unfolding fat32_write_file_def fat_find_free_def Let_def
  by (auto simp: SD_BLOCK_SIZE_def not_less split: option.splits if_splits prod.splits sum.splits)

lemma hd_segm: "segm b off 11 = raw \<Longrightarrow> length b = 512 \<Longrightarrow> off + 32 \<le> 512 \<Longrightarrow> b ! off = hd raw"
  by (auto simp: segm_def hd_drop_conv_nth)

lemma sint_of_nat32: "n < 2147483648 \<Longrightarrow> sint (of_nat n :: u32) = int n"
  using sint_small32 [of "of_nat n"] by (simp add: unat_of_nat take_bit_nat_eq_self)

text \<open>Reading back a one-cluster file.\<close>

lemma read_single_cluster:
  assumes bd: "block_device fs P" and ok: "fs_ok fs" and "P d" and c: "2 \<le> c" "unat c < fat_total fs"
    and len: "length buf \<le> unat (sectors_per_cluster fs) * 512"
    and data: "\<And>i. i < unat (sectors_per_cluster fs) \<Longrightarrow>
      rd_blk fs (cluster_to_lba fs c + of_nat i) d = Some (sector_fill (drop (512 * i) buf))"
    and eoc: "fat32_next_cluster fs c d = 0x0FFFFFFF" and "length buf \<le> unat maxlen"
  shows "fat32_read_file fs c (of_nat (length buf)) maxlen d = (int (length buf), buf)"
proof -
  define n where "n = unat (sectors_per_cluster fs)"
  have n: "n \<le> 255" using ok by (simp add: fs_ok_def n_def)
  have small: "length buf < 2147483648" using len n unfolding n_def [symmetric] by simp
  have ch: "file_chain fs d c [c]"
    using c ok data eoc by (simp add: readable_def in_chain_def fs_ok_def word_less_nat_alt)
  have m: "map (\<lambda>s. sector_at fs d (cluster_to_lba fs c + of_nat s)) [0..<n] = map (\<lambda>i. sector_fill (drop (512 * i) buf)) [0..<n]"
    using data by (simp add: sector_at_def n_def)
  have at: "cluster_at fs d c = buf @ replicate (512 * n - length buf) 0"
    unfolding cluster_at_def sectors_at_def n_def [symmetric] m concat_sector_fill using len by (simp add: n_def)
  have u: "unat (of_nat (length buf) :: u64) = length buf" using small by (simp add: unat_of_nat take_bit_nat_eq_self)
  then have "unat (min (of_nat (length buf)) maxlen) = length buf"
    using assms(9) by (simp add: min_def word_le_nat_alt)
  then have "read_loop fs d 1048576 c (unat (min (of_nat (length buf)) maxlen)) [] = buf"
    using read_loop_eq [OF bd assms(3) ch, of 1048576 "length buf" "[]"] at by simp
  then show ?thesis
    using leD [OF c(1)] small unfolding fat32_read_file_def by (simp add: sint_of_nat32 Let_def)
qed

lemma data_lba_le:
  assumes "fs_ok fs" "2 \<le> c" "unat c < fat_total fs" "s < unat (sectors_per_cluster fs)"
  shows "unat (data_lba fs) \<le> unat (cluster_to_lba fs c + of_nat s)"
  using unat_lba [OF assms(1,2) _ assms(4)] assms(1,3) by (simp add: fs_ok_def)

text \<open>Writing a new entry into the slot the search found: the listing shows it, the FAT and all clusters
  outside the directory are unchanged.\<close>

lemma add_entry_effect:
  assumes bd: "block_device fs P" and ok: "fs_ok fs" and Pd: "P d" and dir: "dir_ok fs d n dir"
    and name: "hd raw \<noteq> 0" "hd raw \<noteq> 0xE5" "\<not> is_dot (format_8_3 raw 16)" and raw: "length raw = 11"
    and Q: "Q = (\<lambda>b off. entry_free b off \<or> R b off)"
    and srch: "search_dir fs Q n dir d = Inr (Some (sec, off, b))"
    and wr: "wr_blk fs sec (put_entry b off raw c len) d = Some d'"
  shows "P d'" and "\<And>c'. unat c' < fat_total fs \<Longrightarrow> fat32_next_cluster fs c' d' = fat32_next_cluster fs c' d"
    and "\<And>c' s. 2 \<le> c' \<Longrightarrow> unat c' < fat_total fs \<Longrightarrow> c' \<notin> set (dir_clusters fs d n dir) \<Longrightarrow>
      s < unat (sectors_per_cluster fs) \<Longrightarrow>
      rd_blk fs (cluster_to_lba fs c' + of_nat s) d' = rd_blk fs (cluster_to_lba fs c' + of_nat s) d"
    and "\<lparr>de_name = format_8_3 raw 16, de_is_dir = False, de_size = ucast len, de_first = c\<rparr> \<in> set (fst (walk_loop fs n dir d'))"
proof -
  have tot: "fat_total fs \<le> 0x0FFFFFF8" using ok by (simp add: fs_ok_def)
  then have lim: "unat c' < 0x0FFFFFF8" if "unat c' < fat_total fs" for c' :: u32 using that by simp
  obtain c0 s0 where c0: "c0 \<in> set (dir_clusters fs d n dir)" "s0 < unat (sectors_per_cluster fs)"
    "sec = cluster_to_lba fs c0 + of_nat s0" "rd_blk fs sec d = Some b" "find (Q b) entry_offsets = Some off"
    using search_dir_some [OF srch] by blast
  have c0': "2 \<le> c0" "unat c0 < fat_total fs" using dir_clusters_ok [OF dir c0(1)] by auto
  have lb: "length b = 512" using rd_length [OF bd Pd c0(4)] .
  note f = put_entry_fields [of b off raw _ c len, OF lb offset_bound [OF c0(5)] raw refl]
  note e = wr_effect [OF bd Pd f(1) wr]
  show "P d'" by (rule e(1))
  have sec: "unat (data_lba fs) \<le> unat sec" using unat_lba [OF ok c0'(1) lim [OF c0'(2)] c0(2)] c0(3) by simp
  then have low: "rd_blk fs l d' = rd_blk fs l d" if "unat l < unat (data_lba fs)" for l
    using e(3) that by (metis linorder_not_le)
  show fat: "fat32_next_cluster fs c' d' = fat32_next_cluster fs c' d" if "unat c' < fat_total fs" for c'
    using next_cluster_frame [OF ok that low] .
  show "rd_blk fs (cluster_to_lba fs c' + of_nat s) d' = rd_blk fs (cluster_to_lba fs c' + of_nat s) d"
    if "2 \<le> c'" "unat c' < fat_total fs" "c' \<notin> set (dir_clusters fs d n dir)" "s < unat (sectors_per_cluster fs)" for c' s
    using e(3) lba_inj [OF ok that(1) lim [OF that(2)] that(4) c0'(1) lim [OF c0'(2)] c0(2)] that(3) c0(1,3) by blast
  have hd: "\<not> entry_free (put_entry b off raw c len) off"
    using hd_segm [OF f(2) f(1) offset_bound [OF c0(5)]] name by (simp add: entry_free_def)
  have ent: "entry_at (put_entry b off raw c len) off =
    \<lparr>de_name = format_8_3 raw 16, de_is_dir = False, de_size = ucast len, de_first = c\<rparr>"
    using f(2-5) by (simp add: entry_at_def)
  have "entry_at (put_entry b off raw c len) off \<in> set (fst (walk_loop fs n dir d'))"
    using srch e c0(4,5) f(6) hd f(3) name(3) fat dir_clusters_ok [OF dir]
    by (intro walk_finds_entry [OF Q, where sec = sec and d = d and b = b]) (auto simp: ent)
  then show "\<lparr>de_name = format_8_3 raw 16, de_is_dir = False, de_size = ucast len, de_first = c\<rparr> \<in> set (fst (walk_loop fs n dir d'))"
    by (simp add: ent)
qed

text \<open>A file written to a FAT32 directory can be found and read back. When fat32_write_file reports success
  on a volume with an intact directory chain, it has taken one cluster that was free; listing the
  directory shows an entry with the 8.3 form of the name, the length and that cluster; reading it
  back returns exactly the bytes written; the FAT entries of all other clusters and the contents of
  all clusters outside the directory are unchanged. I/O errors may occur at any point: they make the
  call fail, never report success.\<close>

theorem fat32_write_read:
  assumes bd: "block_device fs P" and ok: "fs_ok fs" and Pd: "P d" and dir: "dir_ok fs d 1024 dir"
    and name: "hd (name_to_8_3 name) \<noteq> 0" "hd (name_to_8_3 name) \<noteq> 0xE5" "\<not> is_dot (format_8_3 (name_to_8_3 name) 16)"
    and w: "fat32_write_file fs dir name buf d = Some (0, d')"
  shows "\<exists>c. 2 \<le> c \<and> unat c < fat_total fs \<and> fat32_next_cluster fs c d = 0 \<and>
    (\<forall>maxlen. length buf \<le> unat maxlen \<longrightarrow>
       fat32_read_file fs c (of_nat (length buf)) maxlen d' = (int (length buf), buf)) \<and>
    \<lparr>de_name = format_8_3 (name_to_8_3 name) 16, de_is_dir = False, de_size = ucast (of_nat (length buf) :: u32), de_first = c\<rparr>
      \<in> set (fst (fat32_walk_dir fs dir d')) \<and>
    (\<forall>c'. unat c' < fat_total fs \<longrightarrow> c' \<noteq> c \<longrightarrow> fat32_next_cluster fs c' d' = fat32_next_cluster fs c' d) \<and>
    (\<forall>c'. 2 \<le> c' \<longrightarrow> unat c' < fat_total fs \<longrightarrow> c' \<noteq> c \<longrightarrow> c' \<notin> set (dir_clusters fs d 1024 dir) \<longrightarrow>
       cluster_at fs d' c' = cluster_at fs d c')"
proof -
  from w obtain c d1 d2 rest sec off b where len: "length buf \<le> unat (sectors_per_cluster fs) * 512"
    and scan: "scan_free fs d 2 = Some c" and c2: "2 \<le> c" and set: "fat_set_entry fs c 0x0FFFFFFF d = (0, d1)"
    and data: "write_sectors fs False (cluster_to_lba fs c) [0..<unat (sectors_per_cluster fs)] buf d1 = (0, rest, d2)"
    and srch: "search_dir fs (\<lambda>b off. entry_free b off \<or> entry_matches (name_to_8_3 name) b off) 1024 dir d2 = Inr (Some (sec, off, b))"
    and wr: "wr_blk fs sec (put_entry b off (name_to_8_3 name) c (of_nat (length buf))) d2 = Some d'"
    by (rule write_file_cases)
  have tot: "fat_total fs \<le> 0x0FFFFFF8" using ok by (simp add: fs_ok_def)
  have c: "unat c < fat_total fs" "fat32_next_cluster fs c d = 0"
    using scan_free_result [OF scan] c2 tot by (auto simp: next_cluster_masked)
  note s1 = set_entry_effect [OF bd ok Pd c(1) set]
  note s2 = write_cluster_effect [OF bd ok s1(1) c2 c(1) data]
  have fat2: "fat32_next_cluster fs c' d2 = fat32_next_cluster fs c' d1" if "unat c' < fat_total fs" for c'
    using next_cluster_frame [OF ok that s2(3)] by simp
  have fr: "fat32_next_cluster fs c' d2 = fat32_next_cluster fs c' d" if "unat c' < fat_total fs" "c' \<noteq> c" for c'
    using fat2 [OF that(1)] s1(4) [OF that] by simp
  have dirs: "dir_ok fs d2 1024 dir" "dir_clusters fs d2 1024 dir = dir_clusters fs d 1024 dir"
    using dir_frame [OF _ dir, of d2] fr c(2) by metis+
  note s3 = add_entry_effect [OF bd ok s2(1) dirs(1) name length_name_to_8_3 refl srch wr]
  have nd: "c \<notin> set (dir_clusters fs d2 1024 dir)" using dir_clusters_ok [OF dir, of c] c(2) dirs(2) by auto
  have rdf: "fat32_read_file fs c (of_nat (length buf)) maxlen d' = (int (length buf), buf)" if "length buf \<le> unat maxlen" for maxlen
    using s3(3) [OF c2 c(1) nd] s2(5) s1(3) fat2 [OF c(1)] s3(2) [OF c(1)]
    by (intro read_single_cluster [OF bd ok s3(1) c2 c(1) len _ _ that]) simp_all
  moreover have "cluster_at fs d' c' = cluster_at fs d c'"
    if "2 \<le> c'" "unat c' < fat_total fs" "c' \<noteq> c" "c' \<notin> set (dir_clusters fs d 1024 dir)" for c'
    using s3(3) [OF that(1,2)] s2(4) [OF that(1-3)] s1(2) data_lba_le [OF ok that(1,2)] that(4) dirs(2)
    by (intro cluster_at_cong) simp
  ultimately show ?thesis
    using c2 c fr s3(2,4) unfolding fat32_walk_dir_def by (intro exI [of _ c]) simp
qed

section \<open>Multi-cluster files\<close>

definition all_readable :: "'d fat32_t \<Rightarrow> 'd \<Rightarrow> bool" where
  "all_readable fs d \<longleftrightarrow> (\<forall>c. 2 \<le> c \<longrightarrow> unat c < fat_total fs \<longrightarrow> readable fs d c)"

text \<open>\<open>stored fs d d' prev cs src\<close>: from \<open>d\<close> to \<open>d'\<close> the bytes \<open>src\<close> were stored in the clusters \<open>cs\<close>, which were
  free, linked as one chain behind \<open>prev\<close>; nothing else changed.\<close>

definition stored :: "'d fat32_t \<Rightarrow> 'd \<Rightarrow> 'd \<Rightarrow> u32 \<Rightarrow> u32 list \<Rightarrow> bytes \<Rightarrow> bool" where
  "stored fs d d' prev cs src \<longleftrightarrow> cs \<noteq> [] \<and> distinct cs \<and> length cs \<le> length src div 512 + 1 \<and>
     (\<forall>c \<in> set cs. 2 \<le> c \<and> unat c < fat_total fs \<and> fat32_next_cluster fs c d = 0) \<and>
     file_chain fs d' (hd cs) cs \<and> take (length src) (concat (map (cluster_at fs d') cs)) = src \<and>
     (prev \<noteq> 0 \<longrightarrow> fat32_next_cluster fs prev d' = hd cs) \<and> all_readable fs d' \<and>
     (\<forall>c. unat c < fat_total fs \<longrightarrow> c \<notin> set cs \<longrightarrow> c \<noteq> prev \<longrightarrow> fat32_next_cluster fs c d' = fat32_next_cluster fs c d) \<and>
     (\<forall>c s. 2 \<le> c \<longrightarrow> unat c < fat_total fs \<longrightarrow> c \<notin> set cs \<longrightarrow> s < unat (sectors_per_cluster fs) \<longrightarrow>
        rd_blk fs (cluster_to_lba fs c + of_nat s) d' = rd_blk fs (cluster_to_lba fs c + of_nat s) d)"

lemma length_cluster_at:
  assumes "block_device fs P" "P d" "readable fs d c"
  shows "length (cluster_at fs d c) = 512 * unat (sectors_per_cluster fs)"
proof -
  have "length (sector_at fs d (cluster_to_lba fs c + of_nat s)) = 512" if "s < unat (sectors_per_cluster fs)" for s
    using that assms(3) rd_length [OF assms(1,2)] unfolding readable_def sector_at_def by (auto split: option.split)
  then have "map (\<lambda>s. length (sector_at fs d (cluster_to_lba fs c + of_nat s))) [0..<n] = replicate n 512"
    if "n \<le> unat (sectors_per_cluster fs)" for n
    using that by (intro nth_equalityI) simp_all
  then show ?thesis
    by (simp add: cluster_at_def sectors_at_def length_concat o_def sum_list_replicate)
qed

text \<open>One round of the loop: allocate \<open>c\<close>, link it, fill it.\<close>

lemma alloc_round:
  assumes bd: "block_device fs P" and ok: "fs_ok fs" and Pd: "P d" and ar: "all_readable fs d"
    and c: "2 \<le> c" "unat c < fat_total fs" and prev: "prev = 0 \<or> unat prev < fat_total fs \<and> prev \<noteq> c"
    and s: "fat_set_entry fs c 0x0FFFFFFF d = (0, d1)"
    and l: "(if prev \<noteq> 0 then fat_set_entry fs prev c d1 else (0, d1)) = (0, d2)"
    and w: "write_sectors fs True (cluster_to_lba fs c) [0..<unat (sectors_per_cluster fs)] src d2 = (0, rest, d3)"
  shows "P d3" and "all_readable fs d3" and "rest = drop (512 * unat (sectors_per_cluster fs)) src"
    and "fat32_next_cluster fs c d3 = 0x0FFFFFFF" and "prev \<noteq> 0 \<Longrightarrow> fat32_next_cluster fs prev d3 = c AND 0x0FFFFFFF"
    and "\<And>c'. unat c' < fat_total fs \<Longrightarrow> c' \<noteq> c \<Longrightarrow> c' \<noteq> prev \<Longrightarrow> fat32_next_cluster fs c' d3 = fat32_next_cluster fs c' d"
    and "\<And>c' s. 2 \<le> c' \<Longrightarrow> unat c' < fat_total fs \<Longrightarrow> c' \<noteq> c \<Longrightarrow> s < unat (sectors_per_cluster fs) \<Longrightarrow>
      rd_blk fs (cluster_to_lba fs c' + of_nat s) d3 = rd_blk fs (cluster_to_lba fs c' + of_nat s) d"
    and "\<And>i. i < unat (sectors_per_cluster fs) \<Longrightarrow> 512 * i < length src \<Longrightarrow>
      rd_blk fs (cluster_to_lba fs c + of_nat i) d3 = Some (sector_fill (drop (512 * i) src))"
proof -
  note e1 = set_entry_effect [OF bd ok Pd c(2) s]
  have "P d2 \<and> (\<forall>l. unat (data_lba fs) \<le> unat l \<longrightarrow> rd_blk fs l d2 = rd_blk fs l d1) \<and>
      (prev \<noteq> 0 \<longrightarrow> fat32_next_cluster fs prev d2 = c AND 0x0FFFFFFF) \<and>
      (\<forall>c'. unat c' < fat_total fs \<longrightarrow> c' \<noteq> prev \<longrightarrow> fat32_next_cluster fs c' d2 = fat32_next_cluster fs c' d1)"
  proof (cases "prev = 0")
    case True
    then show ?thesis using l e1(1) by simp
  next
    case False
    then have "fat_set_entry fs prev c d1 = (0, d2)" "unat prev < fat_total fs" using l prev by simp_all
    then show ?thesis using set_entry_effect [OF bd ok e1(1), of prev c d2] by blast
  qed
  then have P2: "P d2" and l2: "\<And>l. unat (data_lba fs) \<le> unat l \<Longrightarrow> rd_blk fs l d2 = rd_blk fs l d1"
    and p2: "prev \<noteq> 0 \<Longrightarrow> fat32_next_cluster fs prev d2 = c AND 0x0FFFFFFF"
    and f2: "\<And>c'. unat c' < fat_total fs \<Longrightarrow> c' \<noteq> prev \<Longrightarrow> fat32_next_cluster fs c' d2 = fat32_next_cluster fs c' d1" by blast+
  note e3 = write_cluster_effect [OF bd ok P2 c w]
  have f3: "fat32_next_cluster fs c' d3 = fat32_next_cluster fs c' d2" if "unat c' < fat_total fs" for c'
    by (rule next_cluster_frame [OF ok that e3(3)])
  have blk: "rd_blk fs (cluster_to_lba fs c' + of_nat s) d2 = rd_blk fs (cluster_to_lba fs c' + of_nat s) d"
    if "2 \<le> c'" "unat c' < fat_total fs" "s < unat (sectors_per_cluster fs)" for c' s
    using l2 e1(2) data_lba_le [OF ok that] by simp
  show "P d3" "rest = drop (512 * unat (sectors_per_cluster fs)) src" using e3(1,2) by simp_all
  show "fat32_next_cluster fs c d3 = 0x0FFFFFFF"
  proof -
    have "c \<noteq> 0" using c(1) by (auto simp: word_le_nat_alt)
    then have "c \<noteq> prev" using prev by auto
    then show ?thesis using f3 [OF c(2)] f2 [OF c(2)] e1(3) by simp
  qed
  show "fat32_next_cluster fs prev d3 = c AND 0x0FFFFFFF" if "prev \<noteq> 0"
    using p2 [OF that] f3 [of prev] prev that by auto
  show "fat32_next_cluster fs c' d3 = fat32_next_cluster fs c' d" if "unat c' < fat_total fs" "c' \<noteq> c" "c' \<noteq> prev" for c'
    using f3 [OF that(1)] f2 [OF that(1,3)] e1(4) [OF that(1,2)] by simp
  show oth: "rd_blk fs (cluster_to_lba fs c' + of_nat s) d3 = rd_blk fs (cluster_to_lba fs c' + of_nat s) d"
    if "2 \<le> c'" "unat c' < fat_total fs" "c' \<noteq> c" "s < unat (sectors_per_cluster fs)" for c' s
    using e3(4) [OF that] blk [OF that(1,2,4)] by simp
  show "rd_blk fs (cluster_to_lba fs c + of_nat i) d3 = Some (sector_fill (drop (512 * i) src))"
    if "i < unat (sectors_per_cluster fs)" "512 * i < length src" for i
    using e3(5) that by simp
  show "all_readable fs d3"
    unfolding all_readable_def readable_def
  proof (intro allI impI)
    fix c' :: u32 and s :: nat assume a: "2 \<le> c'" "unat c' < fat_total fs" "s < unat (sectors_per_cluster fs)"
    have r: "rd_blk fs (cluster_to_lba fs c' + of_nat s) d \<noteq> None"
      using ar a by (simp add: all_readable_def readable_def)
    show "rd_blk fs (cluster_to_lba fs c' + of_nat s) d3 \<noteq> None"
      using oth [OF a(1,2) _ a(3)] r e3(6) [OF a(3)] blk [OF a] by (cases "c' = c") auto
  qed
qed

lemma masked_cluster:
  assumes "fs_ok fs" "unat c < fat_total fs"
  shows "c AND 0x0FFFFFFF = c"
proof -
  have "c AND 0x0FFFFFFF = take_bit 28 c" by (simp add: take_bit_eq_mask mask_eq_exp_minus_1)
  also have "\<dots> = c"
  proof -
    have "unat c < 2 ^ 28" using assms by (simp add: fs_ok_def)
    moreover have "unat (take_bit 28 c) = take_bit 28 (unat c)" by (rule unsigned_take_bit_eq)
    ultimately have "unat (take_bit 28 c) = unat c" by (simp add: take_bit_nat_eq_self)
    then show ?thesis by (simp add: word_unat_eq_iff)
  qed
  finally show ?thesis .
qed

lemma filled_prefix:
  assumes "\<And>i. i < n \<Longrightarrow> 512 * i < length src \<Longrightarrow> f i = sector_fill (drop (512 * i) src)" "\<And>i. i < n \<Longrightarrow> length (f i) = 512"
  shows "take (min (length src) (512 * n)) (concat (map f [0..<n])) = take (512 * n) src"
  using assms
proof (induction n)
  case (Suc n)
  have ih: "take (min (length src) (512 * n)) (concat (map f [0..<n])) = take (512 * n) src" using Suc by simp
  have len: "length (concat (map f [0..<n])) = 512 * n"
  proof -
    have "map (length \<circ> f) [0..<n] = replicate n 512" using Suc.prems(2) by (intro nth_equalityI) simp_all
    then show ?thesis by (simp add: length_concat sum_list_replicate)
  qed
  show ?case
  proof (cases "512 * n < length src")
    case True
    then have fn: "f n = sector_fill (drop (512 * n) src)" using Suc.prems(1) by simp
    have 1: "concat (map f [0..<n]) = take (512 * n) src" using ih len True by (simp add: min_def)
    have "take (min (length src) (512 * Suc n)) (concat (map f [0..<n]) @ f n) =
        take (512 * n) src @ take (min (length src) (512 * Suc n) - 512 * n) (sector_fill (drop (512 * n) src))"
      unfolding 1 fn using True by (simp add: min_def)
    also have "take (min (length src) (512 * Suc n) - 512 * n) (sector_fill (drop (512 * n) src)) = take 512 (drop (512 * n) src)"
      using True by (simp add: sector_fill_def SD_BLOCK_SIZE_def min_def)
    also have "take (512 * n) src @ take 512 (drop (512 * n) src) = take (512 * Suc n) src"
      using take_add [of "512 * n" 512 src] by (simp add: add.commute)
    finally show ?thesis by simp
  next
    case False
    then show ?thesis using ih len by (simp add: min_def)
  qed
qed simp

lemma cluster_prefix:
  assumes bd: "block_device fs P" and "P d" and "readable fs d c"
    and "\<And>i. i < unat (sectors_per_cluster fs) \<Longrightarrow> 512 * i < length src \<Longrightarrow>
      rd_blk fs (cluster_to_lba fs c + of_nat i) d = Some (sector_fill (drop (512 * i) src))"
  shows "take (min (length src) (512 * unat (sectors_per_cluster fs))) (cluster_at fs d c) = take (512 * unat (sectors_per_cluster fs)) src"
  unfolding cluster_at_def sectors_at_def
proof (rule filled_prefix)
  fix i assume i: "i < unat (sectors_per_cluster fs)"
  show "sector_at fs d (cluster_to_lba fs c + of_nat i) = sector_fill (drop (512 * i) src)" if "512 * i < length src"
    using assms(4) [OF i that] by (simp add: sector_at_def)
  show "length (sector_at fs d (cluster_to_lba fs c + of_nat i)) = 512"
    using i assms(3) rd_length [OF bd assms(2)] unfolding readable_def sector_at_def by (auto split: option.split)
qed

lemma alloc_loop_effect:
  assumes bd: "block_device fs P" and ok: "fs_ok fs"
  shows "P d \<Longrightarrow> all_readable fs d \<Longrightarrow> prev = 0 \<or> unat prev < fat_total fs \<and> prev < cursor \<Longrightarrow> 2 \<le> cursor \<Longrightarrow>
    alloc_loop fs fuel first prev cursor src d = Some (0, first', d') \<Longrightarrow>
    \<exists>cs. stored fs d d' prev cs src \<and> P d' \<and> first' = (if prev \<noteq> 0 then first else hd cs) \<and> (\<forall>c \<in> set cs. cursor \<le> c)"
proof (induction fuel arbitrary: first prev cursor src d)
  case (Suc fuel)
  define n where "n = unat (sectors_per_cluster fs)"
  have n1: "1 \<le> n" using ok by (simp add: fs_ok_def n_def)
  obtain c d1 d2 rest d3 where scan: "scan_free fs d cursor = Some c" and sc: "2 \<le> sint c"
    and s1: "fat_set_entry fs c 0x0FFFFFFF d = (0, d1)"
    and s2: "(if prev \<noteq> 0 then fat_set_entry fs prev c d1 else (0, d1)) = (0, d2)"
    and w: "write_sectors fs True (cluster_to_lba fs c) [0..<unat (sectors_per_cluster fs)] src d2 = (0, rest, d3)"
    and r: "(if rest = [] then Some (0, if prev \<noteq> 0 then first else c, d3)
       else alloc_loop fs fuel (if prev \<noteq> 0 then first else c) c (c + 1) rest d3) = Some (0, first', d')"
    using Suc.prems(4,5) unfolding alloc_loop.simps fat_scan_free_from_def Let_def
    by (auto simp: leD split: option.splits if_splits prod.splits)
  have tot: "fat_total fs \<le> 0x0FFFFFF8" using ok by (simp add: fs_ok_def)
  have c: "cursor \<le> c" "2 \<le> c" "unat c < fat_total fs" "fat32_next_cluster fs c d = 0"
    using scan_free_result [OF scan Suc.prems(4)] sc tot by (auto simp: next_cluster_masked)
  have p: "prev = 0 \<or> unat prev < fat_total fs \<and> prev \<noteq> c" using Suc.prems(3) c(1) by auto
  note e = alloc_round [OF bd ok Suc.prems(1,2) c(2,3) p s1 s2 w]
  have rc: "readable fs d3 c" using e(2) c(2,3) by (simp add: all_readable_def)
  have ic: "in_chain c" using c(2,3) tot by (simp add: in_chain_def word_less_nat_alt)
  have pre: "take (min (length src) (512 * n)) (cluster_at fs d3 c) = take (512 * n) src"
    using cluster_prefix [OF bd e(1) rc e(8)] by (simp add: n_def)
  have cm: "c AND 0x0FFFFFFF = c" by (rule masked_cluster [OF ok c(3)])
  show ?case
  proof (cases "rest = []")
    case True
    then have "length src \<le> 512 * n" "d' = d3" "first' = (if prev \<noteq> 0 then first else c)" using r e(3) by (simp_all add: n_def)
    moreover have "stored fs d d3 prev [c] src"
      unfolding stored_def using c e rc ic pre cm \<open>length src \<le> 512 * n\<close>
      by (simp add: in_chain_def min_def)
    ultimately show ?thesis using e(1) c(1) by (intro exI [of _ "[c]"]) simp
  next
    case False
    have u: "unat (c + 1) = unat c + 1" using c(3) tot by (simp add: unat_add_no_wrap)
    have big: "512 * n < length src" using False e(3) by (simp add: n_def)
    have "alloc_loop fs fuel (if prev \<noteq> 0 then first else c) c (c + 1) rest d3 = Some (0, first', d')" using r False by simp
    moreover have "c = 0 \<or> unat c < fat_total fs \<and> c < c + 1" "2 \<le> c + 1" "c \<noteq> 0"
      using c(2,3) u by (auto simp: word_less_nat_alt word_le_nat_alt)
    ultimately obtain cs where cs: "stored fs d3 d' c cs rest" "P d'" "first' = (if prev \<noteq> 0 then first else c)"
      "\<forall>c' \<in> set cs. c + 1 \<le> c'"
      using Suc.IH [OF e(1,2), of c "c + 1"] by fastforce
    have ge: "c' \<noteq> c \<and> c' \<noteq> prev \<and> cursor \<le> c'" if "c' \<in> set cs" for c'
      using cs(4) that u c(1) Suc.prems(3,4) by (fastforce simp: word_less_nat_alt word_le_nat_alt)
    then have nc: "c \<notin> set cs" "prev \<notin> set cs" by blast+
    have at: "cluster_at fs d' c = take (512 * n) src"
    proof -
      have "cluster_at fs d' c = cluster_at fs d3 c"
        using cs(1) c(2,3) nc by (intro cluster_at_cong) (simp add: stored_def)
      moreover have "length (cluster_at fs d3 c) = 512 * n" using length_cluster_at [OF bd e(1) rc] by (simp add: n_def)
      ultimately show ?thesis using pre big by (simp add: min_def)
    qed
    have "stored fs d d' prev (c # cs) src"
      unfolding stored_def
    proof (intro conjI)
      show "length (c # cs) \<le> length src div 512 + 1"
      proof -
        have "length cs \<le> length rest div 512 + 1" using cs(1) by (simp add: stored_def)
        moreover have "length rest div 512 + 1 \<le> length src div 512"
        proof -
          have "length rest + 512 \<le> length src" using e(3) big n1 unfolding n_def [symmetric] by simp
          then have "(length rest + 512) div 512 \<le> length src div 512" by (rule div_le_mono)
          then show ?thesis by simp
        qed
        ultimately show ?thesis by simp
      qed
      have nx: "fat32_next_cluster fs c d' = hd cs" using cs(1) c(2) by (auto simp: stored_def word_le_nat_alt)
      show "file_chain fs d' (hd (c # cs)) (c # cs)"
        using cs(1) ic nx c(2,3) by (simp add: stored_def all_readable_def)
      show "take (length src) (concat (map (cluster_at fs d') (c # cs))) = src"
        using at cs(1) e(3) big append_take_drop_id [of "512 * n" src] by (simp add: stored_def n_def)
      show "prev \<noteq> 0 \<longrightarrow> fat32_next_cluster fs prev d' = hd (c # cs)"
        using cs(1) nc e(5) cm p by (auto simp: stored_def)
      show "\<forall>c' \<in> set (c # cs). 2 \<le> c' \<and> unat c' < fat_total fs \<and> fat32_next_cluster fs c' d = 0"
        using cs(1) c ge e(6) by (auto simp: stored_def)
      show "\<forall>c'. unat c' < fat_total fs \<longrightarrow> c' \<notin> set (c # cs) \<longrightarrow> c' \<noteq> prev \<longrightarrow> fat32_next_cluster fs c' d' = fat32_next_cluster fs c' d"
        using cs(1) e(6) by (auto simp: stored_def)
      show "\<forall>c' s. 2 \<le> c' \<longrightarrow> unat c' < fat_total fs \<longrightarrow> c' \<notin> set (c # cs) \<longrightarrow> s < unat (sectors_per_cluster fs) \<longrightarrow>
          rd_blk fs (cluster_to_lba fs c' + of_nat s) d' = rd_blk fs (cluster_to_lba fs c' + of_nat s) d"
        using cs(1) e(7) by (auto simp: stored_def)
      show "distinct (c # cs)" using cs(1) nc by (simp add: stored_def)
      show "all_readable fs d'" using cs(1) by (simp add: stored_def)
    qed simp
    then show ?thesis using cs(2,3) c(1) ge by (intro exI [of _ "c # cs"]) simp
  qed
qed simp

text \<open>Reading a chain that holds the data.\<close>

lemma read_stored_chain:
  assumes bd: "block_device fs P" and "P d" and ch: "file_chain fs d (hd cs) cs" and "cs \<noteq> []" "length cs \<le> 1048576"
    and data: "take (length buf) (concat (map (cluster_at fs d) cs)) = buf" and "length buf < 2147483648" and "length buf \<le> unat maxlen"
  shows "fat32_read_file fs (hd cs) (of_nat (length buf)) maxlen d = (int (length buf), buf)"
proof -
  have h: "in_chain (hd cs)" using ch assms(4) by (cases cs) auto
  have u: "unat (of_nat (length buf) :: u64) = length buf" using assms(7) by (simp add: unat_of_nat take_bit_nat_eq_self)
  then have "unat (min (of_nat (length buf)) maxlen) = length buf" using assms(8) by (simp add: min_def word_le_nat_alt)
  then have "read_loop fs d 1048576 (hd cs) (unat (min (of_nat (length buf)) maxlen)) [] = buf"
    using read_loop_eq [OF bd assms(2) ch assms(5), of "length buf" "[]"] data by simp
  then show ?thesis
    using h assms(7) unfolding fat32_read_file_def in_chain_def by (simp add: sint_of_nat32 Let_def leD)
qed

lemma file_chain_cong:
  "(\<And>c. c \<in> set cs \<Longrightarrow> fat32_next_cluster fs c d' = fat32_next_cluster fs c d) \<Longrightarrow>
   (\<And>c. c \<in> set cs \<Longrightarrow> readable fs d' c = readable fs d c) \<Longrightarrow>
   file_chain fs d cur cs \<Longrightarrow> file_chain fs d' cur cs"
  by (induction cs arbitrary: cur) auto

lemma alloc_loop_terminates:
  assumes ok: "fs_ok fs"
  shows "2 \<le> cursor \<Longrightarrow> fat_total fs < fuel + unat cursor \<Longrightarrow> 0 < fuel \<Longrightarrow> alloc_loop fs fuel first prev cursor src d \<noteq> None"
proof (induction fuel arbitrary: first prev cursor src d)
  case (Suc fuel)
  have tot: "fat_total fs \<le> 0x0FFFFFF8" using ok by (simp add: fs_ok_def)
  obtain c where scan: "scan_free fs d cursor = Some c" using scan_free_terminates [of fs d cursor] tot by auto
  have fs: "fat_scan_free_from fs cursor d = Some c" using scan Suc.prems(1) by (simp add: fat_scan_free_from_def leD)
  show ?case
  proof (cases "c = 0")
    case True
    then show ?thesis using fs by simp
  next
    case False
    then have c: "cursor \<le> c" "unat c < fat_total fs" using scan_free_result [OF scan Suc.prems(1)] tot by auto
    then have u: "unat (c + 1) = unat c + 1" using tot by (simp add: unat_add_no_wrap)
    have "2 \<le> c + 1" "fat_total fs < fuel + unat (c + 1)" "0 < fuel"
      using c u Suc.prems by (auto simp: word_le_nat_alt)
    then have "alloc_loop fs fuel f p (c + 1) r x \<noteq> None" for f p r x by (rule Suc.IH)
    then show ?thesis using fs by (auto simp: Let_def split: prod.splits)
  qed
qed simp

lemma write_full_cases:
  assumes "fat32_write_file_full fs fuel name data d = Some (0, d')"
    and "search_dir fs (entry_named (name_to_8_3 name)) 1024 (root_cluster fs) d = Inr None"
  obtains first d2 sec off b b2 where "alloc_loop fs fuel 0 0 2 data d = Some (0, first, d2)"
    "search_dir fs entry_free 1024 (root_cluster fs) d2 = Inr (Some (sec, off, b))"
    "rd_blk fs sec d2 = Some b2" "wr_blk fs sec (put_entry b2 off (name_to_8_3 name) first (of_nat (length data))) d2 = Some d'"
  using assms unfolding fat32_write_file_full_def Let_def commit_entry_def
  by (auto split: option.splits if_splits prod.splits sum.splits)

text \<open>C5: a new multi-cluster file (the path a kernel update takes) can be found and read back. When
  fat32_write_file_full reports success for a name not yet in the root directory, the data sit in a
  chain of distinct clusters that were all free before; the root listing shows the entry; reading it
  back returns exactly the data; every other FAT entry and every cluster outside the directory is
  unchanged. And with fat_total rounds of fuel the allocation loop always ends.\<close>

theorem fat32_write_full_read:
  assumes bd: "block_device fs P" and ok: "fs_ok fs" and Pd: "P d" and ar: "all_readable fs d"
    and dir: "dir_ok fs d 1024 (root_cluster fs)"
    and name: "hd (name_to_8_3 name) \<noteq> 0" "hd (name_to_8_3 name) \<noteq> 0xE5" "\<not> is_dot (format_8_3 (name_to_8_3 name) 16)"
    and new: "search_dir fs (entry_named (name_to_8_3 name)) 1024 (root_cluster fs) d = Inr None"
    and len: "length data < 536870400"
    and w: "fat32_write_file_full fs fuel name data d = Some (0, d')"
  shows "\<exists>cs. cs \<noteq> [] \<and> distinct cs \<and> (\<forall>c \<in> set cs. fat32_next_cluster fs c d = 0) \<and>
    (\<forall>maxlen. length data \<le> unat maxlen \<longrightarrow>
       fat32_read_file fs (hd cs) (of_nat (length data)) maxlen d' = (int (length data), data)) \<and>
    \<lparr>de_name = format_8_3 (name_to_8_3 name) 16, de_is_dir = False, de_size = ucast (of_nat (length data) :: u32), de_first = hd cs\<rparr>
      \<in> set (fst (fat32_walk_dir fs (root_cluster fs) d')) \<and>
    (\<forall>c. unat c < fat_total fs \<longrightarrow> c \<notin> set cs \<longrightarrow> c \<noteq> 0 \<longrightarrow> fat32_next_cluster fs c d' = fat32_next_cluster fs c d) \<and>
    (\<forall>c. 2 \<le> c \<longrightarrow> unat c < fat_total fs \<longrightarrow> c \<notin> set cs \<longrightarrow> c \<notin> set (dir_clusters fs d 1024 (root_cluster fs)) \<longrightarrow>
       cluster_at fs d' c = cluster_at fs d c) \<and>
    alloc_loop fs (fat_total fs + 1) 0 0 2 data d \<noteq> None"
proof -
  from w new obtain first d2 sec off b b2 where al: "alloc_loop fs fuel 0 0 2 data d = Some (0, first, d2)"
    and srch: "search_dir fs entry_free 1024 (root_cluster fs) d2 = Inr (Some (sec, off, b))"
    and b2: "rd_blk fs sec d2 = Some b2"
    and wr: "wr_blk fs sec (put_entry b2 off (name_to_8_3 name) first (of_nat (length data))) d2 = Some d'"
    by (rule write_full_cases)
  obtain cs where cs: "stored fs d d2 0 cs data" "P d2" "first = hd cs"
    using alloc_loop_effect [OF bd ok Pd ar _ _ al] by auto
  have b: "b2 = b" using search_dir_some [OF srch] b2 by auto
  have two: "c \<noteq> 0" if "2 \<le> c" for c :: u32 using that by (auto simp: word_le_nat_alt)
  have fat2: "fat32_next_cluster fs c d2 = fat32_next_cluster fs c d" if "unat c < fat_total fs" "c \<notin> set cs" "c \<noteq> 0" for c
    using cs(1) that by (simp add: stored_def)
  have cl: "2 \<le> c \<and> unat c < fat_total fs \<and> fat32_next_cluster fs c d = 0" if "c \<in> set cs" for c
    using cs(1) that by (simp add: stored_def)
  have dirs: "dir_ok fs d2 1024 (root_cluster fs)"
    "dir_clusters fs d2 1024 (root_cluster fs) = dir_clusters fs d 1024 (root_cluster fs)"
    using dir_frame2 [OF _ dir, of d2] fat2 cl two by metis+
  note s3 = add_entry_effect [OF bd ok cs(2) dirs(1) name length_name_to_8_3 _ srch wr [unfolded b], of "\<lambda>_ _. False"]
  have nd: "c \<notin> set (dir_clusters fs d2 1024 (root_cluster fs))" if "c \<in> set cs" for c
    using dir_clusters_ok [OF dir, of c] cl [OF that] dirs(2) by auto
  have blk: "rd_blk fs (cluster_to_lba fs c + of_nat s) d' = rd_blk fs (cluster_to_lba fs c + of_nat s) d2"
    if "c \<in> set cs" "s < unat (sectors_per_cluster fs)" for c s
    using s3(3) cl [OF that(1)] nd [OF that(1)] that(2) by simp
  have at: "cluster_at fs d' c = cluster_at fs d2 c" if "c \<in> set cs" for c using blk that by (intro cluster_at_cong) simp
  have "file_chain fs d2 (hd cs) cs" using cs(1) by (simp add: stored_def)
  then have ch: "file_chain fs d' (hd cs) cs"
    using s3(2) cl blk by (intro file_chain_cong [of cs fs d' d2]) (simp_all add: readable_def)
  have mp: "map (cluster_at fs d') cs = map (cluster_at fs d2) cs" using at by (intro map_cong) simp_all
  have data: "take (length data) (concat (map (cluster_at fs d') cs)) = data" unfolding mp using cs(1) by (simp add: stored_def)
  have "length cs \<le> length data div 512 + 1" "cs \<noteq> []" "distinct cs" using cs(1) by (simp_all add: stored_def)
  moreover from this have "length cs \<le> 1048576" using len by linarith
  ultimately have rdf: "fat32_read_file fs (hd cs) (of_nat (length data)) maxlen d' = (int (length data), data)"
    if "length data \<le> unat maxlen" for maxlen
    using len that by (intro read_stored_chain [OF bd s3(1) ch _ _ data]) simp_all
  have "cluster_at fs d' c = cluster_at fs d c"
    if "2 \<le> c" "unat c < fat_total fs" "c \<notin> set cs" "c \<notin> set (dir_clusters fs d 1024 (root_cluster fs))" for c
    using s3(3) [OF _ that(1,2)] cs(1) that dirs(2) by (intro cluster_at_cong) (simp add: stored_def)
  moreover have "alloc_loop fs (fat_total fs + 1) 0 0 2 data d \<noteq> None" by (rule alloc_loop_terminates [OF ok]) simp_all
  ultimately show ?thesis
    using cs(1,3) rdf cl fat2 s3(2,4) unfolding fat32_walk_dir_def by (intro exI [of _ cs]) (simp add: stored_def)
qed

section \<open>A RAM disk\<close>

text \<open>A device that never fails, and a small empty volume on it: one FAT sector at block 1, the root
  directory in cluster 2 at block 2.\<close>

type_synonym ramdisk = "u64 \<Rightarrow> bytes"

definition ram_fs :: "ramdisk fat32_t" where
  "ram_fs = \<lparr>bytes_per_sector = 512, sectors_per_cluster = 1, reserved_sectors = 1, num_fats = 1,
     sectors_per_fat = 1, root_cluster = 2, part_lba = 0, fat_lba = 1, data_lba = 2,
     rd_blk = (\<lambda>l d. Some (d l)), wr_blk = (\<lambda>l b d. Some (d(l := b)))\<rparr>"

definition ram_ok :: "ramdisk \<Rightarrow> bool" where
  "ram_ok d \<longleftrightarrow> (\<forall>l. length (d l) = 512)"

definition ram_fat :: bytes where
  "ram_fat = [0xF8, 0xFF, 0xFF, 0x0F, 0xFF, 0xFF, 0xFF, 0x0F, 0xFF, 0xFF, 0xFF, 0x0F] @ replicate 500 0"

definition ram_empty :: ramdisk where
  "ram_empty = (\<lambda>l. if l = 1 then ram_fat else replicate 512 0)"

lemma ram_device: "block_device ram_fs ram_ok"
  by (auto simp: block_device_def ram_fs_def ram_ok_def)

lemma ram_fs_ok: "fs_ok ram_fs"
  by (simp add: fs_ok_def ram_fs_def fat_total_def SD_BLOCK_SIZE_def)

lemma ram_empty_ok: "ram_ok ram_empty"
  by (simp add: ram_ok_def ram_empty_def ram_fat_def)

lemma ram_next:
  "fat32_next_cluster ram_fs c d = le32 (d (1 + fat_sector c)) (fat_off c) AND 0x0FFFFFFF"
  by (simp add: fat32_next_cluster_def ram_fs_def)

lemma ram_total: "fat_total ram_fs = 128" by (simp add: fat_total_def ram_fs_def SD_BLOCK_SIZE_def)

lemma ram_blocks: "fat_sector 2 = 0" "fat_off 2 = 8" "fat_sector 3 = 0" "fat_off 3 = 12" "fat_sector 4 = 0" "fat_off 4 = 16"
  by (simp_all add: fat_sector_def fat_off_def)

lemma ram_entries:
  "fat32_next_cluster ram_fs 2 ram_empty = 0x0FFFFFFF" "fat32_next_cluster ram_fs 3 ram_empty = 0"
  "fat32_next_cluster ram_fs 4 ram_empty = 0"
  by (simp_all add: ram_next ram_blocks ram_empty_def ram_fat_def le32_def)

lemma ram_dir: "dir_ok ram_fs ram_empty 1024 2"
proof -
  have "dir_ok ram_fs ram_empty (Suc (Suc n)) 2" for n by (simp add: ram_entries ram_total in_chain_def)
  from this [of 1022] show ?thesis by simp
qed

lemma ram_scan: "fat_find_free ram_fs ram_empty = Some 3"
  unfolding fat_find_free_def by (subst scan_free.simps, subst scan_free.simps) (simp add: ram_total ram_entries)

lemma ram_set_entry:
  "fat_sector c = 0 \<Longrightarrow> fat_set_entry ram_fs c v d = (0, d(1 := fat_patch (d 1) (fat_off c) v))"
  by (simp add: fat_set_entry_def ram_fs_def)

lemma ram_lba: "cluster_to_lba ram_fs c = 2 + ucast (c - 2)"
  by (simp add: cluster_to_lba_def ram_fs_def)

lemma ram_fields:
  "sectors_per_cluster ram_fs = 1" "rd_blk ram_fs = (\<lambda>l d. Some (d l))" "wr_blk ram_fs = (\<lambda>l b d. Some (d(l := b)))"
  "root_cluster ram_fs = 2"
  by (simp_all add: ram_fs_def)

lemma ram_search_root:
  assumes "d 2 = replicate 512 0" "P (replicate 512 0) 0"
  shows "search_dir ram_fs P 1024 2 d = Inr (Some (2, 0, replicate 512 0))"
proof -
  have offs: "entry_offsets = 0 # map (\<lambda>i. 32 * i) [1..<16]" by (simp add: entry_offsets_def upt_conv_Cons)
  have "search_dir ram_fs P (Suc n) 2 d = Inr (Some (2, 0, replicate 512 0))" for n
    using assms by (simp add: in_chain_def ram_lba offs ram_fields)
  from this [of 1023] show ?thesis by simp
qed

definition ram_name :: bytes where "ram_name = [0x61, 0x2E, 0x74]"

lemma ram_raw: "name_to_8_3 ram_name = [0x41, 0x20, 0x20, 0x20, 0x20, 0x20, 0x20, 0x20, 0x54, 0x20, 0x20]"
  by code_simp

lemma ram_raw_ok: "hd (name_to_8_3 ram_name) \<noteq> 0" "hd (name_to_8_3 ram_name) \<noteq> 0xE5"
  "\<not> is_dot (format_8_3 (name_to_8_3 ram_name) 16)"
  by (simp_all add: ram_raw is_dot_def format_8_3_def)

lemma ram_write: "\<exists>d'. fat32_write_file ram_fs 2 ram_name [1, 2, 3] ram_empty = Some (0, d')"
proof -
  have e: "ram_empty 2 = replicate 512 0" by (simp add: ram_empty_def)
  show ?thesis
    unfolding fat32_write_file_def
    by (simp add: ram_scan ram_set_entry ram_blocks ram_fields ram_lba SD_BLOCK_SIZE_def e ram_search_root entry_free_def)
qed

lemma ram_no_entry:
  "search_dir ram_fs (entry_named (name_to_8_3 ram_name)) 1024 2 ram_empty = Inr None"
proof -
  have "\<not> entry_named (name_to_8_3 ram_name) (replicate 512 0) off" if "off \<in> set entry_offsets" for off
  proof -
    have "off \<le> 480" using that by (auto simp: entry_offsets_def)
    then have "hd (segm (replicate 512 (0 :: u8)) off 11) = 0" by (simp add: segm_def)
    then show ?thesis by (auto simp: entry_named_def entry_matches_def ram_raw)
  qed
  then have f: "find (entry_named (name_to_8_3 ram_name) (replicate 512 0)) entry_offsets = None"
    by (simp add: find_None_iff)
  have e: "ram_empty 2 = replicate 512 0" by (simp add: ram_empty_def)
  have "search_dir ram_fs (entry_named (name_to_8_3 ram_name)) (Suc (Suc n)) 2 ram_empty = Inr None" for n
    by (simp add: in_chain_def ram_lba ram_fields e f ram_entries)
  from this [of 1022] show ?thesis by simp
qed

definition ram_data :: bytes where "ram_data = replicate 600 7"

lemma ram_scan3: "fat_scan_free_from ram_fs 2 ram_empty = Some 3"
  using ram_scan by (simp add: fat_scan_free_from_def fat_find_free_def)

lemma ram_scan4:
  assumes "d 1 = fat_patch ram_fat 12 v"
  shows "fat_scan_free_from ram_fs 4 d = Some 4"
proof -
  have "fat32_next_cluster ram_fs 4 d = 0"
    by (simp add: ram_next ram_blocks assms fat_patch_def ram_fat_def le32_def)
  then show ?thesis unfolding fat_scan_free_from_def by (subst scan_free.simps) (simp add: ram_total)
qed

lemma ram_write_full: "\<exists>d'. fat32_write_file_full ram_fs 129 ram_name ram_data ram_empty = Some (0, d')"
proof -
  have e: "ram_empty 2 = replicate 512 0" "ram_empty 1 = ram_fat" by (simp_all add: ram_empty_def)
  have "\<exists>d'. alloc_loop ram_fs (Suc (Suc n)) 0 0 2 ram_data ram_empty = Some (0, 3, d') \<and> d' 2 = replicate 512 0" for n
    by (simp add: ram_scan3 ram_scan4 ram_set_entry ram_blocks ram_fields ram_lba SD_BLOCK_SIZE_def ram_data_def e Let_def)
  from this [of 127] obtain d' where "alloc_loop ram_fs 129 0 0 2 ram_data ram_empty = Some (0, 3, d')" "d' 2 = replicate 512 0"
    by auto
  then show ?thesis
    unfolding fat32_write_file_full_def
    by (simp add: ram_no_entry ram_fields ram_search_root entry_free_def commit_entry_def)
qed

lemma ram_all_readable: "all_readable ram_fs d"
  by (simp add: all_readable_def readable_def ram_fields)

theorem fat32_write_read_witness:
  "\<exists>d' c. fat32_write_file ram_fs 2 ram_name [1, 2, 3] ram_empty = Some (0, d') \<and>
     fat32_read_file ram_fs c 3 100 d' = (3, [1, 2, 3])"
proof -
  obtain d' where w: "fat32_write_file ram_fs 2 ram_name [1, 2, 3] ram_empty = Some (0, d')" using ram_write by blast
  from fat32_write_read [OF ram_device ram_fs_ok ram_empty_ok ram_dir ram_raw_ok w]
  obtain c where "\<forall>maxlen. length [1, 2, 3 :: u8] \<le> unat maxlen \<longrightarrow>
      fat32_read_file ram_fs c (of_nat (length [1, 2, 3 :: u8])) maxlen d' = (int (length [1, 2, 3 :: u8]), [1, 2, 3])"
    by blast
  from this [THEN spec, of 100] have "fat32_read_file ram_fs c 3 100 d' = (3, [1, 2, 3])" by simp
  then show ?thesis using w by blast
qed

theorem fat32_write_full_read_witness:
  "\<exists>d' c. fat32_write_file_full ram_fs 129 ram_name ram_data ram_empty = Some (0, d') \<and>
     fat32_read_file ram_fs c 600 1000 d' = (600, ram_data)"
proof -
  obtain d' where w: "fat32_write_file_full ram_fs 129 ram_name ram_data ram_empty = Some (0, d')" using ram_write_full by blast
  have len: "length ram_data = 600" by (simp add: ram_data_def)
  have dir: "dir_ok ram_fs ram_empty 1024 (root_cluster ram_fs)"
    and new: "search_dir ram_fs (entry_named (name_to_8_3 ram_name)) 1024 (root_cluster ram_fs) ram_empty = Inr None"
    unfolding ram_fields by (rule ram_dir, rule ram_no_entry)
  have "length ram_data < 536870400" by (simp add: len)
  from fat32_write_full_read [OF ram_device ram_fs_ok ram_empty_ok ram_all_readable dir ram_raw_ok new this w]
  obtain cs where "\<forall>maxlen. length ram_data \<le> unat maxlen \<longrightarrow>
      fat32_read_file ram_fs (hd cs) (of_nat (length ram_data)) maxlen d' = (int (length ram_data), ram_data)"
    by blast
  from this [THEN spec, of 1000] have "fat32_read_file ram_fs (hd cs) 600 1000 d' = (600, ram_data)" by (simp add: len)
  then show ?thesis using w by blast
qed

end
