(* ===== verification/Vfs.thy ===== *)
theory Vfs
  imports Prelude
begin

text \<open>
  The in-memory file system of \<open>fs/vfs.c\<close>. The nodes form a store indexed by addresses, with the
  parent, first-child and next-sibling pointers of the C struct; the root is a static node. \<open>kmalloc\<close>
  is the parameter \<open>km\<close>: for a request size and the current state it gives the address of a block or
  \<open>None\<close>. Loops over pointers are partial functions, so that a cyclic list would be the value \<open>None\<close>.
  Names and paths are non-null byte lists without their terminating zero.
\<close>

section \<open>Nodes\<close>

datatype vfs_kind_t = VFS_DIR | VFS_FILE

type_synonym vid = nat

record vfs_node_t =
  nname :: bytes
  kind :: vfs_kind_t
  nsize :: u64
  capacity :: u64
  ndata :: "bytes option"
  fat_cluster :: u32
  parent :: "vid option"
  children :: "vid option"
  sibling :: "vid option"

record vfs =
  vnode :: "vid \<Rightarrow> vfs_node_t"
  g_node_count :: u64

type_synonym kmalloc_fn = "u64 \<Rightarrow> vfs \<Rightarrow> vid option"

definition VFS_NAME_MAX :: nat where "VFS_NAME_MAX = 31"
definition SLASH :: u8 where "SLASH = 0x2F"
definition sizeof_vfs_node_t :: u64 where "sizeof_vfs_node_t = 96"

definition g_root :: vid where "g_root = 0"

definition root_node :: vfs_node_t where
  "root_node = \<lparr>nname = [], kind = VFS_DIR, nsize = 0, capacity = 0, ndata = None, fat_cluster = 0,
     parent = None, children = None, sibling = None\<rparr>"

definition vfs_boot :: vfs where
  "vfs_boot = \<lparr>vnode = (\<lambda>_. root_node), g_node_count = 1\<rparr>"

definition vfs_root :: vid where "vfs_root = g_root"

definition vfs_node_count :: "vfs \<Rightarrow> u64" where "vfs_node_count v = g_node_count v"

definition upd :: "vid \<Rightarrow> (vfs_node_t \<Rightarrow> vfs_node_t) \<Rightarrow> vfs \<Rightarrow> vfs" where
  "upd x f v = v\<lparr>vnode := (vnode v)(x := f (vnode v x))\<rparr>"

section \<open>Total size\<close>

text \<open>The stack of \<open>vfs_total_file_bytes\<close>, top first. Children that do not fit into its 64 slots are
  dropped, as in the code.\<close>

partial_function (option) push_children :: "vfs \<Rightarrow> vid option \<Rightarrow> vid list \<Rightarrow> vid list option" where
  "push_children v c stack =
     (case c of
        None \<Rightarrow> Some stack
      | Some x \<Rightarrow> if length stack < 64 then push_children v (sibling (vnode v x)) (x # stack) else Some stack)"

partial_function (option) total_loop :: "vfs \<Rightarrow> vid list \<Rightarrow> u64 \<Rightarrow> u64 option" where
  "total_loop v stack acc =
     (case stack of
        [] \<Rightarrow> Some acc
      | n # rest \<Rightarrow>
          (case push_children v (children (vnode v n)) rest of
             None \<Rightarrow> None
           | Some stack' \<Rightarrow> total_loop v stack' (if kind (vnode v n) = VFS_FILE then acc + nsize (vnode v n) else acc)))"

definition vfs_total_file_bytes :: "vfs \<Rightarrow> u64 option" where
  "vfs_total_file_bytes v = total_loop v [g_root] 0"

section \<open>Lookup and creation of children\<close>

fun str_eq :: "bytes \<Rightarrow> bytes \<Rightarrow> bool" where
  "str_eq (a # as) (b # bs) = (if a = b then str_eq as bs else False)"
| "str_eq as bs = (as = [] \<and> bs = [])"

definition str_copy :: "bytes \<Rightarrow> nat \<Rightarrow> bytes" where
  "str_copy src max' = take (max' - 1) src"

partial_function (option) find_loop :: "vfs \<Rightarrow> bytes \<Rightarrow> vid option \<Rightarrow> vid option option" where
  "find_loop v name c =
     (case c of
        None \<Rightarrow> Some None
      | Some x \<Rightarrow> if str_eq (nname (vnode v x)) name then Some (Some x) else find_loop v name (sibling (vnode v x)))"

definition find_child :: "vid option \<Rightarrow> bytes \<Rightarrow> vfs \<Rightarrow> vid option option" where
  "find_child par name v =
     (case par of
        None \<Rightarrow> Some None
      | Some p \<Rightarrow> if kind (vnode v p) \<noteq> VFS_DIR then Some None else find_loop v name (children (vnode v p)))"

partial_function (option) last_sibling :: "vfs \<Rightarrow> vid \<Rightarrow> vid option" where
  "last_sibling v t = (case sibling (vnode v t) of None \<Rightarrow> Some t | Some t' \<Rightarrow> last_sibling v t')"

definition init_node :: "vfs_kind_t \<Rightarrow> bytes \<Rightarrow> vid option \<Rightarrow> vfs_node_t" where
  "init_node k name par = \<lparr>nname = str_copy name (VFS_NAME_MAX + 1), kind = k, nsize = 0, capacity = 0, ndata = None,
     fat_cluster = 0, parent = par, children = None, sibling = None\<rparr>"

definition new_node :: "kmalloc_fn \<Rightarrow> vfs_kind_t \<Rightarrow> bytes \<Rightarrow> vid option \<Rightarrow> vfs \<Rightarrow> (vid option \<times> vfs) option" where
  "new_node km k name par v =
     (case km sizeof_vfs_node_t v of
        None \<Rightarrow> Some (None, v)
      | Some n \<Rightarrow>
          let v = upd n (\<lambda>_. init_node k name par) v in
          (case par of
             None \<Rightarrow> Some (Some n, v\<lparr>g_node_count := g_node_count v + 1\<rparr>)
           | Some p \<Rightarrow>
               (case children (vnode v p) of
                  None \<Rightarrow>
                    let v = upd p (\<lambda>x. x\<lparr>children := Some n\<rparr>) v
                    in Some (Some n, v\<lparr>g_node_count := g_node_count v + 1\<rparr>)
                | Some c \<Rightarrow>
                    (case last_sibling v c of
                       None \<Rightarrow> None
                     | Some t \<Rightarrow>
                         let v = upd t (\<lambda>x. x\<lparr>sibling := Some n\<rparr>) v
                         in Some (Some n, v\<lparr>g_node_count := g_node_count v + 1\<rparr>)))))"

definition create_child :: "kmalloc_fn \<Rightarrow> vfs_kind_t \<Rightarrow> vid option \<Rightarrow> bytes \<Rightarrow> vfs \<Rightarrow> (vid option \<times> vfs) option" where
  "create_child km k par name v =
     (case par of
        None \<Rightarrow> Some (None, v)
      | Some p \<Rightarrow>
          if kind (vnode v p) \<noteq> VFS_DIR then Some (None, v)
          else (case find_child par name v of
                  None \<Rightarrow> None
                | Some (Some c) \<Rightarrow> Some (None, v)
                | Some None \<Rightarrow> new_node km k name par v))"

definition vfs_mkdir :: "kmalloc_fn \<Rightarrow> vid option \<Rightarrow> bytes \<Rightarrow> vfs \<Rightarrow> (vid option \<times> vfs) option" where
  "vfs_mkdir km = create_child km VFS_DIR"

definition vfs_create_file :: "kmalloc_fn \<Rightarrow> vid option \<Rightarrow> bytes \<Rightarrow> vfs \<Rightarrow> (vid option \<times> vfs) option" where
  "vfs_create_file km = create_child km VFS_FILE"

section \<open>Reading and writing\<close>

text \<open>A grown buffer is uninitialised; all of it is then overwritten, since \<open>capacity = len\<close>.\<close>

definition vfs_write :: "kmalloc_fn \<Rightarrow> vid option \<Rightarrow> bytes \<Rightarrow> vfs \<Rightarrow> int \<times> vfs" where
  "vfs_write km file buf v =
     (case file of
        None \<Rightarrow> (-1, v)
      | Some f \<Rightarrow>
          if kind (vnode v f) \<noteq> VFS_FILE then (-1, v)
          else let len = of_nat (length buf) :: u64; x = vnode v f in
            if capacity x < len
            then (case km len v of
                    None \<Rightarrow> (-1, v)
                  | Some nb \<Rightarrow> (0, upd f (\<lambda>x. x\<lparr>ndata := Some buf, capacity := len, nsize := len\<rparr>) v))
            else (0, upd f (\<lambda>x. x\<lparr>ndata := map_option (\<lambda>d. put_bytes d 0 buf) (ndata x), nsize := len\<rparr>) v))"

definition vfs_write_str :: "kmalloc_fn \<Rightarrow> vid option \<Rightarrow> bytes \<Rightarrow> vfs \<Rightarrow> int \<times> vfs" where
  "vfs_write_str km file s v = vfs_write km file (takeWhile (\<lambda>c. c \<noteq> 0) s) v"

type_synonym load_hook = "vid \<Rightarrow> vfs \<Rightarrow> vfs"

definition vfs_set_load_hook :: "load_hook option \<Rightarrow> load_hook option \<Rightarrow> load_hook option" where
  "vfs_set_load_hook fn g_load_hook = fn"

text \<open>\<open>vfs_read\<close> with the registered load hook, or \<open>None\<close> when none is set. The result \<open>None\<close> is a read
  through the null data pointer or past its buffer.\<close>

definition vfs_read ::
  "load_hook option \<Rightarrow> vid option \<Rightarrow> u64 \<Rightarrow> vfs \<Rightarrow> (int \<times> bytes \<times> vfs) option" where
  "vfs_read g_load_hook file max' v =
     (case file of
        None \<Rightarrow> Some (-1, [], v)
      | Some f \<Rightarrow>
          if kind (vnode v f) \<noteq> VFS_FILE then Some (-1, [], v)
          else let v = (case g_load_hook of
                          Some hook \<Rightarrow> if ndata (vnode v f) = None \<and> 0 < nsize (vnode v f) then hook f v else v
                        | None \<Rightarrow> v);
                   n = min (nsize (vnode v f)) max'
               in if n = 0 then Some (0, [], v)
                  else (case ndata (vnode v f) of
                          None \<Rightarrow> None
                        | Some d \<Rightarrow> if unat n \<le> length d then Some (sint (ucast n :: u32), take (unat n) d, v) else None))"

section \<open>Paths\<close>

text \<open>The inner loop that copies the next path component: at most \<open>VFS_NAME_MAX\<close> bytes up to a slash.\<close>

fun take_name :: "nat \<Rightarrow> bytes \<Rightarrow> bytes \<times> bytes" where
  "take_name (Suc i) (c # p) = (if c = SLASH then ([], c # p) else (case take_name i p of (n, q) \<Rightarrow> (c # n, q)))"
| "take_name i p = ([], p)"

definition skip_slash :: "bytes \<Rightarrow> bytes" where
  "skip_slash p = (case p of c # q \<Rightarrow> if c = SLASH then q else p | [] \<Rightarrow> [])"

definition is_last :: "bytes \<Rightarrow> bool" where
  "is_last p \<longleftrightarrow> (\<forall>c \<in> set p. c = SLASH)"

lemma take_name_length: "take_name i p = (n, q) \<Longrightarrow> length p = length n + length q"
  by (induction i p arbitrary: n q rule: take_name.induct) (auto split: if_splits prod.splits)

lemma name_step_less:
  assumes "take_name VFS_NAME_MAX (c # p) = (n, q)"
  shows "length (skip_slash q) < length (c # p)"
proof (cases "c = SLASH")
  case True
  then show ?thesis using assms by (auto simp: VFS_NAME_MAX_def skip_slash_def numeral_eq_Suc)
next
  case False
  then have "n \<noteq> []" using assms by (auto simp: VFS_NAME_MAX_def numeral_eq_Suc split: prod.splits)
  then show ?thesis using take_name_length [OF assms] by (auto simp: skip_slash_def split: list.splits)
qed

function lookup_loop :: "vfs \<Rightarrow> vid \<Rightarrow> bytes \<Rightarrow> vid option option" where
  "lookup_loop v cur p =
     (if p = [] then Some (Some cur)
      else (case take_name VFS_NAME_MAX p of (name, q) \<Rightarrow>
        if name = [] then lookup_loop v cur (skip_slash q)
        else (case find_child (Some cur) name v of
                None \<Rightarrow> None
              | Some None \<Rightarrow> Some None
              | Some (Some c) \<Rightarrow> lookup_loop v c (skip_slash q))))"
  by pat_completeness auto
termination
  by (relation "measure (\<lambda>(v, cur, p). length p)") (auto simp: neq_Nil_conv dest!: name_step_less [OF sym])

declare lookup_loop.simps [simp del]

definition vfs_lookup :: "bytes \<Rightarrow> vfs \<Rightarrow> vid option option" where
  "vfs_lookup path v =
     (case path of c # p \<Rightarrow> if c = SLASH then lookup_loop v g_root p else Some None | [] \<Rightarrow> Some None)"

function resolve_loop :: "kmalloc_fn \<Rightarrow> bool \<Rightarrow> vid \<Rightarrow> bytes \<Rightarrow> vfs \<Rightarrow> (vid option \<times> vfs) option" where
  "resolve_loop km last_is_file cur p v =
     (if p = [] then Some (Some cur, v)
      else (case take_name VFS_NAME_MAX p of (name, q) \<Rightarrow>
        if name = [] then resolve_loop km last_is_file cur (skip_slash q) v
        else (case find_child (Some cur) name v of
                None \<Rightarrow> None
              | Some None \<Rightarrow>
                  (case new_node km (if is_last q \<and> last_is_file then VFS_FILE else VFS_DIR) name (Some cur) v of
                     None \<Rightarrow> None
                   | Some (None, v) \<Rightarrow> Some (None, v)
                   | Some (Some c, v) \<Rightarrow> resolve_loop km last_is_file c (skip_slash q) v)
              | Some (Some c) \<Rightarrow>
                  if \<not> is_last q \<and> kind (vnode v c) \<noteq> VFS_DIR then Some (None, v)
                  else resolve_loop km last_is_file c (skip_slash q) v)))"
  by pat_completeness auto
termination
  by (relation "measure (\<lambda>(km, f, cur, p, v). length p)") (auto simp: neq_Nil_conv dest!: name_step_less [OF sym])

declare resolve_loop.simps [simp del]

definition resolve_create :: "kmalloc_fn \<Rightarrow> bytes \<Rightarrow> bool \<Rightarrow> vfs \<Rightarrow> (vid option \<times> vfs) option" where
  "resolve_create km path last_is_file v =
     (case path of c # p \<Rightarrow> if c = SLASH then resolve_loop km last_is_file g_root p v else Some (None, v)
      | [] \<Rightarrow> Some (None, v))"

definition vfs_mkdir_p :: "kmalloc_fn \<Rightarrow> bytes \<Rightarrow> vfs \<Rightarrow> (vid option \<times> vfs) option" where
  "vfs_mkdir_p km path = resolve_create km path False"

definition vfs_create_path :: "kmalloc_fn \<Rightarrow> bytes \<Rightarrow> vfs \<Rightarrow> (vid option \<times> vfs) option" where
  "vfs_create_path km path = resolve_create km path True"

section \<open>Walking the tree\<close>

text \<open>The calls of the visitor, as pairs of depth and node.\<close>

partial_function (option) walk_children :: "vfs \<Rightarrow> int \<Rightarrow> vid option \<Rightarrow> (int \<times> vid) list option" where
  "walk_children v depth c =
     (case c of
        None \<Rightarrow> Some []
      | Some x \<Rightarrow> do {
          sub \<leftarrow> walk_children v (depth + 1) (children (vnode v x));
          rest \<leftarrow> walk_children v depth (sibling (vnode v x));
          Some ((depth, x) # sub @ rest)
        })"

definition vfs_walk :: "vfs \<Rightarrow> vid option \<Rightarrow> int \<Rightarrow> (int \<times> vid) list option" where
  "vfs_walk v node depth =
     (case node of
        None \<Rightarrow> Some []
      | Some n \<Rightarrow> do {
          sub \<leftarrow> walk_children v (depth + 1) (children (vnode v n));
          Some ((depth, n) # sub)
        })"

section \<open>Well-formed trees\<close>

text \<open>The nodes in use: those the root reaches through child and sibling pointers.\<close>

inductive_set vlive :: "vfs \<Rightarrow> vid set" for v where
  root: "g_root \<in> vlive v"
| child: "x \<in> vlive v \<Longrightarrow> children (vnode v x) = Some y \<Longrightarrow> y \<in> vlive v"
| sib: "x \<in> vlive v \<Longrightarrow> sibling (vnode v x) = Some y \<Longrightarrow> y \<in> vlive v"

text \<open>What \<open>kmalloc\<close> promises: a block it hands out is not in use.\<close>

definition km_fresh :: "kmalloc_fn \<Rightarrow> bool" where
  "km_fresh km \<longleftrightarrow> (\<forall>n v x. km n v = Some x \<longrightarrow> x \<notin> vlive v)"

definition members :: "(vid \<Rightarrow> vid list) \<Rightarrow> vid set" where
  "members K = insert g_root (\<Union>d. set (K d))"

definition data_ok :: "vfs_node_t \<Rightarrow> bool" where
  "data_ok x \<longleftrightarrow>
     (case ndata x of None \<Rightarrow> capacity x = 0 | Some d \<Rightarrow> length d = unat (capacity x) \<and> nsize x \<le> capacity x)"

text \<open>The tree represented by the pointers: \<open>K d\<close> lists the children of \<open>d\<close>, \<open>h\<close> is the depth.\<close>

definition tree_ok :: "vfs \<Rightarrow> (vid \<Rightarrow> vid list) \<Rightarrow> (vid \<Rightarrow> nat) \<Rightarrow> bool" where
  "tree_ok v K h \<longleftrightarrow>
     finite (members K) \<and> g_node_count v = of_nat (card (members K)) \<and> kind (vnode v g_root) = VFS_DIR \<and>
     sibling (vnode v g_root) = None \<and> h g_root = 0 \<and>
     (\<forall>d. K d \<noteq> [] \<longrightarrow> d \<in> members K \<and> kind (vnode v d) = VFS_DIR) \<and>
     (\<forall>d \<in> members K. chain (\<lambda>x. sibling (vnode v x)) (children (vnode v d)) (K d) None \<and> data_ok (vnode v d)) \<and>
     (\<forall>d. distinct (map (\<lambda>x. nname (vnode v x)) (K d))) \<and>
     (\<forall>d x. x \<in> set (K d) \<longrightarrow> parent (vnode v x) = Some d \<and> h d < h x \<and>
        nname (vnode v x) \<noteq> [] \<and> length (nname (vnode v x)) \<le> VFS_NAME_MAX)"

definition vfs_wf :: "vfs \<Rightarrow> bool" where
  "vfs_wf v \<longleftrightarrow> (\<exists>K h. tree_ok v K h)"

lemma boot_wf: "vfs_wf vfs_boot"
  unfolding vfs_wf_def tree_ok_def
  by (intro exI [of _ "\<lambda>_. []"] exI [of _ "\<lambda>_. 0"]) (simp add: members_def vfs_boot_def root_node_def data_ok_def)

lemma tree_okD:
  assumes "tree_ok v K h"
  shows tree_finite: "finite (members K)"
    and tree_root: "kind (vnode v g_root) = VFS_DIR" "h g_root = 0" "sibling (vnode v g_root) = None"
    and tree_dir: "x \<in> set (K d) \<Longrightarrow> d \<in> members K \<and> kind (vnode v d) = VFS_DIR"
    and tree_chain: "d \<in> members K \<Longrightarrow> chain (\<lambda>x. sibling (vnode v x)) (children (vnode v d)) (K d) None"
    and tree_data: "d \<in> members K \<Longrightarrow> data_ok (vnode v d)"
    and tree_names: "distinct (map (\<lambda>x. nname (vnode v x)) (K d))"
    and tree_child: "x \<in> set (K d) \<Longrightarrow> parent (vnode v x) = Some d"
      "x \<in> set (K d) \<Longrightarrow> h d < h x"
      "x \<in> set (K d) \<Longrightarrow> x \<in> members K"
proof -
  show "finite (members K)" "kind (vnode v g_root) = VFS_DIR" "h g_root = 0" "sibling (vnode v g_root) = None"
    using assms unfolding tree_ok_def by blast+
  show "distinct (map (\<lambda>x. nname (vnode v x)) (K d))" using assms unfolding tree_ok_def by blast
  show "d \<in> members K \<Longrightarrow> chain (\<lambda>x. sibling (vnode v x)) (children (vnode v d)) (K d) None"
    "d \<in> members K \<Longrightarrow> data_ok (vnode v d)" using assms unfolding tree_ok_def by blast+
  show "x \<in> set (K d) \<Longrightarrow> parent (vnode v x) = Some d" "x \<in> set (K d) \<Longrightarrow> h d < h x" using assms unfolding tree_ok_def by blast+
  show "x \<in> set (K d) \<Longrightarrow> x \<in> members K" unfolding members_def by blast
  show "x \<in> set (K d) \<Longrightarrow> d \<in> members K \<and> kind (vnode v d) = VFS_DIR"
    using assms unfolding tree_ok_def by (metis empty_iff list.set(1))
qed

lemma root_member [simp]: "g_root \<in> members K" by (simp add: members_def)

lemma chain_live:
  assumes "chain (\<lambda>x. sibling (vnode v x)) p xs None" "\<And>x. p = Some x \<Longrightarrow> x \<in> vlive v"
  shows "set xs \<subseteq> vlive v"
  using assms
proof (induction xs arbitrary: p)
  case (Cons x xs)
  then have "x \<in> vlive v" "chain (\<lambda>x. sibling (vnode v x)) (sibling (vnode v x)) xs None" by auto
  then show ?case using Cons.IH [of "sibling (vnode v x)"] by (auto intro: vlive.sib)
qed simp

lemma members_live:
  assumes ok: "tree_ok v K h"
  shows "members K = vlive v"
proof
  have "x \<in> members K \<Longrightarrow> x \<in> vlive v" for x
  proof (induction "h x" arbitrary: x rule: less_induct)
    case less
    show ?case
    proof (cases "x = g_root")
      case False
      then obtain d where d: "x \<in> set (K d)" using less.prems by (auto simp: members_def)
      then have m: "d \<in> members K" "h d < h x" using tree_dir [OF ok d] tree_child(2) [OF ok d] by auto
      then have "d \<in> vlive v" using less.hyps by simp
      then show ?thesis using chain_live [OF tree_chain [OF ok m(1)]] d by (auto intro: vlive.child)
    qed (simp add: vlive.root)
  qed
  then show "members K \<subseteq> vlive v" by blast
next
  have "x \<in> members K" if "x \<in> vlive v" for x
    using that
  proof induction
    case (child x y)
    then have "y \<in> set (K x)" using tree_chain [OF ok child.IH] by (cases "K x") auto
    then show ?case by (rule tree_child(3) [OF ok])
  next
    case (sib x y)
    show ?case
    proof (cases "x = g_root")
      case False
      then obtain d where d: "x \<in> set (K d)" using sib.IH by (auto simp: members_def)
      then obtain ys zs where k: "K d = ys @ x # zs" by (auto dest: split_list)
      have "chain (\<lambda>x. sibling (vnode v x)) (Some y) zs None"
        using tree_chain [OF ok, of d] tree_dir [OF ok d] sib.hyps(2) unfolding k by (auto simp: chain_append)
      then have "y \<in> set (K d)" using k by (cases zs) auto
      then show ?thesis by (auto simp: members_def)
    qed (use sib tree_root [OF ok] in auto)
  qed simp
  then show "vlive v \<subseteq> members K" by blast
qed

section \<open>Children of a directory\<close>

lemma str_eq_iff [simp]: "str_eq a b \<longleftrightarrow> a = b"
  by (induction a b rule: str_eq.induct) auto

lemma find_loop_chain:
  "chain (\<lambda>x. sibling (vnode v x)) p xs None \<Longrightarrow>
   find_loop v name p = Some (find (\<lambda>x. nname (vnode v x) = name) xs)"
  by (induction xs arbitrary: p) (subst find_loop.simps; simp)+

lemma find_child_tree:
  assumes ok: "tree_ok v K h" and d: "d \<in> members K"
  shows "find_child (Some d) name v = Some (find (\<lambda>x. nname (vnode v x) = name) (K d))"
proof (cases "kind (vnode v d) = VFS_DIR")
  case True
  then show ?thesis using find_loop_chain [OF tree_chain [OF ok d]] by (simp add: find_child_def)
next
  case False
  then have "K d = []" using tree_dir [OF ok, of _ d] by (cases "K d") auto
  then show ?thesis using False by (simp add: find_child_def)
qed

lemma last_sibling_chain:
  "chain (\<lambda>x. sibling (vnode v x)) (Some c) (xs @ [t]) None \<Longrightarrow> last_sibling v c = Some t"
proof (induction xs arbitrary: c)
  case (Cons x xs)
  then obtain c' where "sibling (vnode v c) = Some c'" by (cases "sibling (vnode v c)") auto
  with Cons show ?case by (subst last_sibling.simps) auto
qed (subst last_sibling.simps, auto)

definition link_node :: "vid \<Rightarrow> vid \<Rightarrow> vid list \<Rightarrow> vfs \<Rightarrow> vfs" where
  "link_node p n ks v =
     (if ks = [] then upd p (\<lambda>x. x\<lparr>children := Some n\<rparr>) v else upd (last ks) (\<lambda>x. x\<lparr>sibling := Some n\<rparr>) v)"

lemma upd_node [simp]: "vnode (upd x f v) y = (if y = x then f (vnode v x) else vnode v y)"
  "g_node_count (upd x f v) = g_node_count v"
  by (simp_all add: upd_def)

lemma new_node_link:
  assumes ok: "tree_ok v K h" and p: "p \<in> members K" and n: "km sizeof_vfs_node_t v = Some n" "n \<notin> members K"
  shows "new_node km k name (Some p) v =
    Some (Some n, (link_node p n (K p) (upd n (\<lambda>_. init_node k name (Some p)) v))\<lparr>g_node_count := g_node_count v + 1\<rparr>)"
proof -
  let ?v = "upd n (\<lambda>_. init_node k name (Some p)) v"
  have np: "n \<noteq> p" "n \<notin> set (K p)" using p n(2) tree_child(3) [OF ok] by auto
  have ch: "chain (\<lambda>x. sibling (vnode v x)) (children (vnode v p)) (K p) None" using tree_chain [OF ok p] .
  then have ch': "chain (\<lambda>x. sibling (vnode ?v x)) (children (vnode v p)) (K p) None"
    using np(2) by (subst chain_cong [where nx' = "\<lambda>x. sibling (vnode v x)"]) auto
  show ?thesis
  proof (cases "K p = []")
    case True
    then show ?thesis using ch np n by (simp add: new_node_def link_node_def Let_def)
  next
    case False
    then obtain c ks where k: "K p = c # ks" by (cases "K p") auto
    then have c: "children (vnode v p) = Some c" using ch by simp
    have "last_sibling ?v c = Some (last (K p))"
      using last_sibling_chain [of ?v c "butlast (K p)" "last (K p)"] ch' c False by simp
    then show ?thesis using c np n False by (simp add: new_node_def link_node_def Let_def)
  qed
qed

definition same_node :: "vfs_node_t \<Rightarrow> vfs_node_t \<Rightarrow> bool" where
  "same_node x y \<longleftrightarrow> nname x = nname y \<and> kind x = kind y \<and> nsize x = nsize y \<and> capacity x = capacity y \<and>
     ndata x = ndata y \<and> fat_cluster x = fat_cluster y \<and> parent x = parent y"

lemma new_node_fields:
  assumes ok: "tree_ok v K h" and p: "p \<in> members K" and n: "n \<notin> members K"
    and v': "v' = (link_node p n (K p) (upd n (\<lambda>_. x) v))\<lparr>g_node_count := m\<rparr>"
  shows "vnode v' n = x" and "y \<noteq> n \<Longrightarrow> same_node (vnode v' y) (vnode v y)"
    and "y \<noteq> n \<Longrightarrow> children (vnode v' y) = (if y = p \<and> K p = [] then Some n else children (vnode v y))"
    and "y \<noteq> n \<Longrightarrow> sibling (vnode v' y) = (if K p \<noteq> [] \<and> y = last (K p) then Some n else sibling (vnode v y))"
proof -
  have "n \<noteq> p" "K p \<noteq> [] \<Longrightarrow> n \<noteq> last (K p)" using p n tree_child(3) [OF ok] by (auto dest: last_in_set)
  then show "vnode v' n = x" "y \<noteq> n \<Longrightarrow> same_node (vnode v' y) (vnode v y)"
    "y \<noteq> n \<Longrightarrow> children (vnode v' y) = (if y = p \<and> K p = [] then Some n else children (vnode v y))"
    "y \<noteq> n \<Longrightarrow> sibling (vnode v' y) = (if K p \<noteq> [] \<and> y = last (K p) then Some n else sibling (vnode v y))"
    by (auto simp: v' link_node_def same_node_def)
qed

lemma tree_distinct: "tree_ok v K h \<Longrightarrow> distinct (K d)"
  using tree_names [of v K h d] by (simp add: distinct_map)

lemma tree_disjoint: "tree_ok v K h \<Longrightarrow> x \<in> set (K d) \<Longrightarrow> x \<in> set (K e) \<Longrightarrow> d = e"
  using tree_child(1) [of v K h x d] tree_child(1) [of v K h x e] by simp

lemma root_no_child: "tree_ok v K h \<Longrightarrow> g_root \<notin> set (K d)"
  using tree_child(2) [of v K h g_root d] tree_root(2) [of v K h] by auto

lemma chain_extend:
  assumes "chain nx p xs None" "distinct xs" "n \<notin> set xs" "\<And>y. y \<in> set xs \<Longrightarrow> nx' y = (if y = last xs then Some n else nx y)"
    "nx' n = None" "p' = (if xs = [] then Some n else p)"
  shows "chain nx' p' (xs @ [n]) None"
proof (cases xs rule: rev_cases)
  case (snoc ys y)
  then have c: "chain nx p ys (Some y)" "y \<notin> set ys" using assms(1,2) by (auto simp: chain_snoc)
  have "chain nx' p ys (Some y)"
    using c assms(4) snoc by (subst chain_cong [where nx' = nx]) auto
  then show ?thesis using assms snoc by (simp add: chain_append)
qed (use assms in auto)

lemma new_node_tree:
  assumes ok: "tree_ok v K h" and p: "p \<in> members K" "kind (vnode v p) = VFS_DIR" and n: "n \<notin> members K"
    and name: "name \<noteq> []" "length name \<le> VFS_NAME_MAX" "name \<notin> (\<lambda>x. nname (vnode v x)) ` set (K p)"
    and v': "v' = (link_node p n (K p) (upd n (\<lambda>_. init_node k name (Some p)) v))\<lparr>g_node_count := g_node_count v + 1\<rparr>"
  shows "tree_ok v' (K(p := K p @ [n])) (h(n := Suc (h p)))"
proof -
  note f = new_node_fields [OF ok p(1) n v']
  let ?K = "K(p := K p @ [n])"
  have np: "n \<noteq> p" "n \<noteq> g_root" "\<And>d. n \<notin> set (K d)" "K n = []"
    using p n tree_child(3) [OF ok] tree_dir [OF ok, of "hd (K n)" n] by (auto intro: ccontr)
  have mem: "members ?K = insert n (members K)" unfolding members_def by (auto split: if_splits)
  have nm: "nname (vnode v' n) = name" "kind (vnode v' n) = k" "parent (vnode v' n) = Some p"
      "children (vnode v' n) = None" "sibling (vnode v' n) = None" "data_ok (vnode v' n)"
    using name(2) by (simp_all add: f(1) init_node_def str_copy_def data_ok_def)
  have same: "nname (vnode v' y) = nname (vnode v y)" "kind (vnode v' y) = kind (vnode v y)" "parent (vnode v' y) = parent (vnode v y)"
      "data_ok (vnode v' y) = data_ok (vnode v y)" if "y \<noteq> n" for y
    using f(2) [OF that] by (simp_all add: same_node_def data_ok_def split: option.split)
  have sib': "sibling (vnode v' y) = (if y = last (K p) then Some n else sibling (vnode v y))" if "y \<in> set (K p)" for y
  proof -
    have "y \<noteq> n" "K p \<noteq> []" using that np(3) [of p] by auto
    then show ?thesis using f(4) [of y] by simp
  qed
  have chain': "chain (\<lambda>x. sibling (vnode v' x)) (children (vnode v' d)) (?K d) None" if "d \<in> members ?K" for d
  proof (cases "d = n \<or> d = p")
    case True
    then show ?thesis
    proof
      assume "d = p"
      then show ?thesis
        using tree_chain [OF ok p(1)] tree_distinct [OF ok] np f(3) [of p] nm(5)
        by (auto intro!: chain_extend [where nx = "\<lambda>x. sibling (vnode v x)" and p = "children (vnode v p)"] simp: sib')
    qed (use np nm in auto)
  next
    case False
    then have d: "d \<in> members K" using that mem by auto
    have "sibling (vnode v' y) = sibling (vnode v y)" if "y \<in> set (K d)" for y
    proof -
      have "y \<noteq> n" "\<not> (K p \<noteq> [] \<and> y = last (K p))" using that np(3) tree_disjoint [OF ok that, of p] False by (auto dest: last_in_set)
      then show ?thesis using f(4) [of y] by presburger
    qed
    then show ?thesis using tree_chain [OF ok d] False f(3) by (subst chain_cong [where nx' = "\<lambda>x. sibling (vnode v x)"]) auto
  qed
  have names: "distinct (map (\<lambda>x. nname (vnode v' x)) (?K d))" for d
  proof -
    have m: "map (\<lambda>x. nname (vnode v' x)) (K d) = map (\<lambda>x. nname (vnode v x)) (K d)" for d
      using np(3) same(1) by (intro map_cong refl) metis
    have "map (\<lambda>x. nname (vnode v' x)) (?K d) = map (\<lambda>x. nname (vnode v x)) (K d) @ (if d = p then [name] else [])"
      using m nm(1) by simp
    then show ?thesis using tree_names [OF ok, of d] name(3) by simp
  qed
  show ?thesis
    unfolding tree_ok_def
  proof (intro conjI)
    show "finite (members ?K)" using tree_finite [OF ok] mem by simp
    show "g_node_count v' = of_nat (card (members ?K))"
      using ok n tree_finite [OF ok] by (simp add: v' mem tree_ok_def)
    show "kind (vnode v' g_root) = VFS_DIR" using tree_root [OF ok] same np by simp
    show "sibling (vnode v' g_root) = None" using tree_root [OF ok] f(4) np root_no_child [OF ok, of p] by (auto dest: last_in_set)
    show "(h(n := Suc (h p))) g_root = 0" using tree_root [OF ok] np by simp
    show "\<forall>d. ?K d \<noteq> [] \<longrightarrow> d \<in> members ?K \<and> kind (vnode v' d) = VFS_DIR"
    proof (intro allI impI)
      fix d assume "?K d \<noteq> []"
      then have "d = p \<or> K d \<noteq> []" by (auto split: if_splits)
      then have "d \<in> members K" "kind (vnode v d) = VFS_DIR" "d \<noteq> n"
        using p np tree_dir [OF ok] by (auto dest: hd_in_set)
      then show "d \<in> members ?K \<and> kind (vnode v' d) = VFS_DIR" using mem same by simp
    qed
    show "\<forall>d \<in> members ?K. chain (\<lambda>x. sibling (vnode v' x)) (children (vnode v' d)) (?K d) None \<and> data_ok (vnode v' d)"
    proof
      fix d assume d: "d \<in> members ?K"
      have "data_ok (vnode v' d)" using d mem nm(6) same(4) tree_data [OF ok, of d] by (cases "d = n") auto
      with chain' [OF d] show "chain (\<lambda>x. sibling (vnode v' x)) (children (vnode v' d)) (?K d) None \<and> data_ok (vnode v' d)" ..
    qed
    show "\<forall>d. distinct (map (\<lambda>x. nname (vnode v' x)) (?K d))" using names by blast
    show "\<forall>d x. x \<in> set (?K d) \<longrightarrow> parent (vnode v' x) = Some d \<and> (h(n := Suc (h p))) d < (h(n := Suc (h p))) x \<and>
        nname (vnode v' x) \<noteq> [] \<and> length (nname (vnode v' x)) \<le> VFS_NAME_MAX"
    proof (intro allI impI)
      fix d x assume x: "x \<in> set (?K d)"
      show "parent (vnode v' x) = Some d \<and> (h(n := Suc (h p))) d < (h(n := Suc (h p))) x \<and>
        nname (vnode v' x) \<noteq> [] \<and> length (nname (vnode v' x)) \<le> VFS_NAME_MAX"
      proof (cases "x = n")
        case True
        then have "d = p" using x np by (auto split: if_splits)
        then show ?thesis using True nm np name by simp
      next
        case False
        then have xd: "x \<in> set (K d)" using x by (auto split: if_splits)
        then have "d \<noteq> n" using np by auto
        then show ?thesis using ok xd False same [OF False] unfolding tree_ok_def by simp
      qed
    qed
  qed
qed

section \<open>Paths\<close>

text \<open>The components of a path, and the resolution of a component list in the tree.\<close>

function path_comps :: "bytes \<Rightarrow> bytes list" where
  "path_comps p =
     (if p = [] then []
      else (case take_name VFS_NAME_MAX p of (name, q) \<Rightarrow>
        if name = [] then path_comps (skip_slash q) else name # path_comps (skip_slash q)))"
  by pat_completeness auto
termination
  by (relation "measure length") (auto simp: neq_Nil_conv dest!: name_step_less [OF sym])

declare path_comps.simps [simp del]

fun resolve :: "(vid \<Rightarrow> bytes) \<Rightarrow> (vid \<Rightarrow> vid list) \<Rightarrow> vid \<Rightarrow> bytes list \<Rightarrow> vid option" where
  "resolve nm K d [] = Some d"
| "resolve nm K d (c # cs) = (case find (\<lambda>x. nm x = c) (K d) of None \<Rightarrow> None | Some x \<Rightarrow> resolve nm K x cs)"

lemma find_member: "find P xs = Some x \<Longrightarrow> x \<in> set xs \<and> P x"
  by (auto simp: find_Some_iff)

lemma lookup_loop_resolve:
  "tree_ok v K h \<Longrightarrow> cur \<in> members K \<Longrightarrow> lookup_loop v cur p = Some (resolve (\<lambda>x. nname (vnode v x)) K cur (path_comps p))"
proof (induction v cur p rule: lookup_loop.induct)
  case (1 v cur p)
  obtain name q where t: "take_name VFS_NAME_MAX p = (name, q)" by force
  show ?case
  proof (cases "p = [] \<or> name = []")
    case True
    then show ?thesis using 1(1) [OF _ t [symmetric]] 1(3,4) t by (subst lookup_loop.simps, subst path_comps.simps) auto
  next
    case False
    note fc = find_child_tree [OF 1(3,4), of name]
    show ?thesis
    proof (cases "find (\<lambda>x. nname (vnode v x) = name) (K cur)")
      case None
      then show ?thesis using False t fc by (subst lookup_loop.simps, subst path_comps.simps) simp
    next
      case (Some x)
      then have "x \<in> members K" using tree_child(3) [OF 1(3)] by (blast dest: find_member)
      then have "lookup_loop v x (skip_slash q) = Some (resolve (\<lambda>x. nname (vnode v x)) K x (path_comps (skip_slash q)))"
        using False Some 1(3) by (intro 1(2) [OF _ t [symmetric] _ fc]) simp_all
      then show ?thesis using False Some t fc by (subst lookup_loop.simps, subst path_comps.simps) simp
    qed
  qed
qed

lemma take_name_nil: "take_name VFS_NAME_MAX p = ([], q) \<Longrightarrow> p \<noteq> [] \<Longrightarrow> q = p \<and> hd p = SLASH"
  by (cases p) (auto simp: VFS_NAME_MAX_def numeral_eq_Suc split: if_splits prod.splits)

lemma take_name_parts: "take_name i p = (n, q) \<Longrightarrow> p = n @ q \<and> length n \<le> i \<and> SLASH \<notin> set n"
  by (induction i p arbitrary: n q rule: take_name.induct) (auto split: if_splits prod.splits)

lemma is_last_simps [simp]: "is_last []" "is_last (c # p) \<longleftrightarrow> c = SLASH \<and> is_last p"
  unfolding is_last_def by simp_all

lemma is_last_append [simp]: "is_last (p @ q) \<longleftrightarrow> is_last p \<and> is_last q"
  unfolding is_last_def set_append by blast

lemma is_last_skip: "is_last (skip_slash q) \<longleftrightarrow> is_last q"
  by (cases q) (simp_all add: skip_slash_def)

lemma comps_slashes: "is_last p \<Longrightarrow> path_comps p = []"
proof (induction p rule: path_comps.induct)
  case (1 p)
  obtain name q where t: "take_name VFS_NAME_MAX p = (name, q)" by force
  have "is_last name" "is_last q" using take_name_parts [OF t] 1(3) by auto
  then have "name = []" "is_last (skip_slash q)" using take_name_parts [OF t] by (cases name; simp add: is_last_skip)+
  then show ?case using 1(1) t by (subst path_comps.simps) auto
qed

text \<open>\<open>grows\<close>: the second tree has all nodes of the first one, unchanged, and resolves at least as many paths.\<close>

definition grows :: "vfs \<Rightarrow> (vid \<Rightarrow> vid list) \<Rightarrow> vfs \<Rightarrow> (vid \<Rightarrow> vid list) \<Rightarrow> bool" where
  "grows v K v' K' \<longleftrightarrow> members K \<subseteq> members K' \<and> (\<forall>x \<in> members K. same_node (vnode v' x) (vnode v x)) \<and>
     (\<forall>d x. x \<in> set (K d) \<longrightarrow> x \<in> set (K' d))"

lemma grows_refl: "grows v K v K" by (simp add: grows_def same_node_def)

lemma grows_trans: "grows v K v1 K1 \<Longrightarrow> grows v1 K1 v2 K2 \<Longrightarrow> grows v K v2 K2"
  unfolding grows_def same_node_def by (auto dest: subsetD)

lemma find_unique:
  assumes "distinct (map f xs)" "x \<in> set xs"
  shows "find (\<lambda>y. f y = f x) xs = Some x"
  using assms by (induction xs) auto

lemma grows_resolve:
  assumes g: "grows v K v' K'" and ok: "tree_ok v K h" and ok': "tree_ok v' K' h'"
  shows "d \<in> members K \<Longrightarrow> resolve (\<lambda>x. nname (vnode v x)) K d cs = Some y \<Longrightarrow>
    resolve (\<lambda>x. nname (vnode v' x)) K' d cs = Some y"
proof (induction cs arbitrary: d)
  case (Cons c cs)
  then obtain x where x: "x \<in> set (K d)" "nname (vnode v x) = c" "resolve (\<lambda>x. nname (vnode v x)) K x cs = Some y"
    by (auto split: option.splits dest: find_member)
  have m: "x \<in> members K" using tree_child(3) [OF ok x(1)] .
  have "nname (vnode v' x) = c" "x \<in> set (K' d)" using g m x by (auto simp: grows_def same_node_def)
  then have "find (\<lambda>z. nname (vnode v' z) = c) (K' d) = Some x"
    using find_unique [OF tree_names [OF ok', of d]] by fastforce
  then show ?case using Cons.IH [OF m x(3)] by simp
qed simp

lemma new_node_grows:
  assumes "tree_ok v K h" "p \<in> members K" "n \<notin> members K"
    and v': "v' = (link_node p n (K p) (upd n (\<lambda>_. x) v))\<lparr>g_node_count := m\<rparr>"
  shows "grows v K v' (K(p := K p @ [n]))"
proof -
  have "same_node (vnode v' x) (vnode v x)" if "x \<in> members K" for x using new_node_fields(2) [OF assms] assms(3) that by metis
  then show ?thesis unfolding grows_def members_def by auto
qed

lemma comps_nil_iff: "path_comps p = [] \<longleftrightarrow> is_last p"
proof
  show "path_comps p = [] \<Longrightarrow> is_last p"
  proof (induction p rule: path_comps.induct)
    case (1 p)
    obtain name q where t: "take_name VFS_NAME_MAX p = (name, q)" by force
    show ?case
    proof (cases "p = []")
      case False
      have e: "name = []" "path_comps (skip_slash q) = []"
        using 1(3) t False by (subst (asm) path_comps.simps; simp split: if_splits)+
      then have "is_last (skip_slash q)" "q = p" "hd p = SLASH" using 1(1) [OF False t [symmetric]] take_name_nil [of p q] t False by auto
      then show ?thesis using False by (cases p) (auto simp: skip_slash_def)
    qed simp
  qed
qed (rule comps_slashes)

lemma comps_step:
  assumes "take_name VFS_NAME_MAX p = (name, q)" "name \<noteq> []"
  shows "path_comps p = name # path_comps (skip_slash q)"
  using assms take_name_parts [OF assms(1)] by (subst path_comps.simps) auto

lemma comps_slash: "path_comps (SLASH # p) = path_comps p"
  by (subst path_comps.simps) (simp add: VFS_NAME_MAX_def numeral_eq_Suc skip_slash_def)

lemma take_name_prefix:
  "take_name i (n @ q) = (n, q) \<Longrightarrow> q = r @ r' \<Longrightarrow> take_name i (n @ r) = (n, r)"
proof (induction n arbitrary: i)
  case Nil
  then show ?case by (cases i; cases r) (auto split: if_splits prod.splits)
next
  case (Cons c n)
  then show ?case by (cases i) (auto split: if_splits prod.splits)
qed

lemma comps_split:
  assumes t: "take_name VFS_NAME_MAX p = (name, q)" "name \<noteq> []" and q: "skip_slash q = p1 @ p2"
  shows "\<exists>p1'. p = p1' @ p2 \<and> path_comps p1' = name # path_comps p1"
proof -
  have p: "p = name @ q" using take_name_parts [OF t(1)] by simp
  obtain s where s: "q = s @ p1 @ p2" "skip_slash (s @ p1) = p1"
  proof (cases "\<exists>r. q = SLASH # r")
    case True
    then show ?thesis using q by (intro that [of "[SLASH]"]) (auto simp: skip_slash_def)
  next
    case False
    then show ?thesis using q by (intro that [of "[]"]) (auto simp: skip_slash_def split: list.splits if_splits)
  qed
  have "take_name VFS_NAME_MAX (name @ (s @ p1)) = (name, s @ p1)"
    by (rule take_name_prefix [OF t(1) [unfolded p]]) (simp add: s(1))
  from comps_step [OF this t(2)] show ?thesis using s p by (intro exI [of _ "name @ s @ p1"]) simp
qed

lemma resolve_depth:
  assumes ok: "tree_ok v K h"
  shows "resolve nm K d cs = Some x \<Longrightarrow> h d + length cs \<le> h x"
proof (induction cs arbitrary: d)
  case (Cons c cs)
  then obtain y where "y \<in> set (K d)" "resolve nm K y cs = Some x" by (auto split: option.splits dest: find_member)
  then show ?case using Cons.IH [of y] tree_child(2) [OF ok, of y d] by simp
qed simp

text \<open>A file somewhere inside the path.\<close>

definition file_inside :: "vfs \<Rightarrow> (vid \<Rightarrow> vid list) \<Rightarrow> vid \<Rightarrow> bytes \<Rightarrow> bool" where
  "file_inside v K cur p \<longleftrightarrow> (\<exists>p1 p2 x. p = p1 @ p2 \<and> \<not> is_last p2 \<and>
     resolve (\<lambda>x. nname (vnode v x)) K cur (path_comps p1) = Some x \<and> kind (vnode v x) = VFS_FILE)"

definition resolved :: "kmalloc_fn \<Rightarrow> bool \<Rightarrow> vid \<Rightarrow> bytes \<Rightarrow> vfs \<Rightarrow> (vid \<Rightarrow> vid list) \<Rightarrow> vid option \<Rightarrow> vfs \<Rightarrow> (vid \<Rightarrow> vid list) \<Rightarrow> (vid \<Rightarrow> nat) \<Rightarrow> bool" where
  "resolved km lf cur p v K r v' K' h' \<longleftrightarrow> tree_ok v' K' h' \<and> grows v K v' K' \<and>
     (\<forall>n. r = Some n \<longrightarrow> resolve (\<lambda>x. nname (vnode v' x)) K' cur (path_comps p) = Some n \<and>
        (n \<notin> members K \<longrightarrow> kind (vnode v' n) = (if lf then VFS_FILE else VFS_DIR))) \<and>
     (r = None \<longrightarrow> (\<exists>u. km sizeof_vfs_node_t u = None) \<or> file_inside v K cur p) \<and>
     (\<forall>n. resolve (\<lambda>x. nname (vnode v x)) K cur (path_comps p) = Some n \<longrightarrow> r = Some n \<and> v' = v)"

lemma resolved_found:
  assumes ok: "tree_ok v K h" and t: "take_name VFS_NAME_MAX p = (name, q)" "name \<noteq> []"
    and f: "find (\<lambda>x. nname (vnode v x) = name) (K cur) = Some c"
    and r: "resolved km lf c (skip_slash q) v K r v' K' h'"
  shows "resolved km lf cur p v K r v' K' h'"
proof -
  have c: "c \<in> set (K cur)" "nname (vnode v c) = name" using find_member [OF f] by auto
  have g: "grows v K v' K'" "tree_ok v' K' h'" using r by (simp_all add: resolved_def)
  have "c \<in> set (K' cur)" "nname (vnode v' c) = name" using g(1) c tree_child(3) [OF ok c(1)] by (auto simp: grows_def same_node_def)
  then have f': "find (\<lambda>x. nname (vnode v' x) = name) (K' cur) = Some c"
    using find_unique [OF tree_names [OF g(2), of cur]] by fastforce
  have "file_inside v K cur p" if "file_inside v K c (skip_slash q)"
  proof -
    from that obtain p1 p2 x where x: "skip_slash q = p1 @ p2" "\<not> is_last p2"
      "resolve (\<lambda>x. nname (vnode v x)) K c (path_comps p1) = Some x" "kind (vnode v x) = VFS_FILE"
      unfolding file_inside_def by blast
    from comps_split [OF t x(1)] obtain p1' where "p = p1' @ p2" "path_comps p1' = name # path_comps p1" by blast
    then show ?thesis using x f unfolding file_inside_def by (intro exI [of _ p1'] exI [of _ p2] exI [of _ x]) simp
  qed
  then show ?thesis using r f f' unfolding resolved_def comps_step [OF t] by auto
qed

lemma resolved_created:
  assumes ok: "tree_ok v K h" and t: "take_name VFS_NAME_MAX p = (name, q)" "name \<noteq> []"
    and f: "find (\<lambda>x. nname (vnode v x) = name) (K cur) = None" and cur: "cur \<in> members K"
    and k: "k = (if is_last q \<and> lf then VFS_FILE else VFS_DIR)"
    and c: "c \<notin> members K" and ok1: "tree_ok v1 (K(cur := K cur @ [c])) h1" and g1: "grows v K v1 (K(cur := K cur @ [c]))"
    and c1: "nname (vnode v1 c) = name" "kind (vnode v1 c) = k"
    and r: "resolved km lf c (skip_slash q) v1 (K(cur := K cur @ [c])) r v' K' h'"
  shows "resolved km lf cur p v K r v' K' h'"
proof -
  let ?K = "K(cur := K cur @ [c])"
  have g: "grows v1 ?K v' K'" "tree_ok v' K' h'" using r by (simp_all add: resolved_def)
  have cm: "c \<in> members ?K" "c \<in> set (?K cur)" by (auto simp: members_def)
  have s: "nname (vnode v' c) = name" "kind (vnode v' c) = k" "c \<in> set (K' cur)"
    using g(1) cm c1 by (auto simp: grows_def same_node_def)
  then have f': "find (\<lambda>x. nname (vnode v' x) = name) (K' cur) = Some c"
    using find_unique [OF tree_names [OF g(2), of cur]] by fastforce
  have "K c = []" using c tree_dir [OF ok, of "hd (K c)" c] by (cases "K c") auto
  moreover have "c \<noteq> cur" using c cur by auto
  ultimately have Kc: "?K c = []" by simp
  have nofile: "\<not> file_inside v1 ?K c (skip_slash q)"
  proof
    assume "file_inside v1 ?K c (skip_slash q)"
    then obtain p1 p2 x where x: "skip_slash q = p1 @ p2" "\<not> is_last p2"
      "resolve (\<lambda>x. nname (vnode v1 x)) ?K c (path_comps p1) = Some x" "kind (vnode v1 x) = VFS_FILE"
      unfolding file_inside_def by blast
    have "path_comps p1 = []" using x(3) Kc by (cases "path_comps p1") auto
    then have "x = c" using x(3) by simp
    moreover have "\<not> is_last q" using x(1,2) is_last_skip [of q] by simp
    ultimately show False using x(4) c1(2) k by simp
  qed
  have kind: "kind (vnode v' n) = (if lf then VFS_FILE else VFS_DIR)" if n: "r = Some n" "n \<notin> members K" for n
  proof (cases "n = c")
    case True
    have "resolve (\<lambda>x. nname (vnode v' x)) K' c (path_comps (skip_slash q)) = Some c" using r n True by (simp add: resolved_def)
    from resolve_depth [OF g(2) this] have "is_last q" by (simp add: comps_nil_iff is_last_skip)
    then show ?thesis using True s k by simp
  next
    case False
    then have "n \<notin> members ?K" using n(2) by (auto simp: members_def split: if_splits)
    then show ?thesis using r n(1) by (simp add: resolved_def)
  qed
  have gr: "grows v K v' K'" using grows_trans [OF g1 g(1)] .
  show ?thesis using r f f' kind g(2) gr nofile unfolding resolved_def comps_step [OF t] by auto
qed

lemma resolve_loop_spec:
  assumes fresh: "km_fresh km"
  shows "tree_ok v K h \<Longrightarrow> cur \<in> members K \<Longrightarrow> kind (vnode v cur) = VFS_DIR \<or> is_last p \<Longrightarrow>
    \<exists>r v' K' h'. resolve_loop km lf cur p v = Some (r, v') \<and> resolved km lf cur p v K r v' K' h'"
proof (induction "length p" arbitrary: cur p v K h rule: less_induct)
  case less
  note ok = less.prems(1) and cur = less.prems(2)
  obtain name q where t: "take_name VFS_NAME_MAX p = (name, q)" by force
  have stop: "resolved km lf cur p' v K (Some cur) v K h" if "path_comps p' = []" for p'
    using that ok grows_refl [of v K] cur by (simp add: resolved_def)
  consider "p = []" | "p \<noteq> []" "name = []" | "p \<noteq> []" "name \<noteq> []" by blast
  then show ?case
  proof cases
    case 1
    then show ?thesis using stop [of "[]"] by (subst resolve_loop.simps) (auto simp: comps_nil_iff)
  next
    case 2
    then obtain r where p: "p = SLASH # r" "q = p" using take_name_nil [of p q] t by (cases p) auto
    then have sk: "skip_slash q = r" by (simp add: skip_slash_def)
    have "kind (vnode v cur) = VFS_DIR \<or> is_last r" using less.prems(3) p by auto
    then obtain x v' K' h' where IH: "resolve_loop km lf cur r v = Some (x, v')" "resolved km lf cur r v K x v' K' h'"
      using less.hyps [of r, OF _ ok cur] p by auto
    have "file_inside v K cur p" if "file_inside v K cur r"
      using that unfolding file_inside_def p(1) by (metis append_Cons comps_slash)
    then have "resolved km lf cur p v K x v' K' h'" using IH(2) unfolding resolved_def p(1) comps_slash by blast
    then show ?thesis using IH(1) 2 t sk by (subst resolve_loop.simps) auto
  next
    case 3
    have len: "length (skip_slash q) < length p" using name_step_less [of "hd p" "tl p"] t 3 by simp
    have "\<not> is_last p" using comps_step [OF t 3(2)] by (simp flip: comps_nil_iff)
    then have dir: "kind (vnode v cur) = VFS_DIR" using less.prems(3) by simp
    note fc = find_child_tree [OF ok cur, of name]
    show ?thesis
    proof (cases "find (\<lambda>x. nname (vnode v x) = name) (K cur)")
      case (Some c)
      then have c: "c \<in> members K" using tree_child(3) [OF ok] by (blast dest: find_member)
      show ?thesis
      proof (cases "\<not> is_last q \<and> kind (vnode v c) \<noteq> VFS_DIR")
        case True
        then have kf: "kind (vnode v c) = VFS_FILE" by (cases "kind (vnode v c)") auto
        have "K c = []" using True tree_dir [OF ok, of "hd (K c)" c] by (cases "K c") auto
        moreover have "path_comps (skip_slash q) \<noteq> []" using True by (simp add: comps_nil_iff is_last_skip)
        ultimately have no: "resolve (\<lambda>x. nname (vnode v x)) K c (path_comps (skip_slash q)) = None"
          by (cases "path_comps (skip_slash q)") auto
        have "file_inside v K c (skip_slash q)"
          unfolding file_inside_def using True kf by (intro exI [of _ "[]"] exI [of _ "skip_slash q"] exI [of _ c])
            (simp add: is_last_skip comps_slashes)
        then have "resolved km lf c (skip_slash q) v K None v K h" using no ok grows_refl [of v K] by (simp add: resolved_def)
        from resolved_found [OF ok t 3(2) Some this] show ?thesis
          using True Some fc t 3 by (subst resolve_loop.simps) auto
      next
        case False
        then obtain x v' K' h' where IH: "resolve_loop km lf c (skip_slash q) v = Some (x, v')"
            "resolved km lf c (skip_slash q) v K x v' K' h'"
          using less.hyps [OF len ok c] by (auto simp: is_last_skip)
        from resolved_found [OF ok t 3(2) Some IH(2)] show ?thesis
          using False IH(1) Some fc t 3 by (subst resolve_loop.simps) auto
      qed
    next
      case None
      define k where "k = (if is_last q \<and> lf then VFS_FILE else VFS_DIR)"
      show ?thesis
      proof (cases "km sizeof_vfs_node_t v")
        case km: None
        have "resolved km lf cur p v K None v K h"
          using None ok km grows_refl [of v K] unfolding resolved_def comps_step [OF t 3(2)] by auto
        then show ?thesis using None km fc t 3 by (subst resolve_loop.simps) (auto simp: new_node_def)
      next
        case (Some c)
        then have c: "c \<notin> members K" using fresh members_live [OF ok] unfolding km_fresh_def by blast
        define v1 where "v1 = (link_node cur c (K cur) (upd c (\<lambda>_. init_node k name (Some cur)) v))\<lparr>g_node_count := g_node_count v + 1\<rparr>"
        have nn: "new_node km k name (Some cur) v = Some (Some c, v1)" using new_node_link [of v K h cur km c, OF ok cur Some c] by (simp add: v1_def)
        have nl: "length name \<le> VFS_NAME_MAX" using take_name_parts [OF t] by simp
        have "name \<notin> (\<lambda>x. nname (vnode v x)) ` set (K cur)" using None by (auto simp: find_None_iff)
        from new_node_tree [OF ok cur dir c 3(2) nl this v1_def]
        have ok1: "tree_ok v1 (K(cur := K cur @ [c])) (h(c := Suc (h cur)))" .
        have n1: "vnode v1 c = init_node k name (Some cur)" by (rule new_node_fields(1) [OF ok cur c v1_def])
        have c1: "nname (vnode v1 c) = name" "kind (vnode v1 c) = k" using nl by (simp_all add: n1 init_node_def str_copy_def)
        have m: "c \<in> members (K(cur := K cur @ [c]))" by (auto simp: members_def)
        have kc: "kind (vnode v1 c) = VFS_DIR \<or> is_last (skip_slash q)" by (simp add: c1 k_def is_last_skip)
        from less.hyps [OF len ok1 m kc] obtain x v' K' h' where IH: "resolve_loop km lf c (skip_slash q) v1 = Some (x, v')"
            "resolved km lf c (skip_slash q) v1 (K(cur := K cur @ [c])) x v' K' h'"
          by blast
        from resolved_created [OF ok t 3(2) None cur k_def c ok1 new_node_grows [OF ok cur c v1_def] c1 IH(2)]
        show ?thesis using IH(1) nn None fc t 3 by (subst resolve_loop.simps) (auto simp: k_def)
      qed
    qed
  qed
qed

lemma vfs_lookup_tree:
  assumes "tree_ok v K h"
  shows "vfs_lookup (SLASH # p) v = Some (resolve (\<lambda>x. nname (vnode v x)) K g_root (path_comps p))"
  using lookup_loop_resolve [OF assms] by (simp add: vfs_lookup_def)

lemma vfs_lookup_relative: "vfs_lookup q v = Some (Some x) \<Longrightarrow> \<exists>p. q = SLASH # p"
  by (auto simp: vfs_lookup_def split: list.splits if_splits)


definition first_free :: kmalloc_fn where
  "first_free n v = (if 1 \<in> vlive v then None else Some 1)"

lemma first_free_fresh: "km_fresh first_free"
  by (simp add: km_fresh_def first_free_def)

lemma boot_live: "vlive vfs_boot = {g_root}"
proof -
  have "tree_ok vfs_boot (\<lambda>_. []) (\<lambda>_. 0)"
    by (simp add: tree_ok_def members_def vfs_boot_def root_node_def data_ok_def)
  from members_live [OF this] show ?thesis by (simp add: members_def)
qed

lemma boot_create: "\<exists>v'. resolve_create first_free [SLASH, 0x61] True vfs_boot = Some (Some 1, v')"
proof -
  have t: "take_name VFS_NAME_MAX [0x61] = ([0x61], [])" by code_simp
  have f: "find_child (Some g_root) name vfs_boot = Some None" for name
    unfolding find_child_def by (subst find_loop.simps) (simp add: vfs_boot_def root_node_def)
  have n: "\<exists>v'. new_node first_free k name (Some g_root) vfs_boot = Some (Some 1, v')" for k name
  proof -
    have "first_free m vfs_boot = Some 1" for m by (simp add: first_free_def boot_live g_root_def)
    then show ?thesis by (simp add: new_node_def g_root_def Let_def) (simp add: vfs_boot_def root_node_def)
  qed
  from n [of VFS_FILE "[0x61]"] show ?thesis
    unfolding resolve_create_def using t f
    by (auto simp: resolve_loop.simps [of _ _ _ "[0x61]"] resolve_loop.simps [of _ _ _ "[]"] skip_slash_def)
qed


section \<open>Contents\<close>

lemma write_tree:
  assumes ok: "tree_ok v K h" and s: "\<And>y. vnode v' y = (if y = f then (vnode v f)\<lparr>ndata := d, capacity := c, nsize := n\<rparr> else vnode v y)"
    and d: "data_ok (vnode v' f)" and g: "g_node_count v' = g_node_count v"
  shows "tree_ok v' K h"
proof -
  have "nname (vnode v' y) = nname (vnode v y)" "kind (vnode v' y) = kind (vnode v y)" "parent (vnode v' y) = parent (vnode v y)"
    "children (vnode v' y) = children (vnode v y)" "sibling (vnode v' y) = sibling (vnode v y)" for y by (simp_all add: s)
  moreover have "data_ok (vnode v y) \<Longrightarrow> data_ok (vnode v' y)" for y using d by (cases "y = f") (simp_all add: s)
  ultimately show ?thesis using ok g unfolding tree_ok_def by auto
qed

text \<open>C35: writing a file and reading it back. On a well-formed tree vfs_write to a file either fails
  with -1, because the allocator failed, and changes nothing, or succeeds; then reading at most max
  bytes returns exactly the first max bytes written, without calling the load hook, the buffer is
  never read past its capacity, all other nodes are unchanged and the tree stays well formed.\<close>

theorem vfs_write_read:
  assumes wf: "vfs_wf v" and f: "f \<in> vlive v" "kind (vnode v f) = VFS_FILE" and len: "length buf < 2147483648"
  shows "case vfs_write km (Some f) buf v of (rc, v') \<Rightarrow>
    vfs_wf v' \<and> (\<forall>y. y \<noteq> f \<longrightarrow> vnode v' y = vnode v y) \<and>
    (rc = -1 \<longrightarrow> v' = v \<and> km (of_nat (length buf)) v = None) \<and>
    (rc \<noteq> -1 \<longrightarrow> rc = 0 \<and>
       vfs_read hook (Some f) max' v' = Some (int (min (length buf) (unat max')), take (unat max') buf, v'))"
proof -
  from wf obtain K h where ok: "tree_ok v K h" by (auto simp: vfs_wf_def)
  have dat: "data_ok (vnode v f)" using tree_data [OF ok] f(1) members_live [OF ok] by simp
  have u: "unat (of_nat (length buf) :: u64) = length buf" using len by (simp add: unat_of_nat)
  obtain rc v' where w: "vfs_write km (Some f) buf v = (rc, v')" by force
  show ?thesis
  proof (cases "rc = -1")
    case True
    then show ?thesis using w f(2) wf unfolding vfs_write_def Let_def by (auto split: if_splits option.splits)
  next
    case False
    define d where "d = (if capacity (vnode v f) < of_nat (length buf) then Some buf else map_option (\<lambda>d. put_bytes d 0 buf) (ndata (vnode v f)))"
    define c where "c = (if capacity (vnode v f) < of_nat (length buf) then of_nat (length buf) else capacity (vnode v f))"
    have v': "rc = 0" "v' = upd f (\<lambda>x. x\<lparr>ndata := d, capacity := c, nsize := of_nat (length buf)\<rparr>) v"
      using False w f(2) unfolding vfs_write_def Let_def d_def c_def upd_def by (auto split: if_splits option.splits)
    have dok: "data_ok (vnode v' f)"
      using dat u by (auto simp: v' data_ok_def d_def c_def not_less split: option.splits)
    have "vfs_wf v'" using write_tree [OF ok _ dok, where d = d and c = c and n = "of_nat (length buf)"] by (auto simp: v' vfs_wf_def)
    moreover have "vfs_read hook (Some f) max' v' = Some (int (min (length buf) (unat max')), take (unat max') buf, v')"
    proof (cases "buf = []")
      case True
      then show ?thesis using f(2) by (simp add: vfs_read_def v' split: option.split)
    next
      case nonempty: False
      obtain b where b: "d = Some b" "take (length buf) b = buf" "length buf \<le> length b"
      proof (cases "capacity (vnode v f) < of_nat (length buf)")
        case True
        then show ?thesis by (intro that [of buf]) (simp_all add: d_def)
      next
        case False
        then have ge: "length buf \<le> unat (capacity (vnode v f))" using u by (simp add: not_less word_le_nat_alt)
        then obtain a where "ndata (vnode v f) = Some a" "length a = unat (capacity (vnode v f))"
          using dat nonempty by (auto simp: data_ok_def split: option.splits)
        then show ?thesis using False ge by (intro that [of "put_bytes a 0 buf"])
            (simp_all add: d_def segm_put_same [of 0 "length buf" a buf, unfolded segm_def, simplified])
      qed
      let ?n = "min (of_nat (length buf) :: u64) max'"
      have n: "unat ?n = min (length buf) (unat max')" using u by (simp add: min_def word_le_nat_alt)
      have "unat (ucast ?n :: u32) = unat ?n"
        using n len by (simp add: unsigned_ucast_eq take_bit_nat_eq_self_iff)
      then have "sint (ucast ?n :: u32) = int (unat ?n)" using n len by (subst sint_small32) simp_all
      moreover have "take (unat ?n) b = take (unat max') buf" using b(2) n by (metis min.commute take_take)
      moreover have "?n = 0 \<Longrightarrow> unat max' = 0" using n nonempty by (metis length_0_conv min_def unsigned_0)
      ultimately show ?thesis using f(2) b n by (auto simp: vfs_read_def v' Let_def split: option.split)
    qed
    ultimately show ?thesis using w v' False by simp
  qed
qed

theorem vfs_write_read_witness:
  "\<exists>v'. vfs_write (\<lambda>n v. Some 7) (Some 1) [1, 2, 3] v' = (0, snd (vfs_write (\<lambda>n v. Some 7) (Some 1) [1, 2, 3] v')) \<and>
     vfs_read None (Some 1) 2 (snd (vfs_write (\<lambda>n v. Some 7) (Some 1) [1, 2, 3] v')) =
       Some (2, [1, 2], snd (vfs_write (\<lambda>n v. Some 7) (Some 1) [1, 2, 3] v'))"
proof -
  let ?v = "\<lparr>vnode = (\<lambda>_. root_node)(0 := root_node\<lparr>children := Some 1\<rparr>,
      1 := root_node\<lparr>nname := [0x61], kind := VFS_FILE, parent := Some 0\<rparr>), g_node_count = 2\<rparr>"
  have "members (\<lambda>d. if d = 0 then [1] else []) = {0, 1}" by (auto simp: members_def g_root_def split: if_splits)
  then have t: "tree_ok ?v (\<lambda>d. if d = 0 then [1] else []) (\<lambda>d. d)"
    by (simp add: tree_ok_def root_node_def data_ok_def g_root_def VFS_NAME_MAX_def)
  have wf: "vfs_wf ?v" using t by (auto simp: vfs_wf_def)
  have "members (\<lambda>d. if d = 0 then [1] else []) = {0, 1}" by (auto simp: members_def g_root_def split: if_splits)
  then have l: "1 \<in> vlive ?v" using members_live [OF t] by simp
  have k: "kind (vnode ?v 1) = VFS_FILE" and n: "length [1, 2, 3 :: u8] < 2147483648" by simp_all
  from vfs_write_read [OF wf l k n, of "\<lambda>n v. Some 7" None 2] show ?thesis
    by (intro exI [of _ ?v]) (auto split: prod.splits)
qed

section \<open>The tree walk\<close>

definition child_rel :: "(vid \<Rightarrow> vid list) \<Rightarrow> (vid \<times> vid) set" where
  "child_rel K = {(d, y). y \<in> set (K d)}"

lemma below_depth:
  assumes ok: "tree_ok v K h"
  shows "(x, y) \<in> (child_rel K)\<^sup>* \<Longrightarrow> h x \<le> h y"
  by (induction rule: rtrancl_induct) (auto simp: child_rel_def dest!: tree_child(2) [OF ok])

lemma sibling_subtrees:
  assumes ok: "tree_ok v K h" and xy: "x \<in> set (K d)" "y \<in> set (K d)" "x \<noteq> y"
  shows "(child_rel K)\<^sup>* `` {x} \<inter> (child_rel K)\<^sup>* `` {y} = {}"
proof -
  have no: "False" if "(a, b) \<in> (child_rel K)\<^sup>*" "a \<in> set (K d)" "b \<in> set (K d)" "a \<noteq> b" for a b
  proof -
    from that(1,4) obtain w where w: "(a, w) \<in> (child_rel K)\<^sup>*" "b \<in> set (K w)"
      by (auto simp: child_rel_def elim: rtranclE)
    then have "w = d" using tree_disjoint [OF ok] that(3) by blast
    then show False using below_depth [OF ok w(1)] tree_child(2) [OF ok that(2)] by simp
  qed
  have sv: "single_valued ((child_rel K)\<inverse>)" using tree_disjoint [OF ok] by (auto simp: single_valued_def child_rel_def)
  show ?thesis
  proof (rule ccontr)
    assume "\<not> ?thesis"
    then obtain z where "(x, z) \<in> (child_rel K)\<^sup>*" "(y, z) \<in> (child_rel K)\<^sup>*" by blast
    then have "(z, x) \<in> ((child_rel K)\<inverse>)\<^sup>*" "(z, y) \<in> ((child_rel K)\<inverse>)\<^sup>*" by (simp_all add: rtrancl_converse)
    from single_valued_confluent [OF sv this] have "(x, y) \<in> (child_rel K)\<^sup>* \<or> (y, x) \<in> (child_rel K)\<^sup>*"
      by (auto simp: rtrancl_converse)
    then show False using no [of x y] no [of y x] xy by blast
  qed
qed

lemma members_reached: "tree_ok v K h \<Longrightarrow> (child_rel K)\<^sup>* `` {g_root} = members K"
proof
  assume ok: "tree_ok v K h"
  show "(child_rel K)\<^sup>* `` {g_root} \<subseteq> members K"
  proof clarify
    fix x assume "(g_root, x) \<in> (child_rel K)\<^sup>*"
    then show "x \<in> members K" by (induction rule: rtrancl_induct) (auto simp: child_rel_def dest: tree_child(3) [OF ok])
  qed
  have "x \<in> members K \<Longrightarrow> (g_root, x) \<in> (child_rel K)\<^sup>*" for x
  proof (induction "h x" arbitrary: x rule: less_induct)
    case less
    show ?case
    proof (cases "x = g_root")
      case False
      then obtain d where d: "x \<in> set (K d)" using less.prems by (auto simp: members_def)
      then have "(g_root, d) \<in> (child_rel K)\<^sup>*" using less.hyps tree_dir [OF ok d] tree_child(2) [OF ok d] by simp
      then show ?thesis using d by (auto simp: child_rel_def intro: rtrancl_into_rtrancl)
    qed simp
  qed
  then show "members K \<subseteq> (child_rel K)\<^sup>* `` {g_root}" by blast
qed

lemma image_step: "(child_rel K)\<^sup>* `` {x} = insert x (\<Union>y \<in> set (K x). (child_rel K)\<^sup>* `` {y})"
  by (auto simp: child_rel_def elim: converse_rtranclE intro: converse_rtrancl_into_rtrancl)

definition walked :: "vfs \<Rightarrow> (vid \<Rightarrow> vid list) \<Rightarrow> int \<Rightarrow> vid list \<Rightarrow> (int \<times> vid) list \<Rightarrow> bool" where
  "walked v K depth ys xs \<longleftrightarrow> snd ` set xs = (\<Union>y \<in> set ys. (child_rel K)\<^sup>* `` {y}) \<and> distinct (map snd xs) \<and>
     (\<forall>k x. (k, x) \<in> set xs \<longrightarrow> x \<in> set ys \<and> k = depth \<or> (\<exists>p. parent (vnode v x) = Some p \<and> (k - 1, p) \<in> set xs))"

lemma walked_cons:
  assumes ok: "tree_ok v K h" and y: "y \<in> set (K d)" "set ys \<subseteq> set (K d)" "y \<notin> set ys"
    and sub: "walked v K (depth + 1) (K y) sub" and rest: "walked v K depth ys rest"
  shows "walked v K depth (y # ys) ((depth, y) # sub @ rest)"
proof -
  have self: "y \<in> (child_rel K)\<^sup>* `` {y}" by simp
  have ysub: "y \<notin> snd ` set sub"
  proof
    assume "y \<in> snd ` set sub"
    then obtain z where z: "z \<in> set (K y)" "(z, y) \<in> (child_rel K)\<^sup>*" using sub by (auto simp: walked_def)
    then show False using below_depth [OF ok z(2)] tree_child(2) [OF ok z(1)] by simp
  qed
  have dis: "(child_rel K)\<^sup>* `` {y} \<inter> snd ` set rest = {}"
  proof -
    have "(child_rel K)\<^sup>* `` {y} \<inter> (child_rel K)\<^sup>* `` {z} = {}" if "z \<in> set ys" for z
      using sibling_subtrees [OF ok y(1), of z] y that by blast
    then show ?thesis using rest unfolding walked_def by blast
  qed
  have "snd ` set sub \<subseteq> (child_rel K)\<^sup>* `` {y}" using sub unfolding walked_def image_step [of K y] by blast
  then have "snd ` set sub \<inter> snd ` set rest = {}" "y \<notin> snd ` set rest" using dis self by blast+
  moreover have "distinct (map snd sub)" "distinct (map snd rest)" using sub rest by (simp_all add: walked_def)
  ultimately have "distinct (map snd ((depth, y) # sub @ rest))" using ysub by simp
  moreover have "snd ` set ((depth, y) # sub @ rest) = (\<Union>y \<in> set (y # ys). (child_rel K)\<^sup>* `` {y})"
    using sub rest image_step [of K y] by (simp add: walked_def image_Un)
  moreover have "x \<in> set (y # ys) \<and> k = depth \<or> (\<exists>p. parent (vnode v x) = Some p \<and> (k - 1, p) \<in> set ((depth, y) # sub @ rest))"
    if "(k, x) \<in> set ((depth, y) # sub @ rest)" for k x
  proof -
    from that have "k = depth \<and> x = y \<or> (k, x) \<in> set sub \<or> (k, x) \<in> set rest" by auto
    then consider "k = depth" "x = y" | "(k, x) \<in> set sub" | "(k, x) \<in> set rest" by blast
    then show ?thesis
    proof cases
      case 2
      then have "x \<in> set (K y) \<and> k = depth + 1 \<or> (\<exists>p. parent (vnode v x) = Some p \<and> (k - 1, p) \<in> set sub)"
        using sub unfolding walked_def by blast
      then show ?thesis using tree_child(1) [OF ok, of x y] by auto
    next
      case 3
      then have "x \<in> set ys \<and> k = depth \<or> (\<exists>p. parent (vnode v x) = Some p \<and> (k - 1, p) \<in> set rest)"
        using rest unfolding walked_def by blast
      then show ?thesis by auto
    qed simp
  qed
  ultimately show ?thesis unfolding walked_def by blast
qed

lemma walk_children_spec:
  assumes ok: "tree_ok v K h" and N: "\<forall>x \<in> members K. h x \<le> N"
  shows "\<forall>y \<in> set ys. y \<in> set (K d) \<and> N - h y < n \<Longrightarrow> distinct ys \<Longrightarrow> chain (\<lambda>x. sibling (vnode v x)) c ys None \<Longrightarrow>
    \<exists>xs. walk_children v depth c = Some xs \<and> walked v K depth ys xs"
proof (induction n arbitrary: d ys c depth)
  case 0
  then have "ys = []" by (cases ys) auto
  with 0 show ?case by (subst walk_children.simps) (simp add: walked_def)
next
  case (Suc n)
  then show ?case
  proof (induction ys arbitrary: c)
    case Nil
    then show ?case by (subst walk_children.simps) (simp add: walked_def)
  next
    case (Cons y ys)
    have y: "y \<in> set (K d)" "N - h y < Suc n" "c = Some y" "chain (\<lambda>x. sibling (vnode v x)) (sibling (vnode v y)) ys None"
      using Cons.prems by auto
    have m: "y \<in> members K" using tree_child(3) [OF ok y(1)] .
    have "z \<in> set (K y) \<and> N - h z < n" if "z \<in> set (K y)" for z
    proof -
      have "h y < h z" "h z \<le> N" using that tree_child(2,3) [OF ok that] N by auto
      then show ?thesis using that y(2) by simp
    qed
    then obtain sub where sub: "walk_children v (depth + 1) (children (vnode v y)) = Some sub" "walked v K (depth + 1) (K y) sub"
      using Suc.IH [of "K y" y "children (vnode v y)" "depth + 1"] tree_chain [OF ok m] tree_distinct [OF ok] by blast
    obtain rest where rest: "walk_children v depth (sibling (vnode v y)) = Some rest" "walked v K depth ys rest"
      using Cons.IH [of "sibling (vnode v y)"] Cons.prems y(4) by auto
    have "walked v K depth (y # ys) ((depth, y) # sub @ rest)"
      using Cons.prems by (intro walked_cons [OF ok y(1) _ _ sub(2) rest(2)]) auto
    then show ?case using sub(1) rest(1) y(3) by (subst walk_children.simps) simp
  qed
qed

text \<open>C36: the tree walk is complete and duplicate free: on every well-formed tree vfs_walk from the root
  ends, calls the visitor exactly once for every node that is in use, as often as the node counter
  says, starts with the root at depth 0 and visits every other node one level below its parent.\<close>

theorem vfs_walk_exact:
  assumes "vfs_wf v"
  shows "\<exists>xs. vfs_walk v (Some vfs_root) 0 = Some xs \<and> distinct (map snd xs) \<and> snd ` set xs = vlive v \<and>
    of_nat (length xs) = vfs_node_count v \<and> hd xs = (0, vfs_root) \<and>
    (\<forall>k x. (k, x) \<in> set (tl xs) \<longrightarrow> (\<exists>p. parent (vnode v x) = Some p \<and> (k - 1, p) \<in> set xs))"
proof -
  from assms obtain K h where ok: "tree_ok v K h" by (auto simp: vfs_wf_def)
  obtain N where N: "\<forall>x \<in> members K. h x \<le> N" using finite_nat_set_iff_bounded_le [of "h ` members K"] tree_finite [OF ok] by auto
  obtain sub where sub: "walk_children v 1 (children (vnode v g_root)) = Some sub" "walked v K 1 (K g_root) sub"
    using walk_children_spec [OF ok N, of "K g_root" g_root "Suc N" _ 1] tree_chain [OF ok root_member] tree_distinct [OF ok] by fastforce
  have root: "g_root \<notin> snd ` set sub"
  proof
    assume "g_root \<in> snd ` set sub"
    then obtain z where z: "z \<in> set (K g_root)" "(z, g_root) \<in> (child_rel K)\<^sup>*" using sub(2) by (auto simp: walked_def)
    then show False using below_depth [OF ok z(2)] tree_child(2) [OF ok z(1)] by simp
  qed
  let ?xs = "(0, g_root) # sub"
  have w: "vfs_walk v (Some vfs_root) 0 = Some ?xs" using sub(1) by (simp add: vfs_walk_def vfs_root_def)
  have d: "distinct (map snd ?xs)" using sub(2) root by (simp add: walked_def)
  have s: "snd ` set ?xs = members K" using sub(2) image_step [of K g_root] members_reached [OF ok] by (simp add: walked_def)
  have "length ?xs = card (members K)" using distinct_card [OF d] s by (simp del: distinct.simps)
  then have "of_nat (length ?xs) = vfs_node_count v" using ok by (simp add: tree_ok_def vfs_node_count_def del: length_Cons)
  moreover have "\<exists>p. parent (vnode v x) = Some p \<and> (k - 1, p) \<in> set ?xs" if "(k, x) \<in> set sub" for k x
  proof -
    have "x \<in> set (K g_root) \<and> k = 1 \<or> (\<exists>p. parent (vnode v x) = Some p \<and> (k - 1, p) \<in> set sub)"
      using that sub(2) unfolding walked_def by blast
    then show ?thesis using tree_child(1) [OF ok, of x g_root] by auto
  qed
  ultimately show ?thesis using w d s members_live [OF ok] by (intro exI [of _ ?xs]) (simp add: vfs_root_def)
qed

theorem vfs_walk_exact_witness:
  "\<exists>xs. vfs_walk vfs_boot (Some vfs_root) 0 = Some xs \<and> of_nat (length xs) = vfs_node_count vfs_boot"
  using vfs_walk_exact [OF boot_wf] by blast
end
