(* ===== verification/Cc.thy ===== *)
theory Cc
  imports Prelude "HOL-Library.Signed_Division"
begin

text \<open>
  The data shared by the stages of the on-device C compiler (\<open>cc/ccpriv.h\<close>) and its arena and error
  state (\<open>cc/cc.c\<close>). Types, variables and functions are mutable objects that other objects point to:
  they live in stores and are referred to by number. Abstract syntax nodes are never changed once
  they are built, apart from the label of a \<open>case\<close>, and are a datatype with one constructor per node
  kind. Sizes and offsets of type \<open>int\<close> are mathematical integers: they agree with the C values as
  long as these do not overflow, which in C is undefined.
\<close>

section \<open>Errors and the arena\<close>

record cc =
  g_err :: bool
  g_errbuf :: string
  g_acap :: u64
  g_apos :: u64

definition copy_msg :: "string \<Rightarrow> string" where
  "copy_msg m = take 127 m"

definition cc_error :: "string \<Rightarrow> cc \<Rightarrow> cc" where
  "cc_error msg s = (if g_err s then s else s\<lparr>g_err := True, g_errbuf := copy_msg msg\<rparr>)"

definition cc_errorc :: "string \<Rightarrow> char \<Rightarrow> cc \<Rightarrow> cc" where
  "cc_errorc msg c s =
     (if g_err s then s else s\<lparr>g_err := True, g_errbuf := take 123 msg @ '' '' @ [CHR 0x27, c, CHR 0x27]\<rparr>)"

definition cc_failed :: "cc \<Rightarrow> bool" where "cc_failed s = g_err s"
definition cc_errmsg :: "cc \<Rightarrow> string" where "cc_errmsg s = g_errbuf s"

definition CC_ARENA :: u64 where "CC_ARENA = 2 * 1024 * 1024"

definition arena_init :: "u64 \<Rightarrow> cc \<Rightarrow> cc" where
  "arena_init cap s = s\<lparr>g_acap := (if cap \<le> CC_ARENA then cap else CC_ARENA), g_apos := 0\<rparr>"

definition arena_free :: "cc \<Rightarrow> cc" where
  "arena_free s = s\<lparr>g_acap := 0, g_apos := 0\<rparr>"

text \<open>\<open>cc_alloc\<close> gives the offset of the block in the arena, or \<open>None\<close> for the panic sink.\<close>

definition cc_alloc :: "u64 \<Rightarrow> cc \<Rightarrow> u64 option \<times> cc" where
  "cc_alloc n s =
     (let n = (n + 15) AND NOT 15 in
      if g_acap s < g_apos s + n then (None, cc_error ''compiler arena exhausted'' s)
      else (Some (g_apos s), s\<lparr>g_apos := g_apos s + n\<rparr>))"

section \<open>Tokens, types and syntax trees\<close>

datatype token_t =
    TK_NUM u64
  | TK_STR string u64
  | TK_IDENT string
  | TK_PUNCT string
  | TK_KW string
  | TK_EOF

datatype tykind_t = TY_INT | TY_CHAR | TY_PTR | TY_ARRAY | TY_STRUCT

type_synonym tid = nat
type_synonym varid = nat
type_synonym fid = nat

record member_t =
  m_name :: string
  m_ty :: tid
  m_offset :: int

record type_t =
  ty_kind :: tykind_t
  ty_size :: int
  ty_base :: "tid option"
  ty_arraylen :: int
  ty_members :: "member_t list"

record var_t =
  v_name :: string
  v_ty :: tid
  v_offset :: int
  is_global :: bool
  v_gaddr :: u64

datatype binop = ND_ADD | ND_SUB | ND_MUL | ND_DIV | ND_MOD | ND_EQ | ND_NE | ND_LT | ND_LE

text \<open>A case label as the switch lists it: its number, whether it is the default, and its value.\<close>

type_synonym caseref = "nat \<times> bool \<times> u64"

datatype node_t =
    ND_NUM "tid option" u64
  | ND_VAR "tid option" varid
  | ND_STR "tid option" u64
  | ND_BIN binop "tid option" node_t node_t
  | ND_LOGAND "tid option" node_t node_t
  | ND_LOGOR "tid option" node_t node_t
  | ND_NOT "tid option" node_t
  | ND_NEG "tid option" node_t
  | ND_ASSIGN "tid option" node_t node_t
  | ND_ADDR "tid option" node_t
  | ND_DEREF "tid option" node_t
  | ND_MEMBER "tid option" node_t int
  | ND_FUNCALL "tid option" string "node_t list"
  | ND_RETURN node_t
  | ND_IF node_t node_t "node_t option"
  | ND_WHILE node_t node_t
  | ND_FOR "node_t option" "node_t option" "node_t option" node_t
  | ND_BLOCK "node_t list"
  | ND_EXPR_STMT node_t
  | ND_SWITCH node_t "caseref list" node_t
  | ND_CASE nat node_t
  | ND_BREAK
  | ND_CONTINUE

text \<open>The field \<open>ty\<close> of a node; statements have none.\<close>

fun nd_ty :: "node_t \<Rightarrow> tid option" where
  "nd_ty (ND_NUM t _) = t"
| "nd_ty (ND_VAR t _) = t"
| "nd_ty (ND_STR t _) = t"
| "nd_ty (ND_BIN _ t _ _) = t"
| "nd_ty (ND_LOGAND t _ _) = t"
| "nd_ty (ND_LOGOR t _ _) = t"
| "nd_ty (ND_NOT t _) = t"
| "nd_ty (ND_NEG t _) = t"
| "nd_ty (ND_ASSIGN t _ _) = t"
| "nd_ty (ND_ADDR t _) = t"
| "nd_ty (ND_DEREF t _) = t"
| "nd_ty (ND_MEMBER t _ _) = t"
| "nd_ty (ND_FUNCALL t _ _) = t"
| "nd_ty _ = None"

record func_t =
  f_name :: string
  f_ret :: tid
  f_params :: "varid list"
  f_locals :: "varid list"
  f_body :: "node_t option"

end
