(* ===== verification/Codegen.thy ===== *)
theory Codegen
  imports Cc
begin

text \<open>
  The AArch64 code generator (\<open>cc/codegen.c\<close>). Its static variables are the record \<open>cgen\<close>; every emitter
  and generator is a function on it. The output buffer is the byte list \<open>g_buf\<close> at the address
  \<open>g_base\<close>; the flag \<open>oob\<close> records a write outside the buffer or outside one of the fixed-size tables.
\<close>

section \<open>State and emit buffer\<close>

datatype br_kind = BR_B | BR_CBZ | BR_CBNZ | BR_BCOND

record bfix =
  bf_site :: nat
  bf_lab :: nat
  bf_kind :: br_kind
  bf_cond :: u32

record cgen =
  g_buf :: bytes
  g_base :: u64
  g_pos :: nat
  g_cap :: nat
  g_oom :: bool
  lab_off :: "nat \<Rightarrow> nat"
  nlab :: nat
  bfx :: "bfix list"
  brk_lab :: "nat list"
  cont_lab :: "nat list"
  cfx :: "(nat \<times> fid) list"
  cur_lret :: nat
  g_tickaddr :: u64
  clabel :: "nat \<Rightarrow> nat"
  cvars :: "varid \<Rightarrow> var_t"
  code_off :: "fid \<Rightarrow> nat"
  stacksize :: "fid \<Rightarrow> int"
  cst :: cc
  oob :: bool

text \<open>What the generator reads: the type store, the external symbols and the function list.\<close>

record cenv =
  types :: "tid \<Rightarrow> type_t"
  cc_resolve_extern :: "string \<Rightarrow> u64"
  g_funcs :: "func_t list"

definition MAXLAB :: nat where "MAXLAB = 2048"
definition MAXBFX :: nat where "MAXBFX = 2048"
definition MAXCFX :: nat where "MAXCFX = 2048"
definition LOOPDEPTH :: nat where "LOOPDEPTH = 64"

definition cg_error :: "string \<Rightarrow> cgen \<Rightarrow> cgen" where
  "cg_error msg g = g\<lparr>cst := cc_error msg (cst g)\<rparr>"

definition word_bytes :: "u32 \<Rightarrow> bytes" where
  "word_bytes w = [ucast w, ucast (drop_bit 8 w), ucast (drop_bit 16 w), ucast (drop_bit 24 w)]"

definition put32 :: "nat \<Rightarrow> u32 \<Rightarrow> cgen \<Rightarrow> cgen" where
  "put32 pos w g =
     (if pos + 4 \<le> length (g_buf g) then g\<lparr>g_buf := put_bytes (g_buf g) pos (word_bytes w)\<rparr> else g\<lparr>oob := True\<rparr>)"

definition emit :: "u32 \<Rightarrow> cgen \<Rightarrow> cgen" where
  "emit w g =
     (if g_cap g < g_pos g + 4 then g\<lparr>g_oom := True\<rparr>
      else (put32 (g_pos g) w g)\<lparr>g_pos := g_pos g + 4\<rparr>)"

section \<open>Instruction encoders\<close>

definition reg :: "nat \<Rightarrow> nat \<Rightarrow> u32" where "reg sh r = push_bit sh (of_nat r)"

definition emit_push :: "cgen \<Rightarrow> cgen" where "emit_push = emit 0xF81F0FE0"
definition emit_pop :: "nat \<Rightarrow> cgen \<Rightarrow> cgen" where "emit_pop r = emit (0xF84107E0 OR reg 0 r)"
definition emit_add_rrr :: "nat \<Rightarrow> nat \<Rightarrow> nat \<Rightarrow> cgen \<Rightarrow> cgen" where
  "emit_add_rrr d n m = emit (0x8B000000 OR reg 16 m OR reg 5 n OR reg 0 d)"
definition emit_sub_rrr :: "nat \<Rightarrow> nat \<Rightarrow> nat \<Rightarrow> cgen \<Rightarrow> cgen" where
  "emit_sub_rrr d n m = emit (0xCB000000 OR reg 16 m OR reg 5 n OR reg 0 d)"
definition emit_mul :: "nat \<Rightarrow> nat \<Rightarrow> nat \<Rightarrow> cgen \<Rightarrow> cgen" where
  "emit_mul d n m = emit (0x9B000000 OR reg 16 m OR push_bit 10 0x1F OR reg 5 n OR reg 0 d)"
definition emit_sdiv :: "nat \<Rightarrow> nat \<Rightarrow> nat \<Rightarrow> cgen \<Rightarrow> cgen" where
  "emit_sdiv d n m = emit (0x9AC00C00 OR reg 16 m OR reg 5 n OR reg 0 d)"
definition emit_msub :: "nat \<Rightarrow> nat \<Rightarrow> nat \<Rightarrow> nat \<Rightarrow> cgen \<Rightarrow> cgen" where
  "emit_msub d n m a = emit (0x9B008000 OR reg 16 m OR reg 10 a OR reg 5 n OR reg 0 d)"
definition emit_add_imm :: "nat \<Rightarrow> nat \<Rightarrow> int \<Rightarrow> cgen \<Rightarrow> cgen" where
  "emit_add_imm d n imm = emit (0x91000000 OR push_bit 10 (of_int imm AND 0xFFF) OR reg 5 n OR reg 0 d)"
definition emit_sub_imm :: "nat \<Rightarrow> nat \<Rightarrow> int \<Rightarrow> cgen \<Rightarrow> cgen" where
  "emit_sub_imm d n imm = emit (0xD1000000 OR push_bit 10 (of_int imm AND 0xFFF) OR reg 5 n OR reg 0 d)"
definition emit_cmp_rr :: "nat \<Rightarrow> nat \<Rightarrow> cgen \<Rightarrow> cgen" where
  "emit_cmp_rr n m = emit (0xEB000000 OR reg 16 m OR reg 5 n OR 0x1F)"
definition emit_cmp0 :: "nat \<Rightarrow> cgen \<Rightarrow> cgen" where "emit_cmp0 n = emit (0xF100001F OR reg 5 n)"

definition C_EQ :: u32 where "C_EQ = 0"
definition C_NE :: u32 where "C_NE = 1"
definition C_LT :: u32 where "C_LT = 11"
definition C_LE :: u32 where "C_LE = 13"

definition emit_cset :: "nat \<Rightarrow> u32 \<Rightarrow> cgen \<Rightarrow> cgen" where
  "emit_cset d cond = emit (0x9A9F07E0 OR push_bit 12 (cond XOR 1) OR reg 0 d)"
definition emit_ldr :: "nat \<Rightarrow> nat \<Rightarrow> cgen \<Rightarrow> cgen" where "emit_ldr t n = emit (0xF9400000 OR reg 5 n OR reg 0 t)"
definition emit_str :: "nat \<Rightarrow> nat \<Rightarrow> cgen \<Rightarrow> cgen" where "emit_str t n = emit (0xF9000000 OR reg 5 n OR reg 0 t)"
definition emit_ldrb :: "nat \<Rightarrow> nat \<Rightarrow> cgen \<Rightarrow> cgen" where "emit_ldrb t n = emit (0x39400000 OR reg 5 n OR reg 0 t)"
definition emit_strb :: "nat \<Rightarrow> nat \<Rightarrow> cgen \<Rightarrow> cgen" where "emit_strb t n = emit (0x39000000 OR reg 5 n OR reg 0 t)"
definition emit_mov_imm_small :: "nat \<Rightarrow> u32 \<Rightarrow> cgen \<Rightarrow> cgen" where
  "emit_mov_imm_small d v = emit (0xD2800000 OR push_bit 5 (v AND 0xFFFF) OR reg 0 d)"
definition emit_blr :: "nat \<Rightarrow> cgen \<Rightarrow> cgen" where "emit_blr n = emit (0xD63F0000 OR reg 5 n)"
definition emit_ret :: "cgen \<Rightarrow> cgen" where "emit_ret = emit 0xD65F03C0"
definition emit_prologue_stp :: "cgen \<Rightarrow> cgen" where "emit_prologue_stp = emit 0xA9BF7BFD"
definition emit_mov_fp_sp :: "cgen \<Rightarrow> cgen" where "emit_mov_fp_sp = emit 0x910003FD"
definition emit_mov_sp_fp :: "cgen \<Rightarrow> cgen" where "emit_mov_sp_fp = emit 0x910003BF"
definition emit_epilogue_ldp :: "cgen \<Rightarrow> cgen" where "emit_epilogue_ldp = emit 0xA8C17BFD"

text \<open>The four words that load a 64-bit constant: \<open>movz\<close> and three \<open>movk\<close>.\<close>

definition mov_word :: "nat \<Rightarrow> nat \<Rightarrow> u64 \<Rightarrow> u32" where
  "mov_word i r v =
     (if i = 0 then 0xD2800000 else 0xF2800000 OR push_bit 21 (of_nat i)) OR
     push_bit 5 (ucast (drop_bit (16 * i) v AND 0xFFFF)) OR reg 0 r"

definition emit_loadimm :: "nat \<Rightarrow> u64 \<Rightarrow> cgen \<Rightarrow> cgen" where
  "emit_loadimm r v g = emit (mov_word 3 r v) (emit (mov_word 2 r v) (emit (mov_word 1 r v) (emit (mov_word 0 r v) g)))"

definition patch_loadimm :: "nat \<Rightarrow> nat \<Rightarrow> u64 \<Rightarrow> cgen \<Rightarrow> cgen" where
  "patch_loadimm pos r v g =
     put32 (pos + 12) (mov_word 3 r v) (put32 (pos + 8) (mov_word 2 r v)
       (put32 (pos + 4) (mov_word 1 r v) (put32 pos (mov_word 0 r v) g)))"

section \<open>Labels and branches\<close>

definition newlabel :: "cgen \<Rightarrow> nat \<times> cgen" where
  "newlabel g = (if MAXLAB \<le> nlab g then (0, cg_error ''too many labels'' g) else (nlab g, g\<lparr>nlab := nlab g + 1\<rparr>))"

definition place :: "nat \<Rightarrow> cgen \<Rightarrow> cgen" where
  "place l g = (if l < MAXLAB then g\<lparr>lab_off := (lab_off g)(l := g_pos g)\<rparr> else g)"

definition add_bfx :: "nat \<Rightarrow> br_kind \<Rightarrow> u32 \<Rightarrow> cgen \<Rightarrow> cgen" where
  "add_bfx l k c g =
     (if length (bfx g) < MAXBFX
      then g\<lparr>bfx := bfx g @ [\<lparr>bf_site = g_pos g, bf_lab = l, bf_kind = k, bf_cond = c\<rparr>]\<rparr> else g)"

definition emit_b :: "nat \<Rightarrow> cgen \<Rightarrow> cgen" where "emit_b l g = emit 0x14000000 (add_bfx l BR_B 0 g)"
definition emit_cbz :: "nat \<Rightarrow> cgen \<Rightarrow> cgen" where "emit_cbz l g = emit 0xB4000000 (add_bfx l BR_CBZ 0 g)"
definition emit_cbnz :: "nat \<Rightarrow> cgen \<Rightarrow> cgen" where "emit_cbnz l g = emit 0xB5000000 (add_bfx l BR_CBNZ 0 g)"
definition emit_bcond :: "u32 \<Rightarrow> nat \<Rightarrow> cgen \<Rightarrow> cgen" where
  "emit_bcond cond l g = emit 0x54000000 (add_bfx l BR_BCOND cond g)"

definition branch_word :: "bfix \<Rightarrow> (nat \<Rightarrow> nat) \<Rightarrow> u32" where
  "branch_word b labs =
     (let delta = of_int ((int (labs (bf_lab b)) - int (bf_site b)) div 4) :: u32 in
      case bf_kind b of
        BR_B \<Rightarrow> 0x14000000 OR (delta AND 0x03FFFFFF)
      | BR_CBZ \<Rightarrow> 0xB4000000 OR push_bit 5 (delta AND 0x7FFFF)
      | BR_CBNZ \<Rightarrow> 0xB5000000 OR push_bit 5 (delta AND 0x7FFFF)
      | BR_BCOND \<Rightarrow> 0x54000000 OR push_bit 5 (delta AND 0x7FFFF) OR bf_cond b)"

definition resolve_branches :: "cgen \<Rightarrow> cgen" where
  "resolve_branches g = fold (\<lambda>b g. put32 (bf_site b) (branch_word b (lab_off g)) g) (bfx g) g"

definition find_func :: "cenv \<Rightarrow> string \<Rightarrow> fid option" where
  "find_func E name = find (\<lambda>i. f_name (g_funcs E ! i) = name) [0..<length (g_funcs E)]"

section \<open>Expressions\<close>

definition emit_budget_check :: "nat \<Rightarrow> cgen \<Rightarrow> cgen" where
  "emit_budget_check exit_label g =
     (if g_tickaddr g = 0 then g else emit_cbz exit_label (emit_blr 9 (emit_loadimm 9 (g_tickaddr g) g)))"

definition ty_is :: "cenv \<Rightarrow> tid option \<Rightarrow> (type_t \<Rightarrow> bool) \<Rightarrow> bool" where
  "ty_is E t P = (case t of None \<Rightarrow> False | Some i \<Rightarrow> P (types E i))"

definition gen_load :: "cenv \<Rightarrow> tid option \<Rightarrow> cgen \<Rightarrow> cgen" where
  "gen_load E t g =
     (if ty_is E t (\<lambda>x. ty_kind x = TY_ARRAY) then g
      else if ty_is E t (\<lambda>x. ty_size x = 1) then emit_ldrb 0 0 g else emit_ldr 0 0 g)"

definition gen_store :: "cenv \<Rightarrow> tid option \<Rightarrow> cgen \<Rightarrow> cgen" where
  "gen_store E t g = (if ty_is E t (\<lambda>x. ty_size x = 1) then emit_strb 0 1 g else emit_str 0 1 g)"

definition gen_binop :: "binop \<Rightarrow> cgen \<Rightarrow> cgen" where
  "gen_binop k g =
     (case k of
        ND_ADD \<Rightarrow> emit_add_rrr 0 0 1 g
      | ND_SUB \<Rightarrow> emit_sub_rrr 0 0 1 g
      | ND_MUL \<Rightarrow> emit_mul 0 0 1 g
      | ND_DIV \<Rightarrow> emit_sdiv 0 0 1 g
      | ND_MOD \<Rightarrow> emit_msub 0 2 1 0 (emit_sdiv 2 0 1 g)
      | ND_EQ \<Rightarrow> emit_cset 0 C_EQ (emit_cmp_rr 0 1 g)
      | ND_NE \<Rightarrow> emit_cset 0 C_NE (emit_cmp_rr 0 1 g)
      | ND_LT \<Rightarrow> emit_cset 0 C_LT (emit_cmp_rr 0 1 g)
      | ND_LE \<Rightarrow> emit_cset 0 C_LE (emit_cmp_rr 0 1 g))"

definition gen_var_addr :: "varid \<Rightarrow> cgen \<Rightarrow> cgen" where
  "gen_var_addr v g =
     (let x = cvars g v in
      if is_global x then emit_loadimm 0 (v_gaddr x) g
      else if v_offset x \<le> 0xFFF then emit_sub_imm 0 29 (v_offset x) g
      else emit_sub_rrr 0 29 9 (emit_loadimm 9 (of_int (v_offset x)) g))"

definition call_func :: "cenv \<Rightarrow> string \<Rightarrow> cgen \<Rightarrow> cgen" where
  "call_func E name g =
     (case find_func E name of
        Some uf \<Rightarrow>
          emit_blr 9 (emit_loadimm 9 0
            (if length (cfx g) < MAXCFX then g\<lparr>cfx := cfx g @ [(g_pos g, uf)]\<rparr> else g))
      | None \<Rightarrow>
          if cc_resolve_extern E name = 0 then cg_error ''call to undefined function'' g
          else emit_blr 9 (emit_loadimm 9 (cc_resolve_extern E name) g))"

definition pop_args :: "nat \<Rightarrow> cgen \<Rightarrow> cgen" where
  "pop_args argc g = fold emit_pop (rev [0..<argc]) g"

lemma size_list_take: "size_list f (take n xs) \<le> size_list f xs"
  by (induction xs arbitrary: n) (auto simp: take_Cons split: nat.split)

function (sequential) gen_addr :: "cenv \<Rightarrow> node_t \<Rightarrow> cgen \<Rightarrow> cgen"
  and gen_expr :: "cenv \<Rightarrow> node_t \<Rightarrow> cgen \<Rightarrow> cgen"
  and gen_args :: "cenv \<Rightarrow> node_t list \<Rightarrow> cgen \<Rightarrow> cgen" where
  "gen_addr E (ND_VAR t v) g = gen_var_addr v g"
| "gen_addr E (ND_DEREF t e) g = gen_expr E e g"
| "gen_addr E (ND_MEMBER t e off) g = (let g = gen_addr E e g in if off \<noteq> 0 then emit_add_imm 0 0 off g else g)"
| "gen_addr E (ND_STR t s) g = emit_loadimm 0 s g"
| "gen_addr E n g = cg_error ''not an lvalue'' g"
| "gen_expr E n g =
     (if cc_failed (cst g) then g
      else (case n of
        ND_NUM t v \<Rightarrow> emit_loadimm 0 v g
      | ND_STR t s \<Rightarrow> emit_loadimm 0 s g
      | ND_VAR t v \<Rightarrow> gen_load E t (gen_addr E n g)
      | ND_ASSIGN t l r \<Rightarrow> gen_store E (nd_ty l) (emit_pop 1 (gen_expr E r (emit_push (gen_addr E l g))))
      | ND_DEREF t e \<Rightarrow> gen_load E t (gen_expr E e g)
      | ND_MEMBER t e off \<Rightarrow> gen_load E t (gen_addr E n g)
      | ND_ADDR t e \<Rightarrow> gen_addr E e g
      | ND_NEG t e \<Rightarrow> emit_sub_rrr 0 31 0 (gen_expr E e g)
      | ND_NOT t e \<Rightarrow> emit_cset 0 C_EQ (emit_cmp0 0 (gen_expr E e g))
      | ND_LOGAND t l r \<Rightarrow>
          (let (lfalse, g) = newlabel g; (lend, g) = newlabel g;
               g = emit_cbz lfalse (gen_expr E l g);
               g = emit_cbz lfalse (gen_expr E r g);
               g = emit_b lend (emit_mov_imm_small 0 1 g);
               g = emit_mov_imm_small 0 0 (place lfalse g)
           in place lend g)
      | ND_LOGOR t l r \<Rightarrow>
          (let (ltrue, g) = newlabel g; (lend, g) = newlabel g;
               g = emit_cbnz ltrue (emit_cmp0 0 (gen_expr E l g));
               g = emit_cbnz ltrue (gen_expr E r g);
               g = emit_b lend (emit_mov_imm_small 0 0 g);
               g = emit_mov_imm_small 0 1 (place ltrue g)
           in place lend g)
      | ND_FUNCALL t name args \<Rightarrow>
          (let g = (if 8 < length args then cg_error ''too many call arguments (max 8)'' g else g);
               g = gen_args E (take 8 args) g
           in call_func E name (pop_args (length (take 8 args)) g))
      | ND_BIN k t l r \<Rightarrow> gen_binop k (emit_pop 1 (gen_expr E l (emit_push (gen_expr E r g))))
      | _ \<Rightarrow> cg_error ''unexpected node in expression'' g))"
| "gen_args E [] g = g"
| "gen_args E (a # as) g = gen_args E as (emit_push (gen_expr E a g))"
  by pat_completeness auto

termination
  by (relation "measures [\<lambda>x. case x of Inl (E, n, g) \<Rightarrow> size n | Inr (Inl (E, n, g)) \<Rightarrow> size n | Inr (Inr (E, ns, g)) \<Rightarrow> size_list size ns,
      \<lambda>x. case x of Inl _ \<Rightarrow> 0 | Inr (Inl _) \<Rightarrow> 1 | Inr (Inr _) \<Rightarrow> 0]")
    (auto intro: le_imp_less_Suc [OF size_list_take])


declare gen_expr.simps [simp del]

section \<open>Statements\<close>

definition push_brk :: "nat \<Rightarrow> cgen \<Rightarrow> cgen" where
  "push_brk l g = g\<lparr>brk_lab := l # brk_lab g, oob := oob g \<or> LOOPDEPTH \<le> length (brk_lab g)\<rparr>"

definition push_cont :: "nat \<Rightarrow> cgen \<Rightarrow> cgen" where
  "push_cont l g = g\<lparr>cont_lab := l # cont_lab g, oob := oob g \<or> LOOPDEPTH \<le> length (cont_lab g)\<rparr>"

definition pop_brk :: "cgen \<Rightarrow> cgen" where "pop_brk g = g\<lparr>brk_lab := tl (brk_lab g)\<rparr>"
definition pop_cont :: "cgen \<Rightarrow> cgen" where "pop_cont g = g\<lparr>cont_lab := tl (cont_lab g)\<rparr>"

text \<open>The dispatch of a switch: the label of the default case, if any, is the first component.\<close>

fun gen_cases :: "caseref list \<Rightarrow> nat option \<Rightarrow> cgen \<Rightarrow> nat option \<times> cgen" where
  "gen_cases [] def g = (def, g)"
| "gen_cases ((c, is_default, val) # cs) def g =
     (let (l, g) = newlabel g; g = g\<lparr>clabel := (clabel g)(c := l)\<rparr> in
      if is_default then gen_cases cs (Some l) g
      else gen_cases cs def (emit_bcond C_EQ l (emit_cmp_rr 0 1 (emit_loadimm 1 val g))))"

fun gen_stmt :: "cenv \<Rightarrow> node_t \<Rightarrow> cgen \<Rightarrow> cgen"
  and gen_opt :: "cenv \<Rightarrow> node_t option \<Rightarrow> cgen \<Rightarrow> cgen"
  and gen_stmts :: "cenv \<Rightarrow> node_t list \<Rightarrow> cgen \<Rightarrow> cgen" where
  "gen_stmt E n g =
     (if cc_failed (cst g) then g
      else (case n of
        ND_EXPR_STMT e \<Rightarrow> gen_expr E e g
      | ND_RETURN e \<Rightarrow> (let g = gen_expr E e g in emit_b (cur_lret g) g)
      | ND_IF c t e \<Rightarrow>
          (let (lelse, g) = newlabel g; (lend, g) = newlabel g;
               g = emit_cbz lelse (gen_expr E c g);
               g = emit_b lend (gen_stmt E t g);
               g = gen_opt E e (place lelse g)
           in place lend g)
      | ND_WHILE c b \<Rightarrow>
          (let (lbegin, g) = newlabel g; (lend, g) = newlabel g;
               g = emit_cbz lend (gen_expr E c (place lbegin g));
               g = gen_stmt E b (push_cont lbegin (push_brk lend g));
               g = pop_cont (pop_brk g);
               g = emit_b lbegin (emit_budget_check lend g)
           in place lend g)
      | ND_FOR i c s b \<Rightarrow>
          (let (lbegin, g) = newlabel g; (lcont, g) = newlabel g; (lend, g) = newlabel g;
               g = place lbegin (gen_opt E i g);
               g = (case c of None \<Rightarrow> g | Some c \<Rightarrow> emit_cbz lend (gen_expr E c g));
               g = gen_stmt E b (push_cont lcont (push_brk lend g));
               g = place lcont (pop_cont (pop_brk g));
               g = (case s of None \<Rightarrow> g | Some s \<Rightarrow> gen_expr E s g);
               g = emit_b lbegin (emit_budget_check lend g)
           in place lend g)
      | ND_SWITCH c cs b \<Rightarrow>
          (let (lend, g) = newlabel g;
               (def, g) = gen_cases cs None (gen_expr E c g);
               g = emit_b (case def of Some l \<Rightarrow> l | None \<Rightarrow> lend) g;
               g = pop_brk (gen_stmt E b (push_brk lend g))
           in place lend g)
      | ND_CASE c b \<Rightarrow> gen_stmt E b (place (clabel g c) g)
      | ND_BREAK \<Rightarrow> (case brk_lab g of l # _ \<Rightarrow> emit_b l g | [] \<Rightarrow> cg_error ''break outside loop/switch'' g)
      | ND_CONTINUE \<Rightarrow> (case cont_lab g of l # _ \<Rightarrow> emit_b l g | [] \<Rightarrow> cg_error ''continue outside loop'' g)
      | ND_BLOCK ns \<Rightarrow> gen_stmts E ns g
      | _ \<Rightarrow> gen_expr E n g))"
| "gen_opt E None g = g"
| "gen_opt E (Some n) g = gen_stmt E n g"
| "gen_stmts E [] g = g"
| "gen_stmts E (n # ns) g = gen_stmts E ns (gen_stmt E n g)"

declare gen_stmt.simps [simp del]

section \<open>Functions\<close>

definition align_up :: "int \<Rightarrow> int \<Rightarrow> int" where
  "align_up n a = (n + a - 1) sdiv a * a"

fun assign_loop :: "cenv \<Rightarrow> varid list \<Rightarrow> int \<Rightarrow> cgen \<Rightarrow> int \<times> cgen" where
  "assign_loop E [] off g = (off, g)"
| "assign_loop E (v # vs) off g =
     (let off = align_up (off + ty_size (types E (v_ty (cvars g v)))) 8
      in assign_loop E vs off (g\<lparr>cvars := (cvars g)(v := (cvars g v)\<lparr>v_offset := off\<rparr>)\<rparr>))"

definition assign_offsets :: "cenv \<Rightarrow> func_t \<Rightarrow> cgen \<Rightarrow> int \<times> cgen" where
  "assign_offsets E fn g = (let (off, g) = assign_loop E (f_locals fn) 0 g in (align_up off 16, g))"

definition gen_frame :: "int \<Rightarrow> cgen \<Rightarrow> cgen" where
  "gen_frame frame g =
     (if frame \<le> 0 then g
      else if frame \<le> 0xFFF then emit_sub_imm 31 31 frame g
      else emit_sub_rrr 31 31 9 (emit_loadimm 9 (of_int frame) g))"

definition spill_param :: "cenv \<Rightarrow> nat \<times> varid \<Rightarrow> cgen \<Rightarrow> cgen" where
  "spill_param E = (\<lambda>(i, v) g.
     (let p = cvars g v;
          g = (if v_offset p \<le> 0xFFF then emit_sub_imm 9 29 (v_offset p) g
               else emit_sub_rrr 9 29 9 (emit_loadimm 9 (of_int (v_offset p)) g))
      in if ty_size (types E (v_ty p)) = 1 then emit_strb i 9 g else emit_str i 9 g))"

definition gen_func :: "cenv \<Rightarrow> fid \<Rightarrow> cgen \<Rightarrow> cgen" where
  "gen_func E i g =
     (let fn = g_funcs E ! i;
          g = g\<lparr>code_off := (code_off g)(i := g_pos g)\<rparr>;
          (frame, g) = assign_offsets E fn g;
          g = g\<lparr>stacksize := (stacksize g)(i := frame), nlab := 0, bfx := [], brk_lab := [], cont_lab := []\<rparr>;
          (l, g) = newlabel g;
          g = g\<lparr>cur_lret := l\<rparr>;
          g = gen_frame frame (emit_mov_fp_sp (emit_prologue_stp g));
          g = fold (spill_param E) (enumerate 0 (f_params fn)) g;
          g = gen_opt E (f_body fn) g;
          g = place (cur_lret g) (emit_mov_imm_small 0 0 g);
          g = emit_ret (emit_epilogue_ldp (emit_mov_sp_fp g))
      in resolve_branches g)"

fun gen_funcs :: "cenv \<Rightarrow> fid list \<Rightarrow> cgen \<Rightarrow> bool \<times> cgen" where
  "gen_funcs E [] g = (True, g)"
| "gen_funcs E (i # is) g =
     (let g = gen_func E i g in
      if cc_failed (cst g) then (False, g)
      else if g_oom g then (False, cg_error ''code buffer overflow'' g)
      else gen_funcs E is g)"

definition cg_init :: "cenv \<Rightarrow> bytes \<Rightarrow> u64 \<Rightarrow> nat \<Rightarrow> cgen \<Rightarrow> cgen" where
  "cg_init E buf base cap g =
     g\<lparr>g_buf := buf, g_base := base, g_pos := 0, g_cap := cap, g_oom := False, cfx := [],
       g_tickaddr := cc_resolve_extern E ''__cc_tick''\<rparr>"

text \<open>\<open>cc_codegen\<close> returns the number of bytes or -1, the offset of \<open>main\<close> and the final state.\<close>

definition cc_codegen :: "cenv \<Rightarrow> bytes \<Rightarrow> u64 \<Rightarrow> nat \<Rightarrow> cgen \<Rightarrow> int \<times> nat option \<times> cgen" where
  "cc_codegen E buf base cap g =
     (case gen_funcs E [0..<length (g_funcs E)] (cg_init E buf base cap g) of
        (False, g) \<Rightarrow> (-1, None, g)
      | (True, g) \<Rightarrow>
          let g = fold (\<lambda>(site, f) g. patch_loadimm site 9 (g_base g + of_nat (code_off g f)) g) (cfx g) g in
          (case find_func E ''main'' of
             None \<Rightarrow> (-1, None, cg_error ''no main() function'' g)
           | Some m \<Rightarrow> (int (g_pos g), Some (code_off g m), g)))"

definition cc_func_offset :: "cenv \<Rightarrow> string \<Rightarrow> cgen \<Rightarrow> int" where
  "cc_func_offset E name g = (case find_func E name of Some f \<Rightarrow> int (code_off g f) | None \<Rightarrow> -1)"

end
