(* ===== verification/Arm64.thy ===== *)
theory Arm64
  imports Prelude "HOL-Library.Signed_Division"
begin

text \<open>
  The instructions of the AArch64 architecture that the code generator emits, as the architecture
  defines them: decoding of the 32-bit word and the effect on the registers, the flags and the
  memory. Register number 31 is the stack pointer or the zero register, depending on the
  instruction: the address operand of loads and stores and the operands of \<open>add\<close> and \<open>sub\<close> with an
  immediate are the stack pointer, all others the zero register.
\<close>

section \<open>Memory\<close>

type_synonym amem = "u64 \<Rightarrow> u8"

definition load64 :: "amem \<Rightarrow> u64 \<Rightarrow> u64" where
  "load64 m a = fold (\<lambda>i v. v OR push_bit (8 * i) (ucast (m (a + of_nat i)))) [0..<8] 0"

definition store64 :: "u64 \<Rightarrow> u64 \<Rightarrow> amem \<Rightarrow> amem" where
  "store64 a v m = fold (\<lambda>i m. m(a + of_nat i := ucast (drop_bit (8 * i) v))) [0..<8] m"

section \<open>Machine state\<close>

record a64 =
  xreg :: "nat \<Rightarrow> u64"
  spreg :: u64
  cmem :: amem
  flag_n :: bool
  flag_z :: bool
  flag_v :: bool

definition rx :: "nat \<Rightarrow> a64 \<Rightarrow> u64" where "rx r s = (if r = 31 then 0 else xreg s r)"
definition rs :: "nat \<Rightarrow> a64 \<Rightarrow> u64" where "rs r s = (if r = 31 then spreg s else xreg s r)"
definition wx :: "nat \<Rightarrow> u64 \<Rightarrow> a64 \<Rightarrow> a64" where "wx r v s = (if r = 31 then s else s\<lparr>xreg := (xreg s)(r := v)\<rparr>)"
definition ws :: "nat \<Rightarrow> u64 \<Rightarrow> a64 \<Rightarrow> a64" where
  "ws r v s = (if r = 31 then s\<lparr>spreg := v\<rparr> else s\<lparr>xreg := (xreg s)(r := v)\<rparr>)"

definition set_flags :: "u64 \<Rightarrow> u64 \<Rightarrow> a64 \<Rightarrow> a64" where
  "set_flags a b s = s\<lparr>flag_n := sint (a - b) < 0, flag_z := (a = b), flag_v := sint (a - b) \<noteq> sint a - sint b\<rparr>"

definition cond_holds :: "nat \<Rightarrow> a64 \<Rightarrow> bool option" where
  "cond_holds c s =
     (if c = 0 then Some (flag_z s)
      else if c = 1 then Some (\<not> flag_z s)
      else if c = 10 then Some (flag_n s = flag_v s)
      else if c = 11 then Some (flag_n s \<noteq> flag_v s)
      else if c = 12 then Some (\<not> flag_z s \<and> flag_n s = flag_v s)
      else if c = 13 then Some (flag_z s \<or> flag_n s \<noteq> flag_v s)
      else None)"

section \<open>Decoding and execution\<close>

definition fld :: "u32 \<Rightarrow> nat \<Rightarrow> u32 \<Rightarrow> u32" where
  "fld w lo m = drop_bit lo (w AND push_bit lo m)"

abbreviation rd_of :: "u32 \<Rightarrow> nat" where "rd_of w \<equiv> unat (fld w 0 0x1F)"
abbreviation rn_of :: "u32 \<Rightarrow> nat" where "rn_of w \<equiv> unat (fld w 5 0x1F)"
abbreviation rm_of :: "u32 \<Rightarrow> nat" where "rm_of w \<equiv> unat (fld w 16 0x1F)"
abbreviation ra_of :: "u32 \<Rightarrow> nat" where "ra_of w \<equiv> unat (fld w 10 0x1F)"
abbreviation imm12 :: "u32 \<Rightarrow> u64" where "imm12 w \<equiv> ucast (fld w 10 0xFFF)"
abbreviation imm16 :: "u32 \<Rightarrow> u64" where "imm16 w \<equiv> ucast (fld w 5 0xFFFF)"
abbreviation hw_of :: "u32 \<Rightarrow> nat" where "hw_of w \<equiv> 16 * unat (fld w 21 3)"
abbreviation imm9 :: "u32 \<Rightarrow> u64" where "imm9 w \<equiv> scast (ucast (fld w 12 0x1FF) :: 9 word)"

definition sdiv64 :: "u64 \<Rightarrow> u64 \<Rightarrow> u64" where
  "sdiv64 a b = (if b = 0 then 0 else of_int (sint a sdiv sint b))"

definition exec :: "u32 \<Rightarrow> a64 \<Rightarrow> a64 option" where
  "exec w s =
     (if w AND 0xFF800000 = 0xD2800000 then Some (wx (rd_of w) (push_bit (hw_of w) (imm16 w)) s)
      else if w AND 0xFF800000 = 0xF2800000
      then Some (wx (rd_of w) (rx (rd_of w) s AND NOT (push_bit (hw_of w) 0xFFFF) OR push_bit (hw_of w) (imm16 w)) s)
      else if w AND 0xFFC00000 = 0x91000000 then Some (ws (rd_of w) (rs (rn_of w) s + imm12 w) s)
      else if w AND 0xFFC00000 = 0xD1000000 then Some (ws (rd_of w) (rs (rn_of w) s - imm12 w) s)
      else if w AND 0xFFC00000 = 0xF1000000
      then Some (wx (rd_of w) (rs (rn_of w) s - imm12 w) (set_flags (rs (rn_of w) s) (imm12 w) s))
      else if w AND 0xFFE0FC00 = 0x8B000000 then Some (wx (rd_of w) (rx (rn_of w) s + rx (rm_of w) s) s)
      else if w AND 0xFFE0FC00 = 0xCB000000 then Some (wx (rd_of w) (rx (rn_of w) s - rx (rm_of w) s) s)
      else if w AND 0xFFE0FC00 = 0xEB000000
      then Some (wx (rd_of w) (rx (rn_of w) s - rx (rm_of w) s) (set_flags (rx (rn_of w) s) (rx (rm_of w) s) s))
      else if w AND 0xFFE08000 = 0x9B000000 then Some (wx (rd_of w) (rx (ra_of w) s + rx (rn_of w) s * rx (rm_of w) s) s)
      else if w AND 0xFFE08000 = 0x9B008000 then Some (wx (rd_of w) (rx (ra_of w) s - rx (rn_of w) s * rx (rm_of w) s) s)
      else if w AND 0xFFE0FC00 = 0x9AC00C00 then Some (wx (rd_of w) (sdiv64 (rx (rn_of w) s) (rx (rm_of w) s)) s)
      else if w AND 0xFFE00C00 = 0x9A800400
      then (case cond_holds (unat (fld w 12 0xF)) s of
              None \<Rightarrow> None
            | Some b \<Rightarrow> Some (wx (rd_of w) (if b then rx (rn_of w) s else rx (rm_of w) s + 1) s))
      else if w AND 0xFFC00000 = 0xF9400000
      then Some (wx (rd_of w) (load64 (cmem s) (rs (rn_of w) s + 8 * imm12 w)) s)
      else if w AND 0xFFC00000 = 0xF9000000
      then Some (s\<lparr>cmem := store64 (rs (rn_of w) s + 8 * imm12 w) (rx (rd_of w) s) (cmem s)\<rparr>)
      else if w AND 0xFFC00000 = 0x39400000
      then Some (wx (rd_of w) (ucast (cmem s (rs (rn_of w) s + imm12 w))) s)
      else if w AND 0xFFC00000 = 0x39000000
      then Some (s\<lparr>cmem := (cmem s)(rs (rn_of w) s + imm12 w := ucast (rx (rd_of w) s))\<rparr>)
      else if w AND 0xFFE00C00 = 0xF8400400
      then Some (wx (rd_of w) (load64 (cmem s) (rs (rn_of w) s)) (ws (rn_of w) (rs (rn_of w) s + imm9 w) s))
      else if w AND 0xFFE00C00 = 0xF8000C00
      then (let a = rs (rn_of w) s + imm9 w in Some (ws (rn_of w) a (s\<lparr>cmem := store64 a (rx (rd_of w) s) (cmem s)\<rparr>)))
      else None)"

fun run :: "u32 list \<Rightarrow> a64 \<Rightarrow> a64 option" where
  "run [] s = Some s"
| "run (w # code) s = (case exec w s of None \<Rightarrow> None | Some s \<Rightarrow> run code s)"

lemma run_append: "run (xs @ ys) s = (case run xs s of None \<Rightarrow> None | Some s \<Rightarrow> run ys s)"
  by (induction xs arbitrary: s) (auto split: option.splits)

section \<open>Encoded fields\<close>

lemma push_and: "push_bit n (x :: u32) AND m = push_bit n (x AND drop_bit n m)"
  by (rule bit_word_eqI) (auto simp: bit_simps)

lemma drop_push: "drop_bit n (push_bit n (x :: u32)) = x AND mask (32 - n)"
  by (rule bit_word_eqI) (auto simp: bit_simps)



text \<open>A word made of constant bits and one field \<open>c\<close> at position \<open>p\<close>: masking and extracting.\<close>

lemma imm_and:
  "(K OR push_bit p (c AND k) OR R) AND m = ((K OR R) AND m) OR push_bit p ((c :: u32) AND (k AND drop_bit p m))"
  unfolding bit.conj_disj_distrib2 push_and and.assoc by (simp only: ac_simps)

lemma drop_push_masked: "drop_bit p (push_bit p (c AND k)) = (c :: u32) AND (k AND mask (32 - p))"
  by (simp only: drop_push and.assoc)


lemma exec_movz: "w AND 0xFF800000 = 0xD2800000 \<Longrightarrow> exec w s = Some (wx (rd_of w) (push_bit (hw_of w) (imm16 w)) s)"
  unfolding exec_def by (rule if_P)

lemma exec_movk:
  "w AND 0xFF800000 = 0xF2800000 \<Longrightarrow> exec w s =
     Some (wx (rd_of w) (rx (rd_of w) s AND NOT (push_bit (hw_of w) 0xFFFF) OR push_bit (hw_of w) (imm16 w)) s)"
  by (simp add: exec_def)

lemma exec_add_imm:
  "w AND 0xFF800000 = 0x91000000 \<Longrightarrow> w AND 0xFFC00000 = 0x91000000 \<Longrightarrow>
   exec w s = Some (ws (rd_of w) (rs (rn_of w) s + imm12 w) s)"
  by (simp add: exec_def)

lemma exec_sub_imm:
  "w AND 0xFF800000 = 0xD1000000 \<Longrightarrow> w AND 0xFFC00000 = 0xD1000000 \<Longrightarrow>
   exec w s = Some (ws (rd_of w) (rs (rn_of w) s - imm12 w) s)"
  by (simp add: exec_def)

section \<open>Loads and stores\<close>

lemma store64_get:
  "store64 a v m b = (if unat (b - a) < 8 then ucast (drop_bit (8 * unat (b - a)) v) else m b)"
proof -
  have *: "fold (\<lambda>i m. m(a + of_nat i := ucast (drop_bit (8 * i) v))) [0..<n] m b =
      (if unat (b - a) < n then ucast (drop_bit (8 * unat (b - a)) v) else m b)" if "n \<le> 8" for n
    using that
  proof (induction n)
    case (Suc n)
    have "b = a + of_nat n \<longleftrightarrow> unat (b - a) = n"
    proof
      assume "b = a + of_nat n"
      then show "unat (b - a) = n" using Suc.prems by (simp add: unat_of_nat)
    next
      assume n: "unat (b - a) = n"
      have "of_nat (unat (b - a)) = b - a" by simp
      then show "b = a + of_nat n" by (simp only: n) simp
    qed
    then show ?case using Suc by auto
  qed simp
  show ?thesis unfolding store64_def by (rule *) simp
qed


lemma bit_load64_fold:
  "bit (fold (\<lambda>i v. v OR push_bit (8 * i) (ucast (f i :: u8))) [0..<k] (0 :: u64)) n \<longleftrightarrow>
   n < 8 * k \<and> n < 64 \<and> bit (f (n div 8)) (n mod 8)"
proof (induction k)
  case (Suc k)
  have "bit (push_bit (8 * k) (ucast (f k)) :: u64) n \<longleftrightarrow> 8 * k \<le> n \<and> n < 64 \<and> n - 8 * k < 8 \<and> bit (f k) (n - 8 * k)"
    by (auto simp: bit_simps dest: bit_imp_le_length)
  moreover have "n div 8 = k \<and> n mod 8 = n - 8 * k" if "8 * k \<le> n" "n - 8 * k < 8"
    using that by (auto simp: div_nat_eqI minus_div_mult_eq_mod [symmetric] mult.commute)
  ultimately show ?case using Suc by (auto simp: bit_simps)
qed simp

lemma bit_load64: "bit (load64 m a) n \<longleftrightarrow> n < 64 \<and> bit (m (a + of_nat (n div 8))) (n mod 8)"
  unfolding load64_def bit_load64_fold by auto

lemma load64_cong: "(\<And>i. i < 8 \<Longrightarrow> m (a + of_nat i) = m' (a + of_nat i)) \<Longrightarrow> load64 m a = load64 m' a"
  by (rule bit_word_eqI) (simp add: bit_load64)

lemma load64_store64: "load64 (store64 a v m) a = v"
proof (rule bit_word_eqI)
  fix n assume n: "n < LENGTH(64)"
  then have "unat (of_nat (n div 8) :: u64) = n div 8" by (simp add: unat_of_nat)
  then show "bit (load64 (store64 a v m) a) n = bit v n"
    using n by (auto simp: bit_load64 store64_get bit_simps)
qed

section \<open>Signed comparison\<close>

lemma signed_less_flags: "(sint (a - b) < 0) \<noteq> (sint (a - b) \<noteq> sint a - sint b) \<longleftrightarrow> sint a < sint (b :: u64)"
proof -
  have r: "- (2 ^ 63) \<le> sint x \<and> sint x < 2 ^ 63" for x :: u64
    using sint_ge [of x] sint_lt [of x] by simp
  define y where "y = sint a - sint b + 2 ^ 63"
  have "a - b = word_of_int (sint a - sint b)" by simp
  then have "sint (a - b) = y mod 2 ^ 64 - 2 ^ 63" unfolding y_def by (simp only: int_word_sint) simp
  moreover have "y mod 2 ^ 64 = y - 2 ^ 64 * (y div 2 ^ 64)" by (simp add: minus_mult_div_eq_mod)
  moreover have "y div 2 ^ 64 = -1 \<or> y div 2 ^ 64 = 0 \<or> y div 2 ^ 64 = 1"
  proof -
    have "18446744073709551616 * (y div 18446744073709551616) + y mod 18446744073709551616 = y"
      "0 \<le> y mod 18446744073709551616" "y mod 18446744073709551616 < 18446744073709551616" by simp_all
    moreover have "- 18446744073709551616 < y" "y < 2 * 18446744073709551616" using r [of a] r [of b] unfolding y_def by simp_all
    ultimately have "- 2 < y div 18446744073709551616" "y div 18446744073709551616 < 2" by linarith+
    then have "y div 18446744073709551616 = - 1 \<or> y div 18446744073709551616 = 0 \<or> y div 18446744073709551616 = 1" by linarith
    then show ?thesis by simp
  qed
  ultimately have "sint (a - b) = sint a - sint b \<or> sint (a - b) = sint a - sint b + 2 ^ 64 \<or> sint (a - b) = sint a - sint b - 2 ^ 64"
    unfolding y_def by auto
  then show ?thesis using r [of a] r [of b] r [of "a - b"] by auto
qed
end
