(* ===== verification/Codegen_Sem.thy ===== *)
theory Codegen_Sem
  imports Codegen Arm64
begin

text \<open>
  Correctness of the code emitted for expressions without calls and short-circuit operators: a
  reference semantics of these expressions on a byte memory, the list of instruction words the
  generator emits for them, and the proof that executing these words computes the value.
\<close>

section \<open>Emitting a list of words\<close>

definition emits :: "u32 list \<Rightarrow> cgen \<Rightarrow> cgen" where
  "emits code g = fold emit code g"

definition cg_ok :: "cgen \<Rightarrow> bool" where
  "cg_ok g \<longleftrightarrow> g_cap g = length (g_buf g) \<and> g_pos g \<le> g_cap g"

lemma emit_fields [simp]:
  "cst (emit w g) = cst g" "cvars (emit w g) = cvars g" "g_cap (emit w g) = g_cap g" "length (g_buf (emit w g)) = length (g_buf g)"
  "cg_ok g \<Longrightarrow> cg_ok (emit w g)" "cg_ok g \<Longrightarrow> oob (emit w g) = oob g"
  by (simp_all add: emit_def put32_def cg_ok_def word_bytes_def)

lemma emits_fields [simp]: "cst (emits code g) = cst g" "cvars (emits code g) = cvars g"
  by (induction code arbitrary: g) (simp_all add: emits_def)

lemma emits_simps [simp]: "emits [] g = g" "emits (w # code) g = emits code (emit w g)"
  by (simp_all add: emits_def)

lemma emits_append: "emits (xs @ ys) g = emits ys (emits xs g)"
  by (simp add: emits_def)

lemma put_bytes_concat: "put_bytes buf off (xs @ ys) = put_bytes (put_bytes buf off xs) (off + length xs) ys"
  by (induction xs arbitrary: buf off) simp_all

lemma emits_buf:
  assumes "cg_ok g" "g_pos g + 4 * length code \<le> g_cap g"
  shows "g_pos (emits code g) = g_pos g + 4 * length code \<and> g_oom (emits code g) = g_oom g \<and>
    g_buf (emits code g) = put_bytes (g_buf g) (g_pos g) (concat (map word_bytes code))"
  using assms
proof (induction code arbitrary: g)
  case (Cons w code)
  have "g_pos (emit w g) = g_pos g + 4" "g_oom (emit w g) = g_oom g"
    "g_buf (emit w g) = put_bytes (g_buf g) (g_pos g) (word_bytes w)"
    using Cons.prems by (simp_all add: emit_def put32_def cg_ok_def)
  moreover have "length (word_bytes w) = 4" by (simp add: word_bytes_def)
  ultimately show ?case using Cons.IH [of "emit w g"] Cons.prems by (simp add: put_bytes_concat)
qed simp

section \<open>The words of an expression\<close>

definition loadimm_words :: "nat \<Rightarrow> u64 \<Rightarrow> u32 list" where
  "loadimm_words r v = [mov_word 0 r v, mov_word 1 r v, mov_word 2 r v, mov_word 3 r v]"

definition var_words :: "(varid \<Rightarrow> var_t) \<Rightarrow> varid \<Rightarrow> u32 list" where
  "var_words V v =
     (let x = V v in
      if is_global x then loadimm_words 0 (v_gaddr x)
      else if v_offset x \<le> 0xFFF then [0xD1000000 OR push_bit 10 (of_int (v_offset x) AND 0xFFF) OR 0x3A0]
      else loadimm_words 9 (of_int (v_offset x)) @ [0xCB0903A0])"

definition load_words :: "cenv \<Rightarrow> tid option \<Rightarrow> u32 list" where
  "load_words E t =
     (if ty_is E t (\<lambda>x. ty_kind x = TY_ARRAY) then []
      else if ty_is E t (\<lambda>x. ty_size x = 1) then [0x39400000] else [0xF9400000])"

definition put_words :: "cenv \<Rightarrow> tid option \<Rightarrow> u32 list" where
  "put_words E t = (if ty_is E t (\<lambda>x. ty_size x = 1) then [0x39000020] else [0xF9000020])"

definition binop_words :: "binop \<Rightarrow> u32 list" where
  "binop_words k =
     (case k of
        ND_ADD \<Rightarrow> [0x8B010000] | ND_SUB \<Rightarrow> [0xCB010000] | ND_MUL \<Rightarrow> [0x9B017C00] | ND_DIV \<Rightarrow> [0x9AC10C00]
      | ND_MOD \<Rightarrow> [0x9AC10C02, 0x9B018040]
      | ND_EQ \<Rightarrow> [0xEB01001F, 0x9A9F17E0] | ND_NE \<Rightarrow> [0xEB01001F, 0x9A9F07E0]
      | ND_LT \<Rightarrow> [0xEB01001F, 0x9A9FA7E0] | ND_LE \<Rightarrow> [0xEB01001F, 0x9A9FC7E0])"

definition push_word :: u32 where "push_word = 0xF81F0FE0"
definition pop1_word :: u32 where "pop1_word = 0xF84107E1"

function (sequential) addr_words :: "cenv \<Rightarrow> (varid \<Rightarrow> var_t) \<Rightarrow> node_t \<Rightarrow> u32 list option"
  and expr_words :: "cenv \<Rightarrow> (varid \<Rightarrow> var_t) \<Rightarrow> node_t \<Rightarrow> u32 list option" where
  "addr_words E V (ND_VAR t v) = Some (var_words V v)"
| "addr_words E V (ND_DEREF t e) = expr_words E V e"
| "addr_words E V (ND_MEMBER t e off) = do {
     c \<leftarrow> addr_words E V e;
     Some (if off \<noteq> 0 then c @ [0x91000000 OR push_bit 10 (of_int off AND 0xFFF) OR 0] else c) }"
| "addr_words E V (ND_STR t s) = Some (loadimm_words 0 s)"
| "addr_words E V n = None"
| "expr_words E V n =
     (case n of
        ND_NUM t v \<Rightarrow> Some (loadimm_words 0 v)
      | ND_STR t s \<Rightarrow> Some (loadimm_words 0 s)
      | ND_VAR t v \<Rightarrow> do { c \<leftarrow> addr_words E V n; Some (c @ load_words E t) }
      | ND_ASSIGN t l r \<Rightarrow> do {
          c \<leftarrow> addr_words E V l; d \<leftarrow> expr_words E V r;
          Some (c @ [push_word] @ d @ [pop1_word] @ put_words E (nd_ty l)) }
      | ND_DEREF t e \<Rightarrow> do { c \<leftarrow> expr_words E V e; Some (c @ load_words E t) }
      | ND_MEMBER t e off \<Rightarrow> do { c \<leftarrow> addr_words E V n; Some (c @ load_words E t) }
      | ND_ADDR t e \<Rightarrow> addr_words E V e
      | ND_NEG t e \<Rightarrow> do { c \<leftarrow> expr_words E V e; Some (c @ [0xCB0003E0]) }
      | ND_NOT t e \<Rightarrow> do { c \<leftarrow> expr_words E V e; Some (c @ [0xF100001F, 0x9A9F17E0]) }
      | ND_BIN k t l r \<Rightarrow> do {
          d \<leftarrow> expr_words E V r; c \<leftarrow> expr_words E V l;
          Some (d @ [push_word] @ c @ [pop1_word] @ binop_words k) }
      | _ \<Rightarrow> None)"
  by pat_completeness auto
termination
  by (relation "measures [\<lambda>x. case x of Inl (E, V, n) \<Rightarrow> size n | Inr (E, V, n) \<Rightarrow> size n,
      \<lambda>x. case x of Inl _ \<Rightarrow> 0 | Inr _ \<Rightarrow> 1]") auto

declare expr_words.simps [simp del]

lemmas expr_words_rules =
    expr_words.simps [of _ _ "ND_NUM t v" for t v, simplified]
    expr_words.simps [of _ _ "ND_STR t v" for t v, simplified]
    expr_words.simps [of _ _ "ND_VAR t v" for t v, simplified]
    expr_words.simps [of _ _ "ND_ASSIGN t l r" for t l r, simplified]
    expr_words.simps [of _ _ "ND_DEREF t l" for t l, simplified]
    expr_words.simps [of _ _ "ND_MEMBER t l off" for t l off, simplified]
    expr_words.simps [of _ _ "ND_ADDR t l" for t l, simplified]
    expr_words.simps [of _ _ "ND_NEG t l" for t l, simplified]
    expr_words.simps [of _ _ "ND_NOT t l" for t l, simplified]
    expr_words.simps [of _ _ "ND_BIN k t l r" for k t l r, simplified]
    expr_words.simps [of _ _ "ND_LOGAND t l r" for t l r, simplified]
    expr_words.simps [of _ _ "ND_LOGOR t l r" for t l r, simplified]
    expr_words.simps [of _ _ "ND_FUNCALL t f as" for t f as, simplified]
    expr_words.simps [of _ _ "ND_RETURN l" for l, simplified]
    expr_words.simps [of _ _ "ND_IF c l e" for c l e, simplified]
    expr_words.simps [of _ _ "ND_WHILE c l" for c l, simplified]
    expr_words.simps [of _ _ "ND_FOR i c s b" for i c s b, simplified]
    expr_words.simps [of _ _ "ND_BLOCK ns" for ns, simplified]
    expr_words.simps [of _ _ "ND_EXPR_STMT l" for l, simplified]
    expr_words.simps [of _ _ "ND_SWITCH c cs b" for c cs b, simplified]
    expr_words.simps [of _ _ "ND_CASE i b" for i b, simplified]
    expr_words.simps [of _ _ "ND_BREAK", simplified]
    expr_words.simps [of _ _ "ND_CONTINUE", simplified]

lemmas gen_expr_rules =
    gen_expr.simps [of _ "ND_NUM t v" for t v, simplified]
    gen_expr.simps [of _ "ND_STR t v" for t v, simplified]
    gen_expr.simps [of _ "ND_VAR t v" for t v, simplified]
    gen_expr.simps [of _ "ND_ASSIGN t l r" for t l r, simplified]
    gen_expr.simps [of _ "ND_DEREF t l" for t l, simplified]
    gen_expr.simps [of _ "ND_MEMBER t l off" for t l off, simplified]
    gen_expr.simps [of _ "ND_ADDR t l" for t l, simplified]
    gen_expr.simps [of _ "ND_NEG t l" for t l, simplified]
    gen_expr.simps [of _ "ND_NOT t l" for t l, simplified]
    gen_expr.simps [of _ "ND_BIN k t l r" for k t l r, simplified]

lemma loadimm_emits: "emit_loadimm r v g = emits (loadimm_words r v) g"
  by (simp add: emit_loadimm_def loadimm_words_def)

lemma var_emits: "gen_var_addr v g = emits (var_words (cvars g) v) g"
  by (simp add: gen_var_addr_def var_words_def Let_def loadimm_emits emits_append emit_sub_imm_def emit_sub_rrr_def reg_def
      ac_simps)

lemma load_emits: "gen_load E t g = emits (load_words E t) g"
  by (simp add: gen_load_def load_words_def emit_ldr_def emit_ldrb_def reg_def)

lemma store_emits: "gen_store E t g = emits (put_words E t) g"
  by (simp add: gen_store_def put_words_def emit_str_def emit_strb_def reg_def)

lemma binop_emits: "gen_binop k g = emits (binop_words k) g"
  by (cases k) (simp_all add: gen_binop_def binop_words_def emit_add_rrr_def emit_sub_rrr_def emit_mul_def emit_sdiv_def
      emit_msub_def emit_cmp_rr_def emit_cset_def reg_def C_EQ_def C_NE_def C_LT_def C_LE_def)

lemma push_pop_emits: "emit_push g = emits [push_word] g" "emit_pop (Suc 0) g = emits [pop1_word] g"
  by (simp_all add: emit_push_def emit_pop_def push_word_def pop1_word_def reg_def)

lemma gen_emits:
  "addr_words E V n = Some c \<Longrightarrow> V = cvars g \<Longrightarrow> \<not> cc_failed (cst g) \<Longrightarrow> gen_addr E n g = emits c g"
  "expr_words E V n = Some c \<Longrightarrow> V = cvars g \<Longrightarrow> \<not> cc_failed (cst g) \<Longrightarrow> gen_expr E n g = emits c g"
proof (induction E V n and E V n arbitrary: c g and c g rule: addr_words_expr_words.induct)
  case (3 E V t e off)
  then show ?case by (auto simp: bind_eq_Some_conv emits_append emit_add_imm_def reg_def)
next
  case (6 E V n)
  show ?case
    by (cases n; use 6 in \<open>fastforce simp: gen_expr_rules expr_words_rules bind_eq_Some_conv var_emits loadimm_emits load_emits
      store_emits binop_emits push_pop_emits emits_append emit_sub_rrr_def emit_cmp0_def emit_cset_def reg_def C_EQ_def\<close>)
qed (auto simp: var_emits loadimm_emits)

section \<open>Reference semantics\<close>

text \<open>Values are 64-bit words; \<open>A\<close> is the set of addresses the program may access. Division by zero yields
  zero, as the hardware defines it, and an assignment yields the value of its right-hand side.\<close>

definition ev_binop :: "binop \<Rightarrow> u64 \<Rightarrow> u64 \<Rightarrow> u64" where
  "ev_binop k a b =
     (case k of
        ND_ADD \<Rightarrow> a + b | ND_SUB \<Rightarrow> a - b | ND_MUL \<Rightarrow> a * b
      | ND_DIV \<Rightarrow> if b = 0 then 0 else of_int (sint a sdiv sint b)
      | ND_MOD \<Rightarrow> if b = 0 then a else a - of_int (sint a sdiv sint b) * b
      | ND_EQ \<Rightarrow> of_bool (a = b) | ND_NE \<Rightarrow> of_bool (a \<noteq> b)
      | ND_LT \<Rightarrow> of_bool (sint a < sint b) | ND_LE \<Rightarrow> of_bool (sint a \<le> sint b))"

definition span8 :: "u64 \<Rightarrow> u64 set" where
  "span8 a = (\<lambda>i. a + of_nat i) ` {0..<8}"

definition ev_load :: "cenv \<Rightarrow> u64 set \<Rightarrow> tid option \<Rightarrow> u64 \<Rightarrow> amem \<Rightarrow> u64 option" where
  "ev_load E A t a m =
     (if ty_is E t (\<lambda>x. ty_kind x = TY_ARRAY) then Some a
      else if ty_is E t (\<lambda>x. ty_size x = 1) then if a \<in> A then Some (ucast (m a)) else None
      else if span8 a \<subseteq> A then Some (load64 m a) else None)"

definition ev_store :: "cenv \<Rightarrow> u64 set \<Rightarrow> tid option \<Rightarrow> u64 \<Rightarrow> u64 \<Rightarrow> amem \<Rightarrow> amem option" where
  "ev_store E A t a v m =
     (if ty_is E t (\<lambda>x. ty_size x = 1) then if a \<in> A then Some (m(a := ucast v)) else None
      else if span8 a \<subseteq> A then Some (store64 a v m) else None)"

function (sequential) ev_addr :: "cenv \<Rightarrow> (varid \<Rightarrow> var_t) \<Rightarrow> u64 \<Rightarrow> u64 set \<Rightarrow> node_t \<Rightarrow> amem \<Rightarrow> (u64 \<times> amem) option"
  and ev_expr :: "cenv \<Rightarrow> (varid \<Rightarrow> var_t) \<Rightarrow> u64 \<Rightarrow> u64 set \<Rightarrow> node_t \<Rightarrow> amem \<Rightarrow> (u64 \<times> amem) option" where
  "ev_addr E V fp A (ND_VAR t v) m = Some (if is_global (V v) then v_gaddr (V v) else fp - of_int (v_offset (V v)), m)"
| "ev_addr E V fp A (ND_DEREF t e) m = ev_expr E V fp A e m"
| "ev_addr E V fp A (ND_MEMBER t e off) m = do { (a, m) \<leftarrow> ev_addr E V fp A e m; Some (a + of_int off, m) }"
| "ev_addr E V fp A (ND_STR t s) m = Some (s, m)"
| "ev_addr E V fp A n m = None"
| "ev_expr E V fp A n m =
     (case n of
        ND_NUM t v \<Rightarrow> Some (v, m)
      | ND_STR t s \<Rightarrow> Some (s, m)
      | ND_VAR t v \<Rightarrow> do { (a, m) \<leftarrow> ev_addr E V fp A n m; v \<leftarrow> ev_load E A t a m; Some (v, m) }
      | ND_ASSIGN t l r \<Rightarrow> do {
          (a, m) \<leftarrow> ev_addr E V fp A l m; (v, m) \<leftarrow> ev_expr E V fp A r m;
          m \<leftarrow> ev_store E A (nd_ty l) a v m; Some (v, m) }
      | ND_DEREF t e \<Rightarrow> do { (a, m) \<leftarrow> ev_expr E V fp A e m; v \<leftarrow> ev_load E A t a m; Some (v, m) }
      | ND_MEMBER t e off \<Rightarrow> do { (a, m) \<leftarrow> ev_addr E V fp A n m; v \<leftarrow> ev_load E A t a m; Some (v, m) }
      | ND_ADDR t e \<Rightarrow> ev_addr E V fp A e m
      | ND_NEG t e \<Rightarrow> do { (v, m) \<leftarrow> ev_expr E V fp A e m; Some (- v, m) }
      | ND_NOT t e \<Rightarrow> do { (v, m) \<leftarrow> ev_expr E V fp A e m; Some (of_bool (v = 0), m) }
      | ND_BIN k t l r \<Rightarrow> do {
          (b, m) \<leftarrow> ev_expr E V fp A r m; (a, m) \<leftarrow> ev_expr E V fp A l m; Some (ev_binop k a b, m) }
      | _ \<Rightarrow> None)"
  by pat_completeness auto
termination
  by (relation "measures [\<lambda>x. case x of Inl (E, V, fp, A, n, m) \<Rightarrow> size n | Inr (E, V, fp, A, n, m) \<Rightarrow> size n,
      \<lambda>x. case x of Inl _ \<Rightarrow> 0 | Inr _ \<Rightarrow> 1]") auto

declare ev_expr.simps [simp del]

text \<open>The number of 16-byte stack slots an expression needs, and the side conditions on immediate
  operands: offsets of locals are not negative and member offsets fit into the 12-bit field.\<close>

fun slots :: "node_t \<Rightarrow> nat" where
  "slots (ND_ASSIGN t l r) = max (slots l) (Suc (slots r))"
| "slots (ND_DEREF t e) = slots e"
| "slots (ND_MEMBER t e off) = slots e"
| "slots (ND_ADDR t e) = slots e"
| "slots (ND_NEG t e) = slots e"
| "slots (ND_NOT t e) = slots e"
| "slots (ND_BIN k t l r) = max (slots r) (Suc (slots l))"
| "slots _ = 0"

fun imm_ok :: "(varid \<Rightarrow> var_t) \<Rightarrow> node_t \<Rightarrow> bool" where
  "imm_ok V (ND_VAR t v) \<longleftrightarrow> 0 \<le> v_offset (V v)"
| "imm_ok V (ND_ASSIGN t l r) \<longleftrightarrow> imm_ok V l \<and> imm_ok V r"
| "imm_ok V (ND_DEREF t e) \<longleftrightarrow> imm_ok V e"
| "imm_ok V (ND_MEMBER t e off) \<longleftrightarrow> imm_ok V e \<and> 0 \<le> off \<and> off \<le> 4095"
| "imm_ok V (ND_ADDR t e) \<longleftrightarrow> imm_ok V e"
| "imm_ok V (ND_NEG t e) \<longleftrightarrow> imm_ok V e"
| "imm_ok V (ND_NOT t e) \<longleftrightarrow> imm_ok V e"
| "imm_ok V (ND_BIN k t l r) \<longleftrightarrow> imm_ok V l \<and> imm_ok V r"
| "imm_ok V _ \<longleftrightarrow> True"

section \<open>Executing single instructions\<close>

lemma exec_push: "exec push_word s = Some (s\<lparr>cmem := store64 (spreg s - 16) (xreg s 0) (cmem s), spreg := spreg s - 16\<rparr>)"
  by (simp add: push_word_def exec_def fld_def rs_def ws_def rx_def Let_def)

lemma exec_pop1: "exec pop1_word s = Some (s\<lparr>xreg := (xreg s)(1 := load64 (cmem s) (spreg s)), spreg := spreg s + 16\<rparr>)"
  by (simp add: pop1_word_def exec_def fld_def rs_def ws_def wx_def)

lemma exec_sub9: "exec 0xCB0903A0 s = Some (s\<lparr>xreg := (xreg s)(0 := xreg s 29 - xreg s 9)\<rparr>)"
  by (simp add: exec_def fld_def rx_def wx_def)

lemma exec_neg: "exec 0xCB0003E0 s = Some (s\<lparr>xreg := (xreg s)(0 := - xreg s 0)\<rparr>)"
  by (simp add: exec_def fld_def rx_def wx_def)

lemma exec_loads:
  "exec 0x39400000 s = Some (s\<lparr>xreg := (xreg s)(0 := ucast (cmem s (xreg s 0)))\<rparr>)"
  "exec 0xF9400000 s = Some (s\<lparr>xreg := (xreg s)(0 := load64 (cmem s) (xreg s 0))\<rparr>)"
  "exec 0x39000020 s = Some (s\<lparr>cmem := (cmem s)(xreg s 1 := ucast (xreg s 0))\<rparr>)"
  "exec 0xF9000020 s = Some (s\<lparr>cmem := store64 (xreg s 1) (xreg s 0) (cmem s)\<rparr>)"
  by (simp_all add: exec_def fld_def rx_def wx_def rs_def)

lemma exec_not: "run [0xF100001F, 0x9A9F17E0] s = Some ((set_flags (xreg s 0) 0 s)\<lparr>xreg := (xreg s)(0 := of_bool (xreg s 0 = 0))\<rparr>)"
  by (simp add: exec_def fld_def rx_def wx_def rs_def set_flags_def cond_holds_def)

lemma exec_binop: "\<exists>s'. run (binop_words k) s = Some s' \<and> xreg s' 0 = ev_binop k (xreg s 0) (xreg s 1) \<and>
    xreg s' 29 = xreg s 29 \<and> spreg s' = spreg s \<and> cmem s' = cmem s"
proof (cases k)
  case ND_LT
  then show ?thesis using signed_less_flags [of "xreg s 0" "xreg s 1"]
    by (auto simp: binop_words_def ev_binop_def exec_def fld_def rx_def wx_def rs_def set_flags_def cond_holds_def)
next
  case ND_LE
  have "sint (xreg s 0) = sint (xreg s 1) \<longleftrightarrow> xreg s 0 = xreg s 1" by (auto intro: signed_word_eqI)
  then show ?thesis using ND_LE signed_less_flags [of "xreg s 0" "xreg s 1"]
    by (auto simp: le_less binop_words_def ev_binop_def exec_def fld_def rx_def wx_def rs_def set_flags_def cond_holds_def)
qed (simp_all add: binop_words_def ev_binop_def exec_def fld_def rx_def wx_def rs_def set_flags_def cond_holds_def sdiv64_def)

lemma mov_word_eq:
  "mov_word 0 r v = 0xD2800000 OR push_bit 5 (ucast v AND 0xFFFF) OR reg 0 r"
  "mov_word (Suc 0) r v = 0xF2A00000 OR push_bit 5 (ucast (drop_bit 16 v) AND 0xFFFF) OR reg 0 r"
  "mov_word 2 r v = 0xF2C00000 OR push_bit 5 (ucast (drop_bit 32 v) AND 0xFFFF) OR reg 0 r"
  "mov_word 3 r v = 0xF2E00000 OR push_bit 5 (ucast (drop_bit 48 v) AND 0xFFFF) OR reg 0 r"
  by (simp_all add: mov_word_def unsigned_and_eq)

lemma mov_and:
  assumes K: "K = K AND 0xFFE00000" and R: "R = R AND 0x1F"
  shows "(K OR push_bit 5 (c AND 0xFFFF) OR R) AND m =
    (K AND (0xFFE00000 AND m)) OR (R AND (0x1F AND m)) OR push_bit 5 ((c :: u32) AND (0xFFFF AND drop_bit 5 m))"
  unfolding imm_and bit.conj_disj_distrib2 by (subst (1) K, subst (1) R) (simp only: push_and and.assoc or.assoc or.commute or.left_commute)

lemma mov_fields:
  fixes c :: u32
  assumes K: "K = K AND 0xFFE00000" and R: "R = R AND 0x1F" and w: "w = K OR push_bit 5 (c AND 0xFFFF) OR R"
  shows "w AND 0xFF800000 = K AND 0xFF800000" "fld w 0 0x1F = R" "fld w 5 0xFFFF = c AND 0xFFFF" "fld w 21 3 = drop_bit 21 (K AND 0x600000)"
proof -
  note a = mov_and [OF K R, of c]
  show "w AND 0xFF800000 = K AND 0xFF800000" unfolding w a by simp
  show "fld w 0 0x1F = R" unfolding w fld_def a using R by simp
  show "fld w 5 0xFFFF = c AND 0xFFFF" unfolding w fld_def a drop_bit_or drop_push_masked by (simp add: mask_eq_exp_minus_1)
  show "fld w 21 3 = drop_bit 21 (K AND 0x600000)" unfolding w fld_def a by simp
qed

lemma chunk: "ucast (ucast x AND 0xFFFF :: u32) = (x :: u64) AND 0xFFFF"
proof -
  have m: "(0xFFFF :: u64) = mask 16" "(0xFFFF :: u32) = mask 16" by (simp_all add: mask_eq_exp_minus_1)
  show ?thesis unfolding m by (rule bit_word_eqI) (auto simp: bit_simps)
qed

lemma chunk_step:
  "take_bit n v AND NOT (push_bit n 0xFFFF) OR push_bit n (drop_bit n v AND 0xFFFF) = take_bit (n + 16) (v :: u64)"
proof -
  have m: "(0xFFFF :: u64) = mask 16" by (simp add: mask_eq_exp_minus_1)
  show ?thesis unfolding m by (rule bit_word_eqI) (auto simp: bit_simps)
qed

lemma run_loadimm:
  assumes "r = 0 \<or> r = 1 \<or> r = (9 :: nat)"
  shows "run (loadimm_words r v) s = Some (s\<lparr>xreg := (xreg s)(r := v)\<rparr>)"
proof -
  have r: "reg 0 r = reg 0 r AND 0x1F" "unat (reg 0 r) = r" "r \<noteq> 31" using assms by (auto simp: reg_def)
  note m = mov_fields [OF _ r(1) mov_word_eq(1)] mov_fields [OF _ r(1) mov_word_eq(2)]
    mov_fields [OF _ r(1) mov_word_eq(3)] mov_fields [OF _ r(1) mov_word_eq(4)]
  have z: "exec (mov_word 0 r v) s = Some (s\<lparr>xreg := (xreg s)(r := take_bit 16 v)\<rparr>)" for s
    using r(2,3) by (subst exec_movz) (simp_all add: m wx_def chunk take_bit_eq_mask mask_eq_exp_minus_1 del: unsigned_and_eq)
  have k: "exec (mov_word i r v) s = Some (s\<lparr>xreg := (xreg s)(r :=
      xreg s r AND NOT (push_bit (16 * i) 0xFFFF) OR push_bit (16 * i) (drop_bit (16 * i) v AND 0xFFFF))\<rparr>)"
    if "i = 1 \<or> i = 2 \<or> i = 3" for i s
    using that by (elim disjE) (simp_all add: exec_movk m wx_def rx_def r(2,3) chunk)
  have st: "exec (mov_word i r v) (s\<lparr>xreg := (xreg s)(r := take_bit (16 * i) v)\<rparr>) =
      Some (s\<lparr>xreg := (xreg s)(r := take_bit (16 * i + 16) v)\<rparr>)" if "i = 1 \<or> i = 2 \<or> i = 3" for i s
    unfolding k [OF that] by (simp add: chunk_step [unfolded push_bit_and])
  have "take_bit 64 v = v" by (simp add: take_bit_word_eq_self)
  then show ?thesis using st [of 1 s] st [of 2 s] st [of 3 s] by (simp only: loadimm_words_def run.simps z option.simps) simp
qed

lemma imm_word_and:
  assumes K: "K = K AND 0xFFC00000" and R: "R = R AND 0x3FF"
  shows "(K OR push_bit 10 (c AND 0xFFF) OR R) AND m =
    (K AND (0xFFC00000 AND m)) OR (R AND (0x3FF AND m)) OR push_bit 10 ((c :: u32) AND (0xFFF AND drop_bit 10 m))"
  unfolding imm_and bit.conj_disj_distrib2 by (subst (1) K, subst (1) R) (simp only: push_and and.assoc or.assoc or.commute or.left_commute)

lemma imm_fields:
  fixes c :: u32
  assumes K: "K = K AND 0xFFC00000" and R: "R = R AND 0x3FF" and w: "w = K OR push_bit 10 (c AND 0xFFF) OR R"
  shows "w AND 0xFF800000 = K AND 0xFF800000" "w AND 0xFFC00000 = K" "fld w 0 0x1F = R AND 0x1F" "fld w 5 0x1F = drop_bit 5 (R AND 0x3E0)"
    "fld w 10 0xFFF = c AND 0xFFF"
proof -
  note a = imm_word_and [OF K R, of c]
  show "w AND 0xFF800000 = K AND 0xFF800000" unfolding w a by simp
  show "w AND 0xFFC00000 = K" unfolding w a using K by simp
  show "fld w 0 0x1F = R AND 0x1F" unfolding w fld_def a by simp
  show "fld w 5 0x1F = drop_bit 5 (R AND 0x3E0)" unfolding w fld_def a by simp
  show "fld w 10 0xFFF = c AND 0xFFF" unfolding w fld_def a drop_bit_or drop_push_masked by (simp add: mask_eq_exp_minus_1)
qed

lemma imm12_value:
  assumes "0 \<le> x" "x \<le> 4095"
  shows "ucast (of_int x AND 0xFFF :: u32) = (of_int x :: u64)"
proof -
  from assms obtain n where n: "x = int n" "n < 4096" using nonneg_int_cases [of x] by fastforce
  have "(0xFFF :: u32) = mask 12" by (simp add: mask_eq_exp_minus_1)
  then have "unat (of_int x AND 0xFFF :: u32) = take_bit 12 (unat (of_int x :: u32))"
    by (simp only: take_bit_eq_mask [symmetric] unsigned_take_bit_eq)
  also have "\<dots> = n" using n by (simp add: unat_of_nat take_bit_nat_eq_self)
  finally have "unat (of_int x AND 0xFFF :: u32) = n" .
  moreover have "unat (of_int x :: u64) = n" using n by (simp add: unat_of_nat)
  ultimately show ?thesis by (simp only: word_unat_eq_iff unat_ucast_32_64)
qed

lemma exec_member:
  assumes "0 \<le> off" "off \<le> 4095"
  shows "exec (0x91000000 OR push_bit 10 (of_int off AND 0xFFF) OR 0) s = Some (s\<lparr>xreg := (xreg s)(0 := xreg s 0 + of_int off)\<rparr>)"
proof -
  define w where "w = 0x91000000 OR push_bit 10 (of_int off AND 0xFFF) OR (0 :: u32)"
  note f = imm_fields [OF _ _ w_def]
  have "exec w s = Some (s\<lparr>xreg := (xreg s)(0 := xreg s 0 + of_int off)\<rparr>)"
    by (subst exec_add_imm) (simp_all add: f ws_def rs_def imm12_value [OF assms])
  then show ?thesis unfolding w_def .
qed

lemma exec_local:
  assumes "0 \<le> off" "off \<le> 4095"
  shows "exec (0xD1000000 OR push_bit 10 (of_int off AND 0xFFF) OR 0x3A0) s = Some (s\<lparr>xreg := (xreg s)(0 := xreg s 29 - of_int off)\<rparr>)"
proof -
  define w where "w = 0xD1000000 OR push_bit 10 (of_int off AND 0xFFF) OR (0x3A0 :: u32)"
  note f = imm_fields [OF _ _ w_def]
  have "exec w s = Some (s\<lparr>xreg := (xreg s)(0 := xreg s 29 - of_int off)\<rparr>)"
    by (subst exec_sub_imm) (simp_all add: f ws_def rs_def imm12_value [OF assms])
  then show ?thesis unfolding w_def .
qed

lemma run_var:
  assumes "0 \<le> v_offset (V v)"
  shows "\<exists>s'. run (var_words V v) s = Some s' \<and>
    xreg s' 0 = (if is_global (V v) then v_gaddr (V v) else xreg s 29 - of_int (v_offset (V v))) \<and>
    xreg s' 29 = xreg s 29 \<and> spreg s' = spreg s \<and> cmem s' = cmem s"
proof -
  consider "is_global (V v)" | "\<not> is_global (V v)" "v_offset (V v) \<le> 4095" | "\<not> is_global (V v)" "\<not> v_offset (V v) \<le> 4095" by blast
  then show ?thesis
  proof cases
    case 1
    then show ?thesis by (simp add: var_words_def Let_def run_loadimm)
  next
    case 2
    have "run (var_words V v) s = Some (s\<lparr>xreg := (xreg s)(0 := xreg s 29 - of_int (v_offset (V v)))\<rparr>)"
      using 2 exec_local [OF assms 2(2), of s] by (simp only: var_words_def Let_def if_True if_False run.simps option.simps)
    then show ?thesis using 2 by simp
  next
    case 3
    then show ?thesis by (simp add: var_words_def Let_def run_append run_loadimm exec_sub9)
  qed
qed

section \<open>The stack discipline\<close>

lemmas ev_expr_rules =
    ev_expr.simps [of _ _ _ _ "ND_NUM t v" for t v, simplified]
    ev_expr.simps [of _ _ _ _ "ND_STR t v" for t v, simplified]
    ev_expr.simps [of _ _ _ _ "ND_VAR t v" for t v, simplified]
    ev_expr.simps [of _ _ _ _ "ND_ASSIGN t l r" for t l r, simplified]
    ev_expr.simps [of _ _ _ _ "ND_DEREF t l" for t l, simplified]
    ev_expr.simps [of _ _ _ _ "ND_MEMBER t l off" for t l off, simplified]
    ev_expr.simps [of _ _ _ _ "ND_ADDR t l" for t l, simplified]
    ev_expr.simps [of _ _ _ _ "ND_NEG t l" for t l, simplified]
    ev_expr.simps [of _ _ _ _ "ND_NOT t l" for t l, simplified]
    ev_expr.simps [of _ _ _ _ "ND_BIN k t l r" for k t l r, simplified]
    ev_expr.simps [of _ _ _ _ "ND_LOGAND t l r" for t l r, simplified]
    ev_expr.simps [of _ _ _ _ "ND_LOGOR t l r" for t l r, simplified]
    ev_expr.simps [of _ _ _ _ "ND_FUNCALL t f as" for t f as, simplified]
    ev_expr.simps [of _ _ _ _ "ND_RETURN l" for l, simplified]
    ev_expr.simps [of _ _ _ _ "ND_IF c l e" for c l e, simplified]
    ev_expr.simps [of _ _ _ _ "ND_WHILE c l" for c l, simplified]
    ev_expr.simps [of _ _ _ _ "ND_FOR i c s b" for i c s b, simplified]
    ev_expr.simps [of _ _ _ _ "ND_BLOCK ns" for ns, simplified]
    ev_expr.simps [of _ _ _ _ "ND_EXPR_STMT l" for l, simplified]
    ev_expr.simps [of _ _ _ _ "ND_SWITCH c cs b" for c cs b, simplified]
    ev_expr.simps [of _ _ _ _ "ND_CASE i b" for i b, simplified]
    ev_expr.simps [of _ _ _ _ "ND_BREAK", simplified]
    ev_expr.simps [of _ _ _ _ "ND_CONTINUE", simplified]

definition room :: "u64 set \<Rightarrow> nat \<Rightarrow> u64 \<Rightarrow> bool" where
  "room A d p \<longleftrightarrow> 16 * d < 2 ^ 32 \<and> (\<forall>k. 1 \<le> k \<longrightarrow> k \<le> 16 * d \<longrightarrow> p - of_nat k \<notin> A)"

definition sim :: "u64 set \<Rightarrow> u64 \<Rightarrow> amem \<Rightarrow> a64 \<Rightarrow> bool" where
  "sim A fp m s \<longleftrightarrow> xreg s 29 = fp \<and> (\<forall>a \<in> A. cmem s a = m a)"

definition kept :: "u64 set \<Rightarrow> nat \<Rightarrow> a64 \<Rightarrow> a64 \<Rightarrow> bool" where
  "kept A d s s' \<longleftrightarrow> spreg s' = spreg s \<and>
     (\<forall>a. a \<notin> A \<longrightarrow> (\<forall>k. 1 \<le> k \<longrightarrow> k \<le> 16 * d \<longrightarrow> a \<noteq> spreg s - of_nat k) \<longrightarrow> cmem s' a = cmem s a)"

definition computes :: "u64 set \<Rightarrow> u64 \<Rightarrow> nat \<Rightarrow> u32 list \<Rightarrow> amem \<Rightarrow> u64 \<Rightarrow> amem \<Rightarrow> bool" where
  "computes A fp d code m v m' \<longleftrightarrow>
     (\<forall>s. room A d (spreg s) \<longrightarrow> sim A fp m s \<longrightarrow>
        (\<exists>s'. run code s = Some s' \<and> xreg s' 0 = v \<and> sim A fp m' s' \<and> kept A d s s'))"

lemma room_mono: "room A d p \<Longrightarrow> e \<le> d \<Longrightarrow> room A e p"
  unfolding room_def by auto

lemma kept_mono: "kept A e s s' \<Longrightarrow> e \<le> d \<Longrightarrow> kept A d s s'"
  unfolding kept_def by auto

lemma kept_refl: "kept A d s s" by (simp add: kept_def)

lemma kept_trans: "kept A d s s1 \<Longrightarrow> kept A d s1 s2 \<Longrightarrow> kept A d s s2"
  unfolding kept_def by auto

lemma store64_outside: "b \<notin> span8 a \<Longrightarrow> store64 a v m b = m b"
proof -
  assume b: "b \<notin> span8 a"
  have "\<not> unat (b - a) < 8"
  proof
    assume u: "unat (b - a) < 8"
    have "b = a + of_nat (unat (b - a))" by simp
    then show False using b u unfolding span8_def by (metis atLeastLessThan_iff image_eqI zero_le)
  qed
  then show ?thesis by (simp add: store64_get)
qed

lemma load64_sim: "sim A fp m s \<Longrightarrow> span8 a \<subseteq> A \<Longrightarrow> load64 (cmem s) a = load64 m a"
  unfolding sim_def span8_def by (intro load64_cong) (auto simp: image_subset_iff)

lemma slot_addr: "i < 8 \<Longrightarrow> \<exists>k. 1 \<le> k \<and> k \<le> 16 \<and> (p :: u64) - 16 + of_nat i = p - of_nat k"
  by (intro exI [of _ "16 - i"]) (auto simp: of_nat_diff)

definition pushed :: "a64 \<Rightarrow> a64" where
  "pushed s = s\<lparr>cmem := store64 (spreg s - 16) (xreg s 0) (cmem s), spreg := spreg s - 16\<rparr>"

lemma pushed_ok:
  assumes r: "room A (Suc d) (spreg s)" and m: "sim A fp m s"
  shows "room A d (spreg (pushed s))" "sim A fp m (pushed s)"
    and "kept A d (pushed s) s' \<Longrightarrow> load64 (cmem s') (spreg s') = xreg s 0"
    and "kept A d (pushed s) s' \<Longrightarrow> kept A (Suc d) s (s'\<lparr>xreg := x, spreg := spreg s' + 16\<rparr>)"
proof -
  have sp: "span8 (spreg s - 16) \<inter> A = {}"
    using r slot_addr [of _ "spreg s"] unfolding room_def span8_def by fastforce
  have k16: "spreg s - 16 - of_nat k = spreg s - of_nat (16 + k)" for k by simp
  show "room A d (spreg (pushed s))"
    using r unfolding room_def pushed_def by (auto simp: k16 simp del: of_nat_add) 
  have "a \<notin> span8 (spreg s - 16)" if "a \<in> A" for a using sp that by blast
  then show "sim A fp m (pushed s)" using m unfolding sim_def pushed_def by (simp add: store64_outside)
  assume k: "kept A d (pushed s) s'"
  have sl: "cmem s' (spreg s - 16 + of_nat i) = cmem (pushed s) (spreg s - 16 + of_nat i)" if "i < 8" for i
  proof -
    have "spreg s - 16 + of_nat i \<in> span8 (spreg s - 16)" using that by (auto simp: span8_def)
    then have "spreg s - 16 + of_nat i \<notin> A" using sp by blast
    moreover have "spreg s - 16 + of_nat i \<noteq> spreg (pushed s) - of_nat j" if "1 \<le> j" "j \<le> 16 * d" for j
    proof
      assume "spreg s - 16 + of_nat i = spreg (pushed s) - of_nat j"
      then have "of_nat (i + j) = (0 :: u64)" by (simp add: pushed_def algebra_simps)
      then have "unat (of_nat (i + j) :: u64) = 0" by simp
      moreover have "i + j < 2 ^ 64" using that \<open>i < 8\<close> r unfolding room_def by simp
      ultimately show False using that by (simp only: unat_of_nat) simp
    qed
    ultimately show ?thesis using k unfolding kept_def by blast
  qed
  have "load64 (cmem s') (spreg s - 16) = load64 (cmem (pushed s)) (spreg s - 16)" by (rule load64_cong) (rule sl)
  also have "\<dots> = xreg s 0" by (simp add: pushed_def load64_store64)
  finally show "load64 (cmem s') (spreg s') = xreg s 0" using k by (simp add: kept_def pushed_def)
  have "cmem s' a = cmem s a" if a: "a \<notin> A" "\<forall>j. 1 \<le> j \<longrightarrow> j \<le> 16 * Suc d \<longrightarrow> a \<noteq> spreg s - of_nat j" for a
  proof -
    have "a \<noteq> spreg (pushed s) - of_nat j" if "1 \<le> j" "j \<le> 16 * d" for j
      using a(2) [rule_format, of "16 + j"] that by (simp add: pushed_def algebra_simps)
    then have "cmem s' a = cmem (pushed s) a" using k a(1) unfolding kept_def by blast
    moreover have "a \<notin> span8 (spreg s - 16)" using a(2) slot_addr [of _ "spreg s"] by (fastforce simp: span8_def)
    ultimately show ?thesis by (simp add: pushed_def store64_outside)
  qed
  then show "kept A (Suc d) s (s'\<lparr>xreg := x, spreg := spreg s' + 16\<rparr>)" using k by (simp add: kept_def pushed_def)
qed

section \<open>Correctness\<close>

lemma computes_load:
  assumes c: "computes A fp d code m a m'" and l: "ev_load E A t a m' = Some v"
  shows "computes A fp d (code @ load_words E t) m v m'"
  unfolding computes_def
proof (intro allI impI)
  fix s assume "room A d (spreg s)" "sim A fp m s"
  then obtain s1 where s1: "run code s = Some s1" "xreg s1 0 = a" "sim A fp m' s1" "kept A d s s1"
    using c unfolding computes_def by blast
  then show "\<exists>s'. run (code @ load_words E t) s = Some s' \<and> xreg s' 0 = v \<and> sim A fp m' s' \<and> kept A d s s'"
    using l load64_sim [OF s1(3), of a]
    by (auto simp: ev_load_def load_words_def run_append exec_loads sim_def kept_def split: if_splits)
qed

lemma computes_push:
  assumes c: "computes A fp d code m b m1" and c': "computes A fp e code' m1 a m2"
    and fin: "\<And>s. xreg s 0 = a \<Longrightarrow> xreg s 1 = b \<Longrightarrow> sim A fp m2 s \<Longrightarrow>
      \<exists>s'. run rest s = Some s' \<and> xreg s' 0 = v \<and> sim A fp m3 s' \<and> spreg s' = spreg s \<and> (\<forall>x. x \<notin> A \<longrightarrow> cmem s' x = cmem s x)"
  shows "computes A fp (max d (Suc e)) (code @ [push_word] @ code' @ [pop1_word] @ rest) m v m3"
  unfolding computes_def
proof (intro allI impI)
  fix s assume r: "room A (max d (Suc e)) (spreg s)" and m: "sim A fp m s"
  have rd: "room A d (spreg s)" "room A (Suc e) (spreg s)" using r by (auto intro: room_mono)
  then obtain s1 where s1: "run code s = Some s1" "xreg s1 0 = b" "sim A fp m1 s1" "kept A d s s1"
    using c m unfolding computes_def by blast
  have r1: "room A (Suc e) (spreg s1)" using rd(2) s1(4) by (simp add: kept_def)
  note p = pushed_ok [OF r1 s1(3)]
  obtain s3 where s3: "run code' (pushed s1) = Some s3" "xreg s3 0 = a" "sim A fp m2 s3" "kept A e (pushed s1) s3"
    using c' p(1,2) unfolding computes_def by blast
  let ?s = "s3\<lparr>xreg := (xreg s3)(1 := load64 (cmem s3) (spreg s3)), spreg := spreg s3 + 16\<rparr>"
  have k: "kept A (Suc e) s1 ?s" by (rule p(4) [OF s3(4)])
  have "xreg ?s 0 = a" "xreg ?s 1 = b" "sim A fp m2 ?s" using s3 p(3) [OF s3(4)] s1(2) by (simp_all add: sim_def)
  from fin [OF this] obtain s' where s': "run rest ?s = Some s'" "xreg s' 0 = v" "sim A fp m3 s'" "spreg s' = spreg ?s"
    "\<forall>x. x \<notin> A \<longrightarrow> cmem s' x = cmem ?s x" by blast
  have "kept A (max d (Suc e)) s ?s" by (rule kept_trans [OF kept_mono [OF s1(4)] kept_mono [OF k]]) simp_all
  then have "kept A (max d (Suc e)) s s'" using s'(4,5) unfolding kept_def by simp
  then show "\<exists>s'. run (code @ [push_word] @ code' @ [pop1_word] @ rest) s = Some s' \<and> xreg s' 0 = v \<and> sim A fp m3 s' \<and>
      kept A (max d (Suc e)) s s'"
    using s1(1) s3(1) s'(1-3) by (simp add: run_append exec_push exec_pop1 pushed_def)
qed

lemma computes_unary:
  assumes c: "computes A fp d code m a m'"
    and fin: "\<And>s. xreg s 0 = a \<Longrightarrow> \<exists>s'. run rest s = Some s' \<and> xreg s' 0 = v \<and> xreg s' 29 = xreg s 29 \<and> spreg s' = spreg s \<and> cmem s' = cmem s"
  shows "computes A fp d (code @ rest) m v m'"
  unfolding computes_def
proof (intro allI impI)
  fix s assume "room A d (spreg s)" "sim A fp m s"
  then obtain s1 where s1: "run code s = Some s1" "xreg s1 0 = a" "sim A fp m' s1" "kept A d s s1"
    using c unfolding computes_def by blast
  from fin [OF s1(2)] obtain s' where "run rest s1 = Some s'" "xreg s' 0 = v" "xreg s' 29 = xreg s1 29" "spreg s' = spreg s1" "cmem s' = cmem s1"
    by blast
  then show "\<exists>s'. run (code @ rest) s = Some s' \<and> xreg s' 0 = v \<and> sim A fp m' s' \<and> kept A d s s'"
    using s1 by (auto simp: run_append sim_def kept_def)
qed

lemma computes_simple:
  assumes "\<And>s. xreg s 29 = fp \<Longrightarrow> \<exists>s'. run code s = Some s' \<and> xreg s' 0 = v \<and> xreg s' 29 = xreg s 29 \<and> spreg s' = spreg s \<and> cmem s' = cmem s"
  shows "computes A fp d code m v m"
  unfolding computes_def
proof (intro allI impI)
  fix s assume "room A d (spreg s)" and m: "sim A fp m s"
  then have "xreg s 29 = fp" by (simp add: sim_def)
  from assms [OF this] obtain s' where "run code s = Some s'" "xreg s' 0 = v" "xreg s' 29 = xreg s 29" "spreg s' = spreg s" "cmem s' = cmem s" by blast
  then show "\<exists>s'. run code s = Some s' \<and> xreg s' 0 = v \<and> sim A fp m s' \<and> kept A d s s'" using m by (auto simp: sim_def kept_def)
qed

lemma computes_loadimm: "computes A fp d (loadimm_words 0 v) m v m"
  by (rule computes_simple) (simp add: run_loadimm)

lemma store_run:
  assumes "ev_store E A t b v m = Some m'" "xreg s 0 = v" "xreg s 1 = b" "sim A fp m s"
  shows "\<exists>s'. run (put_words E t) s = Some s' \<and> xreg s' 0 = v \<and> sim A fp m' s' \<and> spreg s' = spreg s \<and> (\<forall>x. x \<notin> A \<longrightarrow> cmem s' x = cmem s x)"
proof (cases "ty_is E t (\<lambda>x. ty_size x = 1)")
  case True
  then show ?thesis using assms by (auto simp: ev_store_def put_words_def exec_loads sim_def split: if_splits)
next
  case False
  then have sp: "span8 b \<subseteq> A" "m' = store64 b v m" using assms(1) by (auto simp: ev_store_def split: if_splits)
  then have "cmem s x = store64 b v (cmem s) x" if "x \<notin> A" for x 
    using store64_outside [of x b v "cmem s"] subsetD [OF sp(1), of x] that by (metis (full_types))
  then show ?thesis using False assms sp by (auto simp: put_words_def exec_loads sim_def store64_get)
qed

definition comp_addr :: "cenv \<Rightarrow> (varid \<Rightarrow> var_t) \<Rightarrow> u64 \<Rightarrow> u64 set \<Rightarrow> node_t \<Rightarrow> bool" where
  "comp_addr E V fp A n \<longleftrightarrow> (\<forall>m v m'. ev_addr E V fp A n m = Some (v, m') \<longrightarrow> imm_ok V n \<longrightarrow>
     (\<exists>code. addr_words E V n = Some code \<and> computes A fp (slots n) code m v m'))"

definition comp_expr :: "cenv \<Rightarrow> (varid \<Rightarrow> var_t) \<Rightarrow> u64 \<Rightarrow> u64 set \<Rightarrow> node_t \<Rightarrow> bool" where
  "comp_expr E V fp A n \<longleftrightarrow> (\<forall>m v m'. ev_expr E V fp A n m = Some (v, m') \<longrightarrow> imm_ok V n \<longrightarrow>
     (\<exists>code. expr_words E V n = Some code \<and> computes A fp (slots n) code m v m'))"

lemma comp_addr_step:
  assumes "\<And>k. size k < size n \<Longrightarrow> comp_addr E V fp A k \<and> comp_expr E V fp A k"
  shows "comp_addr E V fp A n"
  unfolding comp_addr_def
proof (intro allI impI)
  fix m v m' assume ev: "ev_addr E V fp A n m = Some (v, m')" and ok: "imm_ok V n"
  show "\<exists>code. addr_words E V n = Some code \<and> computes A fp (slots n) code m v m'"
  proof (cases n)
    case (ND_VAR t x)
    then show ?thesis using ev ok run_var [of V x] by (auto intro!: computes_simple)
  next
    case (ND_STR t x)
    then show ?thesis using ev by (auto simp: computes_loadimm)
  next
    case (ND_DEREF t e)
    then show ?thesis using ev ok assms [of e] by (simp add: comp_expr_def)
  next
    case (ND_MEMBER t e off)
    then obtain a where a: "ev_addr E V fp A e m = Some (a, m')" "v = a + of_int off" "imm_ok V e" "0 \<le> off" "off \<le> 4095"
      using ev ok by (auto simp: bind_eq_Some_conv)
    have "comp_addr E V fp A e" using assms [of e] ND_MEMBER by simp
    then obtain code where code: "addr_words E V e = Some code" "computes A fp (slots e) code m a m'"
      using a(1,3) unfolding comp_addr_def by blast
    have "computes A fp (slots e) (code @ [0x91000000 OR push_bit 10 (of_int off AND 0xFFF) OR 0]) m (a + of_int off) m'"
    proof (rule computes_unary [OF code(2)])
      fix s :: a64 assume s: "xreg s 0 = a"
      have "run [0x91000000 OR push_bit 10 (of_int off AND 0xFFF) OR 0] s = Some (s\<lparr>xreg := (xreg s)(0 := xreg s 0 + of_int off)\<rparr>)"
        by (simp only: run.simps exec_member [OF a(4,5)] option.simps)
      then show "\<exists>s'. run [0x91000000 OR push_bit 10 (of_int off AND 0xFFF) OR 0] s = Some s' \<and> xreg s' 0 = a + of_int off \<and>
          xreg s' 29 = xreg s 29 \<and> spreg s' = spreg s \<and> cmem s' = cmem s" using s by (intro exI conjI) (assumption, simp_all)
    qed
    then show ?thesis using code a(2) ND_MEMBER by (cases "off = 0") (simp_all del: push_bit_and)
  qed (use ev in simp_all)
qed

lemma comp_expr_step:
  assumes IH: "\<And>k. size k < size n \<Longrightarrow> comp_addr E V fp A k \<and> comp_expr E V fp A k" and n: "comp_addr E V fp A n"
  shows "comp_expr E V fp A n"
  unfolding comp_expr_def
proof (intro allI impI)
  fix m v m' assume ev: "ev_expr E V fp A n m = Some (v, m')" and ok: "imm_ok V n"
  have load: "\<exists>code. addr_words E V n = Some code \<and> computes A fp (slots n) (code @ load_words E t) m v m'"
    if "ev_addr E V fp A n m = Some (a, m')" "ev_load E A t a m' = Some v" for a t
    using n that ok computes_load unfolding comp_addr_def by blast
  have sub: "\<exists>code. expr_words E V e = Some code \<and> computes A fp (slots e) code m v m'"
    if "ev_expr E V fp A e m = Some (v, m')" "imm_ok V e" "size e < size n" for e m v m'
    using IH [OF that(3)] that unfolding comp_expr_def by blast
  show "\<exists>code. expr_words E V n = Some code \<and> computes A fp (slots n) code m v m'"
  proof (cases n)
    case (ND_NUM t x)
    then show ?thesis using ev by (auto simp: ev_expr_rules expr_words_rules computes_loadimm)
  next
    case (ND_STR t x)
    then show ?thesis using ev by (auto simp: ev_expr_rules expr_words_rules computes_loadimm)
  next
    case (ND_VAR t x)
    then show ?thesis using ev load by (auto simp: ev_expr_rules expr_words_rules bind_eq_Some_conv)
  next
    case (ND_MEMBER t e off)
    then obtain a where "ev_addr E V fp A n m = Some (a, m')" "ev_load E A t a m' = Some v"
      using ev by (auto simp: ev_expr_rules bind_eq_Some_conv)
    from load [OF this] obtain code where "addr_words E V n = Some code" "computes A fp (slots n) (code @ load_words E t) m v m'" by blast
    moreover have "expr_words E V n = addr_words E V n \<bind> (\<lambda>c. Some (c @ load_words E t))"
      unfolding ND_MEMBER by (subst expr_words.simps) (simp only: node_t.case)
    ultimately show ?thesis by simp
  next
    case (ND_DEREF t e)
    then obtain a where a: "ev_expr E V fp A e m = Some (a, m')" "ev_load E A t a m' = Some v"
      using ev by (auto simp: ev_expr_rules bind_eq_Some_conv)
    from sub [OF a(1)] ok ND_DEREF obtain code where "expr_words E V e = Some code" "computes A fp (slots e) code m a m'" by auto
    then show ?thesis using computes_load [OF _ a(2)] ND_DEREF by (auto simp: expr_words_rules)
  next
    case (ND_ADDR t e)
    then show ?thesis using ev ok IH [of e] by (simp add: ev_expr_rules expr_words_rules comp_addr_def)
  next
    case (ND_NEG t e)
    then obtain a where a: "ev_expr E V fp A e m = Some (a, m')" "v = - a"
      using ev by (auto simp: ev_expr_rules bind_eq_Some_conv)
    from sub [OF a(1)] ok ND_NEG obtain code where c: "expr_words E V e = Some code" "computes A fp (slots e) code m a m'" by auto
    have "computes A fp (slots e) (code @ [0xCB0003E0]) m v m'"
      by (rule computes_unary [OF c(2)]) (simp add: exec_neg a(2))
    then show ?thesis using c(1) ND_NEG by (simp add: expr_words_rules)
  next
    case (ND_NOT t e)
    then obtain a where a: "ev_expr E V fp A e m = Some (a, m')" "v = of_bool (a = 0)"
      using ev by (auto simp: ev_expr_rules bind_eq_Some_conv)
    from sub [OF a(1)] ok ND_NOT obtain code where c: "expr_words E V e = Some code" "computes A fp (slots e) code m a m'" by auto
    have "computes A fp (slots e) (code @ [0xF100001F, 0x9A9F17E0]) m v m'"
      by (rule computes_unary [OF c(2)]) (simp only: exec_not a(2), simp add: set_flags_def)
    then show ?thesis using c(1) ND_NOT by (simp add: expr_words_rules)
  next
    case (ND_BIN k t l r)
    then obtain b m1 a where a: "ev_expr E V fp A r m = Some (b, m1)" "ev_expr E V fp A l m1 = Some (a, m')" "v = ev_binop k a b"
      using ev by (auto simp: ev_expr_rules bind_eq_Some_conv)
    from sub [OF a(1)] ok ND_BIN obtain d where d: "expr_words E V r = Some d" "computes A fp (slots r) d m b m1" by auto
    from sub [OF a(2)] ok ND_BIN obtain c where c: "expr_words E V l = Some c" "computes A fp (slots l) c m1 a m'" by auto
    have "computes A fp (max (slots r) (Suc (slots l))) (d @ [push_word] @ c @ [pop1_word] @ binop_words k) m v m'"
    proof (rule computes_push [OF d(2) c(2)])
      fix s :: a64 assume "xreg s 0 = a" "xreg s 1 = b" "sim A fp m' s"
      with exec_binop [of k s] a(3) show "\<exists>s'. run (binop_words k) s = Some s' \<and> xreg s' 0 = v \<and> sim A fp m' s' \<and>
          spreg s' = spreg s \<and> (\<forall>x. x \<notin> A \<longrightarrow> cmem s' x = cmem s x)" by (auto simp: sim_def)
    qed
    then show ?thesis using c(1) d(1) ND_BIN by (simp add: expr_words_rules)
  next
    case (ND_ASSIGN t l r)
    then obtain a m1 m2 where a: "ev_addr E V fp A l m = Some (a, m1)" "ev_expr E V fp A r m1 = Some (v, m2)"
        "ev_store E A (nd_ty l) a v m2 = Some m'"
      using ev by (auto simp: ev_expr_rules bind_eq_Some_conv)
    have "comp_addr E V fp A l" using IH [of l] ND_ASSIGN by simp
    moreover have "imm_ok V l" using ok ND_ASSIGN by simp
    ultimately obtain d where d: "addr_words E V l = Some d" "computes A fp (slots l) d m a m1"
      using a(1) unfolding comp_addr_def by blast
    from sub [OF a(2)] ok ND_ASSIGN obtain c where c: "expr_words E V r = Some c" "computes A fp (slots r) c m1 v m2" by auto
    have "computes A fp (max (slots l) (Suc (slots r))) (d @ [push_word] @ c @ [pop1_word] @ put_words E (nd_ty l)) m v m'"
      by (rule computes_push [OF d(2) c(2)]) (rule store_run [OF a(3)])
    then show ?thesis using c(1) d(1) ND_ASSIGN by (simp add: expr_words_rules)
  qed (use ev in \<open>simp_all add: ev_expr_rules\<close>)
qed

lemma gen_computes: "comp_addr E V fp A n \<and> comp_expr E V fp A n"
proof (induction "size n" arbitrary: n rule: less_induct)
  case less
  then show ?case using comp_addr_step comp_expr_step by blast
qed

section \<open>The emitted bytes\<close>

definition fetch32 :: "bytes \<Rightarrow> nat \<Rightarrow> u32" where
  "fetch32 buf i = ucast (buf ! i) OR push_bit 8 (ucast (buf ! (i + 1))) OR push_bit 16 (ucast (buf ! (i + 2))) OR
     push_bit 24 (ucast (buf ! (i + 3)))"

definition fetch_code :: "bytes \<Rightarrow> nat \<Rightarrow> nat \<Rightarrow> u32 list" where
  "fetch_code buf pos n = map (\<lambda>i. fetch32 buf (pos + 4 * i)) [0..<n]"

lemma fetch_word_bytes: "fetch32 (word_bytes w) 0 = w"
proof -
  have "fetch32 (word_bytes w) 0 = ucast (ucast w :: u8) OR push_bit 8 (ucast (ucast (drop_bit 8 w) :: u8)) OR
      push_bit 16 (ucast (ucast (drop_bit 16 w) :: u8)) OR push_bit 24 (ucast (ucast (drop_bit 24 w) :: u8))"
    by (simp add: fetch32_def word_bytes_def numeral_2_eq_2 numeral_3_eq_3)
  also have "\<dots> = w"
  proof (rule bit_word_eqI)
    fix n assume n: "n < LENGTH(32)"
    show "bit (ucast (ucast w :: u8) OR push_bit 8 (ucast (ucast (drop_bit 8 w) :: u8)) OR
      push_bit 16 (ucast (ucast (drop_bit 16 w) :: u8)) OR push_bit 24 (ucast (ucast (drop_bit 24 w) :: u8)) :: u32) n = bit w n"
      by (cases "n < 8"; cases "n < 16"; cases "n < 24") (use n in \<open>auto simp: bit_simps\<close>)
  qed
  finally show ?thesis .
qed

lemma fetch32_cong: "(\<And>j. j < 4 \<Longrightarrow> buf ! (i + j) = buf' ! (i' + j)) \<Longrightarrow> fetch32 buf i = fetch32 buf' i'"
  unfolding fetch32_def
proof -
  assume a: "\<And>j. j < 4 \<Longrightarrow> buf ! (i + j) = buf' ! (i' + j)"
  show "ucast (buf ! i) OR push_bit 8 (ucast (buf ! (i + 1))) OR push_bit 16 (ucast (buf ! (i + 2))) OR push_bit 24 (ucast (buf ! (i + 3))) =
    (ucast (buf' ! i') OR push_bit 8 (ucast (buf' ! (i' + 1))) OR push_bit 16 (ucast (buf' ! (i' + 2))) OR push_bit 24 (ucast (buf' ! (i' + 3))) :: u32)"
    using a [of 0] a [of 1] a [of 2] a [of 3] by simp
qed

lemma concat_word_nth: "i < length code \<Longrightarrow> j < 4 \<Longrightarrow> concat (map word_bytes code) ! (4 * i + j) = word_bytes (code ! i) ! j"
proof (induction code arbitrary: i)
  case (Cons w code)
  have l: "length (word_bytes w) = 4" by (simp add: word_bytes_def)
  show ?case
  proof (cases i)
    case 0
    then show ?thesis using Cons.prems l by (simp add: nth_append)
  next
    case (Suc k)
    then have "concat (map word_bytes code) ! (4 * k + j) = word_bytes (code ! k) ! j" using Cons by simp
    then show ?thesis using Suc l by (simp add: nth_append)
  qed
qed simp

lemma length_concat_words [simp]: "length (concat (map word_bytes code)) = 4 * length code"
  by (induction code) (simp_all add: word_bytes_def)

lemma fetch_put_code:
  assumes "pos + 4 * length code \<le> length buf"
  shows "fetch_code (put_bytes buf pos (concat (map word_bytes code))) pos (length code) = code"
proof (rule nth_equalityI)
  fix i assume "i < length (fetch_code (put_bytes buf pos (concat (map word_bytes code))) pos (length code))"
  then have i: "i < length code" by (simp add: fetch_code_def)
  have "put_bytes buf pos (concat (map word_bytes code)) ! (pos + 4 * i + j) = word_bytes (code ! i) ! (0 + j)" if "j < 4" for j
    using i that assms concat_word_nth [OF i that] by (simp add: nth_put_bytes add.assoc)
  then have "fetch32 (put_bytes buf pos (concat (map word_bytes code))) (pos + 4 * i) = fetch32 (word_bytes (code ! i)) 0"
    by (rule fetch32_cong)
  then show "fetch_code (put_bytes buf pos (concat (map word_bytes code))) pos (length code) ! i = code ! i"
    using i by (simp add: fetch_code_def fetch_word_bytes)
qed (simp add: fetch_code_def)

text \<open>C1: the code emitted for an expression computes its value. Take any expression built from constants,
  strings, local and global variables, members, pointers, address-of, assignment, negation, not, and
  the nine binary operators, with member offsets below 4096. If its reference evaluation on a memory
  yields a value and a memory, then the generator appends code whose bytes, fetched back from the
  buffer, run on every machine state that has this memory at the accessible addresses and enough free
  stack below them to a state with the value in x0 and the new memory, with the stack and frame
  pointers restored; the buffer before the code is unchanged.\<close>

theorem gen_expr_correct:
  assumes ok: "cg_ok g" "\<not> cc_failed (cst g)"
    and ev: "ev_expr E (cvars g) fp A n m = Some (v, m')" and imm: "imm_ok (cvars g) n"
    and fits: "\<not> g_oom (gen_expr E n g)" "\<not> g_oom g"
  shows "\<exists>len. g_pos (gen_expr E n g) = g_pos g + 4 * len \<and> \<not> cc_failed (cst (gen_expr E n g)) \<and>
    take (g_pos g) (g_buf (gen_expr E n g)) = take (g_pos g) (g_buf g) \<and>
    (\<forall>s. room A (slots n) (spreg s) \<longrightarrow> sim A fp m s \<longrightarrow>
      (\<exists>s'. run (fetch_code (g_buf (gen_expr E n g)) (g_pos g) len) s = Some s' \<and>
         xreg s' 0 = v \<and> sim A fp m' s' \<and> kept A (slots n) s s'))"
proof -
  obtain code where code: "expr_words E (cvars g) n = Some code" "computes A fp (slots n) code m v m'"
    using gen_computes [of E "cvars g" fp A n] ev imm unfolding comp_expr_def by blast
  have em: "gen_expr E n g = emits code g" using gen_emits(2) [OF code(1) refl ok(2)] .
  have "g_pos g + 4 * length code \<le> g_cap g"
  proof (rule ccontr)
    assume big: "\<not> ?thesis"
    have "cg_ok h \<Longrightarrow> \<not> g_pos h + 4 * length ws \<le> g_cap h \<Longrightarrow> g_oom (emits ws h)" for ws h
    proof (induction ws arbitrary: h)
      case (Cons w ws)
      have mono: "g_oom k \<Longrightarrow> g_oom (emits ws k)" for ws k by (induction ws arbitrary: k) (auto simp: emit_def put32_def)
      show ?case
      proof (cases "g_cap h < g_pos h + 4")
        case True
        then show ?thesis by (auto simp: emit_def intro: mono)
      next
        case False
        then have "g_pos (emit w h) = g_pos h + 4" by (simp add: emit_def)
        then show ?thesis using Cons by simp
      qed
    qed (simp add: cg_ok_def)
    with ok(1) big fits(1) em show False by simp
  qed
  note buf = emits_buf [OF ok(1) this]
  have "fetch_code (g_buf (emits code g)) (g_pos g) (length code) = code"
    using buf fetch_put_code [of "g_pos g" code "g_buf g"] ok(1) \<open>g_pos g + _ \<le> _\<close> by (simp add: cg_ok_def)
  moreover have "take (g_pos g) (g_buf (emits code g)) = take (g_pos g) (g_buf g)"
    using buf by (intro nth_equalityI) (auto simp: nth_put_bytes)
  ultimately show ?thesis using buf ok(2) code(2) unfolding em computes_def
    by (intro exI [of _ "length code"]) simp
qed

definition cg_blank :: "nat \<Rightarrow> cgen" where
  "cg_blank cap = \<lparr>g_buf = replicate cap 0, g_base = 0x80000, g_pos = 0, g_cap = cap, g_oom = False, lab_off = (\<lambda>_. 0), nlab = 0,
     bfx = [], brk_lab = [], cont_lab = [], cfx = [], cur_lret = 0, g_tickaddr = 0, clabel = (\<lambda>_. 0),
     cvars = (\<lambda>_. \<lparr>v_name = [], v_ty = 0, v_offset = 0, is_global = False, v_gaddr = 0\<rparr>), code_off = (\<lambda>_. 0),
     stacksize = (\<lambda>_. 0), cst = \<lparr>g_err = False, g_errbuf = [], g_acap = 0, g_apos = 0\<rparr>, oob = False\<rparr>"

definition cenv_blank :: "func_t list \<Rightarrow> cenv" where
  "cenv_blank fs = \<lparr>types = (\<lambda>_. \<lparr>ty_kind = TY_INT, ty_size = 8, ty_base = None, ty_arraylen = 0, ty_members = []\<rparr>),
     cc_resolve_extern = (\<lambda>_. 0), g_funcs = fs\<rparr>"

definition cpu_blank :: a64 where
  "cpu_blank = \<lparr>xreg = (\<lambda>_. 0), spreg = 0x1000, cmem = (\<lambda>_. 0), flag_n = False, flag_z = False, flag_v = False\<rparr>"

theorem gen_expr_correct_witness:
  "\<exists>len s'. g_pos (gen_expr (cenv_blank []) (ND_BIN ND_ADD None (ND_NUM None 2) (ND_NUM None 3)) (cg_blank 64)) = 4 * len \<and>
     run (fetch_code (g_buf (gen_expr (cenv_blank []) (ND_BIN ND_ADD None (ND_NUM None 2) (ND_NUM None 3)) (cg_blank 64))) 0 len) cpu_blank = Some s' \<and>
     xreg s' 0 = 5 \<and> spreg s' = 0x1000"
proof -
  let ?n = "ND_BIN ND_ADD None (ND_NUM None 2) (ND_NUM None 3)"
  let ?E = "cenv_blank []"
  have ok: "cg_ok (cg_blank 64)" "\<not> cc_failed (cst (cg_blank 64))" "\<not> g_oom (cg_blank 64)"
    by (simp_all add: cg_ok_def cg_blank_def cc_failed_def)
  have ev: "ev_expr ?E (cvars (cg_blank 64)) 0 {} ?n (\<lambda>_. 0) = Some (5, \<lambda>_. 0)"
    by (simp add: ev_expr_rules ev_binop_def)
  obtain code where code: "expr_words ?E (cvars (cg_blank 64)) ?n = Some code" "length code = 11"
    by (simp add: expr_words_rules loadimm_words_def binop_words_def)
  have "g_pos (cg_blank 64) + 4 * length code \<le> g_cap (cg_blank 64)" using code(2) by (simp add: cg_blank_def)
  from emits_buf [OF ok(1) this] have "\<not> g_oom (gen_expr ?E ?n (cg_blank 64))"
    using gen_emits(2) [OF code(1) refl ok(2)] ok(3) by simp
  from gen_expr_correct [OF ok(1,2) ev _ this ok(3)]
  obtain len where len: "g_pos (gen_expr ?E ?n (cg_blank 64)) = g_pos (cg_blank 64) + 4 * len"
    "\<forall>s. room {} (slots ?n) (spreg s) \<longrightarrow> sim {} 0 (\<lambda>_. 0) s \<longrightarrow>
      (\<exists>s'. run (fetch_code (g_buf (gen_expr ?E ?n (cg_blank 64))) (g_pos (cg_blank 64)) len) s = Some s' \<and>
         xreg s' 0 = 5 \<and> sim {} 0 (\<lambda>_. 0) s' \<and> kept {} (slots ?n) s s')" by auto
  have "g_pos (cg_blank 64) = 0" "room {} (slots ?n) (spreg cpu_blank)" "sim {} 0 (\<lambda>_. 0) cpu_blank" "spreg cpu_blank = 0x1000"
    by (simp_all add: cg_blank_def room_def sim_def cpu_blank_def)
  then show ?thesis using len(1) len(2) [rule_format, of cpu_blank] by (auto simp: kept_def)
qed

section \<open>Frames\<close>

lemma frame_fields:
  "w = 0xD1000000 OR push_bit 10 (c AND 0xFFF) OR (0x3FF :: u32) \<Longrightarrow>
   exec w s = Some (s\<lparr>spreg := spreg s - ucast (c AND 0xFFF)\<rparr>)"
proof -
  assume w: "w = 0xD1000000 OR push_bit 10 (c AND 0xFFF) OR (0x3FF :: u32)"
  note f = imm_fields [OF _ _ w]
  show ?thesis by (subst exec_sub_imm) (simp_all add: f ws_def rs_def)
qed

text \<open>The frame allocation of the prologue: for frames of at most 4095 bytes the stack pointer drops by
  the frame size. For larger frames the code loads the size into x9 and emits \<open>sub\<close> in its
  shifted-register form with register number 31, which there is the zero register: the stack pointer
  does not move, and the temporaries of expressions overwrite the local variables.\<close>

theorem frame_allocation:
  "(0 < frame \<and> frame \<le> 4095 \<longrightarrow> (\<exists>code. gen_frame frame g = emits code g \<and>
      (\<forall>s. run code s = Some (s\<lparr>spreg := spreg s - of_int frame\<rparr>)))) \<and>
   (4095 < frame \<longrightarrow> (\<exists>code. gen_frame frame g = emits code g \<and>
      (\<forall>s. \<exists>s'. run code s = Some s' \<and> spreg s' = spreg s)))"
proof (intro conjI impI)
  assume f: "0 < frame \<and> frame \<le> 4095"
  let ?w = "0xD1000000 OR push_bit 10 (of_int frame AND 0xFFF) OR (0x3FF :: u32)"
  have "gen_frame frame g = emits [?w] g"
    using f by (simp add: gen_frame_def emit_sub_imm_def reg_def ac_simps)
  moreover have "run [?w] s = Some (s\<lparr>spreg := spreg s - of_int frame\<rparr>)" for s
    using frame_fields [OF refl] imm12_value [of frame] f by (simp only: run.simps option.simps) simp
  ultimately show "\<exists>code. gen_frame frame g = emits code g \<and> (\<forall>s. run code s = Some (s\<lparr>spreg := spreg s - of_int frame\<rparr>))"
    by blast
next
  assume f: "4095 < frame"
  have "exec 0xCB0903FF s = Some s" for s by (simp add: exec_def fld_def rx_def wx_def)
  then have "\<exists>s'. run (loadimm_words 9 (of_int frame) @ [0xCB0903FF]) s = Some s' \<and> spreg s' = spreg s" for s
    by (simp add: run_append run_loadimm)
  moreover have "gen_frame frame g = emits (loadimm_words 9 (of_int frame) @ [0xCB0903FF]) g"
    using f by (simp add: gen_frame_def emit_sub_rrr_def reg_def loadimm_emits emits_append)
  ultimately show "\<exists>code. gen_frame frame g = emits code g \<and> (\<forall>s. \<exists>s'. run code s = Some s' \<and> spreg s' = spreg s)" by blast
qed

text \<open>When the buffer is full the fixup of a branch that was not emitted is still applied: it is recorded
  for the position behind the code, and resolving it writes outside the buffer.\<close>

lemma put32_oob: "oob g \<Longrightarrow> oob (put32 p w g)" "length (g_buf (put32 p w g)) = length (g_buf g)" "lab_off (put32 p w g) = lab_off g"
  by (simp_all add: put32_def)

lemma resolve_oob:
  "b \<in> set bs \<Longrightarrow> length (g_buf g) < bf_site b + 4 \<Longrightarrow> oob (fold (\<lambda>b g. put32 (bf_site b) (branch_word b (lab_off g)) g) bs g)"
proof (induction bs arbitrary: g)
  case (Cons c bs)
  have keep: "oob h \<Longrightarrow> oob (fold (\<lambda>b g. put32 (bf_site b) (branch_word b (lab_off g)) g) bs h)" for h
    by (induction bs arbitrary: h) (simp_all add: put32_oob)
  show ?case
  proof (cases "c = b")
    case True
    then have "oob (put32 (bf_site c) (branch_word c (lab_off g)) g)" using Cons.prems by (simp add: put32_def)
    then show ?thesis by (simp add: keep)
  next
    case False
    then show ?thesis using Cons by (simp add: put32_oob)
  qed
qed simp

lemma codegen_overflow_write:
  assumes "cg_ok g" "g_cap g < g_pos g + 4" "length (bfx g) < MAXBFX"
  shows "oob (resolve_branches (emit_b l g))"
  unfolding resolve_branches_def
proof (rule resolve_oob)
  show "\<lparr>bf_site = g_pos g, bf_lab = l, bf_kind = BR_B, bf_cond = 0\<rparr> \<in> set (bfx (emit_b l g))"
    using assms by (simp add: emit_b_def add_bfx_def emit_def)
qed (use assms in \<open>simp add: emit_b_def add_bfx_def emit_def cg_ok_def\<close>)

end
