(* ===== verification/Codegen_Branch.thy ===== *)
theory Codegen_Branch
  imports Codegen_Sem
begin

text \<open>
  The branches of generated functions (\<open>cc/codegen.c\<close>): what a branch word encodes, what
  \<open>resolve_branches\<close> writes, and the layout invariant of the output buffer. The locale \<open>code_invariant\<close> is the
  contract of an invariant that every emitter keeps, and carries it through the generator.
\<close>

section \<open>Branches\<close>

text \<open>The byte distance of a branch word, relative to its own address.\<close>

definition branch_dist :: "u32 \<Rightarrow> int option" where
  "branch_dist w =
     (if w AND 0xFC000000 = 0x14000000 then Some (4 * sint (ucast w :: 26 word))
      else if w AND 0xFF000000 = 0xB4000000 \<or> w AND 0xFF000000 = 0xB5000000 \<or> w AND 0xFF000010 = 0x54000000
      then Some (4 * sint (ucast (drop_bit 5 w) :: 19 word)) else None)"

lemma fetch_put32:
  assumes "p + 4 \<le> length (g_buf g)" "q + 4 \<le> length (g_buf g)"
  shows "fetch32 (g_buf (put32 p w g)) p = w" "q + 4 \<le> p \<or> p + 4 \<le> q \<Longrightarrow> fetch32 (g_buf (put32 p w g)) q = fetch32 (g_buf g) q"
proof -
  have l: "length (word_bytes w) = 4" by (simp add: word_bytes_def)
  have "fetch32 (g_buf (put32 p w g)) p = fetch32 (word_bytes w) 0"
    using assms l by (intro fetch32_cong) (simp add: put32_def nth_put_bytes)
  then show "fetch32 (g_buf (put32 p w g)) p = w" by (simp add: fetch_word_bytes)
  assume "q + 4 \<le> p \<or> p + 4 \<le> q"
  then show "fetch32 (g_buf (put32 p w g)) q = fetch32 (g_buf g) q"
    using assms l by (intro fetch32_cong) (auto simp: put32_def nth_put_bytes)
qed

text \<open>Sites of fixups do not overlap: they are distinct multiples of four inside the buffer.\<close>

definition sites_ok :: "nat list \<Rightarrow> cgen \<Rightarrow> bool" where
  "sites_ok ss g \<longleftrightarrow> distinct ss \<and> (\<forall>p \<in> set ss. 4 dvd p \<and> p + 4 \<le> length (g_buf g))"

lemma resolve_other:
  "sites_ok (map bf_site bs) g \<Longrightarrow> 4 dvd q \<Longrightarrow> q + 4 \<le> length (g_buf g) \<Longrightarrow> q \<notin> bf_site ` set bs \<Longrightarrow>
   fetch32 (g_buf (fold (\<lambda>b g. put32 (bf_site b) (branch_word b (lab_off g)) g) bs g)) q = fetch32 (g_buf g) q"
proof (induction bs arbitrary: g)
  case (Cons d bs)
  have "q + 4 \<le> bf_site d \<or> bf_site d + 4 \<le> q" using Cons.prems by (auto simp: sites_ok_def elim!: dvdE)
  then have "fetch32 (g_buf (put32 (bf_site d) (branch_word d (lab_off g)) g)) q = fetch32 (g_buf g) q"
    using Cons.prems by (intro fetch_put32) (auto simp: sites_ok_def)
  moreover have "sites_ok (map bf_site bs) (put32 (bf_site d) (branch_word d (lab_off g)) g)"
    using Cons.prems by (simp add: sites_ok_def put32_oob)
  ultimately show ?case using Cons.IH Cons.prems by (simp add: put32_oob)
qed simp

lemma resolve_word:
  "sites_ok (map bf_site bs) g \<Longrightarrow> b \<in> set bs \<Longrightarrow>
   fetch32 (g_buf (fold (\<lambda>b g. put32 (bf_site b) (branch_word b (lab_off g)) g) bs g)) (bf_site b) = branch_word b (lab_off g)"
proof (induction bs arbitrary: g)
  case (Cons c bs)
  let ?g = "put32 (bf_site c) (branch_word c (lab_off g)) g"
  have ok: "bf_site c \<notin> bf_site ` set bs" "4 dvd bf_site c" "bf_site c + 4 \<le> length (g_buf g)" "sites_ok (map bf_site bs) ?g"
    using Cons.prems(1) by (auto simp: sites_ok_def put32_oob)
  show ?case
  proof (cases "b = c")
    case True
    have "fetch32 (g_buf ?g) (bf_site c) = branch_word c (lab_off g)" using ok(3) by (rule fetch_put32(1)) (rule ok(3))
    then show ?thesis using resolve_other [OF ok(4,2) _ ok(1)] ok(3) True by (simp add: put32_oob)
  next
    case False
    then show ?thesis using Cons.IH [OF ok(4)] Cons.prems(2) by (simp add: put32_oob)
  qed
qed simp

lemma dist26:
  assumes "- (2 ^ 25) \<le> d" "d < 2 ^ 25"
  shows "sint (ucast (0x14000000 OR (of_int d AND 0x03FFFFFF :: u32)) :: 26 word) = d"
proof -
  have "(0x03FFFFFF :: u32) = mask 26" "ucast (0x14000000 :: u32) = (0 :: 26 word)" by (simp_all add: mask_eq_exp_minus_1)
  moreover have "ucast (of_int d AND mask 26 :: u32) = (of_int d :: 26 word)" by (rule bit_word_eqI) (auto simp: bit_simps)
  ultimately have "ucast (0x14000000 OR (of_int d AND 0x03FFFFFF :: u32)) = (of_int d :: 26 word)" by (simp only: unsigned_or_eq) simp
  then show ?thesis using assms by (simp add: sint_sbintrunc' signed_take_bit_int_eq_self)
qed

lemma dist19:
  assumes "- (2 ^ 18) \<le> d" "d < 2 ^ 18" "ucast (drop_bit 5 K) = (0 :: 19 word)"
  shows "sint (ucast (drop_bit 5 (K OR push_bit 5 (of_int d AND 0x7FFFF :: u32))) :: 19 word) = d"
proof -
  have "(0x7FFFF :: u32) = mask 19" by (simp add: mask_eq_exp_minus_1)
  moreover have "ucast (drop_bit 5 (push_bit 5 (of_int d AND mask 19 :: u32))) = (of_int d :: 19 word)" by (rule bit_word_eqI) (auto simp: bit_simps)
  ultimately have "ucast (drop_bit 5 (K OR push_bit 5 (of_int d AND 0x7FFFF :: u32))) = (of_int d :: 19 word)"
    using assms(3) by (simp only: drop_bit_or unsigned_or_eq) simp
  then show ?thesis using assms by (simp add: sint_sbintrunc' signed_take_bit_int_eq_self)
qed

lemma and19: "(K OR push_bit 5 (c AND 0x7FFFF)) AND m = (K AND m) OR push_bit 5 ((c :: u32) AND (0x7FFFF AND drop_bit 5 m))"
  unfolding bit.conj_disj_distrib2 push_and and.assoc ..

lemma branch_word_dist:
  assumes "4 dvd labs (bf_lab b)" "4 dvd bf_site b" "bf_kind b = BR_BCOND \<Longrightarrow> bf_cond b = C_EQ"
    and "labs (bf_lab b) < 2 ^ 20" "bf_site b < 2 ^ 20"
  shows "branch_dist (branch_word b labs) = Some (int (labs (bf_lab b)) - int (bf_site b))"
proof -
  define d where "d = (int (labs (bf_lab b)) - int (bf_site b)) div 4"
  have d: "4 * d = int (labs (bf_lab b)) - int (bf_site b)" using assms(1,2) unfolding d_def by (auto elim!: dvdE)
  then have r: "- (2 ^ 18) \<le> d" "d < 2 ^ 18" "- (2 ^ 25) \<le> d" "d < 2 ^ 25" using assms(4,5) by simp_all
  have w: "branch_word b labs = (case bf_kind b of BR_B \<Rightarrow> 0x14000000 OR (of_int d AND 0x03FFFFFF)
      | BR_CBZ \<Rightarrow> 0xB4000000 OR push_bit 5 (of_int d AND 0x7FFFF)
      | BR_CBNZ \<Rightarrow> 0xB5000000 OR push_bit 5 (of_int d AND 0x7FFFF)
      | BR_BCOND \<Rightarrow> 0x54000000 OR push_bit 5 (of_int d AND 0x7FFFF))"
    unfolding branch_word_def Let_def d_def using assms(3) by (auto simp: C_EQ_def split: br_kind.split)
  show ?thesis
  proof (cases "bf_kind b")
    case BR_B
    have "(0x14000000 OR (of_int d AND 0x03FFFFFF)) AND 0xFC000000 = (0x14000000 :: u32)"
      unfolding bit.conj_disj_distrib2 and.assoc by simp
    then show ?thesis using BR_B d dist26 [OF r(3,4)] unfolding w branch_dist_def by (simp only: br_kind.case if_True simp_thms)
  next
    case BR_CBZ
    have "(0xB4000000 OR push_bit 5 (of_int d AND 0x7FFFF)) AND 0xFC000000 \<noteq> (0x14000000 :: u32)"
      "(0xB4000000 OR push_bit 5 (of_int d AND 0x7FFFF)) AND 0xFF000000 = (0xB4000000 :: u32)"
      unfolding and19 by simp_all
    moreover have "ucast (drop_bit 5 (0xB4000000 :: u32)) = (0 :: 19 word)" by simp
    ultimately show ?thesis using BR_CBZ d dist19 [OF r(1,2), of "0xB4000000"] unfolding w branch_dist_def
      by (simp only: br_kind.case if_True if_False simp_thms)
  next
    case BR_CBNZ
    have "(0xB5000000 OR push_bit 5 (of_int d AND 0x7FFFF)) AND 0xFC000000 \<noteq> (0x14000000 :: u32)"
      "(0xB5000000 OR push_bit 5 (of_int d AND 0x7FFFF)) AND 0xFF000000 = (0xB5000000 :: u32)"
      unfolding and19 by simp_all
    moreover have "ucast (drop_bit 5 (0xB5000000 :: u32)) = (0 :: 19 word)" by simp
    ultimately show ?thesis using BR_CBNZ d dist19 [OF r(1,2), of "0xB5000000"] unfolding w branch_dist_def
      by (simp only: br_kind.case if_True if_False simp_thms)
  next
    case BR_BCOND
    have "(0x54000000 OR push_bit 5 (of_int d AND 0x7FFFF)) AND 0xFC000000 \<noteq> (0x14000000 :: u32)"
      "(0x54000000 OR push_bit 5 (of_int d AND 0x7FFFF)) AND 0xFF000010 = (0x54000000 :: u32)"
      unfolding and19 by simp_all
    moreover have "ucast (drop_bit 5 (0x54000000 :: u32)) = (0 :: 19 word)" by simp
    ultimately show ?thesis using BR_BCOND d dist19 [OF r(1,2), of "0x54000000"] unfolding w branch_dist_def
      by (simp only: br_kind.case if_True if_False simp_thms)
  qed
qed

text \<open>The layout invariant of code generation: unless the buffer overflowed, positions are aligned, every
  label offset lies inside the buffer (the label table is never cleared, and keeps entries of earlier
  functions and compilations), and the branch sites are distinct words of the code.\<close>

definition layout :: "cgen \<Rightarrow> bool" where
  "layout g \<longleftrightarrow> g_oom g \<or> (cg_ok g \<and> 4 dvd g_pos g \<and> (\<forall>l. 4 dvd lab_off g l \<and> lab_off g l \<le> g_cap g) \<and>
     distinct (map bf_site (bfx g)) \<and>
     (\<forall>b \<in> set (bfx g). 4 dvd bf_site b \<and> bf_site b + 4 \<le> g_pos g \<and> (bf_kind b = BR_BCOND \<longrightarrow> bf_cond b = C_EQ)))"

lemmas emitter_defs = emit_push_def emit_pop_def emit_add_rrr_def emit_sub_rrr_def emit_mul_def emit_sdiv_def emit_msub_def
  emit_add_imm_def emit_sub_imm_def emit_cmp_rr_def emit_cmp0_def emit_cset_def emit_ldr_def emit_str_def emit_ldrb_def emit_strb_def
  emit_mov_imm_small_def emit_blr_def emit_ret_def emit_prologue_stp_def emit_mov_fp_sp_def emit_mov_sp_fp_def emit_epilogue_ldp_def

lemmas gen_expr_stmts =
    gen_expr.simps [of _ "ND_RETURN l" for l, simplified]
    gen_expr.simps [of _ "ND_IF c l e" for c l e, simplified]
    gen_expr.simps [of _ "ND_WHILE c l" for c l, simplified]
    gen_expr.simps [of _ "ND_FOR i c s b" for i c s b, simplified]
    gen_expr.simps [of _ "ND_BLOCK ns" for ns, simplified]
    gen_expr.simps [of _ "ND_EXPR_STMT l" for l, simplified]
    gen_expr.simps [of _ "ND_SWITCH c cs b" for c cs b, simplified]
    gen_expr.simps [of _ "ND_CASE i b" for i b, simplified]
    gen_expr.simps [of _ "ND_BREAK", simplified]
    gen_expr.simps [of _ "ND_CONTINUE", simplified]

lemmas gen_stmt_rules =
    gen_stmt.simps [of _ "ND_NUM t v" for t v, unfolded node_t.case]
    gen_stmt.simps [of _ "ND_STR t v" for t v, unfolded node_t.case]
    gen_stmt.simps [of _ "ND_VAR t v" for t v, unfolded node_t.case]
    gen_stmt.simps [of _ "ND_ASSIGN t l r" for t l r, unfolded node_t.case]
    gen_stmt.simps [of _ "ND_DEREF t l" for t l, unfolded node_t.case]
    gen_stmt.simps [of _ "ND_MEMBER t l off" for t l off, unfolded node_t.case]
    gen_stmt.simps [of _ "ND_ADDR t l" for t l, unfolded node_t.case]
    gen_stmt.simps [of _ "ND_NEG t l" for t l, unfolded node_t.case]
    gen_stmt.simps [of _ "ND_NOT t l" for t l, unfolded node_t.case]
    gen_stmt.simps [of _ "ND_BIN k t l r" for k t l r, unfolded node_t.case]
    gen_stmt.simps [of _ "ND_LOGAND t l r" for t l r, unfolded node_t.case]
    gen_stmt.simps [of _ "ND_LOGOR t l r" for t l r, unfolded node_t.case]
    gen_stmt.simps [of _ "ND_FUNCALL t f as" for t f as, unfolded node_t.case]
    gen_stmt.simps [of _ "ND_RETURN l" for l, unfolded node_t.case]
    gen_stmt.simps [of _ "ND_EXPR_STMT l" for l, unfolded node_t.case]
    gen_stmt.simps [of _ "ND_CASE i b" for i b, unfolded node_t.case]
    gen_stmt.simps [of _ "ND_BREAK", unfolded node_t.case]
    gen_stmt.simps [of _ "ND_CONTINUE", unfolded node_t.case]

text \<open>\<open>gen_func\<close> in three parts: the frame layout and the fresh tables, the code behind the first
  instruction, and the resolution of the branches.\<close>

definition func_entry :: "cenv \<Rightarrow> fid \<Rightarrow> cgen \<Rightarrow> int \<times> cgen" where
  "func_entry E i g =
     (let (frame, g) = assign_offsets E (g_funcs E ! i) (g\<lparr>code_off := (code_off g)(i := g_pos g)\<rparr>);
          (l, g) = newlabel (g\<lparr>stacksize := (stacksize g)(i := frame), nlab := 0, bfx := [], brk_lab := [], cont_lab := []\<rparr>)
      in (frame, g\<lparr>cur_lret := l\<rparr>))"

definition func_tail :: "cenv \<Rightarrow> fid \<Rightarrow> int \<Rightarrow> cgen \<Rightarrow> cgen" where
  "func_tail E i frame g =
     (let g = gen_frame frame (emit_mov_fp_sp g);
          g = fold (spill_param E) (enumerate 0 (f_params (g_funcs E ! i))) g;
          g = gen_opt E (f_body (g_funcs E ! i)) g;
          g = place (cur_lret g) (emit_mov_imm_small 0 0 g)
      in emit_ret (emit_epilogue_ldp (emit_mov_sp_fp g)))"

lemma gen_func_eq:
  "gen_func E i g = resolve_branches (func_tail E i (fst (func_entry E i g)) (emit_prologue_stp (snd (func_entry E i g))))"
  by (simp add: gen_func_def func_entry_def func_tail_def Let_def split_def)

lemma assign_loop_fields:
  "g_buf (snd (assign_loop E vs off g)) = g_buf g" "g_pos (snd (assign_loop E vs off g)) = g_pos g"
  "g_cap (snd (assign_loop E vs off g)) = g_cap g" "g_oom (snd (assign_loop E vs off g)) = g_oom g"
  "lab_off (snd (assign_loop E vs off g)) = lab_off g" "cfx (snd (assign_loop E vs off g)) = cfx g"
  "code_off (snd (assign_loop E vs off g)) = code_off g" "g_base (snd (assign_loop E vs off g)) = g_base g"
  by (induction vs arbitrary: off g) (simp_all add: Let_def)

lemma func_entry_fields:
  fixes E i g defines "h \<equiv> snd (func_entry E i g)"
  shows "g_buf h = g_buf g" "g_pos h = g_pos g" "g_cap h = g_cap g" "g_oom h = g_oom g" "lab_off h = lab_off g"
    "cfx h = cfx g" "g_base h = g_base g" "code_off h = (code_off g)(i := g_pos g)" "bfx h = []"
  unfolding h_def func_entry_def assign_offsets_def by (simp_all add: split_def Let_def newlabel_def MAXLAB_def assign_loop_fields)

named_theorems keep_intros \<open>operations that keep an invariant of the generated code\<close>

text \<open>The contract an invariant of the generator has to meet: it survives the emission of a word, of a
  recorded branch and of a call, and does not depend on the bookkeeping of labels and loops. The
  traversal of expressions, statements and parameters then keeps it.\<close>

locale code_invariant =
  fixes I :: "cgen \<Rightarrow> bool" and E :: cenv
  assumes keep_emit [keep_intros]: "I g \<Longrightarrow> I (emit w g)"
    and keep_branch: "I g \<Longrightarrow> (k = BR_BCOND \<Longrightarrow> c = C_EQ) \<Longrightarrow> I (emit w (add_bfx l k c g))"
    and keep_call: "I g \<Longrightarrow> I (call_func E name g)"
    and keep_fields [keep_intros]: "I g \<Longrightarrow> I (g\<lparr>nlab := n\<rparr>)" "I g \<Longrightarrow> I (cg_error msg g)"
      "I g \<Longrightarrow> I (push_brk l g)" "I g \<Longrightarrow> I (push_cont l g)" "I g \<Longrightarrow> I (pop_brk g)" "I g \<Longrightarrow> I (pop_cont g)"
      "I g \<Longrightarrow> I (g\<lparr>clabel := f\<rparr>)"
      "I g \<Longrightarrow> I (g\<lparr>cur_lret := n\<rparr>)" "I g \<Longrightarrow> I (place l g)"
begin

lemma keep_branches [keep_intros]:
  "I g \<Longrightarrow> I (emit_b l g)" "I g \<Longrightarrow> I (emit_cbz l g)" "I g \<Longrightarrow> I (emit_cbnz l g)"
  "I g \<Longrightarrow> I (emit_bcond C_EQ l g)"
  unfolding emit_b_def emit_cbz_def emit_cbnz_def emit_bcond_def by (auto intro: keep_branch)

lemma keep_newlabel [keep_intros]: "I g \<Longrightarrow> newlabel g = (l, g') \<Longrightarrow> I g'"
  by (auto simp: newlabel_def split: if_splits intro: keep_intros)

lemma keep_emitters [keep_intros]:
  assumes "I g"
  shows "I (emit_push g)" "I (emit_pop r g)" "I (emit_sub_rrr d n m g)" "I (emit_add_imm d n i g)"
    "I (emit_sub_imm d n i g)" "I (emit_cmp_rr n m g)" "I (emit_cmp0 n g)" "I (emit_cset d c g)"
    "I (emit_mov_imm_small d v g)" "I (emit_blr n g)" "I (emit_loadimm r x g)" "I (emit_strb t n g)" "I (emit_str t n g)"
    "I (emit_ret g)" "I (emit_prologue_stp g)" "I (emit_mov_fp_sp g)" "I (emit_mov_sp_fp g)" "I (emit_epilogue_ldp g)"
  using assms by (simp_all add: emitter_defs emit_loadimm_def keep_emit)

lemma keep_parts [keep_intros]:
  assumes "I g"
  shows "I (gen_load E t g)" "I (gen_store E t g)" "I (gen_binop k g)" "I (gen_var_addr v g)"
    "I (call_func E name g)" "I (pop_args n g)" "I (emit_budget_check l g)" "I (gen_frame f g)" "I (spill_param E p g)"
proof -
  show "I (gen_load E t g)" "I (gen_store E t g)" "I (gen_binop k g)" "I (gen_var_addr v g)"
    "I (emit_budget_check l g)" "I (gen_frame f g)" "I (spill_param E p g)"
    using assms by (auto simp: gen_load_def gen_store_def gen_binop_def gen_var_addr_def Let_def emitter_defs emit_budget_check_def
        gen_frame_def spill_param_def split: binop.split prod.split intro: keep_intros)
  show "I (call_func E name g)" using assms by (rule keep_call)
  have "I (fold emit_pop rs g)" for rs using assms by (induction rs arbitrary: g) (simp_all add: emit_pop_def keep_emit)
  then show "I (pop_args n g)" by (simp add: pop_args_def)
qed

lemma keep_newlabel2:
  assumes "I g"
  obtains a b g1 g2 where "newlabel g = (a, g1)" "newlabel g1 = (b, g2)" "I g1" "I g2"
  using assms keep_newlabel by (metis surj_pair)

lemma keep_gen_args:
  "(\<And>a g. a \<in> set ns \<Longrightarrow> I g \<Longrightarrow> I (gen_expr E a g)) \<Longrightarrow> I g \<Longrightarrow> I (gen_args E ns g)"
  by (induction ns arbitrary: g) (simp_all add: keep_emitters)

lemma keep_expr_addr: "I g \<Longrightarrow> I (gen_addr E n g)" "I g \<Longrightarrow> I (gen_expr E n g)"
proof (induction "size n" arbitrary: n g rule: less_induct)
  case less
  note IH = less(1,2)
  { case 1 show ?case by (cases n) (use 1 IH in \<open>auto simp: Let_def intro: keep_intros\<close>) }
  note addr = this
  case 2
  show ?case
  proof (cases "cc_failed (cst g)")
    case True
    then show ?thesis using 2 by (simp add: gen_expr.simps)
  next
    case ok: False
    show ?thesis
    proof (cases n)
      case (ND_LOGAND t l r)
      obtain a b g1 g2 where nl: "newlabel g = (a, g1)" "newlabel g1 = (b, g2)" "I g2" using keep_newlabel2 [OF 2] by metis
      show ?thesis unfolding ND_LOGAND using ND_LOGAND nl ok
        by (subst gen_expr.simps) (simp add: Let_def IH keep_branches keep_fields keep_emitters)
    next
      case (ND_LOGOR t l r)
      obtain a b g1 g2 where nl: "newlabel g = (a, g1)" "newlabel g1 = (b, g2)" "I g2" using keep_newlabel2 [OF 2] by metis
      show ?thesis unfolding ND_LOGOR using ND_LOGOR nl ok
        by (subst gen_expr.simps) (simp add: Let_def IH keep_branches keep_fields keep_emitters)
    next
      case (ND_FUNCALL t name args)
      have "I (gen_args E (take 8 args) h)" if "I h" for h
      proof (rule keep_gen_args [OF _ that])
        fix a k assume "a \<in> set (take 8 args)" "I k"
        moreover from this have "size a < size n" using ND_FUNCALL in_set_takeD by (fastforce dest: size_list_estimation' [of _ _ "size _" size])
        ultimately show "I (gen_expr E a k)" using IH by blast
      qed
      then show ?thesis unfolding ND_FUNCALL using 2 ok by (subst gen_expr.simps) (simp add: Let_def keep_parts keep_fields)
    qed (use 2 ok IH addr in \<open>simp_all add: gen_expr_rules keep_parts keep_emitters keep_fields gen_expr_stmts\<close>)
  qed
qed

lemma keep_cases: "I g \<Longrightarrow> I (snd (gen_cases cs d g))"
proof (induction cs arbitrary: d g)
  case (Cons x cs)
  obtain c is_default val where x: "x = (c, is_default, val)" by (cases x)
  obtain l g1 where nl: "newlabel g = (l, g1)" "I g1" using keep_newlabel [OF Cons.prems] by (metis surj_pair)
  then have g1: "I (g1\<lparr>clabel := (clabel g1)(c := l)\<rparr>)" by (simp add: keep_fields)
  show ?case
  proof (cases is_default)
    case True
    then show ?thesis using nl(1) g1 Cons.IH x by simp
  next
    case False
    then show ?thesis using nl(1) Cons.IH [OF keep_branches(4) [OF keep_emitters(6) [OF keep_emitters(11) [OF g1]]]] x by simp
  qed
qed simp

lemma keep_gen_stmts:
  "(\<And>a g. a \<in> set ns \<Longrightarrow> I g \<Longrightarrow> I (gen_stmt E a g)) \<Longrightarrow> I g \<Longrightarrow> I (gen_stmts E ns g)"
  by (induction ns arbitrary: g) simp_all

lemma keep_stmt: "I g \<Longrightarrow> I (gen_stmt E n g)"
proof (induction "size n" arbitrary: n g rule: less_induct)
  case less
  note IH = less(1) and g = less(2)
  have opt: "I h \<Longrightarrow> I (gen_opt E i h)" if "\<And>k. i = Some k \<Longrightarrow> size k < size n" for i h
    using that IH by (cases i) auto
  show ?case
  proof (cases "cc_failed (cst g)")
    case True
    then show ?thesis using g by (simp add: gen_stmt.simps)
  next
    case ok: False
    show ?thesis
    proof (cases n)
      case (ND_IF c t e)
      obtain a b g1 g2 where nl: "newlabel g = (a, g1)" "newlabel g1 = (b, g2)" "I g2" using keep_newlabel2 [OF g] by metis
      have "size k < size n" if "e = Some k" for k using that ND_IF by simp
      then show ?thesis unfolding ND_IF using ND_IF nl ok opt [of e]
        by (subst gen_stmt.simps) (simp add: Let_def IH keep_branches keep_fields keep_expr_addr)
    next
      case (ND_WHILE c b)
      obtain x y g1 g2 where nl: "newlabel g = (x, g1)" "newlabel g1 = (y, g2)" "I g2" using keep_newlabel2 [OF g] by metis
      then show ?thesis unfolding ND_WHILE using ND_WHILE ok
        by (subst gen_stmt.simps) (simp add: Let_def IH keep_branches keep_fields keep_expr_addr keep_parts)
    next
      case (ND_FOR i c s b)
      obtain x y g1 g2 where nl: "newlabel g = (x, g1)" "newlabel g1 = (y, g2)" "I g2" using keep_newlabel2 [OF g] by metis
      obtain z g3 where nl3: "newlabel g2 = (z, g3)" "I g3" using keep_newlabel [OF nl(3)] by (metis surj_pair)
      have "size k < size n" if "i = Some k" for k using that ND_FOR by simp
      then show ?thesis unfolding ND_FOR using ND_FOR nl nl3 ok opt [of i]
        by (subst gen_stmt.simps) (simp add: Let_def IH keep_branches keep_fields keep_expr_addr keep_parts split: option.split)
    next
      case (ND_SWITCH c cs b)
      obtain x g1 where nl: "newlabel g = (x, g1)" "I g1" using keep_newlabel [OF g] by (metis surj_pair)
      obtain d g2 where gc: "gen_cases cs None (gen_expr E c g1) = (d, g2)" "I g2"
        using keep_cases [OF keep_expr_addr(2) [OF nl(2)]] by (metis prod.collapse)
      show ?thesis unfolding ND_SWITCH using ND_SWITCH nl gc ok
        by (subst gen_stmt.simps) (simp add: Let_def IH keep_branches keep_fields)
    next
      case (ND_BLOCK ns)
      have "size a < size n" if "a \<in> set ns" for a using that ND_BLOCK size_list_estimation' [of a ns "size a" size] by simp
      then have "I (gen_stmts E ns g)" using IH g by (intro keep_gen_stmts) blast+
      then show ?thesis unfolding ND_BLOCK using ok by (subst gen_stmt.simps) simp
    qed (use g ok IH in \<open>simp_all add: gen_stmt_rules keep_expr_addr keep_branches keep_fields Let_def split: list.split\<close>)
  qed
qed

lemma keep_spill: "I g \<Longrightarrow> I (fold (spill_param E) ps g)"
  by (induction ps arbitrary: g) (simp_all add: keep_parts)

lemma keep_tail:
  assumes "I g" shows "I (func_tail E i frame g)"
proof -
  have body: "I (gen_opt E (f_body (g_funcs E ! i)) h)" if "I h" for h
    using that by (cases "f_body (g_funcs E ! i)") (simp_all add: keep_stmt)
  show ?thesis unfolding func_tail_def Let_def by (intro keep_emitters keep_fields body keep_spill keep_parts assms)
qed

end

lemma layout_emit: "layout g \<Longrightarrow> layout (emit w g)"
  by (auto simp: layout_def emit_def put32_def cg_ok_def word_bytes_def intro: le_trans)

lemma layout_branch:
  assumes "layout g" "k = BR_BCOND \<Longrightarrow> c = C_EQ"
  shows "layout (emit w (add_bfx l k c g))"
proof (cases "g_oom g \<or> g_cap g < g_pos g + 4")
  case True
  then show ?thesis by (auto simp: layout_def emit_def add_bfx_def put32_def)
next
  case False
  let ?g = "emit w (add_bfx l k c g)"
  have old: "cg_ok g" "4 dvd g_pos g" "\<forall>l. 4 dvd lab_off g l \<and> lab_off g l \<le> g_cap g" "distinct (map bf_site (bfx g))"
    "\<forall>b \<in> set (bfx g). 4 dvd bf_site b \<and> bf_site b + 4 \<le> g_pos g \<and> (bf_kind b = BR_BCOND \<longrightarrow> bf_cond b = C_EQ)"
    using assms(1) False by (auto simp: layout_def)
  have new: "g_pos ?g = g_pos g + 4" "lab_off ?g = lab_off g" "g_cap ?g = g_cap g" "cg_ok ?g"
    using False old(1) by (simp_all add: emit_def put32_def add_bfx_def cg_ok_def)
  have bf: "bfx ?g = bfx g \<or> bfx ?g = bfx g @ [\<lparr>bf_site = g_pos g, bf_lab = l, bf_kind = k, bf_cond = c\<rparr>]"
    using False by (simp add: emit_def put32_def add_bfx_def)
  have "g_pos g \<notin> bf_site ` set (bfx g)" using old(5) by fastforce
  then have "distinct (map bf_site (bfx ?g))" using bf old(4) by auto
  moreover have "\<forall>b \<in> set (bfx ?g). 4 dvd bf_site b \<and> bf_site b + 4 \<le> g_pos ?g \<and> (bf_kind b = BR_BCOND \<longrightarrow> bf_cond b = C_EQ)"
    using bf old(2,5) assms(2) new(1) by fastforce
  moreover have "\<forall>l. 4 dvd lab_off ?g l \<and> lab_off ?g l \<le> g_cap ?g" "4 dvd g_pos ?g" using new old(2,3) by auto
  ultimately show ?thesis unfolding layout_def using new(4) by blast
qed

lemma layout_fields:
  "layout g \<Longrightarrow> layout (g\<lparr>nlab := n\<rparr>)" "layout g \<Longrightarrow> layout (cg_error msg g)" "layout g \<Longrightarrow> layout (push_brk l g)"
  "layout g \<Longrightarrow> layout (push_cont l g)" "layout g \<Longrightarrow> layout (pop_brk g)" "layout g \<Longrightarrow> layout (pop_cont g)"
  "layout g \<Longrightarrow> layout (g\<lparr>clabel := f\<rparr>)" "layout g \<Longrightarrow> layout (g\<lparr>cfx := cs\<rparr>)" "layout g \<Longrightarrow> layout (g\<lparr>cvars := V\<rparr>)"
  "layout g \<Longrightarrow> layout (g\<lparr>cur_lret := n\<rparr>)" "layout g \<Longrightarrow> layout (place l g)"
  by (auto simp: layout_def cg_ok_def cg_error_def push_brk_def push_cont_def pop_brk_def pop_cont_def place_def)

lemma layout_call: "layout g \<Longrightarrow> layout (call_func E name g)"
  by (auto simp: call_func_def emit_blr_def emit_loadimm_def split: option.split intro!: layout_emit layout_fields)

interpretation laid: code_invariant layout E for E
  by unfold_locales (auto intro: layout_emit layout_branch layout_call layout_fields)

text \<open>The state before the branches of a function are resolved; the fixups left by the previous
  function do not matter.\<close>

lemma gen_func_layout:
  assumes "layout (g\<lparr>bfx := bs\<rparr>)"
  obtains h where "gen_func E i g = resolve_branches h" "layout h"
proof -
  have "layout (snd (func_entry E i g))" using assms by (auto simp: layout_def cg_ok_def func_entry_fields)
  then have "layout (func_tail E i (fst (func_entry E i g)) (emit_prologue_stp (snd (func_entry E i g))))"
    by (intro laid.keep_tail laid.keep_emitters)
  then show thesis using that gen_func_eq by blast
qed

lemma resolve_fields:
  "bfx (resolve_branches h) = bfx h" "lab_off (resolve_branches h) = lab_off h" "g_oom (resolve_branches h) = g_oom h"
  "g_cap (resolve_branches h) = g_cap h" "g_pos (resolve_branches h) = g_pos h" "length (g_buf (resolve_branches h)) = length (g_buf h)"
proof -
  have "bfx (fold (\<lambda>b g. put32 (bf_site b) (branch_word b (lab_off g)) g) bs h) = bfx h \<and>
    lab_off (fold (\<lambda>b g. put32 (bf_site b) (branch_word b (lab_off g)) g) bs h) = lab_off h \<and>
    g_oom (fold (\<lambda>b g. put32 (bf_site b) (branch_word b (lab_off g)) g) bs h) = g_oom h \<and>
    g_cap (fold (\<lambda>b g. put32 (bf_site b) (branch_word b (lab_off g)) g) bs h) = g_cap h \<and>
    g_pos (fold (\<lambda>b g. put32 (bf_site b) (branch_word b (lab_off g)) g) bs h) = g_pos h \<and>
    length (g_buf (fold (\<lambda>b g. put32 (bf_site b) (branch_word b (lab_off g)) g) bs h)) = length (g_buf h)" for bs
    by (induction bs arbitrary: h) (simp_all add: put32_def)
  then show "bfx (resolve_branches h) = bfx h" "lab_off (resolve_branches h) = lab_off h" "g_oom (resolve_branches h) = g_oom h"
    "g_cap (resolve_branches h) = g_cap h" "g_pos (resolve_branches h) = g_pos h" "length (g_buf (resolve_branches h)) = length (g_buf h)"
    by (simp_all add: resolve_branches_def)
qed


definition ret1_main :: func_t where
  "ret1_main = \<lparr>f_name = ''main'', f_ret = 0, f_params = [], f_locals = [], f_body = Some (ND_BLOCK [ND_RETURN (ND_NUM None 1)])\<rparr>"

lemma emit_fits:
  "g_pos g + 4 \<le> g_cap g \<Longrightarrow> g_pos (emit w g) = g_pos g + 4" "g_pos g + 4 \<le> g_cap g \<Longrightarrow> g_oom (emit w g) = g_oom g"
  by (simp_all add: emit_def put32_def)

lemma emit_other_fields: "g_cap (emit w g) = g_cap g" "bfx (emit w g) = bfx g" "cst (emit w g) = cst g" "cur_lret (emit w g) = cur_lret g"
  by (simp_all add: emit_def put32_def)

lemma add_bfx_fields: "g_pos (add_bfx l k c g) = g_pos g" "g_oom (add_bfx l k c g) = g_oom g" "g_cap (add_bfx l k c g) = g_cap g"
  "cst (add_bfx l k c g) = cst g" "cur_lret (add_bfx l k c g) = cur_lret g"
  "length (bfx (add_bfx l k c g)) = (if length (bfx g) < MAXBFX then Suc (length (bfx g)) else length (bfx g))"
  by (simp_all add: add_bfx_def)

lemma place_fields: "g_pos (place l g) = g_pos g" "g_oom (place l g) = g_oom g" "g_cap (place l g) = g_cap g" "bfx (place l g) = bfx g"
  by (simp_all add: place_def)


end
