(* ===== verification/Codegen_Link.thy ===== *)
theory Codegen_Link
  imports Codegen_Branch
begin

text \<open>
  Linking of a compiled program (\<open>cc_codegen\<close> of \<open>cc/codegen.c\<close>): the functions are generated one behind
  the other, calls load a zero address first, and when all offsets are known every recorded call is
  patched. The invariant \<open>linked\<close> says which words of the code must not be touched any more, and that they
  and the call sites and the branch sites do not overlap.
\<close>

section \<open>Call sites and finished words\<close>

definition STP_FP_LR :: u32 where "STP_FP_LR = 0xA9BF7BFD"
definition BLR_X9 :: u32 where "BLR_X9 = 0xD63F0120"

text \<open>The word at \<open>x\<close> is none of the five words of a call.\<close>

definition clear_of :: "nat \<Rightarrow> (nat \<times> fid) list \<Rightarrow> bool" where
  "clear_of x cs \<longleftrightarrow> (\<forall>(p, f) \<in> set cs. x + 4 \<le> p \<or> p + 20 \<le> x)"

definition calls_ok :: "nat \<Rightarrow> cgen \<Rightarrow> bool" where
  "calls_ok n g \<longleftrightarrow> sorted_wrt (\<lambda>c d. fst c + 20 \<le> fst d) (cfx g) \<and>
     (\<forall>(p, f) \<in> set (cfx g). 4 dvd p \<and> p + 20 \<le> g_pos g \<and> f < n \<and> fetch32 (g_buf g) (p + 16) = BLR_X9)"

definition finished :: "(nat \<times> u32) set \<Rightarrow> cgen \<Rightarrow> bool" where
  "finished M g \<longleftrightarrow> (\<forall>(x, w) \<in> M. 4 dvd x \<and> x + 4 \<le> g_pos g \<and> fetch32 (g_buf g) x = w \<and> clear_of x (cfx g) \<and>
     x \<notin> bf_site ` set (bfx g))"

definition linked :: "nat \<Rightarrow> (nat \<times> u32) set \<Rightarrow> cgen \<Rightarrow> bool" where
  "linked n M g \<longleftrightarrow> layout g \<and>
     (g_oom g \<or> calls_ok n g \<and> finished M g \<and> (\<forall>b \<in> set (bfx g). clear_of (bf_site b) (cfx g)))"

lemma emit_not_oom: "\<not> g_oom (emit w g) \<Longrightarrow> \<not> g_oom g \<and> g_pos (emit w g) = g_pos g + 4 \<and> g_pos g + 4 \<le> g_cap g"
  by (auto simp: emit_def put32_def split: if_splits)

lemma emit_keeps: "bfx (emit w g) = bfx g" "cfx (emit w g) = cfx g" "code_off (emit w g) = code_off g" "g_base (emit w g) = g_base g"
  by (simp_all add: emit_def put32_def)

lemma fetch_emit:
  assumes "cg_ok g" "\<not> g_oom (emit w g)"
  shows "fetch32 (g_buf (emit w g)) (g_pos g) = w" "q + 4 \<le> g_pos g \<Longrightarrow> fetch32 (g_buf (emit w g)) q = fetch32 (g_buf g) q"
proof -
  have le: "g_pos g + 4 \<le> length (g_buf g)" and e: "g_buf (emit w g) = g_buf (put32 (g_pos g) w g)"
    using assms emit_not_oom [OF assms(2)] by (auto simp: cg_ok_def emit_def)
  show "fetch32 (g_buf (emit w g)) (g_pos g) = w" unfolding e by (rule fetch_put32(1) [OF le le])
  assume "q + 4 \<le> g_pos g"
  then show "fetch32 (g_buf (emit w g)) q = fetch32 (g_buf g) q" unfolding e using le by (intro fetch_put32(2)) auto
qed

lemma layout_ok: "layout g \<Longrightarrow> \<not> g_oom g \<Longrightarrow> cg_ok g \<and> 4 dvd g_pos g"
  by (simp add: layout_def)

lemma calls_ok_emit:
  assumes "calls_ok n g" "cg_ok g" "\<not> g_oom (emit w g)" shows "calls_ok n (emit w g)"
proof -
  have "fetch32 (g_buf (emit w g)) (p + 16) = BLR_X9 \<and> 4 dvd p \<and> p + 20 \<le> g_pos (emit w g) \<and> f < n" if "(p, f) \<in> set (cfx g)" for p f
    using assms(1) that fetch_emit(2) [OF assms(2,3), of "p + 16"] emit_not_oom [OF assms(3)] by (auto simp: calls_ok_def)
  then show ?thesis using assms(1) by (auto simp: calls_ok_def emit_keeps)
qed

lemma finished_emit:
  assumes "finished M g" "cg_ok g" "\<not> g_oom (emit w g)" shows "finished M (emit w g)"
  using assms(1) fetch_emit(2) [OF assms(2,3)] emit_not_oom [OF assms(3)] by (fastforce simp: finished_def emit_keeps)

lemma linked_emit: "linked n M g \<Longrightarrow> linked n M (emit w g)"
  using calls_ok_emit finished_emit emit_not_oom layout_emit layout_ok unfolding linked_def by (metis emit_keeps(1,2))

lemma linked_branch:
  assumes "linked n M g" "k = BR_BCOND \<Longrightarrow> c = C_EQ"
  shows "linked n M (emit w (add_bfx l k c g))"
proof (cases "g_oom (emit w (add_bfx l k c g))")
  case True
  then show ?thesis using assms layout_branch by (simp add: linked_def)
next
  case False
  let ?h = "emit w g" and ?g = "emit w (add_bfx l k c g)"
  have same: "g_pos ?g = g_pos ?h" "g_buf ?g = g_buf ?h" "cfx ?g = cfx ?h" by (simp_all add: emit_def add_bfx_def put32_def)
  have oom: "\<not> g_oom ?h" using False by (simp add: emit_def add_bfx_def put32_def split: if_splits)
  then have h: "calls_ok n ?h" "finished M ?h" "\<forall>b \<in> set (bfx g). clear_of (bf_site b) (cfx ?h)" "g_pos ?h = g_pos g + 4"
    using linked_emit [OF assms(1)] emit_not_oom [OF oom] by (auto simp: linked_def emit_keeps)
  have g: "calls_ok n g" "finished M g" using assms(1) emit_not_oom [OF oom] by (simp_all add: linked_def)
  have sites: "bf_site b = g_pos g \<or> b \<in> set (bfx g)" if "b \<in> set (bfx ?g)" for b
    using that by (auto simp: emit_keeps add_bfx_def split: if_splits)
  have "clear_of (g_pos g) (cfx ?h)" using g(1) by (auto simp: calls_ok_def clear_of_def emit_keeps)
  then have "\<forall>b \<in> set (bfx ?g). clear_of (bf_site b) (cfx ?h)" using sites h(3) by metis
  moreover have "x \<notin> bf_site ` set (bfx ?g)" if "(x, v) \<in> M" for x v
  proof -
    have "x \<notin> bf_site ` set (bfx g)" "x \<noteq> g_pos g" using g(2) that by (auto simp: finished_def)
    then show ?thesis by (auto dest!: sites)
  qed
  then have "\<forall>m \<in> M. fst m \<notin> bf_site ` set (bfx ?g)" by (metis prod.collapse)
  then have "finished M ?g" using h(2) by (simp only: finished_def same split_def) blast
  moreover have "calls_ok n ?g" using h(1) unfolding calls_ok_def same .
  moreover have "layout ?g" using assms by (intro layout_branch) (auto simp: linked_def)
  ultimately show ?thesis unfolding linked_def same by blast
qed

text \<open>The five words of a call to a function of the program, recorded for the linker.\<close>

lemma linked_record_call:
  assumes "linked n M g" "f < n"
  shows "linked n M ((emit_blr 9 (emit_loadimm 9 0 g))\<lparr>cfx := cfx g @ [(g_pos g, f)]\<rparr>)"
proof (cases "g_oom (emit_blr 9 (emit_loadimm 9 0 g))")
  case True
  have "layout (emit_blr 9 (emit_loadimm 9 0 g))" using assms(1) by (intro laid.keep_emitters) (simp add: linked_def)
  then show ?thesis using True by (simp add: linked_def layout_fields)
next
  case False
  define h where "h = emit_loadimm 9 0 g"
  let ?g = "emit BLR_X9 h"
  have blr: "emit_blr 9 h = ?g" by (simp add: emit_blr_def BLR_X9_def reg_def)
  have g: "linked n M ?g" unfolding h_def emit_loadimm_def by (intro linked_emit assms)
  have l: "linked n M h" unfolding h_def emit_loadimm_def by (intro linked_emit assms)
  have oom: "\<not> g_oom ?g" "\<not> g_oom h" "g_pos ?g = g_pos h + 4" using False emit_not_oom [of BLR_X9 h] blr by (simp_all add: h_def)
  then have pos: "g_pos h = g_pos g + 16" "\<not> g_oom g" unfolding h_def emit_loadimm_def by (auto dest!: emit_not_oom)
  have cfx: "cfx ?g = cfx g" "bfx ?g = bfx g" by (simp_all add: emit_keeps h_def emit_loadimm_def)
  have old: "calls_ok n g" "finished M g" "layout g" using assms(1) pos(2) by (simp_all add: linked_def)
  have al: "4 dvd g_pos g" using layout_ok [OF old(3) pos(2)] by simp
  have "cg_ok h" using l oom(2) layout_ok by (simp add: linked_def)
  then have w: "fetch32 (g_buf ?g) (g_pos g + 16) = BLR_X9" using fetch_emit(1) [of h BLR_X9] oom(1) pos(1) by simp
  have new: "calls_ok n ?g" "finished M ?g" "\<forall>b \<in> set (bfx ?g). clear_of (bf_site b) (cfx ?g)" "layout ?g"
    using g oom(1) by (simp_all add: linked_def)
  have "calls_ok n (?g\<lparr>cfx := cfx g @ [(g_pos g, f)]\<rparr>)"
    using new(1) old(1) al w oom(3) pos(1) assms(2) cfx by (auto simp: calls_ok_def sorted_wrt_append)
  moreover have "finished M (?g\<lparr>cfx := cfx g @ [(g_pos g, f)]\<rparr>)"
    using new(2) old(2) cfx by (fastforce simp: finished_def clear_of_def)
  moreover have "bf_site b + 4 \<le> g_pos g" if "b \<in> set (bfx g)" for b using old(3) pos(2) that by (simp add: layout_def)
  then have "\<forall>b \<in> set (bfx ?g). clear_of (bf_site b) (cfx g @ [(g_pos g, f)])" using new(3) cfx by (auto simp: clear_of_def)
  ultimately show ?thesis using layout_fields(8) [OF new(4)] unfolding linked_def blr [folded h_def] h_def [symmetric] by simp
qed

lemma find_func_less: "find_func E name = Some f \<Longrightarrow> f < length (g_funcs E)"
  by (auto simp: find_func_def find_Some_iff)

lemma linked_cong:
  assumes "linked n M g" "layout h" "g_oom h = g_oom g" "g_pos h = g_pos g" "g_buf h = g_buf g" "cfx h = cfx g" "bfx h = bfx g"
  shows "linked n M h"
  using assms by (simp add: linked_def calls_ok_def finished_def)

lemma linked_fields:
  assumes "linked n M g"
  shows "linked n M (g\<lparr>nlab := k\<rparr>)" "linked n M (cg_error msg g)" "linked n M (push_brk l g)" "linked n M (push_cont l g)"
    "linked n M (pop_brk g)" "linked n M (pop_cont g)" "linked n M (g\<lparr>clabel := f\<rparr>)"
    "linked n M (g\<lparr>cur_lret := k\<rparr>)" "linked n M (place l g)"
proof -
  have "layout g" using assms by (simp add: linked_def)
  note cong = linked_cong [OF assms layout_fields(1) [OF this]] linked_cong [OF assms layout_fields(2) [OF this]]
    linked_cong [OF assms layout_fields(3) [OF this]] linked_cong [OF assms layout_fields(4) [OF this]]
    linked_cong [OF assms layout_fields(5) [OF this]] linked_cong [OF assms layout_fields(6) [OF this]]
    linked_cong [OF assms layout_fields(7) [OF this]]
    linked_cong [OF assms layout_fields(10) [OF this]] linked_cong [OF assms layout_fields(11) [OF this]]
  show "linked n M (g\<lparr>nlab := k\<rparr>)" by (rule cong(1)) simp_all
  show "linked n M (cg_error msg g)" by (rule cong(2)) (simp_all add: cg_error_def)
  show "linked n M (push_brk l g)" by (rule cong(3)) (simp_all add: push_brk_def)
  show "linked n M (push_cont l g)" by (rule cong(4)) (simp_all add: push_cont_def)
  show "linked n M (pop_brk g)" by (rule cong(5)) (simp_all add: pop_brk_def)
  show "linked n M (pop_cont g)" by (rule cong(6)) (simp_all add: pop_cont_def)
  show "linked n M (g\<lparr>clabel := f\<rparr>)" by (rule cong(7)) simp_all
  show "linked n M (g\<lparr>cur_lret := k\<rparr>)" by (rule cong(8)) simp_all
  show "linked n M (place l g)" by (rule cong(9)) (simp_all add: place_def)
qed

lemma emit_cfx: "emit w (g\<lparr>cfx := cs\<rparr>) = (emit w g)\<lparr>cfx := cs\<rparr>"
  by (simp add: emit_def put32_def)

lemma linked_call:
  assumes "linked (length (g_funcs E)) M g" shows "linked (length (g_funcs E)) M (call_func E name g)"
proof -
  have emits: "linked (length (g_funcs E)) M (emit_blr 9 (emit_loadimm 9 v g))" for v
    unfolding emit_blr_def emit_loadimm_def by (intro linked_emit assms)
  have "emit_blr 9 (emit_loadimm 9 0 (g\<lparr>cfx := cs\<rparr>)) = (emit_blr 9 (emit_loadimm 9 0 g))\<lparr>cfx := cs\<rparr>" for cs
    by (simp add: emit_blr_def emit_loadimm_def emit_cfx)
  then show ?thesis using assms emits linked_record_call [OF assms find_func_less]
    by (auto simp: call_func_def linked_fields split: option.split)
qed

interpretation linker: code_invariant "linked (length (g_funcs E)) M" E for M E
  by unfold_locales (auto intro: linked_emit linked_branch linked_call linked_fields)

interpretation offsets: code_invariant "\<lambda>g. code_off g = c \<and> g_base g = a" E for c a E
  by unfold_locales (auto simp: call_func_def emit_blr_def emit_loadimm_def emit_keeps add_bfx_def cg_error_def push_brk_def
      push_cont_def pop_brk_def pop_cont_def place_def split: option.split)

section \<open>One function\<close>

text \<open>The branch words of a function once they are resolved.\<close>

definition branches :: "cgen \<Rightarrow> (nat \<times> u32) set" where
  "branches g = (\<lambda>b. (bf_site b, branch_word b (lab_off g))) ` set (bfx g)"

lemma linked_entry:
  assumes "linked n M (g\<lparr>bfx := []\<rparr>)"
  shows "linked n (insert (g_pos g, STP_FP_LR) M) (emit_prologue_stp (snd (func_entry E i g)))"
proof -
  define h where "h = snd (func_entry E i g)"
  have h: "linked n M h"
  proof (rule linked_cong [OF assms])
    show "layout h" using assms by (simp add: linked_def layout_def cg_ok_def h_def func_entry_fields)
  qed (simp_all add: h_def func_entry_fields)
  let ?g = "emit STP_FP_LR h"
  have e: "emit_prologue_stp h = ?g" by (simp add: emit_prologue_stp_def STP_FP_LR_def)
  have l: "linked n M ?g" by (rule linked_emit [OF h])
  show ?thesis
  proof (cases "g_oom ?g")
    case True
    then show ?thesis using l unfolding h_def [symmetric] e linked_def by blast
  next
    case False
    have ok: "\<not> g_oom h" "g_pos ?g = g_pos h + 4" "g_pos h = g_pos g" "bfx ?g = []"
      using emit_not_oom [OF False] by (simp_all add: h_def func_entry_fields emit_keeps)
    then have c: "cg_ok h \<and> 4 dvd g_pos h" and k: "calls_ok n h" using h layout_ok [of h] by (simp_all add: linked_def)
    have "fetch32 (g_buf ?g) (g_pos g) = STP_FP_LR" using fetch_emit(1) [of h STP_FP_LR] c False ok(3) by simp
    moreover have "clear_of (g_pos g) (cfx ?g)" using k ok(3) by (auto simp: clear_of_def calls_ok_def emit_keeps)
    ultimately have "finished (insert (g_pos g, STP_FP_LR) M) ?g" using l False ok c by (simp add: linked_def finished_def)
    then show ?thesis using l False unfolding h_def [symmetric] e by (simp add: linked_def)
  qed
qed

lemma linked_resolve:
  assumes "linked n M h"
  shows "linked n (M \<union> branches h) ((resolve_branches h)\<lparr>bfx := []\<rparr>)"
proof (cases "g_oom h")
  case True
  then show ?thesis using assms by (simp add: linked_def layout_def resolve_fields)
next
  case False
  let ?r = "resolve_branches h"
  have l: "layout h" "calls_ok n h" "finished M h" "\<forall>b \<in> set (bfx h). clear_of (bf_site b) (cfx h)"
    using assms False by (simp_all add: linked_def)
  then have ok: "cg_ok h" "4 dvd g_pos h" "\<forall>b \<in> set (bfx h). 4 dvd bf_site b \<and> bf_site b + 4 \<le> g_pos h"
    "g_pos h \<le> length (g_buf h)" using False by (auto simp: layout_def cg_ok_def)
  have s: "sites_ok (map bf_site (bfx h)) h" using l(1) False ok(4) by (auto simp: sites_ok_def layout_def intro: le_trans)
  have cfx: "cfx ?r = cfx h" unfolding resolve_branches_def
  proof -
    have "cfx (fold (\<lambda>b g. put32 (bf_site b) (branch_word b (lab_off g)) g) bs g) = cfx g" for bs g
      by (induction bs arbitrary: g) (simp_all add: put32_def)
    then show "cfx (fold (\<lambda>b g. put32 (bf_site b) (branch_word b (lab_off g)) g) (bfx h) h) = cfx h" .
  qed
  have other: "fetch32 (g_buf ?r) q = fetch32 (g_buf h) q" if "4 dvd q" "q + 4 \<le> g_pos h" "q \<notin> bf_site ` set (bfx h)" for q
    unfolding resolve_branches_def using that ok(4) by (intro resolve_other [OF s]) auto
  have "fetch32 (g_buf ?r) (p + 16) = BLR_X9" if "(p, f) \<in> set (cfx h)" for p f
  proof -
    have p: "4 dvd p" "p + 20 \<le> g_pos h" "fetch32 (g_buf h) (p + 16) = BLR_X9" using l(2) that by (auto simp: calls_ok_def)
    have "p + 16 \<notin> bf_site ` set (bfx h)" using l(4) that by (fastforce simp: clear_of_def)
    then show ?thesis using other [of "p + 16"] p by simp
  qed
  then have "calls_ok n (?r\<lparr>bfx := []\<rparr>)" using l(2) by (auto simp: calls_ok_def cfx resolve_fields)
  moreover have "finished M (?r\<lparr>bfx := []\<rparr>)"
    using l(3) other by (fastforce simp: finished_def cfx resolve_fields)
  moreover have "finished (branches h) (?r\<lparr>bfx := []\<rparr>)"
    using ok(3) l(4) resolve_word [OF s] by (auto simp: finished_def branches_def cfx resolve_fields resolve_branches_def [symmetric])
  moreover have "layout (?r\<lparr>bfx := []\<rparr>)" using l(1) by (auto simp: layout_def cg_ok_def resolve_fields)
  ultimately show ?thesis by (auto simp: linked_def finished_def)
qed

lemma resolve_offsets: "code_off (resolve_branches h) = code_off h" "g_base (resolve_branches h) = g_base h"
proof -
  have "code_off (fold (\<lambda>b g. put32 (bf_site b) (branch_word b (lab_off g)) g) bs g) = code_off g \<and>
    g_base (fold (\<lambda>b g. put32 (bf_site b) (branch_word b (lab_off g)) g) bs g) = g_base g" for bs g
    by (induction bs arbitrary: g) (simp_all add: put32_def)
  then show "code_off (resolve_branches h) = code_off h" "g_base (resolve_branches h) = g_base h" by (simp_all add: resolve_branches_def)
qed

lemma linked_func:
  assumes "linked (length (g_funcs E)) M (g\<lparr>bfx := []\<rparr>)"
  shows "linked (length (g_funcs E)) (insert (g_pos g, STP_FP_LR) M \<union> branches (gen_func E i g)) ((gen_func E i g)\<lparr>bfx := []\<rparr>)"
    "code_off (gen_func E i g) = (code_off g)(i := g_pos g)" "g_base (gen_func E i g) = g_base g"
proof -
  let ?e = "emit_prologue_stp (snd (func_entry E i g))"
  define h where "h = func_tail E i (fst (func_entry E i g)) ?e"
  have g: "gen_func E i g = resolve_branches h" unfolding h_def by (rule gen_func_eq)
  have "linked (length (g_funcs E)) (insert (g_pos g, STP_FP_LR) M) h"
    unfolding h_def by (rule linker.keep_tail) (rule linked_entry [OF assms])
  from linked_resolve [OF this]
  show "linked (length (g_funcs E)) (insert (g_pos g, STP_FP_LR) M \<union> branches (gen_func E i g)) ((gen_func E i g)\<lparr>bfx := []\<rparr>)"
    by (simp add: g branches_def resolve_fields)
  have "code_off ?e = (code_off g)(i := g_pos g) \<and> g_base ?e = g_base g" by (simp add: emit_prologue_stp_def emit_keeps func_entry_fields)
  from offsets.keep_tail [OF this, of E i "fst (func_entry E i g)"]
  show "code_off (gen_func E i g) = (code_off g)(i := g_pos g)" "g_base (gen_func E i g) = g_base g"
    unfolding g resolve_offsets h_def by simp_all
qed

section \<open>All functions\<close>

lemma gen_funcs_append:
  "gen_funcs E (xs @ ys) g = (case gen_funcs E xs g of (False, h) \<Rightarrow> (False, h) | (True, h) \<Rightarrow> gen_funcs E ys h)"
  by (induction xs arbitrary: g) (simp_all add: Let_def)

lemma gen_funcs_Suc:
  assumes "gen_funcs E [0..<Suc k] g = (True, h)"
  obtains f where "gen_funcs E [0..<k] g = (True, f)" "h = gen_func E k f" "\<not> g_oom h" "\<not> cc_failed (cst h)"
proof -
  have "gen_funcs E ([0..<k] @ [k]) g = (True, h)" using assms by simp
  then obtain f where f: "gen_funcs E [0..<k] g = (True, f)" "gen_funcs E [k] f = (True, h)"
    unfolding gen_funcs_append by (auto split: prod.splits bool.splits)
  then show thesis using that by (auto simp: Let_def split: if_splits)
qed

lemma gen_funcs_linked:
  assumes "linked (length (g_funcs E)) {} (g\<lparr>bfx := []\<rparr>)" "\<not> g_oom g" "gen_funcs E [0..<k] g = (True, h)"
  shows "\<not> g_oom h \<and> g_base h = g_base g \<and> (\<exists>M. linked (length (g_funcs E)) M (h\<lparr>bfx := []\<rparr>) \<and>
    (\<forall>i < k. (code_off h i, STP_FP_LR) \<in> M \<and> branches (snd (gen_funcs E [0..<Suc i] g)) \<subseteq> M))"
  using assms(3)
proof (induction k arbitrary: h)
  case 0
  then show ?case using assms(1,2) by auto
next
  case (Suc k)
  obtain f where f: "gen_funcs E [0..<k] g = (True, f)" "h = gen_func E k f" "\<not> g_oom h" by (rule gen_funcs_Suc [OF Suc.prems])
  obtain M where M: "linked (length (g_funcs E)) M (f\<lparr>bfx := []\<rparr>)" "g_base f = g_base g"
    "\<forall>i < k. (code_off f i, STP_FP_LR) \<in> M \<and> branches (snd (gen_funcs E [0..<Suc i] g)) \<subseteq> M" using Suc.IH [OF f(1)] by blast
  note h = linked_func [OF M(1), of k, folded f(2)]
  have "\<forall>i < Suc k. (code_off h i, STP_FP_LR) \<in> insert (g_pos f, STP_FP_LR) M \<union> branches h \<and>
    branches (snd (gen_funcs E [0..<Suc i] g)) \<subseteq> insert (g_pos f, STP_FP_LR) M \<union> branches h"
    using M(3) h(2) Suc.prems by (auto simp: less_Suc_eq simp del: upt_Suc)
  then show ?case using h(1,3) f(3) M(2) by auto
qed

lemma gen_funcs_prefix: "gen_funcs E [0..<k] g = (True, h) \<Longrightarrow> i \<le> k \<Longrightarrow> \<exists>f. gen_funcs E [0..<i] g = (True, f)"
proof (induction k arbitrary: h)
  case (Suc k)
  obtain f where "gen_funcs E [0..<k] g = (True, f)" by (rule gen_funcs_Suc [OF Suc.prems(1)])
  then show ?case using Suc by (cases "i = Suc k") auto
qed auto

section \<open>Patching the calls\<close>

definition patch_call :: "nat \<times> fid \<Rightarrow> cgen \<Rightarrow> cgen" where
  "patch_call = (\<lambda>(site, f) g. patch_loadimm site 9 (g_base g + of_nat (code_off g f)) g)"

lemma put32_fields: "code_off (put32 p w g) = code_off g" "g_base (put32 p w g) = g_base g" "cfx (put32 p w g) = cfx g"
  "g_pos (put32 p w g) = g_pos g" "length (g_buf (put32 p w g)) = length (g_buf g)"
  by (simp_all add: put32_def)

lemma patch_fields: "code_off (fold patch_call cs g) = code_off g" "g_base (fold patch_call cs g) = g_base g" "cfx (fold patch_call cs g) = cfx g"
  "g_pos (fold patch_call cs g) = g_pos g" "length (g_buf (fold patch_call cs g)) = length (g_buf g)"
proof -
  have "code_off (fold patch_call cs g) = code_off g \<and> g_base (fold patch_call cs g) = g_base g \<and> cfx (fold patch_call cs g) = cfx g \<and>
    g_pos (fold patch_call cs g) = g_pos g \<and> length (g_buf (fold patch_call cs g)) = length (g_buf g)"
    by (induction cs arbitrary: g) (simp_all add: patch_call_def patch_loadimm_def put32_fields split_def)
  then show "code_off (fold patch_call cs g) = code_off g" "g_base (fold patch_call cs g) = g_base g" "cfx (fold patch_call cs g) = cfx g"
    "g_pos (fold patch_call cs g) = g_pos g" "length (g_buf (fold patch_call cs g)) = length (g_buf g)" by simp_all
qed

lemma patch_words:
  assumes "p + 16 \<le> length (g_buf g)"
  shows "fetch_code (g_buf (patch_loadimm p r v g)) p 4 = loadimm_words r v"
    "q + 4 \<le> length (g_buf g) \<Longrightarrow> q + 4 \<le> p \<or> p + 16 \<le> q \<Longrightarrow> fetch32 (g_buf (patch_loadimm p r v g)) q = fetch32 (g_buf g) q"
proof -
  show "fetch_code (g_buf (patch_loadimm p r v g)) p 4 = loadimm_words r v"
    using assms by (simp add: fetch_code_def loadimm_words_def patch_loadimm_def numeral_eq_Suc fetch_put32 put32_fields)
  assume "q + 4 \<le> length (g_buf g)" "q + 4 \<le> p \<or> p + 16 \<le> q"
  then show "fetch32 (g_buf (patch_loadimm p r v g)) q = fetch32 (g_buf g) q"
    using assms unfolding patch_loadimm_def by (auto simp: fetch_put32 put32_fields)
qed

lemma patch_other:
  "\<forall>(p, f) \<in> set cs. p + 16 \<le> length (g_buf g) \<and> (q + 4 \<le> p \<or> p + 16 \<le> q) \<Longrightarrow> q + 4 \<le> length (g_buf g) \<Longrightarrow>
   fetch32 (g_buf (fold patch_call cs g)) q = fetch32 (g_buf g) q"
proof (induction cs arbitrary: g)
  case (Cons c cs)
  obtain p f where c: "c = (p, f)" by (cases c)
  have "fetch32 (g_buf (patch_call c g)) q = fetch32 (g_buf g) q"
    using Cons.prems unfolding c patch_call_def prod.case by (intro patch_words(2)) auto
  moreover have "length (g_buf (patch_call c g)) = length (g_buf g)" using patch_fields(5) [of "[c]"] by simp
  ultimately show ?case using Cons by (simp add: split_def)
qed simp

lemma patch_calls:
  "sorted_wrt (\<lambda>c d. fst c + 20 \<le> fst d) cs \<Longrightarrow> \<forall>(p, f) \<in> set cs. p + 20 \<le> length (g_buf g) \<Longrightarrow> (p, f) \<in> set cs \<Longrightarrow>
   fetch_code (g_buf (fold patch_call cs g)) p 4 = loadimm_words 9 (g_base g + of_nat (code_off g f))"
proof (induction cs arbitrary: g)
  case (Cons c cs)
  let ?g = "patch_call c g"
  have same: "length (g_buf ?g) = length (g_buf g)" "g_base ?g = g_base g" "code_off ?g = code_off g"
    using patch_fields [of "[c]"] by simp_all
  show ?case
  proof (cases "c = (p, f)")
    case True
    have "fetch32 (g_buf (fold patch_call cs ?g)) q = fetch32 (g_buf ?g) q" if "p \<le> q" "q + 4 \<le> p + 16" for q
      using that Cons.prems(1,2) True same(1) by (intro patch_other) (fastforce simp: split_def)+
    then have "fetch_code (g_buf (fold patch_call cs ?g)) p 4 = fetch_code (g_buf ?g) p 4" by (simp add: fetch_code_def)
    also have "\<dots> = loadimm_words 9 (g_base g + of_nat (code_off g f))"
      unfolding True patch_call_def prod.case using Cons.prems(2) True by (intro patch_words(1)) auto
    finally show ?thesis by simp
  next
    case False
    then show ?thesis using Cons.IH [of ?g] Cons.prems same by simp
  qed
qed simp

lemma far_calls: "sorted_wrt (\<lambda>c d. fst c + 20 \<le> fst d) cs \<Longrightarrow> c \<in> set cs \<Longrightarrow> d \<in> set cs \<Longrightarrow>
    c = d \<or> fst c + 20 \<le> fst d \<or> fst d + 20 \<le> (fst c :: nat)"
  by (induction cs) auto

lemma calls_fit: "calls_ok n h \<Longrightarrow> g_pos h \<le> length (g_buf h) \<Longrightarrow> (p, f) \<in> set (cfx h) \<Longrightarrow> p + 20 \<le> length (g_buf h)"
  by (fastforce simp: calls_ok_def)

lemma patched_word:
  assumes "calls_ok n h" "g_pos h \<le> length (g_buf h)" "finished M (h\<lparr>bfx := []\<rparr>)" "(x, w) \<in> M"
  shows "4 dvd x \<and> x + 4 \<le> g_pos h \<and> fetch32 (g_buf (fold patch_call (cfx h) h)) x = w"
proof -
  have x: "4 dvd x" "x + 4 \<le> g_pos h" "fetch32 (g_buf h) x = w" "clear_of x (cfx h)" using assms(3,4) by (auto simp: finished_def)
  have "fetch32 (g_buf (fold patch_call (cfx h) h)) x = fetch32 (g_buf h) x"
    using x(2,4) calls_fit [OF assms(1,2)] assms(2) by (intro patch_other) (fastforce simp: clear_of_def)+
  then show ?thesis using x by simp
qed

lemma patched_call:
  assumes "calls_ok n h" "g_pos h \<le> length (g_buf h)" "(p, f) \<in> set (cfx h)"
  shows "fetch_code (g_buf (fold patch_call (cfx h) h)) p 4 = loadimm_words 9 (g_base h + of_nat (code_off h f)) \<and>
    fetch32 (g_buf (fold patch_call (cfx h) h)) (p + 16) = BLR_X9 \<and> f < n \<and> 4 dvd p \<and> p + 20 \<le> g_pos h"
proof -
  have srt: "sorted_wrt (\<lambda>c d. fst c + 20 \<le> fst d) (cfx h)" using assms(1) by (simp add: calls_ok_def)
  have "fetch_code (g_buf (fold patch_call (cfx h) h)) p 4 = loadimm_words 9 (g_base h + of_nat (code_off h f))"
    using patch_calls [OF srt _ assms(3)] calls_fit [OF assms(1,2)] by auto
  moreover have "fetch32 (g_buf (fold patch_call (cfx h) h)) (p + 16) = fetch32 (g_buf h) (p + 16)"
  proof (intro patch_other ballI)
    fix x assume x: "x \<in> set (cfx h)"
    obtain q k where [simp]: "x = (q, k)" by (cases x)
    show "case x of (q, f) \<Rightarrow> q + 16 \<le> length (g_buf h) \<and> (p + 16 + 4 \<le> q \<or> q + 16 \<le> p + 16)"
      using far_calls [OF srt x assms(3)] calls_fit [OF assms(1,2), of q k] x by auto
  qed (use calls_fit [OF assms] in simp)
  moreover have "fetch32 (g_buf h) (p + 16) = BLR_X9 \<and> f < n \<and> 4 dvd p \<and> p + 20 \<le> g_pos h"
    using assms(1,3) by (auto simp: calls_ok_def)
  ultimately show ?thesis by simp
qed

section \<open>The linked program\<close>

text \<open>What a compiled program looks like in memory: every function starts with its prologue, every recorded
  call loads the address of its function and branches to it, every recorded branch reaches its label.\<close>

definition program_ok :: "cenv \<Rightarrow> u64 \<Rightarrow> cgen list \<Rightarrow> cgen \<Rightarrow> bool" where
  "program_ok E base hs g \<longleftrightarrow>
     (\<forall>i < length (g_funcs E). 4 dvd code_off g i \<and> code_off g i + 4 \<le> g_pos g \<and>
        fetch32 (g_buf g) (code_off g i) = STP_FP_LR) \<and>
     (\<forall>(p, f) \<in> set (cfx g). f < length (g_funcs E) \<and> 4 dvd p \<and> p + 20 \<le> g_pos g \<and>
        (\<forall>s. run (fetch_code (g_buf g) p 4) s = Some (s\<lparr>xreg := (xreg s)(9 := base + of_nat (code_off g f))\<rparr>)) \<and>
        fetch32 (g_buf g) (p + 16) = BLR_X9) \<and>
     (\<forall>h \<in> set hs. \<forall>b \<in> set (bfx h). bf_site b + 4 \<le> g_pos g \<and>
        branch_dist (fetch32 (g_buf g) (bf_site b)) = Some (int (lab_off h (bf_lab b)) - int (bf_site b)))"

text \<open>The states after each function of the program.\<close>

definition func_states :: "cenv \<Rightarrow> cgen \<Rightarrow> cgen list" where
  "func_states E g = map (\<lambda>i. snd (gen_funcs E [0..<Suc i] g)) [0..<length (g_funcs E)]"

lemma branches_layout:
  assumes "layout h" "\<not> g_oom h" "g_cap h < 2 ^ 20" "b \<in> set (bfx h)"
  shows "branch_dist (branch_word b (lab_off h)) = Some (int (lab_off h (bf_lab b)) - int (bf_site b))"
proof -
  have l: "cg_ok h" "4 dvd lab_off h (bf_lab b)" "lab_off h (bf_lab b) \<le> g_cap h" "4 dvd bf_site b" "bf_site b + 4 \<le> g_pos h"
    "bf_kind b = BR_BCOND \<longrightarrow> bf_cond b = C_EQ" using assms(1,2,4) by (auto simp: layout_def)
  then have "lab_off h (bf_lab b) < 2 ^ 20" "bf_site b < 2 ^ 20" using assms(3) by (auto simp: cg_ok_def)
  then show ?thesis using l by (intro branch_word_dist) auto
qed

text \<open>Generation changes neither the capacity nor the length of the buffer.\<close>

lemma linked_states:
  assumes "linked (length (g_funcs E)) {} (g\<lparr>bfx := []\<rparr>)" "\<not> g_oom g" "gen_funcs E [0..<k] g = (True, h)" "i < k"
  obtains f where "gen_funcs E [0..<Suc i] g = (True, f)" "layout f" "\<not> g_oom f"
proof -
  obtain f where f: "gen_funcs E [0..<Suc i] g = (True, f)" using gen_funcs_prefix [OF assms(3), of "Suc i"] assms(4) by auto
  obtain e where e: "gen_funcs E [0..<i] g = (True, e)" "f = gen_func E i e" "\<not> g_oom f" by (rule gen_funcs_Suc [OF f])
  obtain M where "linked (length (g_funcs E)) M (e\<lparr>bfx := []\<rparr>)" using gen_funcs_linked [OF assms(1,2) e(1)] by blast
  then have "layout (e\<lparr>bfx := []\<rparr>)" by (simp add: linked_def)
  then obtain r where "f = resolve_branches r" "layout r" unfolding e(2) by (rule gen_func_layout)
  then have "layout f" by (simp add: layout_def cg_ok_def resolve_fields)
  then show thesis using that f e(3) by blast
qed

interpretation capacity: code_invariant "\<lambda>g. g_cap g = c" E for c E
  by unfold_locales (auto simp: call_func_def emit_blr_def emit_loadimm_def emit_other_fields add_bfx_def cg_error_def push_brk_def
      push_cont_def pop_brk_def pop_cont_def place_def split: option.split)

lemma gen_func_cap: "g_cap (gen_func E i g) = g_cap g"
  unfolding gen_func_eq resolve_fields
  by (rule capacity.keep_tail) (simp add: emit_prologue_stp_def emit_other_fields func_entry_fields)

lemma gen_funcs_cap: "g_cap (snd (gen_funcs E is g)) = g_cap g"
  by (induction "is" arbitrary: g) (simp_all add: Let_def gen_func_cap cg_error_def)

lemma codegen_linked:
  assumes buf: "length buf = cap" "cap < 2 ^ 20" and labs: "\<forall>l. 4 dvd lab_off g l \<and> lab_off g l \<le> cap"
    and run: "cc_codegen E buf base cap g = (len, Some entry, g')"
  shows "(\<exists>m. find_func E ''main'' = Some m \<and> entry = code_off g' m) \<and> len = int (g_pos g') \<and>
    g_pos g' \<le> cap \<and> length (g_buf g') = cap \<and> program_ok E base (func_states E (cg_init E buf base cap g)) g'"
proof -
  let ?n = "length (g_funcs E)"
  define g0 where "g0 = cg_init E buf base cap g"
  have g0: "g_buf g0 = buf" "g_base g0 = base" "g_pos g0 = 0" "g_cap g0 = cap" "\<not> g_oom g0" "cfx g0 = []" "lab_off g0 = lab_off g"
    by (simp_all add: g0_def cg_init_def)
  have l0: "linked ?n {} (g0\<lparr>bfx := []\<rparr>)" using labs buf(1) by (simp add: linked_def layout_def cg_ok_def calls_ok_def finished_def g0)
  obtain h where h: "gen_funcs E [0..<?n] g0 = (True, h)"
    using run by (auto simp: cc_codegen_def g0_def [symmetric] split: prod.splits bool.splits)
  have g': "g' = fold patch_call (cfx h) h" "len = int (g_pos g')" "\<exists>m. find_func E ''main'' = Some m \<and> entry = code_off g' m"
    using run h by (auto simp: cc_codegen_def g0_def [symmetric] Let_def patch_call_def split: option.splits)
  obtain M where M: "\<not> g_oom h" "g_base h = base" "linked ?n M (h\<lparr>bfx := []\<rparr>)"
    "\<forall>i < ?n. (code_off h i, STP_FP_LR) \<in> M \<and> branches (snd (gen_funcs E [0..<Suc i] g0)) \<subseteq> M"
    using gen_funcs_linked [OF l0 g0(5) h] g0(2) by auto
  have ok: "layout (h\<lparr>bfx := []\<rparr>)" "calls_ok ?n h" "finished M (h\<lparr>bfx := []\<rparr>)" using M(1,3) by (simp_all add: linked_def calls_ok_def)
  have cap: "g_cap h = cap" using gen_funcs_cap [of E "[0..<?n]" g0] h g0(4) by simp
  have len: "g_pos h \<le> length (g_buf h)" "length (g_buf h) = cap" using ok(1) M(1) cap by (auto simp: layout_def cg_ok_def)
  note words = patched_word [OF ok(2) len(1) ok(3), folded g'(1)]
  have "run (fetch_code (g_buf g') p 4) s = Some (s\<lparr>xreg := (xreg s)(9 := base + of_nat (code_off g' f))\<rparr>) \<and>
      fetch32 (g_buf g') (p + 16) = BLR_X9 \<and> f < ?n \<and> 4 dvd p \<and> p + 20 \<le> g_pos g'" if "(p, f) \<in> set (cfx h)" for p f s
    using patched_call [OF ok(2) len(1) that, folded g'(1)] run_loadimm [of 9] M(2) by (simp add: g'(1) patch_fields)
  moreover have "bf_site b + 4 \<le> g_pos g' \<and> branch_dist (fetch32 (g_buf g') (bf_site b)) = Some (int (lab_off f (bf_lab b)) - int (bf_site b))"
    if i: "i < ?n" and fb: "f = snd (gen_funcs E [0..<Suc i] g0)" "b \<in> set (bfx f)" for i f b
  proof -
    obtain f' where f': "gen_funcs E [0..<Suc i] g0 = (True, f')" "layout f'" "\<not> g_oom f'" by (rule linked_states [OF l0 g0(5) h i])
    then have f: "layout f" "\<not> g_oom f" "g_cap f < 2 ^ 20" using fb(1) gen_funcs_cap [of E "[0..<Suc i]" g0] g0(4) buf(2) by simp_all
    have "(bf_site b, branch_word b (lab_off f)) \<in> M" using M(4) i fb by (auto simp: branches_def)
    then show ?thesis using words branches_layout [OF f fb(2)] by (fastforce simp: g'(1) patch_fields)
  qed
  ultimately have "program_ok E base (func_states E g0) g'"
    unfolding program_ok_def func_states_def using M(4) words by (auto simp: g'(1) patch_fields)
  then show ?thesis using g'(2,3) len by (simp add: g'(1) patch_fields g0_def)
qed

end
