(* ===== verification/Cc_Lex.thy ===== *)
theory Cc_Lex
  imports Cc Kprintf "HOL-Library.Sublist"
begin

text \<open>
  The lexer of the on-device C compiler (\<open>cc/parse.c\<close>, \<open>cc_lex\<close>) and the monad the front end is written
  in. A computation maps a state to a result and a new state, or stops: it reads a string beyond its
  terminator, follows a null token pointer, or allocates from the exhausted arena, after which \<open>cc_alloc\<close>
  hands out a 64-byte sink that the callers overrun (\<open>cc.c\<close>). \<open>NO_FUEL\<close> is not a behaviour of the code:
  it says that the bound on the recursion depth of a parser function was too small.

  The source is the list of its characters before the terminating zero. The arena keeps the bytes of
  the string literals and of the globals, which the generated code reads.
\<close>

section \<open>Computations that can stop\<close>

datatype stop = OVERREAD | NULL_DEREF | ARENA_EXHAUSTED | NO_FUEL

type_synonym ('s, 'a) cm = "'s \<Rightarrow> stop + ('a \<times> 's)"

definition ret :: "'a \<Rightarrow> ('s, 'a) cm" where "ret x s = Inr (x, s)"
definition halt :: "stop \<Rightarrow> ('s, 'a) cm" where "halt e s = Inl e"

definition seqn :: "('s, 'a) cm \<Rightarrow> ('a \<Rightarrow> ('s, 'b) cm) \<Rightarrow> ('s, 'b) cm" where
  "seqn m f s = (case m s of Inl e \<Rightarrow> Inl e | Inr (x, s) \<Rightarrow> f x s)"

definition gets :: "('s \<Rightarrow> 'a) \<Rightarrow> ('s, 'a) cm" where "gets f s = Inr (f s, s)"
definition upd :: "('s \<Rightarrow> 's) \<Rightarrow> ('s, unit) cm" where "upd f s = Inr ((), f s)"

text \<open>\<open>wpre E m s Q\<close>: started in \<open>s\<close>, the computation returns with \<open>Q\<close>, or stops for a reason in \<open>E\<close>.\<close>

definition wpre :: "stop set \<Rightarrow> ('s, 'a) cm \<Rightarrow> 's \<Rightarrow> ('a \<Rightarrow> 's \<Rightarrow> bool) \<Rightarrow> bool" where
  "wpre E m s Q = (case m s of Inl e \<Rightarrow> e \<in> E | Inr (x, s') \<Rightarrow> Q x s')"

lemma wpre_simps [simp]:
  "wpre E (ret x) s Q = Q x s"
  "wpre E (halt e) s Q = (e \<in> E)"
  "wpre E (gets h) s P = P (h s) s"
  "wpre E (upd g) s U = U () (g s)"
  "wpre E (seqn m f) s R = wpre E m s (\<lambda>x s. wpre E (f x) s R)"
  by (auto simp: wpre_def ret_def halt_def gets_def upd_def seqn_def split: sum.split)

lemma wpre_if [simp]: "wpre E (if b then m else n) s Q = (if b then wpre E m s Q else wpre E n s Q)"
  by simp

lemma wpre_mono: "wpre E m s Q \<Longrightarrow> (\<And>x s'. Q x s' \<Longrightarrow> R x s') \<Longrightarrow> wpre E m s R"
  by (auto simp: wpre_def split: sum.splits)

lemma wpre_result: "wpre E m s Q \<Longrightarrow> m s = Inr (x, s') \<Longrightarrow> Q x s'"
  by (simp add: wpre_def)

section \<open>The arena\<close>

record arena =
  pcc :: cc
  g_arena :: u64
  a_mem :: "u64 \<Rightarrow> u8"

definition perror :: "string \<Rightarrow> ('a arena_scheme, unit) cm" where
  "perror msg = upd (\<lambda>s. s\<lparr>pcc := cc_error msg (pcc s)\<rparr>)"

definition failed :: "('a arena_scheme, bool) cm" where
  "failed = gets (\<lambda>s. cc_failed (pcc s))"

definition palloc :: "u64 \<Rightarrow> ('a arena_scheme, u64) cm" where
  "palloc n s =
     (case cc_alloc n (pcc s) of
        (None, c) \<Rightarrow> Inl ARENA_EXHAUSTED
      | (Some off, c) \<Rightarrow>
          (let a = g_arena s + off
           in Inr (a, s\<lparr>pcc := c, a_mem := (\<lambda>x. if x - a < (n + 15) AND NOT 15 then 0 else a_mem s x)\<rparr>)))"

definition store_chars :: "u64 \<Rightarrow> string \<Rightarrow> (u64 \<Rightarrow> u8) \<Rightarrow> u64 \<Rightarrow> u8" where
  "store_chars a cs m x = (if unat (x - a) < length cs then of_char (cs ! unat (x - a)) else m x)"

definition dup_n :: "string \<Rightarrow> ('a arena_scheme, u64) cm" where
  "dup_n cs =
     seqn (palloc (of_nat (length cs) + 1)) (\<lambda>a.
     seqn (upd (\<lambda>s. s\<lparr>a_mem := store_chars a (cs @ [CHR 0x00]) (a_mem s)\<rparr>)) (\<lambda>_.
     ret a))"

section \<open>Characters and keywords\<close>

definition is_space :: "char \<Rightarrow> bool" where
  "is_space c = (c = CHR '' '' \<or> c = CHR 0x09 \<or> c = CHR 0x0D \<or> c = CHR 0x0A)"

definition code :: "char \<Rightarrow> nat" where "code c = of_char c"

definition is_digit :: "char \<Rightarrow> bool" where "is_digit c = (48 \<le> code c \<and> code c \<le> 57)"

definition is_alpha :: "char \<Rightarrow> bool" where
  "is_alpha c = (97 \<le> code c \<and> code c \<le> 122 \<or> 65 \<le> code c \<and> code c \<le> 90 \<or> c = CHR ''_'')"

definition is_alnum :: "char \<Rightarrow> bool" where "is_alnum c = (is_alpha c \<or> is_digit c)"

definition kw_tab :: "string list" where
  "kw_tab = [''int'', ''char'', ''if'', ''else'', ''while'', ''for'', ''return'', ''sizeof'',
     ''struct'', ''typedef'', ''switch'', ''case'', ''default'', ''break'', ''continue'']"

definition is_keyword :: "string \<Rightarrow> bool" where "is_keyword s = (s \<in> set kw_tab)"

definition two_tab :: "string list" where
  "two_tab = [''=='', ''!='', ''<='', ''>='', ''&&'', ''||'', ''->'']"

definition ceq_chr :: "string \<Rightarrow> char \<Rightarrow> bool" where "ceq_chr cs c = (c \<in> set cs)"

definition one_tab :: string where "one_tab = ''+-*/%=<>()[]{}&!,;.:''"

section \<open>Scanning\<close>

text \<open>The character after a backslash; at the end of the source it is the terminating zero, and the
  cursor moves behind it.\<close>

definition escape :: "char \<Rightarrow> char" where
  "escape c =
     (if c = CHR ''n'' then CHR 0x0A else if c = CHR ''t'' then CHR 0x09
      else if c = CHR ''r'' then CHR 0x0D else if c = CHR ''0'' then CHR 0x00 else c)"

definition read_escape :: "string \<Rightarrow> (char \<times> string) option" where
  "read_escape p = (case p of [] \<Rightarrow> None | c # p \<Rightarrow> Some (escape c, p))"

fun skip_block :: "string \<Rightarrow> string" where
  "skip_block [] = []"
| "skip_block [c] = []"
| "skip_block (c # d # p) = (if c = CHR ''*'' \<and> d = CHR ''/'' then p else skip_block (d # p))"

definition lex_number :: "string \<Rightarrow> u64" where
  "lex_number ds = fold (\<lambda>c v. v * 10 + of_nat (code c - 48)) ds 0"

text \<open>The body of a string literal: the characters, and the cursor where the scan stops. \<open>n\<close> counts the
  bytes of the buffer of 1024 that are used.\<close>

fun lex_string :: "string \<Rightarrow> nat \<Rightarrow> (string \<times> string) option" where
  "lex_string [] n = Some ([], [])"
| "lex_string (c # p) n =
     (if c = CHR 0x22 \<or> 1023 \<le> n then Some ([], c # p)
      else if c = CHR 0x5C then
        (case p of [] \<Rightarrow> None
         | e # p \<Rightarrow> map_option (\<lambda>(b, q). (escape e # b, q)) (lex_string p (n + 1)))
      else map_option (\<lambda>(b, q). (c # b, q)) (lex_string p (n + 1)))"

text \<open>The character literal after its opening quote: its value, and the cursor behind it.\<close>

definition lex_char :: "string \<Rightarrow> (char \<times> string) option" where
  "lex_char p =
     (case p of [] \<Rightarrow> None
      | c # q \<Rightarrow> if c = CHR 0x5C then read_escape q else Some (c, q))"

definition TOKEN_SIZE :: u64 where "TOKEN_SIZE = 48"

text \<open>The lexeme at a non-empty rest of the source and the cursor behind it.\<close>

datatype lexeme =
    LX_SKIP
  | LX_NUM u64
  | LX_STR string
  | LX_WORD string
  | LX_PUNCT string
  | LX_ERROR string
  | LX_ERRORC string char
  | LX_OVERREAD

definition closing :: "char \<Rightarrow> string \<Rightarrow> lexeme \<Rightarrow> string \<Rightarrow> lexeme \<times> string" where
  "closing c q x msg = (case q of d # q \<Rightarrow> if d = c then (x, q) else (LX_ERROR msg, q) | [] \<Rightarrow> (LX_ERROR msg, []))"

definition scan :: "char \<Rightarrow> string \<Rightarrow> lexeme \<times> string" where
  "scan c p =
     (let d = (case p of [] \<Rightarrow> CHR 0x00 | d # _ \<Rightarrow> d) in
      if is_space c then (LX_SKIP, p)
      else if c = CHR ''/'' \<and> d = CHR ''/'' then (LX_SKIP, dropWhile (\<lambda>c. c \<noteq> CHR 0x0A) p)
      else if c = CHR ''/'' \<and> d = CHR ''*'' then (LX_SKIP, skip_block (tl p))
      else if is_digit c then (LX_NUM (lex_number (c # takeWhile is_digit p)), dropWhile is_digit p)
      else if c = CHR 0x27 then
        (case lex_char p of
           None \<Rightarrow> (LX_OVERREAD, [])
         | Some (v, q) \<Rightarrow> closing (CHR 0x27) q (LX_NUM (of_char v)) ''unterminated char literal'')
      else if c = CHR 0x22 then
        (case lex_string p 0 of
           None \<Rightarrow> (LX_OVERREAD, [])
         | Some (b, q) \<Rightarrow> closing (CHR 0x22) q (LX_STR b) ''unterminated string literal'')
      else if is_alpha c then (LX_WORD (c # takeWhile is_alnum p), dropWhile is_alnum p)
      else if [c, d] \<in> set two_tab then (LX_PUNCT [c, d], tl p)
      else if ceq_chr one_tab c then (LX_PUNCT [c], p)
      else (LX_ERRORC ''unexpected character'' c, p))"

definition new_tok :: "token_t \<Rightarrow> ('a arena_scheme, token_t) cm" where
  "new_tok t = seqn (palloc TOKEN_SIZE) (\<lambda>_. ret t)"

definition new_text :: "token_t \<Rightarrow> string \<Rightarrow> ('a arena_scheme, token_t) cm" where
  "new_text t cs = seqn (new_tok t) (\<lambda>t. seqn (dup_n cs) (\<lambda>_. ret t))"

text \<open>The tokens a lexeme gives, none for space; \<open>None\<close> where \<open>cc_lex\<close> returns 0.\<close>

definition lex_token :: "lexeme \<Rightarrow> ('a arena_scheme, token_t list option) cm" where
  "lex_token x =
     (case x of
        LX_SKIP \<Rightarrow> ret (Some [])
      | LX_NUM v \<Rightarrow> seqn (new_tok (TK_NUM v)) (\<lambda>t. ret (Some [t]))
      | LX_STR b \<Rightarrow> seqn (palloc TOKEN_SIZE) (\<lambda>_. seqn (dup_n b) (\<lambda>a. ret (Some [TK_STR b a])))
      | LX_WORD w \<Rightarrow> seqn (new_text (if is_keyword w then TK_KW w else TK_IDENT w) w) (\<lambda>t. ret (Some [t]))
      | LX_PUNCT w \<Rightarrow> seqn (new_text (TK_PUNCT w) w) (\<lambda>t. ret (Some [t]))
      | LX_ERROR msg \<Rightarrow> seqn (perror msg) (\<lambda>_. ret None)
      | LX_ERRORC msg c \<Rightarrow> seqn (upd (\<lambda>s. s\<lparr>pcc := cc_errorc msg c (pcc s)\<rparr>)) (\<lambda>_. ret None)
      | LX_OVERREAD \<Rightarrow> halt OVERREAD)"

lemma skip_block_length: "length (skip_block p) \<le> length p"
  by (induction p rule: skip_block.induct) auto

lemma lex_string_length: "lex_string p n = Some (b, q) \<Longrightarrow> length q \<le> length p"
  by (induction p n arbitrary: b q rule: lex_string.induct) (fastforce split: if_splits list.splits)+

lemma lex_char_length: "lex_char p = Some (v, q) \<Longrightarrow> length q \<le> length p"
  by (auto simp: lex_char_def read_escape_def split: list.splits if_splits)

lemma closing_length: "length (snd (closing c q x msg)) \<le> length q"
  by (simp add: closing_def split: list.split)

lemma scan_length: "length (snd (scan c p)) \<le> length p"
proof -
  have "length (skip_block (tl p)) \<le> length p" using skip_block_length [of "tl p"] by (simp add: le_diff_conv)
  moreover have "length (snd (closing c q x msg)) \<le> length p" if "length q \<le> length p" for c q x msg
    using closing_length [of c q x msg] that by simp
  ultimately show ?thesis
    by (auto simp: scan_def Let_def length_dropWhile_le split: option.split dest: lex_string_length lex_char_length)
qed

function lex_loop :: "string \<Rightarrow> token_t list \<Rightarrow> ('a arena_scheme, token_t list) cm" where
  "lex_loop [] ts = seqn (new_tok TK_EOF) (\<lambda>t. ret (ts @ [t]))"
| "lex_loop (c # p) ts =
     seqn (lex_token (fst (scan c p))) (\<lambda>r.
     case r of None \<Rightarrow> ret [] | Some us \<Rightarrow> lex_loop (snd (scan c p)) (ts @ us))"
  by pat_completeness auto
termination
  by (relation "measure (\<lambda>(p, _). length p)") (auto simp: le_imp_less_Suc scan_length)

text \<open>The list of tokens, the empty list for the null pointer.\<close>

definition cc_lex :: "string \<Rightarrow> ('a arena_scheme, token_t list) cm" where
  "cc_lex src = lex_loop src []"

section \<open>Allocation fits\<close>

text \<open>\<open>afits n s\<close>: the arena has \<open>n\<close> bytes left.\<close>

definition afits :: "nat \<Rightarrow> 'a arena_scheme \<Rightarrow> bool" where
  "afits n s = (unat (g_apos (pcc s)) + n \<le> unat (g_acap (pcc s)) \<and> g_acap (pcc s) \<le> CC_ARENA)"

lemma round16: "unat n < 2 ^ 63 \<Longrightarrow> unat ((n + 15 :: u64) AND NOT 15) \<le> unat n + 15"
proof -
  assume n: "unat n < 2 ^ 63"
  have "unat (n + 15) = unat n + 15" using n by (simp add: unat_word_ariths)
  moreover have "(n + 15) AND NOT 15 \<le> n + 15" by (simp add: word_and_le2)
  ultimately show ?thesis by (metis word_le_nat_alt)
qed

lemma palloc_fits:
  assumes s: "afits (m + k) s" and n: "unat n + 15 \<le> m"
    and post: "\<And>a s'. afits k s' \<Longrightarrow> g_err (pcc s') = g_err (pcc s) \<Longrightarrow> Q a s'"
  shows "wpre E (palloc n) s Q"
proof -
  let ?n = "(n + 15) AND NOT 15"
  have b: "unat (g_acap (pcc s)) \<le> 2 * 1024 * 1024" using s by (simp add: afits_def CC_ARENA_def word_le_nat_alt)
  have small: "unat n < 2 ^ 63" using s n b by (simp add: afits_def)
  have r: "unat ?n \<le> m" using round16 [OF small] n by simp
  have add: "unat (g_apos (pcc s) + ?n) = unat (g_apos (pcc s)) + unat ?n"
    using s r b by (simp add: afits_def unat_word_ariths)
  then have le: "\<not> g_acap (pcc s) < g_apos (pcc s) + ?n" using s r by (simp add: afits_def word_less_nat_alt)
  have "afits k (s\<lparr>pcc := (pcc s)\<lparr>g_apos := g_apos (pcc s) + ?n\<rparr>, a_mem := m'\<rparr>)" for m'
    using s r add by (simp add: afits_def)
  then show ?thesis using le post by (simp add: wpre_def palloc_def cc_alloc_def Let_def)
qed

lemma dup_n_fits:
  assumes s: "afits (length cs + 16 + k) s" and post: "\<And>a s'. afits k s' \<Longrightarrow> g_err (pcc s') = g_err (pcc s) \<Longrightarrow> Q a s'"
  shows "wpre E (dup_n cs) s Q"
proof -
  have "length cs < 2 ^ 63" using s by (simp add: afits_def CC_ARENA_def word_le_nat_alt)
  then have "unat (of_nat (length cs) + 1 :: u64) = length cs + 1" by (simp add: unat_word_ariths unat_of_nat)
  then show ?thesis unfolding dup_n_def using s post by (auto intro!: palloc_fits [of "length cs + 16" k] simp: afits_def)
qed

text \<open>What the lexeme costs, in bytes of the arena.\<close>

fun lexeme_cost :: "lexeme \<Rightarrow> nat" where
  "lexeme_cost (LX_NUM _) = 63"
| "lexeme_cost (LX_STR b) = 79 + length b"
| "lexeme_cost (LX_WORD w) = 79 + length w"
| "lexeme_cost (LX_PUNCT w) = 79 + length w"
| "lexeme_cost _ = 0"

lemma lex_token_fits:
  assumes s: "afits (lexeme_cost x + k) s" and x: "x \<noteq> LX_OVERREAD"
    and post: "\<And>r s'. afits k s' \<Longrightarrow> g_err (pcc s') = (g_err (pcc s) \<or> r = None) \<Longrightarrow> 
       (case x of LX_SKIP \<Rightarrow> r = Some [] | LX_NUM v \<Rightarrow> r = Some [TK_NUM v] | LX_STR b \<Rightarrow> \<exists>a. r = Some [TK_STR b a]
        | LX_WORD w \<Rightarrow> r = Some [if is_keyword w then TK_KW w else TK_IDENT w] | LX_PUNCT w \<Rightarrow> r = Some [TK_PUNCT w]
        | _ \<Rightarrow> r = None) \<Longrightarrow> Q r s'"
  shows "wpre E (lex_token x) s Q"
proof -
  have tok: "wpre E (palloc TOKEN_SIZE) s R"
    if "\<And>a s'. afits m s' \<Longrightarrow> g_err (pcc s') = g_err (pcc s) \<Longrightarrow> R a s'" "afits (63 + m) s" for R m
    using that by (intro palloc_fits [of 63 m]) (auto simp: TOKEN_SIZE_def)
  show ?thesis
  proof (cases x)
    case (LX_STR b)
    then show ?thesis using s post by (auto simp: lex_token_def add.assoc intro!: tok [of "length b + 16 + k"] dup_n_fits [of b k])
  next
    case (LX_WORD w)
    then show ?thesis using s post by (auto simp: lex_token_def new_text_def new_tok_def add.assoc intro!: tok [of "length w + 16 + k"] dup_n_fits [of w k])
  next
    case (LX_PUNCT w)
    then show ?thesis using s post by (auto simp: lex_token_def new_text_def new_tok_def add.assoc intro!: tok [of "length w + 16 + k"] dup_n_fits [of w k])
  qed (use s x post in \<open>auto simp: lex_token_def new_tok_def perror_def cc_error_def cc_errorc_def afits_def intro!: tok [of k]\<close>)
qed

section \<open>The lexer stays inside the source\<close>

definition src_ok :: "string \<Rightarrow> bool" where
  "src_ok p = (p = [] \<or> last p \<noteq> CHR 0x5C \<and> last p \<noteq> CHR 0x27)"

lemma src_ok_suffix: "src_ok p \<Longrightarrow> suffix q p \<Longrightarrow> src_ok q"
  by (auto simp: src_ok_def suffix_def)

lemma skip_block_suffix: "suffix (skip_block p) p"
  by (induction p rule: skip_block.induct) (auto simp: suffix_Cons)

lemma lex_string_suffix: "lex_string p n = Some (b, q) \<Longrightarrow> suffix q p"
  by (induction p n arbitrary: b q rule: lex_string.induct) (fastforce simp: suffix_Cons split: if_splits list.splits)+

lemma lex_char_suffix: "lex_char p = Some (v, q) \<Longrightarrow> suffix q p"
  by (auto simp: lex_char_def read_escape_def suffix_Cons split: list.splits if_splits)

lemma closing_suffix: "suffix (snd (closing c q x msg)) q"
  by (simp add: closing_def suffix_Cons split: list.split)

lemma scan_suffix: "suffix (snd (scan c p)) p"
proof -
  have "suffix (skip_block (tl p)) p"
    using skip_block_suffix [of "tl p"] by (meson suffix_order.trans suffix_tl)
  moreover have "suffix (snd (closing c q x msg)) p" if "suffix q p" for c q x msg
    using closing_suffix that by (rule suffix_order.trans)
  ultimately show ?thesis
    by (auto simp: scan_def Let_def suffix_dropWhile suffix_tl split: option.split dest: lex_string_suffix lex_char_suffix)
qed

lemma lex_string_None: "lex_string p n = None \<Longrightarrow> p \<noteq> [] \<and> last p = CHR 0x5C"
  by (induction p n rule: lex_string.induct) (auto split: if_splits list.splits)

lemma scan_inside:
  assumes "src_ok (c # p)" shows "fst (scan c p) \<noteq> LX_OVERREAD"
proof -
  have "lex_char p \<noteq> None" if "c = CHR 0x27"
    using assms that by (auto simp: src_ok_def lex_char_def read_escape_def split: list.split)
  moreover have "lex_string p 0 \<noteq> None"
  proof
    assume "lex_string p 0 = None"
    from lex_string_None [OF this] show False using assms by (simp add: src_ok_def)
  qed
  ultimately show ?thesis
    by (auto simp: scan_def Let_def closing_def split: option.splits list.splits)
qed

lemma lex_string_cost: "lex_string p n = Some (b, q) \<Longrightarrow> length b + length q \<le> length p"
  by (induction p n arbitrary: b q rule: lex_string.induct) (fastforce split: if_splits list.splits)+

lemma takeWhile_cost: "length (takeWhile P p) + length (dropWhile P p) = length p"
  by (metis length_append takeWhile_dropWhile_id)

lemma closing_cost:
  assumes "length q \<le> length p" "lexeme_cost x \<le> 80 + 80 * (length p - length q)"
  shows "lexeme_cost (fst (closing c q x msg)) + 80 * length (snd (closing c q x msg)) \<le> 80 * length p + 80"
  using assms by (auto simp: closing_def split: list.split)

lemma if_both: "(b \<Longrightarrow> P x) \<Longrightarrow> (\<not> b \<Longrightarrow> P y) \<Longrightarrow> P (if b then x else y)"
  by simp

definition scan_pays :: "string \<Rightarrow> lexeme \<times> string \<Rightarrow> bool" where
  "scan_pays p r = (lexeme_cost (fst r) + 80 * length (snd r) \<le> 80 * length p + 80)"

lemma scan_cost: "scan_pays p (scan c p)"
proof -
  have skip: "scan_pays p (LX_SKIP, dropWhile P p)" "scan_pays p (LX_SKIP, skip_block (tl p))" for P
    using skip_block_length [of "tl p"] length_dropWhile_le [of P p] by (auto simp: scan_pays_def)
  have str: "scan_pays p (case lex_string p 0 of None \<Rightarrow> (LX_OVERREAD, []) | Some (b, q) \<Rightarrow> closing d q (LX_STR b) m)" for d m
    using closing_cost [of _ p "LX_STR _"] lex_string_cost [of p 0]
    by (fastforce simp: scan_pays_def split: option.split)
  have chr: "scan_pays p (case lex_char p of None \<Rightarrow> (LX_OVERREAD, []) | Some (b, q) \<Rightarrow> closing d q (LX_NUM (v b)) m)" for d m v
    using closing_cost [of _ p "LX_NUM _"] lex_char_length [of p]
    by (fastforce simp: scan_pays_def split: option.split)
  have word: "scan_pays p (LX_WORD (c # takeWhile P p), dropWhile P p)" "scan_pays p (LX_NUM v, dropWhile P p)" for P v
    using takeWhile_cost [of P p] by (simp_all add: scan_pays_def)
  have two: "scan_pays p (LX_PUNCT [c, d], tl p)" if "[c, d] \<in> set two_tab" "d = (case p of [] \<Rightarrow> CHR 0x00 | d # _ \<Rightarrow> d)" for d
    using that by (cases p) (auto simp: scan_pays_def two_tab_def)
  show ?thesis unfolding scan_def Let_def
    by (intro if_both [where P = "scan_pays p"] str chr skip word two) (simp_all add: scan_pays_def)
qed

text \<open>The token list is well formed: it ends in \<open>TK_EOF\<close> and has no other.\<close>

definition toks_ok :: "token_t list \<Rightarrow> bool" where
  "toks_ok ts = (ts \<noteq> [] \<and> last ts = TK_EOF \<and> TK_EOF \<notin> set (butlast ts))"

lemma lex_loop_total:
  assumes "src_ok p" "afits (80 * length p + 63) s" "TK_EOF \<notin> set ts"
  shows "wpre E (lex_loop p ts) s (\<lambda>us s'. if us = [] then g_err (pcc s') else toks_ok us \<and> g_err (pcc s') = g_err (pcc s))"
  using assms
proof (induction p ts arbitrary: s rule: lex_loop.induct)
  case (1 ts)
  then show ?case by (auto simp: new_tok_def TOKEN_SIZE_def toks_ok_def intro!: palloc_fits [of 63 0])
next
  case (2 c p ts)
  let ?x = "fst (scan c p)" and ?q = "snd (scan c p)"
  have "src_ok p" by (rule src_ok_suffix [OF 2(2)]) (simp add: suffix_Cons)
  then have q: "src_ok ?q" by (rule src_ok_suffix) (rule scan_suffix)
  have fits: "afits (lexeme_cost ?x + (80 * length ?q + 63)) s" using 2(3) scan_cost [of p c] by (simp add: afits_def scan_pays_def)
  show ?case
  proof (simp, rule lex_token_fits [OF fits scan_inside [OF 2(2)]], goal_cases)
    case (1 r s')
    show ?case
    proof (cases r)
      case (Some us)
      moreover have "TK_EOF \<notin> set (ts @ us)" using 1(3) Some 2(4) by (auto split: lexeme.splits if_splits)
      ultimately show ?thesis using 2(1) [OF q 1(1), of us] 1(2) by (auto elim!: wpre_mono split: if_splits)
    qed (use 1 in simp)
  qed
qed

section \<open>Printing and lexing\<close>

text \<open>How a token is written: numbers as the kernel prints them, string literals with escapes.\<close>

definition quote_char :: "char \<Rightarrow> string" where
  "quote_char c =
     (if c = CHR 0x0A then [CHR 0x5C, CHR ''n''] else if c = CHR 0x00 then [CHR 0x5C, CHR ''0'']
      else if c = CHR 0x22 \<or> c = CHR 0x5C then [CHR 0x5C, c] else [c])"

fun show_tok :: "token_t \<Rightarrow> string" where
  "show_tok (TK_NUM v) = kp_putdec v"
| "show_tok (TK_STR b a) = [CHR 0x22] @ concat (map quote_char b) @ [CHR 0x22]"
| "show_tok (TK_IDENT w) = w"
| "show_tok (TK_KW w) = w"
| "show_tok (TK_PUNCT w) = w"
| "show_tok TK_EOF = []"

fun valid_tok :: "token_t \<Rightarrow> bool" where
  "valid_tok (TK_NUM v) = True"
| "valid_tok (TK_STR b a) = (length b \<le> 1023)"
| "valid_tok (TK_IDENT w) = (w \<noteq> [] \<and> is_alpha (hd w) \<and> list_all is_alnum w \<and> \<not> is_keyword w)"
| "valid_tok (TK_KW w) = is_keyword w"
| "valid_tok (TK_PUNCT w) = (w \<in> set two_tab \<or> w \<in> set (map (\<lambda>c. [c]) one_tab))"
| "valid_tok TK_EOF = False"

text \<open>Equality of tokens up to the address of a string literal.\<close>

fun tok_eq :: "token_t \<Rightarrow> token_t \<Rightarrow> bool" where
  "tok_eq (TK_STR b _) (TK_STR b' _) = (b = b')"
| "tok_eq t u = (t = u)"

definition unlex :: "token_t list \<Rightarrow> string" where
  "unlex ts = concat (map (\<lambda>t. show_tok t @ '' '') ts)"

fun tok_lexeme :: "token_t \<Rightarrow> lexeme" where
  "tok_lexeme (TK_NUM v) = LX_NUM v"
| "tok_lexeme (TK_STR b a) = LX_STR b"
| "tok_lexeme (TK_IDENT w) = LX_WORD w"
| "tok_lexeme (TK_KW w) = LX_WORD w"
| "tok_lexeme (TK_PUNCT w) = LX_PUNCT w"
| "tok_lexeme TK_EOF = LX_SKIP"

lemma lex_number_value: "lex_number ds = of_nat (dec_value 0 ds)"
proof -
  have "fold (\<lambda>c v. v * 10 + of_nat (code c - 48)) ds (of_nat a) = (of_nat (dec_value a ds) :: u64)" for a
  proof (induction ds arbitrary: a)
    case (Cons c ds)
    then show ?case using Cons.IH [of "10 * a + (of_char c - 48)"] by (simp add: code_def mult.commute)
  qed simp
  from this [of 0] show ?thesis by (simp add: lex_number_def)
qed

lemma dec_digits_digits: "list_all is_digit (dec_digits v)"
proof (induction v rule: dec_digits.induct)
  case (1 v)
  have "unat (v mod 10) < 10" by (simp add: unat_mod)
  then have "is_digit (char_of (48 + unat (v mod 10)))" by (simp add: is_digit_def code_def of_char_of)
  then show ?case using 1 by (subst dec_digits.simps) simp
qed

lemma putdec_number: "lex_number (kp_putdec v) = v \<and> list_all is_digit (kp_putdec v) \<and> kp_putdec v \<noteq> []"
proof (cases "v = 0")
  case True
  then show ?thesis by (simp add: kp_putdec_def lex_number_def is_digit_def code_def)
next
  case False
  have "dec_digits v \<noteq> []" using dec_digits_last [OF False] by simp
  moreover have "list_all is_digit (rev (dec_digits v))" using dec_digits_digits [of v] by (simp add: list_all_rev)
  ultimately show ?thesis using False by (simp add: kp_putdec_def lex_number_value dec_digits_value)
qed

lemma lex_string_quoted:
  "n + length b \<le> 1023 \<Longrightarrow> lex_string (concat (map quote_char b) @ CHR 0x22 # r) n = Some (b, CHR 0x22 # r)"
proof (induction b arbitrary: n)
  case (Cons c b)
  then show ?case by (simp add: quote_char_def escape_def)
qed simp

lemma takeWhile_all: "list_all P w \<Longrightarrow> \<not> P c \<Longrightarrow> takeWhile P (w @ c # r) = w \<and> dropWhile P (w @ c # r) = c # r"
  by (induction w) auto

lemma char_classes:
  "is_digit c \<Longrightarrow> \<not> is_space c \<and> c \<noteq> CHR ''/''"
  "is_alpha c \<Longrightarrow> \<not> is_space c \<and> \<not> is_digit c \<and> c \<noteq> CHR ''/'' \<and> c \<noteq> CHR 0x27 \<and> c \<noteq> CHR 0x22"
  by (auto simp: is_digit_def is_space_def is_alpha_def code_def)

lemma scan_word:
  assumes "is_alpha c" "list_all is_alnum w"
  shows "scan c (w @ CHR '' '' # r) = (LX_WORD (c # w), CHR '' '' # r)"
proof -
  have "\<not> is_alnum (CHR '' '')" by (simp add: is_alnum_def is_alpha_def is_digit_def code_def)
  then show ?thesis using assms char_classes(2) [OF assms(1)] takeWhile_all [of is_alnum w "CHR '' ''" r]
    by (simp add: scan_def Let_def)
qed

lemma keyword_word: "is_keyword w \<Longrightarrow> w \<noteq> [] \<and> is_alpha (hd w) \<and> list_all is_alnum w"
  by (auto simp: is_keyword_def kw_tab_def is_alnum_def is_alpha_def code_def)

lemma scan_puncts:
  "list_all (\<lambda>w. w \<noteq> [] \<and> scan (hd w) (tl w @ CHR '' '' # r) = (LX_PUNCT w, CHR '' '' # r)) two_tab"
  "list_all (\<lambda>c. scan c (CHR '' '' # r) = (LX_PUNCT [c], CHR '' '' # r)) one_tab"
  by (simp_all add: two_tab_def one_tab_def scan_def is_space_def is_digit_def is_alpha_def code_def ceq_chr_def Let_def)

lemma scan_punct:
  assumes "valid_tok (TK_PUNCT w)"
  shows "\<exists>c p. w = c # p \<and> scan c (p @ CHR '' '' # r) = (LX_PUNCT w, CHR '' '' # r)"
proof (cases "w \<in> set two_tab")
  case True
  then have "w \<noteq> [] \<and> scan (hd w) (tl w @ CHR '' '' # r) = (LX_PUNCT w, CHR '' '' # r)"
    using scan_puncts(1) [of r] by (simp add: list_all_iff)
  then show ?thesis by (cases w) auto
next
  case False
  then show ?thesis using assms scan_puncts(2) [of r] by (auto simp: list_all_iff)
qed

lemma scan_tok:
  assumes "valid_tok t"
  shows "\<exists>c p. show_tok t = c # p \<and> scan c (p @ CHR '' '' # r) = (tok_lexeme t, CHR '' '' # r)"
proof (cases t)
  case (TK_NUM v)
  obtain c p where v: "kp_putdec v = c # p" using putdec_number [of v] by (cases "kp_putdec v") auto
  then have d: "is_digit c" "list_all is_digit p" "lex_number (c # p) = v" using putdec_number [of v] by auto
  have "\<not> is_digit (CHR '' '')" by (simp add: is_digit_def code_def)
  then have "scan c (p @ CHR '' '' # r) = (LX_NUM v, CHR '' '' # r)"
    using d takeWhile_all [of is_digit p "CHR '' ''" r] char_classes(1) [OF d(1)] by (simp add: scan_def Let_def)
  then show ?thesis using TK_NUM v by simp
next
  case (TK_STR b a)
  then have "lex_string (concat (map quote_char b) @ CHR 0x22 # CHR '' '' # r) 0 = Some (b, CHR 0x22 # CHR '' '' # r)"
    using assms by (intro lex_string_quoted) simp
  then show ?thesis using TK_STR
    by (simp add: scan_def Let_def is_space_def is_digit_def is_alpha_def code_def closing_def)
next
  case (TK_IDENT w)
  then show ?thesis using assms scan_word by (cases w) auto
next
  case (TK_KW w)
  then show ?thesis using assms scan_word keyword_word [of w] by (cases w) auto
next
  case (TK_PUNCT w)
  then show ?thesis using assms scan_punct [of w r] by auto
qed (use assms in simp)

lemma scan_space: "scan (CHR '' '') p = (LX_SKIP, p)"
  by (simp add: scan_def Let_def is_space_def)

lemma unlex_ok: "src_ok (unlex ts)"
  by (cases ts rule: rev_cases) (auto simp: src_ok_def unlex_def)

lemma lex_loop_unlex:
  assumes "list_all valid_tok ts" "afits (80 * length (unlex ts) + 63) s"
  shows "wpre E (lex_loop (unlex ts) acc) s
    (\<lambda>us s'. \<exists>vs. us = acc @ vs @ [TK_EOF] \<and> list_all2 tok_eq vs ts \<and> g_err (pcc s') = g_err (pcc s))"
  using assms
proof (induction ts arbitrary: s acc)
  case Nil
  then show ?case by (auto simp: unlex_def new_tok_def TOKEN_SIZE_def intro!: palloc_fits [of 63 0])
next
  case (Cons t ts)
  have un: "unlex (t # ts) = show_tok t @ CHR '' '' # unlex ts" by (simp add: unlex_def)
  obtain c p where t: "show_tok t = c # p" "scan c (p @ CHR '' '' # unlex ts) = (tok_lexeme t, CHR '' '' # unlex ts)"
    using scan_tok [of t "unlex ts"] Cons.prems(1) by auto
  have fits: "afits (lexeme_cost (tok_lexeme t) + (80 * length (unlex ts) + 63)) s"
    using Cons.prems(2) scan_cost [of "p @ CHR '' '' # unlex ts" c] t by (simp add: afits_def scan_pays_def un)
  have "tok_lexeme t \<noteq> LX_OVERREAD" by (cases t) auto
  note step = lex_token_fits [OF fits this]
  show ?case
    unfolding un t(1) append.simps lex_loop.simps wpre_simps t(2) fst_conv snd_conv
  proof (rule step, goal_cases)
    case (1 r s')
    then obtain u where u: "r = Some [u]" "tok_eq u t" "g_err (pcc s') = g_err (pcc s)"
      using Cons.prems(1) by (cases t) auto
    have "wpre E (lex_loop (unlex ts) (acc @ [u])) s'
      (\<lambda>us s'. \<exists>vs. us = acc @ vs @ [TK_EOF] \<and> list_all2 tok_eq vs (t # ts) \<and> g_err (pcc s') = g_err (pcc s))"
    proof (rule wpre_mono [OF Cons.IH [OF _ 1(1)]])
      show "list_all valid_tok ts" using Cons.prems(1) by simp
      show "\<exists>vs. us = acc @ vs @ [TK_EOF] \<and> list_all2 tok_eq vs (t # ts) \<and> g_err (pcc z) = g_err (pcc s)"
        if "\<exists>vs. us = (acc @ [u]) @ vs @ [TK_EOF] \<and> list_all2 tok_eq vs ts \<and> g_err (pcc z) = g_err (pcc s')" for us z
      proof -
        from that obtain vs where "us = acc @ (u # vs) @ [TK_EOF]" "list_all2 tok_eq (u # vs) (t # ts)" "g_err (pcc z) = g_err (pcc s)"
          using u by auto
        then show ?thesis by blast
      qed
    qed
    then show ?case by (simp add: u(1) scan_space lex_token_def)
  qed
qed

text \<open>C37: lexing undoes printing. For any sequence of well-formed numbers, string literals, identifiers,
  keywords and punctuators, written out with a space after each, \<open>cc_lex\<close> returns exactly these tokens
  followed by the end marker and no error, provided the arena has room for 80 bytes per character of
  the source. So no two tokens are confused, 64-bit numbers keep their value, and every escape is
  read back.\<close>

theorem cc_lex_roundtrip:
  assumes "list_all valid_tok ts" "afits (80 * length (unlex ts) + 63) s"
  shows "\<exists>us s'. cc_lex (unlex ts) s = Inr (us @ [TK_EOF], s') \<and> list_all2 tok_eq us ts \<and> g_err (pcc s') = g_err (pcc s)"
proof -
  have "wpre {} (cc_lex (unlex ts)) s (\<lambda>us s'. \<exists>vs. us = vs @ [TK_EOF] \<and> list_all2 tok_eq vs ts \<and> g_err (pcc s') = g_err (pcc s))"
    using lex_loop_unlex [OF assms, of "{}" "[]"] by (simp add: cc_lex_def)
  then show ?thesis by (auto simp: wpre_def split: sum.splits)
qed

definition boot_arena :: arena where
  "boot_arena = \<lparr>pcc = arena_init CC_ARENA \<lparr>g_err = False, g_errbuf = [], g_acap = 0, g_apos = 0\<rparr>, g_arena = 0x200000, a_mem = (\<lambda>_. 0)\<rparr>"

definition sample_toks :: "token_t list" where
  "sample_toks = [TK_KW ''int'', TK_IDENT ''x1'', TK_PUNCT ''='', TK_NUM 42, TK_PUNCT '';'', TK_STR [CHR ''a'', CHR 0x0A] 0, TK_PUNCT ''->'']"

theorem cc_lex_roundtrip_witness:
  "\<exists>us s'. cc_lex (unlex sample_toks) boot_arena = Inr (us @ [TK_EOF], s') \<and> list_all2 tok_eq us sample_toks \<and> \<not> g_err (pcc s')"
proof -
  have "list_all valid_tok sample_toks"
    by (simp add: sample_toks_def is_keyword_def kw_tab_def is_alpha_def is_alnum_def is_digit_def code_def two_tab_def one_tab_def)
  moreover have "length (kp_putdec 42) = 2" by (simp add: kp_putdec_def dec_digits.simps)
  then have "afits (80 * length (unlex sample_toks) + 63) boot_arena"
    by (simp add: sample_toks_def unlex_def quote_char_def afits_def boot_arena_def arena_init_def CC_ARENA_def)
  ultimately show ?thesis using cc_lex_roundtrip [of sample_toks boot_arena] by (auto simp: boot_arena_def arena_init_def)
qed

end
