(* ===== verification/Cc_Parse.thy ===== *)
theory Cc_Parse
  imports Cc_Lex
begin

text \<open>
  The recursive-descent parser of the on-device C compiler (\<open>cc/parse.c\<close>). Its cursor \<open>tk\<close> is the list
  of the remaining tokens, the empty list for a null pointer; reading the kind of the token through a
  null cursor stops with \<open>NULL_DEREF\<close>. Types and variables are objects in the stores \<open>p_types\<close> and
  \<open>p_vars\<close>, where the registries, the symbol lists and the tree refer to them by index; the two static
  types come first, and the objects of an earlier compilation stay in front of the new ones (the code
  does not reset \<open>cur_locals\<close> between two compilations). The chain of case labels that \<open>cur_switch\<close> points to is the list of its entries.

  Recursion runs on fuel: a function of the grammar calls the functions below it with one unit less,
  and a loop uses a unit per round. Twice the number of tokens plus one is always enough
  (\<open>Cc_Parse_Safe\<close>).
\<close>

section \<open>State\<close>

record pst = arena +
  tk :: "token_t list"
  cur_locals :: "varid list"
  g_globals :: "varid list"
  cur_switch :: "caseref list option"
  g_structs :: "(string \<times> tid) list"
  g_typedefs :: "(string \<times> tid) list"
  p_types :: "type_t list"
  p_vars :: "var_t list"
  p_ncase :: nat

type_synonym 'a pm = "(pst, 'a) cm"

definition TYPE_SIZE :: u64 where "TYPE_SIZE = 32"
definition SDEF_SIZE :: u64 where "SDEF_SIZE = 24"
definition NODE_SIZE :: u64 where "NODE_SIZE = 168"
definition VAR_SIZE :: u64 where "VAR_SIZE = 40"
definition MEMBER_SIZE :: u64 where "MEMBER_SIZE = 32"
definition FUNC_SIZE :: u64 where "FUNC_SIZE = 120"

section \<open>Types\<close>

definition g_int :: type_t where
  "g_int = \<lparr>ty_kind = TY_INT, ty_size = 8, ty_base = None, ty_arraylen = 0, ty_members = []\<rparr>"
definition g_char :: type_t where
  "g_char = \<lparr>ty_kind = TY_CHAR, ty_size = 1, ty_base = None, ty_arraylen = 0, ty_members = []\<rparr>"

definition ty_int :: tid where "ty_int = 0"
definition ty_char :: tid where "ty_char = 1"

definition new_type :: "type_t \<Rightarrow> tid pm" where
  "new_type t =
     seqn (palloc TYPE_SIZE) (\<lambda>_.
     seqn (gets (\<lambda>s. length (p_types s))) (\<lambda>i.
     seqn (upd (\<lambda>s. s\<lparr>p_types := p_types s @ [t]\<rparr>)) (\<lambda>_. ret i)))"

definition ty_ptr_to :: "tid option \<Rightarrow> tid pm" where
  "ty_ptr_to base = new_type \<lparr>ty_kind = TY_PTR, ty_size = 8, ty_base = base, ty_arraylen = 0, ty_members = []\<rparr>"

definition ty_array_of :: "tid \<Rightarrow> int \<Rightarrow> tid pm" where
  "ty_array_of base len =
     seqn (gets (\<lambda>s. ty_size (p_types s ! base))) (\<lambda>sz.
     new_type \<lparr>ty_kind = TY_ARRAY, ty_size = sz * len, ty_base = Some base, ty_arraylen = len, ty_members = []\<rparr>)"

definition ty_is_ptrlike :: "pst \<Rightarrow> tid option \<Rightarrow> bool" where
  "ty_is_ptrlike s t =
     (case t of None \<Rightarrow> False | Some i \<Rightarrow> ty_kind (p_types s ! i) = TY_PTR \<or> ty_kind (p_types s ! i) = TY_ARRAY)"

definition p_align_up :: "int \<Rightarrow> int \<Rightarrow> int" where
  "p_align_up n a = (n + a - 1) sdiv a * a"

definition find_struct :: "pst \<Rightarrow> string \<Rightarrow> tid option" where
  "find_struct s name = map_of (g_structs s) name"

definition register_struct :: "string \<Rightarrow> tid \<Rightarrow> unit pm" where
  "register_struct name ty = seqn (palloc SDEF_SIZE) (\<lambda>_. upd (\<lambda>s. s\<lparr>g_structs := (name, ty) # g_structs s\<rparr>))"

definition find_member :: "pst \<Rightarrow> tid option \<Rightarrow> string \<Rightarrow> member_t option" where
  "find_member s st name =
     (case st of None \<Rightarrow> None
      | Some i \<Rightarrow> if ty_kind (p_types s ! i) \<noteq> TY_STRUCT then None
                  else find (\<lambda>m. m_name m = name) (ty_members (p_types s ! i)))"

definition find_typedef :: "pst \<Rightarrow> string \<Rightarrow> tid option" where
  "find_typedef s name = map_of (g_typedefs s) name"

definition register_typedef :: "string \<Rightarrow> tid \<Rightarrow> unit pm" where
  "register_typedef name ty = seqn (palloc SDEF_SIZE) (\<lambda>_. upd (\<lambda>s. s\<lparr>g_typedefs := (name, ty) # g_typedefs s\<rparr>))"

section \<open>The token cursor\<close>

definition is_punct :: "token_t list \<Rightarrow> string \<Rightarrow> bool" where
  "is_punct ts w = (case ts of t # _ \<Rightarrow> t = TK_PUNCT w | [] \<Rightarrow> False)"

definition is_kw :: "token_t list \<Rightarrow> string \<Rightarrow> bool" where
  "is_kw ts w = (case ts of t # _ \<Rightarrow> t = TK_KW w | [] \<Rightarrow> False)"

definition at_punct :: "string \<Rightarrow> bool pm" where "at_punct w = gets (\<lambda>s. is_punct (tk s) w)"

text \<open>\<open>tk->kind\<close> and the payload, and \<open>tk = tk->next\<close>.\<close>

definition peek :: "token_t pm" where
  "peek s = (case tk s of [] \<Rightarrow> Inl NULL_DEREF | t # _ \<Rightarrow> Inr (t, s))"

definition advance :: "unit pm" where
  "advance s = (case tk s of [] \<Rightarrow> Inl NULL_DEREF | _ # ts \<Rightarrow> Inr ((), s\<lparr>tk := ts\<rparr>))"

definition expect :: "string \<Rightarrow> unit pm" where
  "expect w =
     seqn (gets tk) (\<lambda>ts. if \<not> is_punct ts w \<and> \<not> is_kw ts w then perror ''expected token'' else advance)"

definition consume :: "string \<Rightarrow> bool pm" where
  "consume w =
     seqn (gets tk) (\<lambda>ts. if is_punct ts w \<or> is_kw ts w then seqn advance (\<lambda>_. ret True) else ret False)"

definition tok_val :: "token_t \<Rightarrow> u64" where
  "tok_val t = (case t of TK_NUM v \<Rightarrow> v | _ \<Rightarrow> 0)"

definition is_num :: "token_t \<Rightarrow> bool" where
  "is_num t = (case t of TK_NUM v \<Rightarrow> True | _ \<Rightarrow> False)"

section \<open>Nodes and variables\<close>

definition new_node :: "unit pm" where "new_node = seqn (palloc NODE_SIZE) (\<lambda>_. ret ())"

definition new_num :: "u64 \<Rightarrow> node_t pm" where
  "new_num v = seqn new_node (\<lambda>_. ret (ND_NUM (Some ty_int) v))"

definition find_var :: "pst \<Rightarrow> string \<Rightarrow> varid option" where
  "find_var s name = find (\<lambda>v. v_name (p_vars s ! v) = name) (cur_locals s @ g_globals s)"

definition new_local :: "string \<Rightarrow> tid \<Rightarrow> varid pm" where
  "new_local name ty =
     seqn (palloc VAR_SIZE) (\<lambda>_.
     seqn (gets (\<lambda>s. length (p_vars s))) (\<lambda>v.
     seqn (upd (\<lambda>s. s\<lparr>p_vars := p_vars s @ [\<lparr>v_name = name, v_ty = ty, v_offset = 0, is_global = False, v_gaddr = 0\<rparr>],
       cur_locals := v # cur_locals s\<rparr>)) (\<lambda>_. ret v)))"

definition new_global :: "string \<Rightarrow> tid \<Rightarrow> varid pm" where
  "new_global name ty =
     seqn (palloc VAR_SIZE) (\<lambda>_.
     seqn (gets (\<lambda>s. ty_size (p_types s ! ty))) (\<lambda>sz.
     seqn (palloc (if sz < 8 then 8 else of_int sz)) (\<lambda>a.
     seqn (gets (\<lambda>s. length (p_vars s))) (\<lambda>v.
     seqn (upd (\<lambda>s. s\<lparr>p_vars := p_vars s @ [\<lparr>v_name = name, v_ty = ty, v_offset = 0, is_global = True, v_gaddr = a\<rparr>],
       g_globals := v # g_globals s\<rparr>)) (\<lambda>_. ret v)))))"

definition new_binary :: "binop \<Rightarrow> node_t \<Rightarrow> node_t \<Rightarrow> node_t pm" where
  "new_binary k l r = seqn new_node (\<lambda>_. ret (ND_BIN k (Some ty_int) l r))"

definition new_logand :: "node_t \<Rightarrow> node_t \<Rightarrow> node_t pm" where
  "new_logand l r = seqn new_node (\<lambda>_. ret (ND_LOGAND (Some ty_int) l r))"

definition new_logor :: "node_t \<Rightarrow> node_t \<Rightarrow> node_t pm" where
  "new_logor l r = seqn new_node (\<lambda>_. ret (ND_LOGOR (Some ty_int) l r))"

definition base_of :: "pst \<Rightarrow> tid option \<Rightarrow> tid option" where
  "base_of s t = (case t of None \<Rightarrow> None | Some i \<Rightarrow> ty_base (p_types s ! i))"

definition base_size :: "pst \<Rightarrow> tid option \<Rightarrow> int" where
  "base_size s t = (case base_of s t of None \<Rightarrow> 1 | Some b \<Rightarrow> ty_size (p_types s ! b))"

text \<open>The operand of pointer arithmetic scaled by the size of the base type, combined into a pointer.\<close>

definition scaled_ptr :: "binop \<Rightarrow> node_t \<Rightarrow> node_t \<Rightarrow> node_t pm" where
  "scaled_ptr k l r =
     seqn (gets (\<lambda>s. base_size s (nd_ty l))) (\<lambda>sz.
     seqn (new_num (of_int sz)) (\<lambda>c.
     seqn (new_binary ND_MUL r c) (\<lambda>scaled.
     seqn (new_binary k l scaled) (\<lambda>_.
     seqn (gets (\<lambda>s. base_of s (nd_ty l))) (\<lambda>b.
     seqn (ty_ptr_to b) (\<lambda>t.
     ret (ND_BIN k (Some t) l scaled)))))))"

definition new_add :: "node_t \<Rightarrow> node_t \<Rightarrow> node_t pm" where
  "new_add l r =
     seqn (gets (\<lambda>s. (ty_is_ptrlike s (nd_ty l), ty_is_ptrlike s (nd_ty r)))) (\<lambda>(lp, rp).
     if \<not> lp \<and> \<not> rp then new_binary ND_ADD l r
     else if lp \<and> rp then seqn (perror ''pointer + pointer'') (\<lambda>_. ret l)
     else if \<not> lp \<and> rp then scaled_ptr ND_ADD r l
     else scaled_ptr ND_ADD l r)"

definition new_sub :: "node_t \<Rightarrow> node_t \<Rightarrow> node_t pm" where
  "new_sub l r =
     seqn (gets (\<lambda>s. (ty_is_ptrlike s (nd_ty l), ty_is_ptrlike s (nd_ty r)))) (\<lambda>(lp, rp).
     if \<not> lp \<and> \<not> rp then new_binary ND_SUB l r
     else if lp \<and> \<not> rp then scaled_ptr ND_SUB l r
     else if lp \<and> rp then
       seqn (gets (\<lambda>s. base_size s (nd_ty l))) (\<lambda>sz.
       seqn (new_binary ND_SUB l r) (\<lambda>d.
       seqn (new_num (of_int sz)) (\<lambda>c.
       new_binary ND_DIV d c)))
     else seqn (perror ''int - pointer'') (\<lambda>_. ret l))"

section \<open>Type specifiers\<close>

text \<open>The array suffix of a declarator: \<open>"[" num "]"\<close>, with the cast of the length to a 32-bit \<open>int\<close>.\<close>

definition array_suffix :: "tid \<Rightarrow> tid pm" where
  "array_suffix ty =
     seqn (consume ''['') (\<lambda>b.
     if \<not> b then ret ty
     else
       seqn peek (\<lambda>t.
       seqn (if is_num t then ret () else perror ''array length must be a constant'') (\<lambda>_.
       seqn advance (\<lambda>_.
       seqn (expect '']'') (\<lambda>_.
       ty_array_of ty (sint (ucast (tok_val t) :: 32 word)))))))"

fun stars :: "nat \<Rightarrow> tid \<Rightarrow> tid pm" where
  "stars 0 ty = halt NO_FUEL"
| "stars (Suc n) ty =
     seqn (at_punct ''*'') (\<lambda>b.
     if b then seqn advance (\<lambda>_. seqn (ty_ptr_to (Some ty)) (\<lambda>ty. stars n ty)) else ret ty)"

definition struct_tag :: "string option pm" where
  "struct_tag =
     seqn peek (\<lambda>t. case t of TK_IDENT x \<Rightarrow> seqn advance (\<lambda>_. ret (Some x)) | _ \<Rightarrow> ret None)"

definition struct_ref :: "string option \<Rightarrow> tid pm" where
  "struct_ref tag =
     (case tag of
        None \<Rightarrow> seqn (perror ''anonymous struct without a body'') (\<lambda>_. ret ty_int)
      | Some x \<Rightarrow>
          seqn (gets (\<lambda>s. find_struct s x)) (\<lambda>r.
          case r of None \<Rightarrow> seqn (perror ''unknown struct tag'') (\<lambda>_. ret ty_int) | Some t \<Rightarrow> ret t))"

definition add_member :: "string \<Rightarrow> tid \<Rightarrow> member_t list \<times> int \<Rightarrow> (member_t list \<times> int) pm" where
  "add_member name ty = (\<lambda>(ms, off).
     seqn (gets (\<lambda>s. ty_size (p_types s ! ty))) (\<lambda>sz.
     seqn (palloc MEMBER_SIZE) (\<lambda>_.
     let off = p_align_up off (if 8 \<le> sz then 8 else 1)
     in ret (ms @ [\<lparr>m_name = name, m_ty = ty, m_offset = off\<rparr>], off + sz))))"

definition tag_struct :: "string option \<Rightarrow> tid \<Rightarrow> unit pm" where
  "tag_struct tag st = (case tag of None \<Rightarrow> ret () | Some x \<Rightarrow> register_struct x st)"

definition close_struct :: "tid \<Rightarrow> member_t list \<times> int \<Rightarrow> tid pm" where
  "close_struct st acc =
     seqn (expect ''}'') (\<lambda>_.
     seqn (upd (\<lambda>s. s\<lparr>p_types := (p_types s)[st := (p_types s ! st)\<lparr>ty_members := fst acc, ty_size := p_align_up (snd acc) 8\<rparr>]\<rparr>)) (\<lambda>_.
     ret st))"

fun declspec :: "nat \<Rightarrow> tid pm"
  and struct_decl :: "nat \<Rightarrow> tid pm"
  and member_loop :: "nat \<Rightarrow> member_t list \<times> int \<Rightarrow> (member_t list \<times> int) pm" where
  "declspec 0 = halt NO_FUEL"
| "declspec (Suc n) =
     seqn (consume ''int'') (\<lambda>b. if b then stars n ty_int else
     seqn (consume ''char'') (\<lambda>b. if b then stars n ty_char else
     seqn (consume ''struct'') (\<lambda>b. if b then seqn (struct_decl n) (\<lambda>ty. stars n ty) else
     seqn peek (\<lambda>t.
     seqn (gets (\<lambda>s. case t of TK_IDENT x \<Rightarrow> find_typedef s x | _ \<Rightarrow> None)) (\<lambda>r.
     case r of
       Some ty \<Rightarrow> seqn advance (\<lambda>_. stars n ty)
     | None \<Rightarrow> seqn (perror ''expected type'') (\<lambda>_. ret ty_int))))))"
| "struct_decl 0 = halt NO_FUEL"
| "struct_decl (Suc n) =
     seqn struct_tag (\<lambda>tag.
     seqn (at_punct ''{'') (\<lambda>b.
     if \<not> b then struct_ref tag
     else
       seqn advance (\<lambda>_.
       seqn (new_type \<lparr>ty_kind = TY_STRUCT, ty_size = 0, ty_base = None, ty_arraylen = 0, ty_members = []\<rparr>) (\<lambda>st.
       seqn (tag_struct tag st) (\<lambda>_.
       seqn (member_loop n ([], 0)) (close_struct st))))))"
| "member_loop 0 acc = halt NO_FUEL"
| "member_loop (Suc n) acc =
     seqn (at_punct ''}'') (\<lambda>b. if b then ret acc else
     seqn peek (\<lambda>t. if t = TK_EOF then ret acc else
     seqn (declspec n) (\<lambda>mty.
     seqn peek (\<lambda>t. case t of
       TK_IDENT mname \<Rightarrow>
         seqn advance (\<lambda>_.
         seqn (array_suffix mty) (\<lambda>mty.
         seqn (expect '';'') (\<lambda>_.
         seqn (add_member mname mty acc) (\<lambda>acc.
         seqn failed (\<lambda>f. if f then ret acc else member_loop n acc)))))
     | _ \<Rightarrow> seqn (perror ''expected member name'') (\<lambda>_. ret acc)))))"

definition looks_like_type :: "pst \<Rightarrow> token_t list \<Rightarrow> bool" where
  "looks_like_type s ts =
     (is_kw ts ''int'' \<or> is_kw ts ''char'' \<or> is_kw ts ''struct'' \<or>
      (case ts of TK_IDENT x # _ \<Rightarrow> find_typedef s x \<noteq> None | _ \<Rightarrow> False))"

section \<open>Expressions\<close>

text \<open>The functions of the expression grammar take the parser for assignment expressions, \<open>asg\<close>, and
  the fuel of their loops.\<close>

fun args_loop :: "nat \<Rightarrow> node_t pm \<Rightarrow> node_t list \<Rightarrow> node_t list pm" where
  "args_loop 0 asg as = halt NO_FUEL"
| "args_loop (Suc n) asg as =
     seqn (consume '','') (\<lambda>b. if b then seqn asg (\<lambda>a. args_loop n asg (as @ [a])) else ret as)"

definition call_expr :: "nat \<Rightarrow> node_t pm \<Rightarrow> string \<Rightarrow> node_t pm" where
  "call_expr n asg name =
     seqn new_node (\<lambda>_.
     seqn (at_punct '')'') (\<lambda>b.
     seqn (if b then ret [] else seqn asg (\<lambda>a. args_loop n asg [a])) (\<lambda>as.
     seqn (expect '')'') (\<lambda>_.
     ret (ND_FUNCALL (Some ty_int) name as)))))"

definition var_expr :: "string \<Rightarrow> node_t pm" where
  "var_expr name =
     seqn (gets (\<lambda>s. find_var s name)) (\<lambda>r.
     case r of
       None \<Rightarrow> seqn (perror ''undefined variable'') (\<lambda>_. new_num 0)
     | Some v \<Rightarrow>
         seqn new_node (\<lambda>_.
         seqn (gets (\<lambda>s. v_ty (p_vars s ! v))) (\<lambda>t.
         ret (ND_VAR (Some t) v))))"

definition primary :: "nat \<Rightarrow> node_t pm \<Rightarrow> node_t pm" where
  "primary n asg =
     seqn (consume ''('') (\<lambda>b.
     if b then seqn asg (\<lambda>e. seqn (expect '')'') (\<lambda>_. ret e))
     else
       seqn peek (\<lambda>t.
       case t of
         TK_NUM v \<Rightarrow> seqn (new_num v) (\<lambda>e. seqn advance (\<lambda>_. ret e))
       | TK_STR b a \<Rightarrow>
           seqn new_node (\<lambda>_.
           seqn (ty_ptr_to (Some ty_char)) (\<lambda>t.
           seqn advance (\<lambda>_.
           ret (ND_STR (Some t) a))))
       | TK_IDENT name \<Rightarrow>
           seqn advance (\<lambda>_.
           seqn (consume ''('') (\<lambda>b. if b then call_expr n asg name else var_expr name))
       | _ \<Rightarrow> seqn (perror ''expected expression'') (\<lambda>_. new_num 0)))"

definition index_expr :: "node_t \<Rightarrow> node_t \<Rightarrow> node_t pm" where
  "index_expr e i =
     seqn (new_add e i) (\<lambda>add.
     seqn new_node (\<lambda>_.
     seqn (gets (\<lambda>s. base_of s (nd_ty add))) (\<lambda>b.
     ret (ND_DEREF (Some (case b of Some t \<Rightarrow> t | None \<Rightarrow> ty_int)) add))))"

fun postfix_loop :: "nat \<Rightarrow> node_t pm \<Rightarrow> node_t \<Rightarrow> node_t pm" where
  "postfix_loop 0 asg e = halt NO_FUEL"
| "postfix_loop (Suc n) asg e =
     seqn (at_punct ''['') (\<lambda>b.
     if b then
       seqn advance (\<lambda>_.
       seqn asg (\<lambda>i.
       seqn (expect '']'') (\<lambda>_.
       seqn (index_expr e i) (\<lambda>e. postfix_loop n asg e))))
     else
     seqn (at_punct ''.'') (\<lambda>b.
     if b then
       seqn advance (\<lambda>_.
       seqn peek (\<lambda>t. case t of
         TK_IDENT x \<Rightarrow>
           seqn (gets (\<lambda>s. find_member s (nd_ty e) x)) (\<lambda>m.
           seqn advance (\<lambda>_. case m of
             None \<Rightarrow> seqn (perror ''no such struct member'') (\<lambda>_. ret e)
           | Some m \<Rightarrow> seqn new_node (\<lambda>_. postfix_loop n asg (ND_MEMBER (Some (m_ty m)) e (m_offset m)))))
       | _ \<Rightarrow> seqn (perror (''expected member name after '' @ [CHR 0x27, CHR ''.'', CHR 0x27])) (\<lambda>_. ret e)))
     else
     seqn (at_punct ''->'') (\<lambda>b.
     if b then
       seqn advance (\<lambda>_.
       seqn peek (\<lambda>t. case t of
         TK_IDENT x \<Rightarrow>
           seqn (gets (\<lambda>s. case nd_ty e of
               Some i \<Rightarrow> if ty_kind (p_types s ! i) = TY_PTR then ty_base (p_types s ! i) else None | None \<Rightarrow> None)) (\<lambda>st.
           seqn (gets (\<lambda>s. find_member s st x)) (\<lambda>m.
           seqn advance (\<lambda>_. case m of
             None \<Rightarrow> seqn (perror ''no such struct member (->)'') (\<lambda>_. ret e)
           | Some m \<Rightarrow>
               seqn new_node (\<lambda>_. seqn new_node (\<lambda>_.
               postfix_loop n asg (ND_MEMBER (Some (m_ty m)) (ND_DEREF st e) (m_offset m)))))))
       | _ \<Rightarrow> seqn (perror (''expected member name after '' @ [CHR 0x27, CHR ''-'', CHR ''>'', CHR 0x27])) (\<lambda>_. ret e)))
     else ret e)))"

definition postfix :: "nat \<Rightarrow> node_t pm \<Rightarrow> node_t pm" where
  "postfix n asg = seqn (primary n asg) (\<lambda>e. postfix_loop n asg e)"

definition size_of :: "pst \<Rightarrow> tid option \<Rightarrow> int" where
  "size_of s t = (case t of Some i \<Rightarrow> ty_size (p_types s ! i) | None \<Rightarrow> 8)"

definition deref_expr :: "node_t \<Rightarrow> node_t pm" where
  "deref_expr e =
     seqn (gets (\<lambda>s. ty_is_ptrlike s (nd_ty e))) (\<lambda>b.
     if \<not> b then seqn (perror ''dereference of non-pointer'') (\<lambda>_. ret (ND_DEREF (Some ty_int) e))
     else seqn (gets (\<lambda>s. base_of s (nd_ty e))) (\<lambda>t. ret (ND_DEREF t e)))"

text \<open>Unary operators nest on fuel \<open>k\<close>; every level has used up a token.\<close>

fun unary :: "nat \<Rightarrow> nat \<Rightarrow> node_t pm \<Rightarrow> node_t pm" where
  "unary 0 n asg = halt NO_FUEL"
| "unary (Suc k) n asg =
     seqn (consume ''sizeof'') (\<lambda>b.
     if b then
       seqn (gets (\<lambda>s. is_punct (tk s) ''('' \<and> looks_like_type s (tl (tk s)))) (\<lambda>b.
       if b then
         seqn advance (\<lambda>_.
         seqn (declspec n) (\<lambda>t.
         seqn (expect '')'') (\<lambda>_.
         seqn (gets (\<lambda>s. size_of s (Some t))) (\<lambda>sz. new_num (of_int sz)))))
       else
         seqn (unary k n asg) (\<lambda>e.
         seqn (gets (\<lambda>s. size_of s (nd_ty e))) (\<lambda>sz. new_num (of_int sz))))
     else
     seqn (consume ''+'') (\<lambda>b. if b then unary k n asg else
     seqn (consume ''-'') (\<lambda>b.
     if b then seqn new_node (\<lambda>_. seqn (unary k n asg) (\<lambda>e. ret (ND_NEG (Some ty_int) e))) else
     seqn (consume ''!'') (\<lambda>b.
     if b then seqn new_node (\<lambda>_. seqn (unary k n asg) (\<lambda>e. ret (ND_NOT (Some ty_int) e))) else
     seqn (consume ''*'') (\<lambda>b.
     if b then seqn new_node (\<lambda>_. seqn (unary k n asg) deref_expr) else
     seqn (consume ''&'') (\<lambda>b.
     if b then seqn new_node (\<lambda>_. seqn (unary k n asg) (\<lambda>e. seqn (ty_ptr_to (nd_ty e)) (\<lambda>t. ret (ND_ADDR (Some t) e)))) else
     postfix n asg))))))"

text \<open>The loop of a left-associative level: its operators in the order the code tries them, each with
  the node it builds.\<close>

type_synonym binops = "(string \<times> (node_t \<Rightarrow> node_t \<Rightarrow> node_t pm)) list"

fun consume_op :: "binops \<Rightarrow> (node_t \<Rightarrow> node_t \<Rightarrow> node_t pm) option pm" where
  "consume_op [] = ret None"
| "consume_op ((w, f) # fs) = seqn (consume w) (\<lambda>b. if b then ret (Some f) else consume_op fs)"

fun left_loop :: "nat \<Rightarrow> binops \<Rightarrow> node_t pm \<Rightarrow> node_t \<Rightarrow> node_t pm" where
  "left_loop 0 fs arg e = halt NO_FUEL"
| "left_loop (Suc n) fs arg e =
     seqn (consume_op fs) (\<lambda>r. case r of
       None \<Rightarrow> ret e
     | Some f \<Rightarrow> seqn arg (\<lambda>a. seqn (f e a) (\<lambda>e. left_loop n fs arg e)))"

definition left_assoc :: "nat \<Rightarrow> binops \<Rightarrow> node_t pm \<Rightarrow> node_t pm" where
  "left_assoc n fs arg = seqn arg (\<lambda>e. left_loop n fs arg e)"

definition mul :: "nat \<Rightarrow> node_t pm \<Rightarrow> node_t pm" where
  "mul n asg =
     left_assoc n [(''*'', new_binary ND_MUL), (''/'', new_binary ND_DIV), (''%'', new_binary ND_MOD)] (unary n n asg)"

definition add_expr :: "nat \<Rightarrow> node_t pm \<Rightarrow> node_t pm" where
  "add_expr n asg = left_assoc n [(''+'', new_add), (''-'', new_sub)] (mul n asg)"

definition relational :: "nat \<Rightarrow> node_t pm \<Rightarrow> node_t pm" where
  "relational n asg =
     left_assoc n
       [(''<'', new_binary ND_LT), (''<='', new_binary ND_LE),
        (''>'', \<lambda>l r. new_binary ND_LT r l), (''>='', \<lambda>l r. new_binary ND_LE r l)] (add_expr n asg)"

definition equality :: "nat \<Rightarrow> node_t pm \<Rightarrow> node_t pm" where
  "equality n asg = left_assoc n [(''=='', new_binary ND_EQ), (''!='', new_binary ND_NE)] (relational n asg)"

definition logand :: "nat \<Rightarrow> node_t pm \<Rightarrow> node_t pm" where
  "logand n asg = left_assoc n [(''&&'', new_logand)] (equality n asg)"

definition logor :: "nat \<Rightarrow> node_t pm \<Rightarrow> node_t pm" where
  "logor n asg = left_assoc n [(''||'', new_logor)] (logand n asg)"

fun assign :: "nat \<Rightarrow> node_t pm" where
  "assign 0 = halt NO_FUEL"
| "assign (Suc n) =
     seqn (logor n (assign n)) (\<lambda>l.
     seqn (consume ''='') (\<lambda>b.
     if b then seqn new_node (\<lambda>_. seqn (assign n) (\<lambda>r. ret (ND_ASSIGN (nd_ty l) l r))) else ret l))"

definition expr :: "nat \<Rightarrow> node_t pm" where "expr n = assign n"

section \<open>Declarations and statements\<close>

definition expr_stmt :: "nat \<Rightarrow> node_t pm" where
  "expr_stmt n = seqn new_node (\<lambda>_. seqn (expr n) (\<lambda>e. seqn (expect '';'') (\<lambda>_. ret (ND_EXPR_STMT e))))"

definition init_stmt :: "nat \<Rightarrow> varid \<Rightarrow> node_t pm" where
  "init_stmt n v =
     seqn (gets (\<lambda>s. v_ty (p_vars s ! v))) (\<lambda>t.
     seqn new_node (\<lambda>_.
     seqn new_node (\<lambda>_.
     seqn (assign n) (\<lambda>r.
     seqn new_node (\<lambda>_.
     ret (ND_EXPR_STMT (ND_ASSIGN (Some t) (ND_VAR (Some t) v) r)))))))"

fun declarators :: "nat \<Rightarrow> nat \<Rightarrow> tid \<Rightarrow> node_t list \<Rightarrow> node_t list pm" where
  "declarators 0 n ty as = halt NO_FUEL"
| "declarators (Suc k) n base as =
     seqn peek (\<lambda>t. case t of
       TK_IDENT name \<Rightarrow>
         seqn advance (\<lambda>_.
         seqn (array_suffix base) (\<lambda>ty.
         seqn (new_local name ty) (\<lambda>v.
         seqn (consume ''='') (\<lambda>b.
         seqn (if b then seqn (init_stmt n v) (\<lambda>e. ret (as @ [e])) else ret as) (\<lambda>as.
         seqn failed (\<lambda>f. if f then ret as else
         seqn (consume '','') (\<lambda>b. if b then declarators k n base as else ret as)))))))
     | _ \<Rightarrow> seqn (perror ''expected identifier in declaration'') (\<lambda>_. ret as))"

definition cc_declaration :: "nat \<Rightarrow> node_t pm" where
  "cc_declaration n =
     seqn (declspec n) (\<lambda>base.
     seqn new_node (\<lambda>_.
     seqn (declarators n n base []) (\<lambda>as.
     seqn (expect '';'') (\<lambda>_.
     ret (ND_BLOCK as)))))"

text \<open>A constant with an optional sign, as after \<open>case\<close> and in the initialiser of a global.\<close>

definition signed_const :: "string \<Rightarrow> u64 pm" where
  "signed_const msg =
     seqn (at_punct ''-'') (\<lambda>neg.
     seqn (if neg then advance else ret ()) (\<lambda>_.
     seqn peek (\<lambda>t.
     if \<not> is_num t then seqn (perror msg) (\<lambda>_. ret 0)
     else seqn advance (\<lambda>_. ret (if neg then - tok_val t else tok_val t)))))"

definition add_case :: "bool \<Rightarrow> u64 \<Rightarrow> nat pm" where
  "add_case def v =
     seqn new_node (\<lambda>_.
     seqn (gets p_ncase) (\<lambda>i.
     seqn (upd (\<lambda>s. s\<lparr>p_ncase := i + 1,
       cur_switch := map_option (\<lambda>cs. (i, def, v) # cs) (cur_switch s)\<rparr>)) (\<lambda>_. ret i)))"

definition outside_switch :: "string \<Rightarrow> unit pm" where
  "outside_switch msg = seqn (gets cur_switch) (\<lambda>c. if c = None then perror msg else ret ())"

definition paren_expr :: "nat \<Rightarrow> node_t pm" where
  "paren_expr n = seqn (expect ''('') (\<lambda>_. seqn (expr n) (\<lambda>c. seqn (expect '')'') (\<lambda>_. ret c)))"

definition opt_expr :: "nat \<Rightarrow> string \<Rightarrow> node_t option pm" where
  "opt_expr n w = seqn (at_punct w) (\<lambda>b. if b then ret None else seqn (expr n) (\<lambda>e. ret (Some e)))"

fun block_loop :: "nat \<Rightarrow> nat \<Rightarrow> node_t pm \<Rightarrow> node_t list \<Rightarrow> node_t list pm" where
  "block_loop 0 n st ns = halt NO_FUEL"
| "block_loop (Suc k) n st ns =
     seqn (at_punct ''}'') (\<lambda>b. if b then ret ns else
     seqn peek (\<lambda>t. if t = TK_EOF then ret ns else
     seqn (gets (\<lambda>s. looks_like_type s (tk s))) (\<lambda>d.
     seqn (if d then cc_declaration n else st) (\<lambda>x.
     seqn failed (\<lambda>f. if f then ret (ns @ [x]) else block_loop k n st (ns @ [x]))))))"

fun stmt :: "nat \<Rightarrow> node_t pm" where
  "stmt 0 = halt NO_FUEL"
| "stmt (Suc n) =
     seqn (consume ''return'') (\<lambda>b.
     if b then seqn new_node (\<lambda>_. seqn (expr n) (\<lambda>e. seqn (expect '';'') (\<lambda>_. ret (ND_RETURN e)))) else
     seqn (consume ''if'') (\<lambda>b.
     if b then
       seqn new_node (\<lambda>_.
       seqn (paren_expr n) (\<lambda>c.
       seqn (stmt n) (\<lambda>t.
       seqn (consume ''else'') (\<lambda>b.
       if b then seqn (stmt n) (\<lambda>e. ret (ND_IF c t (Some e))) else ret (ND_IF c t None))))) else
     seqn (consume ''while'') (\<lambda>b.
     if b then seqn new_node (\<lambda>_. seqn (paren_expr n) (\<lambda>c. seqn (stmt n) (\<lambda>t. ret (ND_WHILE c t)))) else
     seqn (consume ''for'') (\<lambda>b.
     if b then
       seqn new_node (\<lambda>_.
       seqn (expect ''('') (\<lambda>_.
       seqn (consume '';'') (\<lambda>b.
       seqn (if b then ret None
             else seqn new_node (\<lambda>_. seqn (expr n) (\<lambda>e. seqn (expect '';'') (\<lambda>_. ret (Some (ND_EXPR_STMT e)))))) (\<lambda>i.
       seqn (opt_expr n '';'') (\<lambda>c.
       seqn (expect '';'') (\<lambda>_.
       seqn (opt_expr n '')'') (\<lambda>u.
       seqn (expect '')'') (\<lambda>_.
       seqn (stmt n) (\<lambda>t. ret (ND_FOR i c u t)))))))))) else
     seqn (consume ''switch'') (\<lambda>b.
     if b then
       seqn new_node (\<lambda>_.
       seqn (paren_expr n) (\<lambda>c.
       seqn (gets cur_switch) (\<lambda>prev.
       seqn (upd (\<lambda>s. s\<lparr>cur_switch := Some []\<rparr>)) (\<lambda>_.
       seqn (stmt n) (\<lambda>t.
       seqn (gets cur_switch) (\<lambda>cs.
       seqn (upd (\<lambda>s. s\<lparr>cur_switch := prev\<rparr>)) (\<lambda>_.
       ret (ND_SWITCH c (case cs of Some cs \<Rightarrow> cs | None \<Rightarrow> []) t)))))))) else
     seqn (consume ''case'') (\<lambda>b.
     if b then
       seqn (outside_switch ''case outside switch'') (\<lambda>_.
       seqn (signed_const ''case label must be an integer constant'') (\<lambda>v.
       seqn (expect '':'') (\<lambda>_.
       seqn (add_case False v) (\<lambda>i.
       seqn (stmt n) (\<lambda>t. ret (ND_CASE i t)))))) else
     seqn (consume ''default'') (\<lambda>b.
     if b then
       seqn (outside_switch ''default outside switch'') (\<lambda>_.
       seqn (expect '':'') (\<lambda>_.
       seqn (add_case True 0) (\<lambda>i.
       seqn (stmt n) (\<lambda>t. ret (ND_CASE i t))))) else
     seqn (consume ''break'') (\<lambda>b.
     if b then seqn (expect '';'') (\<lambda>_. seqn new_node (\<lambda>_. ret ND_BREAK)) else
     seqn (consume ''continue'') (\<lambda>b.
     if b then seqn (expect '';'') (\<lambda>_. seqn new_node (\<lambda>_. ret ND_CONTINUE)) else
     seqn (at_punct ''{'') (\<lambda>b.
     if b then
       seqn advance (\<lambda>_.
       seqn new_node (\<lambda>_.
       seqn (block_loop n n (stmt n) []) (\<lambda>ns.
       seqn (expect ''}'') (\<lambda>_.
       ret (ND_BLOCK ns)))))
     else expr_stmt n))))))))))"

section \<open>Functions, globals and the program\<close>

fun param_loop :: "nat \<Rightarrow> nat \<Rightarrow> varid list \<Rightarrow> varid list pm" where
  "param_loop 0 n ps = halt NO_FUEL"
| "param_loop (Suc k) n ps =
     seqn (declspec n) (\<lambda>pty.
     seqn peek (\<lambda>t. case t of
       TK_IDENT pname \<Rightarrow>
         seqn advance (\<lambda>_.
         seqn (new_local pname pty) (\<lambda>v.
         seqn (consume '','') (\<lambda>b. if b then param_loop k n (ps @ [v]) else ret (ps @ [v]))))
     | _ \<Rightarrow> seqn (perror ''expected parameter name'') (\<lambda>_. ret ps)))"

definition function_body :: "nat \<Rightarrow> func_t \<Rightarrow> func_t pm" where
  "function_body n fn =
     seqn (at_punct ''{'') (\<lambda>b.
     if \<not> b then seqn (perror ''expected function body'') (\<lambda>_. ret fn)
     else
       seqn (stmt n) (\<lambda>body.
       seqn (gets cur_locals) (\<lambda>ls.
       ret (fn\<lparr>f_locals := ls, f_body := Some body\<rparr>))))"

definition function_rest :: "nat \<Rightarrow> tid \<Rightarrow> string \<Rightarrow> func_t pm" where
  "function_rest n rt name =
     seqn (palloc FUNC_SIZE) (\<lambda>_.
     seqn (upd (\<lambda>s. s\<lparr>cur_locals := []\<rparr>)) (\<lambda>_.
     seqn (expect ''('') (\<lambda>_.
     seqn (at_punct '')'') (\<lambda>b.
     seqn (if b then ret [] else param_loop n n []) (\<lambda>ps.
     seqn (expect '')'') (\<lambda>_.
     seqn (if 8 < length ps then perror ''too many parameters (max 8)'' else ret ()) (\<lambda>_.
     function_body n \<lparr>f_name = name, f_ret = rt, f_params = take 8 ps, f_locals = [], f_body = None\<rparr>)))))))"

definition store_long :: "u64 \<Rightarrow> u64 \<Rightarrow> (u64 \<Rightarrow> u8) \<Rightarrow> u64 \<Rightarrow> u8" where
  "store_long a v m x = (if x - a < 8 then ucast (drop_bit (8 * unat (x - a)) v) else m x)"

definition global_decl :: "nat \<Rightarrow> tid \<Rightarrow> string \<Rightarrow> unit pm" where
  "global_decl n base name =
     seqn (array_suffix base) (\<lambda>ty.
     seqn (new_global name ty) (\<lambda>v.
     seqn (consume ''='') (\<lambda>b.
     seqn (if \<not> b then ret ()
           else
             seqn (signed_const ''global initializer must be an integer constant'') (\<lambda>c.
             upd (\<lambda>s. let a = v_gaddr (p_vars s ! v) in
               if ty_size (p_types s ! ty) = 1 then s\<lparr>a_mem := (a_mem s)(a := ucast c)\<rparr>
               else s\<lparr>a_mem := store_long a c (a_mem s)\<rparr>))) (\<lambda>_.
     expect '';''))))"

definition typedef_decl :: "nat \<Rightarrow> bool pm" where
  "typedef_decl n =
     seqn (declspec n) (\<lambda>t.
     seqn peek (\<lambda>x. case x of
       TK_IDENT name \<Rightarrow>
         seqn (register_typedef name t) (\<lambda>_.
         seqn advance (\<lambda>_.
         seqn (expect '';'') (\<lambda>_. ret True)))
     | _ \<Rightarrow> seqn (perror ''expected typedef name'') (\<lambda>_. ret False)))"

definition definition_of :: "nat \<Rightarrow> tid \<Rightarrow> string \<Rightarrow> func_t list \<Rightarrow> func_t list pm" where
  "definition_of n base name fs =
     seqn (at_punct ''('') (\<lambda>b.
     if b then seqn (function_rest n base name) (\<lambda>f. ret (fs @ [f]))
     else seqn (global_decl n base name) (\<lambda>_. ret fs))"

text \<open>The loop of \<open>cc_parse\<close>. \<open>None\<close> is its early return of 0.\<close>

fun parse_loop :: "nat \<Rightarrow> nat \<Rightarrow> func_t list \<Rightarrow> func_t list option pm" where
  "parse_loop 0 n fs = halt NO_FUEL"
| "parse_loop (Suc k) n fs =
     seqn (gets tk) (\<lambda>ts. if ts = [] \<or> hd ts = TK_EOF then ret (Some fs) else
     seqn (consume ''typedef'') (\<lambda>b.
     if b then seqn (typedef_decl n) (\<lambda>ok. if ok then parse_loop k n fs else ret None)
     else
       seqn (declspec n) (\<lambda>base.
       seqn (consume '';'') (\<lambda>b. if b then parse_loop k n fs else
       seqn peek (\<lambda>x. case x of
         TK_IDENT name \<Rightarrow>
           seqn advance (\<lambda>_.
           seqn (definition_of n base name fs) (\<lambda>fs.
           seqn failed (\<lambda>e. if e then ret None else parse_loop k n fs)))
       | _ \<Rightarrow> seqn (perror ''expected identifier at top level'') (\<lambda>_. ret None))))))"

definition cc_parse :: "nat \<Rightarrow> token_t list \<Rightarrow> func_t list option pm" where
  "cc_parse n toks =
     seqn (upd (\<lambda>s. s\<lparr>tk := toks, g_globals := [], g_structs := [], g_typedefs := []\<rparr>)) (\<lambda>_.
     parse_loop n n [])"

text \<open>The bound on the recursion depth for a token list.\<close>

definition parse_fuel :: "token_t list \<Rightarrow> nat" where "parse_fuel ts = 2 * length ts + 1"

text \<open>The front end as the drivers of \<open>cc.c\<close> call it: nothing is parsed after a lexical error.\<close>

definition cc_front :: "string \<Rightarrow> func_t list option pm" where
  "cc_front src =
     seqn (cc_lex src) (\<lambda>toks.
     seqn failed (\<lambda>e. if e then ret None else cc_parse (parse_fuel toks) toks))"

section \<open>Evaluation\<close>

text \<open>The recursive functions unfold only when they are applied to a state.\<close>

declare
  stars.simps [code del]
  declspec.simps [code del]
  struct_decl.simps [code del]
  member_loop.simps [code del]
  args_loop.simps [code del]
  postfix_loop.simps [code del]
  unary.simps [code del]
  consume_op.simps [code del]
  left_loop.simps [code del]
  assign.simps [code del]
  declarators.simps [code del]
  block_loop.simps [code del]
  stmt.simps [code del]
  param_loop.simps [code del]
  parse_loop.simps [code del]

lemmas parser_code [code] =
  stars.simps [THEN fun_cong]
  declspec.simps [THEN fun_cong]
  struct_decl.simps [THEN fun_cong]
  member_loop.simps [THEN fun_cong]
  args_loop.simps [THEN fun_cong]
  postfix_loop.simps [THEN fun_cong]
  unary.simps [THEN fun_cong]
  consume_op.simps [THEN fun_cong]
  left_loop.simps [THEN fun_cong]
  assign.simps [THEN fun_cong]
  declarators.simps [THEN fun_cong]
  block_loop.simps [THEN fun_cong]
  stmt.simps [THEN fun_cong]
  param_loop.simps [THEN fun_cong]
  parse_loop.simps [THEN fun_cong]

end
