(* ===== verification/Cc_Parse_Safe.thy ===== *)
theory Cc_Parse_Safe
  imports Cc_Parse
begin

text \<open>
  The parser of \<open>cc/parse.c\<close> returns on every token list, never follows a null cursor and builds only
  well-formed trees. The invariant \<open>pinv\<close> says that the cursor stands in a list that ends in \<open>TK_EOF\<close> and
  that every index in the stores and registries is in range; \<open>prel\<close> relates the states before and
  after a call: tokens only go away, objects only come, an error stays. \<open>fine m f R\<close> is the contract of a
  parser function: from any such state with at most \<open>m\<close> tokens left it returns such a state, with \<open>R\<close> of
  its result, or stops because the arena is exhausted. The expression grammar is verified once, in a
  locale over the contract of the parser for assignments that it calls.
\<close>

section \<open>Well-formed trees\<close>

text \<open>Expressions carry a type; statements have expressions and statements in the places the code
  generator expects them.\<close>

fun expr_wf :: "node_t \<Rightarrow> bool" where
  "expr_wf (ND_NUM t v) = (t \<noteq> None)"
| "expr_wf (ND_VAR t v) = (t \<noteq> None)"
| "expr_wf (ND_STR t a) = (t \<noteq> None)"
| "expr_wf (ND_BIN k t l r) = (t \<noteq> None \<and> expr_wf l \<and> expr_wf r)"
| "expr_wf (ND_LOGAND t l r) = (t \<noteq> None \<and> expr_wf l \<and> expr_wf r)"
| "expr_wf (ND_LOGOR t l r) = (t \<noteq> None \<and> expr_wf l \<and> expr_wf r)"
| "expr_wf (ND_NOT t l) = (t \<noteq> None \<and> expr_wf l)"
| "expr_wf (ND_NEG t l) = (t \<noteq> None \<and> expr_wf l)"
| "expr_wf (ND_ASSIGN t l r) = (t \<noteq> None \<and> expr_wf l \<and> expr_wf r)"
| "expr_wf (ND_ADDR t l) = (t \<noteq> None \<and> expr_wf l)"
| "expr_wf (ND_DEREF t l) = (t \<noteq> None \<and> expr_wf l)"
| "expr_wf (ND_MEMBER t l off) = (t \<noteq> None \<and> expr_wf l)"
| "expr_wf (ND_FUNCALL t f as) = (t \<noteq> None \<and> list_all expr_wf as)"
| "expr_wf _ = False"

fun stmt_wf :: "node_t \<Rightarrow> bool" where
  "stmt_wf (ND_RETURN e) = expr_wf e"
| "stmt_wf (ND_IF c t e) = (expr_wf c \<and> stmt_wf t \<and> (case e of None \<Rightarrow> True | Some e \<Rightarrow> stmt_wf e))"
| "stmt_wf (ND_WHILE c b) = (expr_wf c \<and> stmt_wf b)"
| "stmt_wf (ND_FOR i c u b) =
     ((case i of None \<Rightarrow> True | Some e \<Rightarrow> stmt_wf e) \<and> pred_option expr_wf c \<and> pred_option expr_wf u \<and> stmt_wf b)"
| "stmt_wf (ND_BLOCK ns) = list_all stmt_wf ns"
| "stmt_wf (ND_EXPR_STMT e) = expr_wf e"
| "stmt_wf (ND_SWITCH c cs b) = (expr_wf c \<and> stmt_wf b)"
| "stmt_wf (ND_CASE i b) = stmt_wf b"
| "stmt_wf ND_BREAK = True"
| "stmt_wf ND_CONTINUE = True"
| "stmt_wf _ = False"

text \<open>The sizes the type store and the variable store must have for every reference in the tree.\<close>

definition mx :: "('a \<Rightarrow> nat) \<Rightarrow> 'a list \<Rightarrow> nat" where "mx f xs = fold (\<lambda>x m. max m (f x)) xs 0"
definition mo :: "('a \<Rightarrow> nat) \<Rightarrow> 'a option \<Rightarrow> nat" where "mo f x = (case x of None \<Rightarrow> 0 | Some y \<Rightarrow> f y)"

lemma fold_max_cong [fundef_cong]:
  assumes "xs = ys" "\<And>x. x \<in> set ys \<Longrightarrow> f x = g x" shows "mx f xs = mx g ys"
  unfolding mx_def using assms by (auto intro!: fold_cong)

lemma mo_cong [fundef_cong]: "x = y \<Longrightarrow> (\<And>z. y = Some z \<Longrightarrow> f z = g z) \<Longrightarrow> mo f x = mo g y"
  by (simp add: mo_def split: option.split)

fun tneed :: "node_t \<Rightarrow> nat" where
  "tneed (ND_NUM t v) = mo Suc t"
| "tneed (ND_VAR t v) = mo Suc t"
| "tneed (ND_STR t a) = mo Suc t"
| "tneed (ND_BIN k t l r) = max (mo Suc t) (max (tneed l) (tneed r))"
| "tneed (ND_LOGAND t l r) = max (mo Suc t) (max (tneed l) (tneed r))"
| "tneed (ND_LOGOR t l r) = max (mo Suc t) (max (tneed l) (tneed r))"
| "tneed (ND_NOT t l) = max (mo Suc t) (tneed l)"
| "tneed (ND_NEG t l) = max (mo Suc t) (tneed l)"
| "tneed (ND_ASSIGN t l r) = max (mo Suc t) (max (tneed l) (tneed r))"
| "tneed (ND_ADDR t l) = max (mo Suc t) (tneed l)"
| "tneed (ND_DEREF t l) = max (mo Suc t) (tneed l)"
| "tneed (ND_MEMBER t l off) = max (mo Suc t) (tneed l)"
| "tneed (ND_FUNCALL t f as) = max (mo Suc t) (mx tneed as)"
| "tneed (ND_RETURN e) = tneed e"
| "tneed (ND_IF c t e) = max (tneed c) (max (tneed t) (mo tneed e))"
| "tneed (ND_WHILE c b) = max (tneed c) (tneed b)"
| "tneed (ND_FOR i c u b) = max (max (mo tneed i) (mo tneed c)) (max (mo tneed u) (tneed b))"
| "tneed (ND_BLOCK ns) = mx tneed ns"
| "tneed (ND_EXPR_STMT e) = tneed e"
| "tneed (ND_SWITCH c cs b) = max (tneed c) (tneed b)"
| "tneed (ND_CASE i b) = tneed b"
| "tneed _ = 0"

fun vneed :: "node_t \<Rightarrow> nat" where
  "vneed (ND_VAR t v) = Suc v"
| "vneed (ND_BIN k t l r) = max (vneed l) (vneed r)"
| "vneed (ND_LOGAND t l r) = max (vneed l) (vneed r)"
| "vneed (ND_LOGOR t l r) = max (vneed l) (vneed r)"
| "vneed (ND_NOT t l) = vneed l"
| "vneed (ND_NEG t l) = vneed l"
| "vneed (ND_ASSIGN t l r) = max (vneed l) (vneed r)"
| "vneed (ND_ADDR t l) = vneed l"
| "vneed (ND_DEREF t l) = vneed l"
| "vneed (ND_MEMBER t l off) = vneed l"
| "vneed (ND_FUNCALL t f as) = mx vneed as"
| "vneed (ND_RETURN e) = vneed e"
| "vneed (ND_IF c t e) = max (vneed c) (max (vneed t) (mo vneed e))"
| "vneed (ND_WHILE c b) = max (vneed c) (vneed b)"
| "vneed (ND_FOR i c u b) = max (max (mo vneed i) (mo vneed c)) (max (mo vneed u) (vneed b))"
| "vneed (ND_BLOCK ns) = mx vneed ns"
| "vneed (ND_EXPR_STMT e) = vneed e"
| "vneed (ND_SWITCH c cs b) = max (vneed c) (vneed b)"
| "vneed (ND_CASE i b) = vneed b"
| "vneed _ = 0"

lemma mx_simps [simp]: "mx f [] = 0" "mx f [x] = f x" "mx f (xs @ [x]) = max (mx f xs) (f x)"
  by (simp_all add: mx_def)

lemma mo_simps [simp]: "mo f None = 0" "mo f (Some x) = f x"
  by (simp_all add: mo_def)

section \<open>The invariant\<close>

abbreviation nt :: "pst \<Rightarrow> nat" where "nt s \<equiv> length (p_types s)"
abbreviation nv :: "pst \<Rightarrow> nat" where "nv s \<equiv> length (p_vars s)"

definition expr_ok :: "node_t \<Rightarrow> pst \<Rightarrow> bool" where
  "expr_ok e s = (expr_wf e \<and> tneed e \<le> nt s \<and> vneed e \<le> nv s)"

definition stmt_ok :: "node_t \<Rightarrow> pst \<Rightarrow> bool" where
  "stmt_ok e s = (stmt_wf e \<and> tneed e \<le> nt s \<and> vneed e \<le> nv s)"

definition type_ok :: "nat \<Rightarrow> type_t \<Rightarrow> bool" where
  "type_ok n t =
     ((case ty_base t of None \<Rightarrow> ty_kind t \<noteq> TY_PTR \<and> ty_kind t \<noteq> TY_ARRAY | Some b \<Rightarrow> b < n) \<and>
      (\<forall>m \<in> set (ty_members t). m_ty m < n))"

definition store_ok :: "pst \<Rightarrow> bool" where
  "store_ok s =
     (2 \<le> nt s \<and> (\<forall>t \<in> set (p_types s). type_ok (nt s) t) \<and>
      (\<forall>(x, t) \<in> set (g_structs s). t < nt s) \<and> (\<forall>(x, t) \<in> set (g_typedefs s). t < nt s) \<and>
      (\<forall>v \<in> set (p_vars s). v_ty v < nt s) \<and> (\<forall>v \<in> set (cur_locals s) \<union> set (g_globals s). v < nv s))"

text \<open>A bracket that opens an array bound is not the last token: the code skips the token after it
  whatever it is, and would leave the list.\<close>

definition opens :: "token_t \<Rightarrow> bool" where "opens t = (t = TK_PUNCT ''['' \<or> t = TK_KW ''['')"

fun brk_ok :: "token_t list \<Rightarrow> bool" where
  "brk_ok (a # b # ts) = ((opens a \<longrightarrow> b \<noteq> TK_EOF) \<and> brk_ok (b # ts))"
| "brk_ok _ = True"

definition tok_inv :: "token_t list \<Rightarrow> bool" where
  "tok_inv ts = (ts \<noteq> [] \<and> last ts = TK_EOF \<and> brk_ok ts)"

definition pinv :: "pst \<Rightarrow> bool" where "pinv s = (tok_inv (tk s) \<and> store_ok s)"

text \<open>What the arena has handed out lies inside it.\<close>

definition arena_ok :: "pst \<Rightarrow> bool" where
  "arena_ok s = (g_apos (pcc s) \<le> g_acap (pcc s) \<and> g_acap (pcc s) \<le> CC_ARENA)"

definition prel :: "pst \<Rightarrow> pst \<Rightarrow> bool" where
  "prel s s' = (length (tk s') \<le> length (tk s) \<and> nt s \<le> nt s' \<and> nv s \<le> nv s' \<and> (g_err (pcc s) \<longrightarrow> g_err (pcc s')) \<and>
     (arena_ok s \<longrightarrow> arena_ok s'))"

abbreviation runs :: "'a pm \<Rightarrow> pst \<Rightarrow> ('a \<Rightarrow> pst \<Rightarrow> bool) \<Rightarrow> bool" where
  "runs \<equiv> wpre {ARENA_EXHAUSTED}"

definition fine :: "nat \<Rightarrow> 'a pm \<Rightarrow> ('a \<Rightarrow> pst \<Rightarrow> bool) \<Rightarrow> bool" where
  "fine m f R = (\<forall>s. pinv s \<longrightarrow> length (tk s) \<le> m \<longrightarrow> runs f s (\<lambda>x s'. pinv s' \<and> prel s s' \<and> R x s'))"

text \<open>A function that uses up a token unless there is an error.\<close>

definition uses_token :: "nat \<Rightarrow> 'a pm \<Rightarrow> ('a \<Rightarrow> pst \<Rightarrow> bool) \<Rightarrow> bool" where
  "uses_token m f R = (\<forall>s. pinv s \<longrightarrow> length (tk s) \<le> m \<longrightarrow>
     runs f s (\<lambda>x s'. pinv s' \<and> prel s s' \<and> R x s' \<and> (g_err (pcc s') \<or> length (tk s') < length (tk s))))"

lemma fineI: "(\<And>s. pinv s \<Longrightarrow> length (tk s) \<le> m \<Longrightarrow> runs f s (\<lambda>x s'. pinv s' \<and> prel s s' \<and> R x s')) \<Longrightarrow> fine m f R"
  by (simp add: fine_def)

lemma fine_cps:
  assumes "\<And>s Q. pinv s \<Longrightarrow> length (tk s) \<le> m \<Longrightarrow> (\<And>x s'. pinv s' \<Longrightarrow> prel s s' \<Longrightarrow> R x s' \<Longrightarrow> Q x s') \<Longrightarrow> runs f s Q"
  shows "fine m f R"
  unfolding fine_def by (intro allI impI assms) auto

lemma uses_token_cps:
  assumes "\<And>s Q. pinv s \<Longrightarrow> length (tk s) \<le> m \<Longrightarrow>
    (\<And>x s'. pinv s' \<Longrightarrow> prel s s' \<Longrightarrow> R x s' \<Longrightarrow> g_err (pcc s') \<or> length (tk s') < length (tk s) \<Longrightarrow> Q x s') \<Longrightarrow> runs f s Q"
  shows "uses_token m f R"
  unfolding uses_token_def by (intro allI impI assms) auto

lemma fineD:
  assumes "fine m f R" "pinv s" "length (tk s) \<le> m" "\<And>x s'. pinv s' \<Longrightarrow> prel s s' \<Longrightarrow> R x s' \<Longrightarrow> Q x s'"
  shows "runs f s Q"
proof -
  have "runs f s (\<lambda>x s'. pinv s' \<and> prel s s' \<and> R x s')" using assms(1-3) by (simp add: fine_def)
  then show ?thesis by (rule wpre_mono) (use assms(4) in blast)
qed

lemma uses_tokenD:
  assumes "uses_token m f R" "pinv s" "length (tk s) \<le> m"
    "\<And>x s'. pinv s' \<Longrightarrow> prel s s' \<Longrightarrow> R x s' \<Longrightarrow> g_err (pcc s') \<or> length (tk s') < length (tk s) \<Longrightarrow> Q x s'"
  shows "runs f s Q"
proof -
  have "runs f s (\<lambda>x s'. pinv s' \<and> prel s s' \<and> R x s' \<and> (g_err (pcc s') \<or> length (tk s') < length (tk s)))"
    using assms(1-3) by (simp add: uses_token_def)
  then show ?thesis by (rule wpre_mono) (use assms(4) in blast)
qed

lemma prel_refl [simp]: "prel s s"
  by (simp add: prel_def)

section \<open>The primitives\<close>

lemma tok_inv_tl: "tok_inv (t # ts) \<Longrightarrow> t \<noteq> TK_EOF \<Longrightarrow> tok_inv ts \<and> (opens t \<longrightarrow> hd ts \<noteq> TK_EOF)"
  by (cases ts) (auto simp: tok_inv_def)

lemma store_ok_tk [simp]: "store_ok (s\<lparr>tk := ts\<rparr>) = store_ok s"
  by (simp add: store_ok_def)

lemma store_ok_pcc [simp]: "store_ok (s\<lparr>pcc := c\<rparr>) = store_ok s" "store_ok (s\<lparr>pcc := c, a_mem := m\<rparr>) = store_ok s"
  "store_ok (s\<lparr>a_mem := m\<rparr>) = store_ok s"
  by (simp_all add: store_ok_def)

lemma arena_ok_fields [simp]:
  "arena_ok (s\<lparr>tk := ts\<rparr>) = arena_ok s" "arena_ok (s\<lparr>a_mem := m\<rparr>) = arena_ok s" "arena_ok (s\<lparr>p_types := x\<rparr>) = arena_ok s"
  "arena_ok (s\<lparr>p_vars := y\<rparr>) = arena_ok s" "arena_ok (s\<lparr>pcc := cc_error msg (pcc s)\<rparr>) = arena_ok s"
  "arena_ok (s\<lparr>cur_locals := vs\<rparr>) = arena_ok s" "arena_ok (s\<lparr>g_globals := vs\<rparr>) = arena_ok s" "arena_ok (s\<lparr>cur_switch := c\<rparr>) = arena_ok s"
  "arena_ok (s\<lparr>g_structs := ds\<rparr>) = arena_ok s" "arena_ok (s\<lparr>g_typedefs := ds\<rparr>) = arena_ok s" "arena_ok (s\<lparr>p_ncase := n\<rparr>) = arena_ok s"
  "arena_ok (s\<lparr>pcc := cc_errorc msg ch (pcc s)\<rparr>) = arena_ok s"
  by (simp_all add: arena_ok_def cc_error_def cc_errorc_def)

lemma runs_peek: "pinv s \<Longrightarrow> (\<And>t. hd (tk s) = t \<Longrightarrow> Q t s) \<Longrightarrow> runs peek s Q"
  by (cases "tk s") (auto simp: wpre_def peek_def pinv_def tok_inv_def)

lemma runs_advance:
  assumes "pinv s" "hd (tk s) \<noteq> TK_EOF"
    "\<And>s'. pinv s' \<Longrightarrow> prel s s' \<Longrightarrow> length (tk s') < length (tk s) \<Longrightarrow>
       (opens (hd (tk s)) \<Longrightarrow> hd (tk s') \<noteq> TK_EOF) \<Longrightarrow> Q () s'"
  shows "runs advance s Q"
proof (cases "tk s")
  case Nil
  then show ?thesis using assms(1) by (simp add: pinv_def tok_inv_def)
next
  case (Cons t ts)
  then have ts: "tok_inv ts" "opens t \<longrightarrow> hd ts \<noteq> TK_EOF" using assms(1,2) tok_inv_tl [of t ts] by (simp_all add: pinv_def)
  let ?s = "s\<lparr>tk := ts\<rparr>"
  have "Q () ?s"
  proof (rule assms(3))
    show "pinv ?s" using assms(1) ts by (simp add: pinv_def)
    show "prel s ?s" "length (tk ?s) < length (tk s)" using Cons by (simp_all add: prel_def)
    show "hd (tk ?s) \<noteq> TK_EOF" if "opens (hd (tk s))" using that ts(2) Cons by simp
  qed
  then show ?thesis using Cons by (simp add: wpre_def advance_def)
qed

lemma at_word: "is_punct ts w \<or> is_kw ts w \<Longrightarrow> ts \<noteq> [] \<and> hd ts \<noteq> TK_EOF \<and> (hd ts = TK_PUNCT w \<or> hd ts = TK_KW w)"
  by (cases ts) (auto simp: is_punct_def is_kw_def)

lemma runs_consume:
  assumes "pinv s"
    "\<And>s'. pinv s' \<Longrightarrow> prel s s' \<Longrightarrow> length (tk s') < length (tk s) \<Longrightarrow> (w = ''['' \<Longrightarrow> hd (tk s') \<noteq> TK_EOF) \<Longrightarrow> Q True s'"
    "Q False s"
  shows "runs (consume w) s Q"
proof (cases "is_punct (tk s) w \<or> is_kw (tk s) w")
  case True
  have "hd (tk s) \<noteq> TK_EOF" "w = ''['' \<Longrightarrow> opens (hd (tk s))" using at_word [OF True] by (auto simp: opens_def)
  then show ?thesis using True assms(1,2) by (auto simp: consume_def intro!: runs_advance)
qed (use assms in \<open>simp add: consume_def\<close>)

lemma runs_consume_if:
  assumes "pinv s" "\<And>s'. pinv s' \<Longrightarrow> prel s s' \<Longrightarrow> length (tk s') < length (tk s) \<Longrightarrow> runs A s' Q" "runs B s Q"
  shows "runs (seqn (consume w) (\<lambda>b. if b then A else B)) s Q"
  using assms by (auto intro!: runs_consume)

lemma runs_if_rules:
  "pinv s \<Longrightarrow> (\<And>s'. pinv s' \<Longrightarrow> prel s s' \<Longrightarrow> length (tk s') < length (tk s) \<Longrightarrow> runs A s' Q) \<Longrightarrow> runs B s Q \<Longrightarrow>
     runs (consume w) s (\<lambda>b s. runs (if b then A else B) s Q)"
  "wpre E m s (\<lambda>x s. wpre E (f x) s Q') \<Longrightarrow> wpre E (seqn m f) s Q'"
  "R x s \<Longrightarrow> wpre E (ret x) s R"
  by (auto intro!: runs_consume)

lemma pinv_perror: "pinv s \<Longrightarrow> pinv (s\<lparr>pcc := cc_error msg (pcc s)\<rparr>)"
  by (simp add: pinv_def)

lemma runs_perror:
  assumes "pinv s" "\<And>s'. pinv s' \<Longrightarrow> prel s s' \<Longrightarrow> g_err (pcc s') \<Longrightarrow> tk s' = tk s \<Longrightarrow> Q () s'"
  shows "runs (perror msg) s Q"
  using assms(1) pinv_perror [OF assms(1)] assms(2) [of "s\<lparr>pcc := cc_error msg (pcc s)\<rparr>"]
  by (simp add: perror_def prel_def cc_error_def arena_ok_def)

lemma runs_expect:
  assumes "pinv s" "\<And>s'. pinv s' \<Longrightarrow> prel s s' \<Longrightarrow> g_err (pcc s') \<or> length (tk s') < length (tk s) \<Longrightarrow> Q () s'"
  shows "runs (expect w) s Q"
proof (cases "is_punct (tk s) w \<or> is_kw (tk s) w")
  case True
  then show ?thesis using at_word [OF True] assms by (auto simp: expect_def intro!: runs_advance)
qed (use assms in \<open>auto simp: expect_def intro!: runs_perror\<close>)

lemma runs_failed: "Q (g_err (pcc s)) s \<Longrightarrow> runs failed s Q"
  by (simp add: failed_def cc_failed_def)

lemma runs_at_punct: "(hd (tk s) \<noteq> TK_EOF \<Longrightarrow> Q True s) \<Longrightarrow> Q False s \<Longrightarrow> runs (at_punct w) s Q"
  using at_word [of "tk s" w] by (cases "is_punct (tk s) w") (auto simp: at_punct_def)

lemma runs_at_punct_if:
  "(hd (tk s) \<noteq> TK_EOF \<Longrightarrow> runs A s Q) \<Longrightarrow> runs B s Q \<Longrightarrow> runs (seqn (at_punct w) (\<lambda>b. if b then A else B)) s Q"
  by (auto intro!: runs_at_punct)

text \<open>Allocation changes only the arena.\<close>

lemma runs_palloc:
  assumes "pinv s" "\<And>a s'. pinv s' \<Longrightarrow> prel s s' \<Longrightarrow> (\<exists>c m. s' = s\<lparr>pcc := c, a_mem := m\<rparr>) \<Longrightarrow> Q a s'"
  shows "runs (palloc n) s Q"
proof (cases "g_acap (pcc s) < g_apos (pcc s) + ((n + 15) AND NOT 15)")
  case True
  then show ?thesis by (simp add: wpre_def palloc_def cc_alloc_def Let_def)
next
  case False
  have "Q a (s\<lparr>pcc := (pcc s)\<lparr>g_apos := p\<rparr>, a_mem := m\<rparr>)" if "p \<le> g_acap (pcc s)" for a p m
    using assms(1) that by (intro assms(2)) (auto simp: pinv_def prel_def arena_ok_def)
  then show ?thesis using False by (simp add: wpre_def palloc_def cc_alloc_def Let_def)
qed

lemma runs_new_node:
  "pinv s \<Longrightarrow> (\<And>s'. pinv s' \<Longrightarrow> prel s s' \<Longrightarrow> (\<exists>c m. s' = s\<lparr>pcc := c, a_mem := m\<rparr>) \<Longrightarrow> Q () s') \<Longrightarrow> runs new_node s Q"
  by (auto simp: new_node_def intro!: runs_palloc)

lemmas runs_prims = runs_peek runs_advance runs_consume runs_perror runs_expect runs_failed runs_at_punct runs_new_node

section \<open>Types, variables and nodes\<close>

lemma store_facts:
  assumes "pinv s"
  shows "2 \<le> nt s" "i < nt s \<Longrightarrow> base_of s (Some i) = Some b \<Longrightarrow> b < nt s"
    "i < nt s \<Longrightarrow> ty_is_ptrlike s (Some i) \<Longrightarrow> base_of s (Some i) \<noteq> None"
    "i < nt s \<Longrightarrow> find_member s (Some i) x = Some m \<Longrightarrow> m_ty m < nt s"
    "find_var s x = Some v \<Longrightarrow> v < nv s" "v < nv s \<Longrightarrow> v_ty (p_vars s ! v) < nt s"
    "find_struct s x = Some t \<Longrightarrow> t < nt s" "find_typedef s x = Some t \<Longrightarrow> t < nt s"
proof -
  have ty: "type_ok (nt s) (p_types s ! i)" if "i < nt s" for i using assms that by (simp add: pinv_def store_ok_def)
  show "2 \<le> nt s" using assms by (simp add: pinv_def store_ok_def)
  show "b < nt s" if "i < nt s" "base_of s (Some i) = Some b" for i b
    using ty [OF that(1)] that(2) by (simp add: type_ok_def base_of_def)
  show "base_of s (Some i) \<noteq> None" if "i < nt s" "ty_is_ptrlike s (Some i)" for i
    using ty [OF that(1)] that(2) by (auto simp: type_ok_def base_of_def ty_is_ptrlike_def split: option.splits)
  show "m_ty m < nt s" if "i < nt s" "find_member s (Some i) x = Some m" for i x m
    using ty [OF that(1)] that(2) by (auto simp: type_ok_def find_member_def find_Some_iff split: if_splits)
  show "v < nv s" if "find_var s x = Some v" for x v
  proof -
    have "v \<in> set (cur_locals s @ g_globals s)" using that by (auto simp: find_var_def find_Some_iff simp del: set_append)
    then show ?thesis using assms by (auto simp: pinv_def store_ok_def)
  qed
  show "v_ty (p_vars s ! v) < nt s" if "v < nv s" for v using assms that by (simp add: pinv_def store_ok_def)
  show "t < nt s" if "find_struct s x = Some t" for x t
    using assms map_of_SomeD [OF that [unfolded find_struct_def]] by (auto simp: pinv_def store_ok_def)
  show "t < nt s" if "find_typedef s x = Some t" for x t
    using assms map_of_SomeD [OF that [unfolded find_typedef_def]] by (auto simp: pinv_def store_ok_def)
qed

lemma ty_in [simp]:
  assumes "pinv s" shows "Suc ty_int \<le> nt s" "Suc ty_char \<le> nt s" "ty_int < nt s" "ty_char < nt s"
proof -
  have "2 \<le> nt s" by (rule store_facts(1) [OF assms])
  then show "Suc ty_int \<le> nt s" "Suc ty_char \<le> nt s" "ty_int < nt s" "ty_char < nt s"
    unfolding ty_int_def ty_char_def by linarith+
qed

lemma type_ok_mono: "type_ok n t \<Longrightarrow> n \<le> m \<Longrightarrow> type_ok m t"
  by (fastforce simp: type_ok_def split: option.splits)

lemma store_ok_add_type:
  assumes "store_ok s" "type_ok (Suc (nt s)) t" shows "store_ok (s\<lparr>p_types := p_types s @ [t]\<rparr>)"
  using assms by (auto simp: store_ok_def less_Suc_eq intro: type_ok_mono)

lemma runs_new_type:
  assumes s: "pinv s" and t: "type_ok (Suc (nt s)) t"
    and Q: "\<And>s'. pinv s' \<Longrightarrow> prel s s' \<Longrightarrow> nt s < nt s' \<Longrightarrow> tk s' = tk s \<Longrightarrow> Q (nt s) s'"
  shows "runs (new_type t) s Q"
  unfolding new_type_def
proof (simp, rule runs_palloc [OF s], elim exE)
  fix a s' c m assume p: "pinv s'" "prel s s'" "s' = s\<lparr>pcc := c, a_mem := m\<rparr>"
  let ?s = "s'\<lparr>p_types := p_types s' @ [t]\<rparr>"
  have "store_ok ?s" using p(1,3) t by (intro store_ok_add_type) (auto simp: pinv_def)
  then have "pinv ?s" using p(1) by (simp add: pinv_def)
  moreover have "prel s ?s" using p(2) by (simp add: prel_def)
  ultimately have "Q (nt s) ?s" using p(3) by (intro Q) auto
  then show "Q (nt s') ?s" using p(3) by simp
qed

lemma runs_ty_ptr_to:
  assumes "pinv s" "base = Some b" "b < nt s" "\<And>t s'. pinv s' \<Longrightarrow> prel s s' \<Longrightarrow> t < nt s' \<Longrightarrow> tk s' = tk s \<Longrightarrow> Q t s'"
  shows "runs (ty_ptr_to base) s Q"
  unfolding ty_ptr_to_def by (rule runs_new_type [OF assms(1)]) (use assms in \<open>auto simp: type_ok_def\<close>)

lemma runs_ty_array_of:
  assumes "pinv s" "b < nt s" "\<And>t s'. pinv s' \<Longrightarrow> prel s s' \<Longrightarrow> t < nt s' \<Longrightarrow> tk s' = tk s \<Longrightarrow> Q t s'"
  shows "runs (ty_array_of b len) s Q"
  unfolding ty_array_of_def wpre_simps by (rule runs_new_type [OF assms(1)]) (use assms in \<open>auto simp: type_ok_def\<close>)

lemma runs_new_num:
  assumes "pinv s" "\<And>e s'. pinv s' \<Longrightarrow> prel s s' \<Longrightarrow> expr_ok e s' \<Longrightarrow> tk s' = tk s \<Longrightarrow> Q e s'"
  shows "runs (new_num v) s Q"
  unfolding new_num_def wpre_simps
proof (rule runs_new_node [OF assms(1)], elim exE)
  fix s' c m assume "pinv s'" "prel s s'" "s' = s\<lparr>pcc := c, a_mem := m\<rparr>"
  then show "Q (ND_NUM (Some ty_int) v) s'"
    using assms(1) by (intro assms(2)) (auto simp: expr_ok_def)
qed

lemma expr_ok_prel: "expr_ok e s \<Longrightarrow> prel s s' \<Longrightarrow> expr_ok e s'"
  by (auto simp: expr_ok_def prel_def)

lemma stmt_ok_prel: "stmt_ok e s \<Longrightarrow> prel s s' \<Longrightarrow> stmt_ok e s'"
  by (auto simp: stmt_ok_def prel_def)

text \<open>A constructor that combines two operands.\<close>

definition combines :: "(node_t \<Rightarrow> node_t \<Rightarrow> node_t pm) \<Rightarrow> bool" where
  "combines f = (\<forall>l r s. pinv s \<longrightarrow> expr_ok l s \<longrightarrow> expr_ok r s \<longrightarrow>
     runs (f l r) s (\<lambda>e s'. pinv s' \<and> prel s s' \<and> expr_ok e s'))"

lemma combinesD:
  assumes "combines f" "pinv s" "expr_ok l s" "expr_ok r s" "\<And>e s'. pinv s' \<Longrightarrow> prel s s' \<Longrightarrow> expr_ok e s' \<Longrightarrow> Q e s'"
  shows "runs (f l r) s Q"
proof -
  have "runs (f l r) s (\<lambda>e s'. pinv s' \<and> prel s s' \<and> expr_ok e s')" using assms(1-4) by (simp add: combines_def)
  then show ?thesis by (rule wpre_mono) (use assms(5) in blast)
qed

lemma combines_swap: "combines f \<Longrightarrow> combines (\<lambda>l r. f r l)"
  by (simp add: combines_def)

lemma combines_binary: "combines (new_binary k)" "combines new_logand" "combines new_logor"
  unfolding combines_def new_binary_def new_logand_def new_logor_def
  by (auto intro!: runs_new_node simp: expr_ok_def prel_def)

lemma expr_ty:
  assumes "expr_ok e s" obtains t where "nd_ty e = Some t" "t < nt s"
  using assms by (cases e) (auto simp: expr_ok_def)

lemma combines_scaled_ptr:
  assumes s: "pinv s" and e: "expr_ok l s" "expr_ok r s" and ptr: "ty_is_ptrlike s (nd_ty l)"
    and Q: "\<And>e s'. pinv s' \<Longrightarrow> prel s s' \<Longrightarrow> expr_ok e s' \<Longrightarrow> Q e s'"
  shows "runs (scaled_ptr k l r) s Q"
proof -
  obtain t where t: "nd_ty l = Some t" "t < nt s" using e(1) by (rule expr_ty)
  obtain b where b: "base_of s (nd_ty l) = Some b" "b < nt s" using store_facts(2,3) [OF s t(2)] ptr t by auto
  note pr = prel_def expr_ok_def
  have keep: "p_types s' = p_types s \<and> nt s' = nt s" if "\<exists>c m. s' = s0\<lparr>pcc := c, a_mem := m\<rparr>" "p_types s0 = p_types s" for s' s0 :: pst
    using that by auto
  show ?thesis
    unfolding scaled_ptr_def new_num_def new_binary_def wpre_simps
  proof (rule runs_new_node [OF s], goal_cases)
    case (1 s1)
    show ?case
    proof (rule runs_new_node [OF 1(1)], goal_cases)
      case (1 s2)
      show ?case
      proof (rule runs_new_node [OF 1(1)], goal_cases)
        case (1 s3)
        have "p_types s3 = p_types s" using keep [OF \<open>\<exists>c m. s1 = _\<close>] keep [OF \<open>\<exists>c m. s2 = _\<close>] keep [OF 1(3)] by simp
        then have b3: "base_of s3 (nd_ty l) = Some b" "b < nt s3" using b by (auto simp: base_of_def split: option.splits)
        show ?case
          by (rule runs_ty_ptr_to [OF 1(1) b3])
            (use e s \<open>prel s s1\<close> \<open>prel s1 s2\<close> 1 in \<open>auto intro!: Q simp: pr\<close>)
      qed
    qed
  qed
qed

lemma prel_trans: "prel s s' \<Longrightarrow> prel s' s'' \<Longrightarrow> prel s s''"
  by (auto simp: prel_def)

lemma combines_new_add: "combines new_add"
  unfolding combines_def new_add_def
  by (auto intro!: combinesD [OF combines_binary(1)] combines_scaled_ptr runs_perror elim: expr_ok_prel)

lemma combines_new_sub: "combines new_sub"
  unfolding combines_def new_sub_def
  by (auto intro!: combinesD [OF combines_binary(1)] combines_scaled_ptr runs_perror runs_new_num elim: expr_ok_prel prel_trans
      intro: prel_trans)

section \<open>Type specifiers\<close>

definition ty_ok :: "tid \<Rightarrow> pst \<Rightarrow> bool" where "ty_ok t s = (t < nt s)"

lemma ty_ok_facts [simp]:
  "pinv s \<Longrightarrow> ty_ok ty_int s" "pinv s \<Longrightarrow> ty_ok ty_char s"
  "pinv s \<Longrightarrow> find_typedef s x = Some t \<Longrightarrow> ty_ok t s"
  "pinv s \<Longrightarrow> find_struct s x = Some t \<Longrightarrow> ty_ok t s"
  using store_facts(7,8) by (auto simp: ty_ok_def)

lemma ty_ok_prel: "ty_ok t s \<Longrightarrow> prel s s' \<Longrightarrow> ty_ok t s'"
  by (simp add: ty_ok_def prel_def)

lemma runs_array_suffix:
  assumes "pinv s" "ty_ok t s" "\<And>t s'. pinv s' \<Longrightarrow> prel s s' \<Longrightarrow> ty_ok t s' \<Longrightarrow> Q t s'"
  shows "runs (array_suffix t) s Q"
  unfolding array_suffix_def wpre_simps
proof (rule runs_consume [OF assms(1)])
  fix s1 assume 1: "pinv s1" "prel s s1" "''['' = ''['' \<Longrightarrow> hd (tk s1) \<noteq> TK_EOF"
  have step: "runs advance s2 (\<lambda>_ s. runs (expect '']'') s (\<lambda>_ s. runs (ty_array_of t n) s Q))"
    if 2: "pinv s2" "prel s1 s2" "tk s2 = tk s1" for s2 n
    using that 1 assms(2) by (auto intro!: runs_advance runs_expect runs_ty_array_of assms(3) simp: prel_def ty_ok_def)
  show "runs (if \<not> True then ret t else seqn peek (\<lambda>ta. seqn (if is_num ta then ret () else perror ''array length must be a constant'')
     (\<lambda>_. seqn advance (\<lambda>_. seqn (expect '']'') (\<lambda>_. ty_array_of t (sint (ucast (tok_val ta) :: 32 word))))))) s1 Q"
    using 1 by (auto intro!: runs_peek runs_perror step)
qed (use assms in simp)

lemma pinv_tk [simp]: "pinv s \<Longrightarrow> tk s \<noteq> []"
  by (simp add: pinv_def tok_inv_def)

lemma runs_stars:
  "pinv s \<Longrightarrow> ty_ok t s \<Longrightarrow> length (tk s) \<le> n \<Longrightarrow> (\<And>t s'. pinv s' \<Longrightarrow> prel s s' \<Longrightarrow> ty_ok t s' \<Longrightarrow> Q t s') \<Longrightarrow> runs (stars n t) s Q"
proof (induction n arbitrary: s t)
  case (Suc n)
  then show ?case by (auto intro!: runs_at_punct runs_advance runs_ty_ptr_to Suc.IH Suc.prems(4) simp: prel_def ty_ok_def)
qed simp

lemma runs_register_struct:
  assumes "pinv s" "ty_ok t s" "\<And>s'. pinv s' \<Longrightarrow> prel s s' \<Longrightarrow> tk s' = tk s \<Longrightarrow> Q () s'"
  shows "runs (register_struct x t) s Q" "runs (register_typedef x t) s Q"
  unfolding register_struct_def register_typedef_def wpre_simps
  using assms by (auto intro!: runs_palloc assms(3) simp: pinv_def store_ok_def prel_def ty_ok_def)

lemma runs_struct_tag:
  "pinv s \<Longrightarrow> (\<And>x s'. pinv s' \<Longrightarrow> prel s s' \<Longrightarrow> Q x s') \<Longrightarrow> runs struct_tag s Q"
  unfolding struct_tag_def by (auto intro!: runs_peek runs_advance split: token_t.split)

lemma runs_struct_ref:
  assumes "pinv s" "\<And>t s'. pinv s' \<Longrightarrow> prel s s' \<Longrightarrow> ty_ok t s' \<Longrightarrow> Q t s'"
  shows "runs (struct_ref x) s Q"
  unfolding struct_ref_def
  using assms store_facts(7) [OF assms(1)] by (auto intro!: runs_perror assms(2) simp: ty_ok_def split: option.split)

definition members_ok :: "member_t list \<times> int \<Rightarrow> pst \<Rightarrow> bool" where
  "members_ok acc s = (mx (\<lambda>m. Suc (m_ty m)) (fst acc) \<le> nt s)"

lemma runs_add_member:
  assumes "pinv s" "members_ok acc s" "ty_ok t s" "\<And>acc s'. pinv s' \<Longrightarrow> prel s s' \<Longrightarrow> members_ok acc s' \<Longrightarrow> tk s' = tk s \<Longrightarrow> Q acc s'"
  shows "runs (add_member x t acc) s Q"
  unfolding add_member_def using assms by (cases acc) (auto simp: Let_def members_ok_def ty_ok_def intro!: runs_palloc)

lemma mx_le: "mx f xs \<le> k \<longleftrightarrow> (\<forall>x \<in> set xs. f x \<le> k)"
  by (induction xs rule: rev_induct) auto

lemma runs_tag_struct:
  assumes "pinv s" "ty_ok t s" "\<And>s'. pinv s' \<Longrightarrow> prel s s' \<Longrightarrow> tk s' = tk s \<Longrightarrow> Q () s'"
  shows "runs (tag_struct tag t) s Q"
  unfolding tag_struct_def using assms by (auto intro!: runs_register_struct split: option.split)

lemma pinv_set_members:
  assumes "pinv s" "ty_ok st s" "members_ok acc s"
  shows "pinv (s\<lparr>p_types := (p_types s)[st := (p_types s ! st)\<lparr>ty_members := fst acc, ty_size := z\<rparr>]\<rparr>)"
proof -
  let ?t = "(p_types s ! st)\<lparr>ty_members := fst acc, ty_size := z\<rparr>"
  have "type_ok (nt s) (p_types s ! st)" using assms(1,2) by (simp add: pinv_def store_ok_def ty_ok_def)
  then have "type_ok (nt s) ?t" using assms(3) by (auto simp: type_ok_def members_ok_def mx_le Suc_le_eq split: option.splits)
  then have "\<forall>t \<in> set ((p_types s)[st := ?t]). type_ok (nt s) t"
    using assms(1) set_update_subset_insert [of "p_types s" st ?t] by (auto simp: pinv_def store_ok_def)
  then show ?thesis using assms(1) by (simp add: pinv_def store_ok_def)
qed

lemma runs_close_struct:
  assumes "pinv s" "ty_ok st s" "members_ok acc s" "\<And>s'. pinv s' \<Longrightarrow> prel s s' \<Longrightarrow> ty_ok st s' \<Longrightarrow> Q st s'"
  shows "runs (close_struct st acc) s Q"
  unfolding close_struct_def wpre_simps
proof (rule runs_expect [OF assms(1)])
  fix s' assume s': "pinv s'" "prel s s'"
  have "ty_ok st s'" "members_ok acc s'" using assms(2,3) s'(2) by (auto simp: ty_ok_def prel_def members_ok_def)
  then show "Q st (s'\<lparr>p_types := (p_types s')[st := (p_types s' ! st)\<lparr>ty_members := fst acc, ty_size := p_align_up (snd acc) 8\<rparr>]\<rparr>)"
    using pinv_set_members [OF s'(1)] s'(2) by (intro assms(4)) (auto simp: prel_def ty_ok_def)
qed

text \<open>The three functions of the type grammar, with twice as much fuel as tokens.\<close>

lemma uses_tokenI:
  "(\<And>s. pinv s \<Longrightarrow> length (tk s) \<le> m \<Longrightarrow>
     runs f s (\<lambda>x s'. pinv s' \<and> prel s s' \<and> R x s' \<and> (g_err (pcc s') \<or> length (tk s') < length (tk s)))) \<Longrightarrow> uses_token m f R"
  by (simp add: uses_token_def)

definition members_fine :: "nat \<Rightarrow> bool" where
  "members_fine n = (\<forall>acc s. pinv s \<longrightarrow> 2 * length (tk s) < n \<longrightarrow> members_ok acc s \<longrightarrow>
     runs (member_loop n acc) s (\<lambda>acc s'. pinv s' \<and> prel s s' \<and> members_ok acc s'))"

lemma members_fineD:
  assumes "members_fine n" "pinv s" "2 * length (tk s) < n" "members_ok acc s"
    "\<And>acc s'. pinv s' \<Longrightarrow> prel s s' \<Longrightarrow> members_ok acc s' \<Longrightarrow> Q acc s'"
  shows "runs (member_loop n acc) s Q"
proof -
  have "runs (member_loop n acc) s (\<lambda>acc s'. pinv s' \<and> prel s s' \<and> members_ok acc s')"
    using assms(1-4) unfolding members_fine_def by blast
  then show ?thesis by (rule wpre_mono) (use assms(5) in blast)
qed

lemma declspec_step:
  assumes sd: "\<And>m. 2 * m \<le> n \<Longrightarrow> fine m (struct_decl n) ty_ok" and m: "2 * m \<le> Suc n"
  shows "uses_token m (declspec (Suc n)) ty_ok"
proof (rule uses_tokenI)
  fix s assume s: "pinv s" "length (tk s) \<le> m"
  let ?Q = "\<lambda>t s'. pinv s' \<and> prel s s' \<and> ty_ok t s' \<and> (g_err (pcc s') \<or> length (tk s') < length (tk s))"
  have tail: "runs (stars n t) s' ?Q" if "pinv s'" "prel s s'" "length (tk s') < length (tk s)" "ty_ok t s'" for t s'
    by (rule runs_stars) (use that s m in \<open>auto simp: prel_def\<close>)
  have str: "runs (struct_decl n) s' (\<lambda>t s'. runs (stars n t) s' ?Q)"
    if s': "pinv s'" "prel s s'" "length (tk s') < length (tk s)" for s'
  proof (rule fineD [OF sd s'(1)])
    show "2 * length (tk s') \<le> n" using s' s(2) m by simp
    show "runs (stars n t) s2 ?Q" if "pinv s2" "prel s' s2" "ty_ok t s2" for t s2
      using that s' prel_trans [OF s'(2) that(2)] by (intro tail) (auto simp: prel_def)
  qed simp
  have td: "runs (case case t of TK_IDENT x \<Rightarrow> find_typedef s x | _ \<Rightarrow> None of
      None \<Rightarrow> seqn (perror ''expected type'') (\<lambda>_. ret ty_int) | Some ty \<Rightarrow> seqn advance (\<lambda>_. stars n ty)) s ?Q"
    if "hd (tk s) = t" for t
    using that s
    by (auto intro!: runs_perror runs_advance tail elim: ty_ok_prel [rotated] split: token_t.split option.split)
  show "runs (declspec (Suc n)) s ?Q"
    unfolding declspec.simps wpre_simps
    using s by (auto intro!: runs_consume runs_peek tail str td)
qed

lemma struct_decl_step:
  assumes mf: "members_fine n" and m: "2 * m \<le> Suc n"
  shows "fine m (struct_decl (Suc n)) ty_ok"
proof (rule fineI)
  fix s assume s: "pinv s" "length (tk s) \<le> m"
  let ?Q = "\<lambda>t s'. pinv s' \<and> prel s s' \<and> ty_ok t s'"
  have body: "runs (member_loop n ([], 0)) s' (\<lambda>acc s'. runs (close_struct st acc) s' ?Q)"
    if s': "pinv s'" "prel s s'" "length (tk s') < length (tk s)" "ty_ok st s'" for st s'
  proof (rule members_fineD [OF mf s'(1)])
    show "2 * length (tk s') < n" using s' s(2) m by simp
    show "members_ok ([], 0) s'" by (simp add: members_ok_def)
    show "runs (close_struct st acc) s2 ?Q" if "pinv s2" "prel s' s2" "members_ok acc s2" for acc s2
      using that s' by (auto intro!: runs_close_struct intro: prel_trans ty_ok_prel)
  qed
  have new: "runs (new_type \<lparr>ty_kind = TY_STRUCT, ty_size = 0, ty_base = None, ty_arraylen = 0, ty_members = []\<rparr>) s'
      (\<lambda>st s'. runs (tag_struct tag st) s' (\<lambda>_ s'. runs (member_loop n ([], 0)) s' (\<lambda>acc s'. runs (close_struct st acc) s' ?Q)))"
    if s': "pinv s'" "prel s s'" "length (tk s') < length (tk s)" for tag s'
  proof (rule runs_new_type [OF s'(1)], simp add: type_ok_def, rule runs_tag_struct)
    fix s2 s3 assume A: "prel s' s2" "tk s2 = tk s'" "nt s' < nt s2" "pinv s3" "prel s2 s3" "tk s3 = tk s2"
    have "prel s s3" using s'(2) A(1,5) by (blast intro: prel_trans)
    then show "runs (member_loop n ([], 0)) s3 (\<lambda>acc s'a. runs (close_struct (nt s') acc) s'a ?Q)"
      using A s'(3) by (intro body) (auto simp: ty_ok_def prel_def)
  qed (auto simp: ty_ok_def)
  show "runs (struct_decl (Suc n)) s ?Q"
    unfolding struct_decl.simps wpre_simps
  proof (intro runs_struct_tag runs_at_punct s(1))
    fix tag s1 assume s1: "pinv s1" "prel s s1"
    show "runs (if \<not> False then struct_ref tag else X) s1 ?Q" for X
      using s1 by (auto intro!: runs_struct_ref intro: prel_trans)
    assume "hd (tk s1) \<noteq> TK_EOF"
    then have "runs advance s1 (\<lambda>_ s'. runs (new_type \<lparr>ty_kind = TY_STRUCT, ty_size = 0, ty_base = None, ty_arraylen = 0, ty_members = []\<rparr>) s'
      (\<lambda>st s'. runs (tag_struct tag st) s' (\<lambda>_ s'. runs (member_loop n ([], 0)) s' (\<lambda>acc s'. runs (close_struct st acc) s' ?Q))))"
      using s1 by (intro runs_advance new) (auto intro: prel_trans simp: prel_def)
    then show "runs (if \<not> True then struct_ref tag else
       seqn advance (\<lambda>_.
       seqn (new_type \<lparr>ty_kind = TY_STRUCT, ty_size = 0, ty_base = None, ty_arraylen = 0, ty_members = []\<rparr>) (\<lambda>st.
       seqn (tag_struct tag st) (\<lambda>_. seqn (member_loop n ([], 0)) (close_struct st))))) s1 ?Q" by simp
  qed
qed

lemma members_fine_cps:
  assumes "\<And>acc s Q. pinv s \<Longrightarrow> 2 * length (tk s) < n \<Longrightarrow> members_ok acc s \<Longrightarrow>
    (\<And>acc s'. pinv s' \<Longrightarrow> prel s s' \<Longrightarrow> members_ok acc s' \<Longrightarrow> Q acc s') \<Longrightarrow> runs (member_loop n acc) s Q"
  shows "members_fine n"
  unfolding members_fine_def by (intro allI impI assms) auto

lemma members_step:
  assumes ds: "\<And>m. 2 * m \<le> n \<Longrightarrow> uses_token m (declspec n) ty_ok" and mf: "members_fine n"
  shows "members_fine (Suc n)"
proof (rule members_fine_cps)
  fix acc s Q assume s: "pinv s" "2 * length (tk s) < Suc n" "members_ok acc s"
    and Q: "\<And>acc s'. pinv s' \<Longrightarrow> prel s s' \<Longrightarrow> members_ok acc s' \<Longrightarrow> Q acc s'"
  have again: "runs failed s' (\<lambda>f s'. runs (if f then ret acc else member_loop n acc) s' Q)"
    if "pinv s'" "prel s s'" "members_ok acc s'" "length (tk s') < length (tk s)" for acc s'
    using that s(2) by (auto intro!: runs_failed members_fineD [OF mf] Q intro: prel_trans)
  have entry: "runs (array_suffix mty) s1 (\<lambda>mty s'. runs (expect '';'') s' (\<lambda>_ s'. runs (add_member x mty acc) s' (\<lambda>acc s'.
      runs failed s' (\<lambda>f s'. runs (if f then ret acc else member_loop n acc) s' Q))))"
    if s1: "pinv s1" "prel s s1" "ty_ok mty s1" "length (tk s1) < length (tk s)" for s1 mty x
    by (auto intro!: runs_array_suffix runs_expect runs_add_member again simp del: wpre_if)
      (use s1 s(3) in \<open>auto simp: prel_def ty_ok_def members_ok_def\<close>)
  have decl: "runs (case hd (tk s1) of TK_IDENT x \<Rightarrow> seqn advance (\<lambda>_. seqn (array_suffix mty)
      (\<lambda>mty. seqn (expect '';'') (\<lambda>_. seqn (add_member x mty acc) (\<lambda>acc. seqn failed (\<lambda>f. if f then ret acc else member_loop n acc)))))
      | _ \<Rightarrow> seqn (perror ''expected member name'') (\<lambda>_. ret acc)) s1 Q"
    if s1: "pinv s1" "prel s s1" "ty_ok mty s1" for s1 mty
    using s1 s(3) by (auto intro!: runs_peek runs_perror runs_advance entry Q simp: prel_def ty_ok_def members_ok_def simp del: wpre_if split: token_t.split)
  show "runs (member_loop (Suc n) acc) s Q"
    using s by (auto intro!: runs_at_punct runs_peek decl Q uses_tokenD [OF ds [of "length (tk s)"]] simp del: wpre_if)
qed

lemma type_grammar:
  "2 * m \<le> n \<Longrightarrow> uses_token m (declspec n) ty_ok" "2 * m \<le> n \<Longrightarrow> fine m (struct_decl n) ty_ok" "members_fine n"
proof (induction n arbitrary: m)
  case 0
  { case 1 then show ?case by (simp add: uses_token_def) next
    case 2 then show ?case by (simp add: fine_def) next
    case 3 then show ?case by (simp add: members_fine_def) }
next
  case (Suc n)
  { case 1 then show ?case by (intro declspec_step) (simp_all add: Suc.IH) next
    case 2 then show ?case by (intro struct_decl_step) (simp_all add: Suc.IH) next
    case 3 then show ?case by (intro members_step) (simp_all add: Suc.IH) }
qed

lemma runs_declspec:
  assumes "pinv s" "2 * length (tk s) \<le> n"
    "\<And>t s'. pinv s' \<Longrightarrow> prel s s' \<Longrightarrow> ty_ok t s' \<Longrightarrow> g_err (pcc s') \<or> length (tk s') < length (tk s) \<Longrightarrow> Q t s'"
  shows "runs (declspec n) s Q"
  by (rule uses_tokenD [OF type_grammar(1) [OF assms(2)] assms(1)]) (use assms(3) in auto)

section \<open>Expressions\<close>

definition args_ok :: "node_t list \<Rightarrow> pst \<Rightarrow> bool" where
  "args_ok as s = (list_all expr_wf as \<and> mx tneed as \<le> nt s \<and> mx vneed as \<le> nv s)"

lemma runs_var_expr:
  assumes "pinv s" "\<And>e s'. pinv s' \<Longrightarrow> prel s s' \<Longrightarrow> expr_ok e s' \<Longrightarrow> Q e s'"
  shows "runs (var_expr x) s Q"
proof (cases "find_var s x")
  case (Some v)
  have v: "v < nv s" "v_ty (p_vars s ! v) < nt s" using store_facts(5,6) [OF assms(1)] Some by auto
  have "Q (ND_VAR (Some (v_ty (p_vars s' ! v))) v) s'" if "pinv s'" "prel s s'" "\<exists>c m. s' = s\<lparr>pcc := c, a_mem := m\<rparr>" for s'
    using that v by (intro assms(2)) (auto simp: expr_ok_def)
  then show ?thesis using Some assms(1) by (auto simp: var_expr_def intro!: runs_new_node)
qed (use assms in \<open>auto simp: var_expr_def intro!: runs_perror runs_new_num intro: prel_trans\<close>)

lemma runs_index_expr:
  assumes "pinv s" "expr_ok e s" "expr_ok i s" "\<And>e s'. pinv s' \<Longrightarrow> prel s s' \<Longrightarrow> expr_ok e s' \<Longrightarrow> Q e s'"
  shows "runs (index_expr e i) s Q"
  unfolding index_expr_def wpre_simps
proof (rule combinesD [OF combines_new_add assms(1-3)], rule runs_new_node, assumption)
  fix a s1 s2 assume s: "prel s s1" "expr_ok a s1" "pinv s2" "prel s1 s2"
  have a: "expr_ok a s2" using s(2,4) by (rule expr_ok_prel)
  then obtain t where t: "nd_ty a = Some t" "t < nt s2" by (rule expr_ty)
  have "(case base_of s2 (nd_ty a) of Some b \<Rightarrow> b | None \<Rightarrow> ty_int) < nt s2"
    using store_facts(2) [OF s(3) t(2)] t s(3) by (auto split: option.split)
  then show "Q (ND_DEREF (Some (case base_of s2 (nd_ty a) of None \<Rightarrow> ty_int | Some t \<Rightarrow> t)) a) s2"
    using a s by (intro assms(4)) (auto simp: expr_ok_def prel_def)
qed

lemma runs_deref_expr:
  assumes "pinv s" "expr_ok e s" "\<And>e s'. pinv s' \<Longrightarrow> prel s s' \<Longrightarrow> expr_ok e s' \<Longrightarrow> Q e s'"
  shows "runs (deref_expr e) s Q"
proof -
  obtain t where t: "nd_ty e = Some t" "t < nt s" using assms(2) by (rule expr_ty)
  have "expr_ok (ND_DEREF (base_of s (nd_ty e)) e) s" if "ty_is_ptrlike s (nd_ty e)"
    using store_facts(2,3) [OF assms(1) t(2)] that t assms(2) by (auto simp: expr_ok_def Suc_le_eq)
  moreover have "expr_ok (ND_DEREF (Some ty_int) e) s'" if "pinv s'" "prel s s'" for s'
    using that assms(2) by (auto simp: expr_ok_def prel_def)
  ultimately show ?thesis using assms by (auto simp: deref_expr_def intro!: runs_perror)
qed

text \<open>A member found through a value or a pointer of the right type.\<close>

lemma member_expr_ok:
  assumes "pinv s" "expr_ok e s" "prel s s'" "pinv s'"
  shows "find_member s (nd_ty e) x = Some m \<Longrightarrow> expr_ok (ND_MEMBER (Some (m_ty m)) e off) s'"
    "st = (case nd_ty e of Some i \<Rightarrow> if ty_kind (p_types s ! i) = TY_PTR then ty_base (p_types s ! i) else None | None \<Rightarrow> None) \<Longrightarrow>
     find_member s st x = Some m \<Longrightarrow> expr_ok (ND_MEMBER (Some (m_ty m)) (ND_DEREF st e) off) s'"
proof -
  obtain t where t: "nd_ty e = Some t" "t < nt s" using assms(2) by (rule expr_ty)
  show "expr_ok (ND_MEMBER (Some (m_ty m)) e off) s'" if "find_member s (nd_ty e) x = Some m"
    using store_facts(4) [OF assms(1) t(2)] that t assms(2,3) by (fastforce simp: expr_ok_def prel_def Suc_le_eq)
  show "expr_ok (ND_MEMBER (Some (m_ty m)) (ND_DEREF st e) off) s'"
    if st: "st = (case nd_ty e of Some i \<Rightarrow> if ty_kind (p_types s ! i) = TY_PTR then ty_base (p_types s ! i) else None | None \<Rightarrow> None)"
      and m: "find_member s st x = Some m"
  proof -
    obtain b where b: "st = Some b" using m by (cases st) (auto simp: find_member_def)
    then have "base_of s (Some t) = Some b" using st t by (simp add: base_of_def split: if_splits)
    then have "b < nt s" by (rule store_facts(2) [OF assms(1) t(2)])
    then show ?thesis using store_facts(4) [OF assms(1), of b x m] b m assms(2,3) by (auto simp: expr_ok_def prel_def)
  qed
qed

locale expr_parser =
  fixes asg :: "node_t pm" and n :: nat and m :: nat
  assumes asg_fine: "fine (m - 1) asg expr_ok"
    and fuel: "2 * m \<le> Suc n"
begin

lemma asg_runs:
  assumes "pinv s" "length (tk s) < m" "\<And>e s'. pinv s' \<Longrightarrow> prel s s' \<Longrightarrow> expr_ok e s' \<Longrightarrow> Q e s'"
  shows "runs asg s Q"
  by (rule fineD [OF asg_fine]) (use assms in auto)

lemma enough: "pinv s \<Longrightarrow> length (tk s) \<le> m \<Longrightarrow> length (tk s) \<le> n"
  using fuel pinv_tk [of s] by (cases "tk s") auto

lemma args_loop_runs:
  assumes "pinv s" "length (tk s) \<le> m" "length (tk s) \<le> k" "args_ok as s"
    "\<And>as s'. pinv s' \<Longrightarrow> prel s s' \<Longrightarrow> args_ok as s' \<Longrightarrow> Q as s'"
  shows "runs (args_loop k asg as) s Q"
  using assms
proof (induction k arbitrary: s as)
  case (Suc k)
  show ?case using Suc.prems(1-4)
    by (auto intro!: runs_consume asg_runs Suc.IH Suc.prems(5) simp: prel_def args_ok_def expr_ok_def)
qed simp

lemma call_expr_runs:
  assumes "pinv s" "length (tk s) < m" "\<And>e s'. pinv s' \<Longrightarrow> prel s s' \<Longrightarrow> expr_ok e s' \<Longrightarrow> Q e s'"
  shows "runs (call_expr n asg x) s Q"
  unfolding call_expr_def using assms(1,2)
  by (auto intro!: runs_new_node runs_at_punct runs_expect asg_runs args_loop_runs enough assms(3) simp: prel_def args_ok_def expr_ok_def)

lemma str_expr_runs:
  assumes "pinv s" "hd (tk s) \<noteq> TK_EOF" "\<And>e s'. pinv s' \<Longrightarrow> prel s s' \<Longrightarrow> expr_ok e s' \<Longrightarrow> Q e s'"
  shows "runs new_node s (\<lambda>_ s. runs (ty_ptr_to (Some ty_char)) s (\<lambda>t s. runs advance s (\<lambda>_ s. Q (ND_STR (Some t) a) s)))"
  by (auto intro!: runs_new_node runs_ty_ptr_to runs_advance assms) (use assms(1,2) in \<open>auto simp: expr_ok_def prel_def\<close>)

lemma primary_fine: "fine m (primary n asg) expr_ok"
proof (rule fine_cps)
  fix s Q assume s: "pinv s" "length (tk s) \<le> m" and Q: "\<And>e s'. pinv s' \<Longrightarrow> prel s s' \<Longrightarrow> expr_ok e s' \<Longrightarrow> Q e s'"
  have ident: "runs advance s (\<lambda>_ s. runs (consume ''('') s (\<lambda>b s. runs (if b then call_expr n asg x else var_expr x) s Q))"
    if "hd (tk s) = TK_IDENT x" for x
    using s that by (auto intro!: runs_advance runs_consume call_expr_runs runs_var_expr Q simp: prel_def)
  have num: "runs (new_num v) s (\<lambda>e s. runs advance s (\<lambda>_ s. Q e s))" if "hd (tk s) \<noteq> TK_EOF" for v
    using s that by (auto intro!: runs_new_num runs_advance Q intro: expr_ok_prel simp: prel_def)
  have bad: "runs (perror ''expected expression'') s (\<lambda>_ s. runs (new_num 0) s Q)"
    using s by (auto intro!: runs_perror runs_new_num Q simp: prel_def)
  have paren: "runs asg s' (\<lambda>e s. runs (expect '')'') s (\<lambda>_ s. Q e s))"
    if "pinv s'" "prel s s'" "length (tk s') < length (tk s)" for s'
    by (auto intro!: asg_runs runs_expect Q) (use s that in \<open>auto intro: expr_ok_prel simp: prel_def\<close>)
  show "runs (primary n asg) s Q"
    unfolding primary_def wpre_simps
  proof (rule runs_consume [OF s(1)], goal_cases)
    case (1 s')
    then show ?case using paren by simp
  next
    case 2
    show ?case unfolding if_False wpre_simps
      by (rule runs_peek [OF s(1)])
        (use ident num bad str_expr_runs [OF s(1) _ Q] in \<open>auto split: token_t.split simp del: wpre_if\<close>)
  qed
qed

lemma postfix_loop_runs:
  assumes "pinv s" "length (tk s) \<le> m" "length (tk s) \<le> k" "expr_ok e s"
    "\<And>e s'. pinv s' \<Longrightarrow> prel s s' \<Longrightarrow> expr_ok e s' \<Longrightarrow> Q e s'"
  shows "runs (postfix_loop k asg e) s Q"
  using assms
proof (induction k arbitrary: s e)
  case (Suc k)
  note s = Suc.prems(1-4) and Q = Suc.prems(5)
  have again: "runs (postfix_loop k asg e) s' Q" if "pinv s'" "prel s s'" "length (tk s') < length (tk s)" "expr_ok e s'" for e s'
    by (rule Suc.IH) (use that s in \<open>auto intro!: Q simp: prel_def\<close>)
  have index: "runs asg s' (\<lambda>i s. runs (expect '']'') s (\<lambda>_ s. runs (index_expr e i) s (\<lambda>e s. runs (postfix_loop k asg e) s Q)))"
    if "pinv s'" "prel s s'" "length (tk s') < length (tk s)" for s'
    by (auto intro!: asg_runs runs_expect runs_index_expr again) (use s that in \<open>auto simp: expr_ok_def prel_def\<close>)
  have memb: "runs (case find_member s' (nd_ty e) x of None \<Rightarrow> seqn (perror msg) (\<lambda>_. ret e)
        | Some m \<Rightarrow> seqn new_node (\<lambda>_. postfix_loop k asg (ND_MEMBER (Some (m_ty m)) e (m_offset m)))) s2 Q"
    if s': "pinv s'" "prel s s'" "length (tk s') < length (tk s)" and s2: "pinv s2" "prel s' s2" for s' s2 x msg
  proof -
    have e: "expr_ok e s'" using s(4) s'(2) by (rule expr_ok_prel)
    note ok = member_expr_ok(1) [OF s'(1) e prel_trans [OF s2(2)]]
    show ?thesis
      by (cases "find_member s' (nd_ty e) x") (auto intro!: runs_perror runs_new_node again Q ok simp: s2,
        use s' s2 s(4) in \<open>auto simp: prel_def expr_ok_def\<close>)
  qed
  have arrow: "runs (case find_member s' st x of None \<Rightarrow> seqn (perror msg) (\<lambda>_. ret e)
        | Some m \<Rightarrow> seqn new_node (\<lambda>_. seqn new_node (\<lambda>_. postfix_loop k asg (ND_MEMBER (Some (m_ty m)) (ND_DEREF st e) (m_offset m))))) s2 Q"
    if s': "pinv s'" "prel s s'" "length (tk s') < length (tk s)" and s2: "pinv s2" "prel s' s2"
      and st: "st = (case nd_ty e of Some i \<Rightarrow> if ty_kind (p_types s' ! i) = TY_PTR then ty_base (p_types s' ! i) else None | None \<Rightarrow> None)"
    for s' s2 x st msg
  proof -
    have e: "expr_ok e s'" using s(4) s'(2) by (rule expr_ok_prel)
    note ok = member_expr_ok(2) [OF s'(1) e prel_trans [OF s2(2)] _ st]
    show ?thesis
      by (cases "find_member s' st x") (auto intro!: runs_perror runs_new_node again Q ok simp: s2,
        use s' s2 s(4) in \<open>auto simp: prel_def expr_ok_def\<close>)
  qed
  show ?case unfolding postfix_loop.simps wpre_simps
    by (auto intro!: runs_at_punct runs_advance runs_peek index memb arrow Q runs_perror split: token_t.split simp del: wpre_if)
      (use s in \<open>auto simp: prel_def expr_ok_def\<close>)
qed simp

lemma postfix_fine: "fine m (postfix n asg) expr_ok"
proof (rule fine_cps)
  fix s Q assume s: "pinv s" "length (tk s) \<le> m" and Q: "\<And>e s'. pinv s' \<Longrightarrow> prel s s' \<Longrightarrow> expr_ok e s' \<Longrightarrow> Q e s'"
  show "runs (postfix n asg) s Q"
    unfolding postfix_def using s by (auto intro!: fineD [OF primary_fine] postfix_loop_runs enough Q simp: prel_def)
qed

lemma unary_runs:
  assumes "pinv s" "length (tk s) \<le> m" "length (tk s) \<le> k" "\<And>e s'. pinv s' \<Longrightarrow> prel s s' \<Longrightarrow> expr_ok e s' \<Longrightarrow> Q e s'"
  shows "runs (unary k n asg) s Q"
  using assms
proof (induction k arbitrary: s Q)
  case (Suc k)
  note s = Suc.prems(1-3) and Q = Suc.prems(4)
  have deeper: "runs (unary k n asg) s' R"
    if "pinv s'" "prel s s'" "length (tk s') < length (tk s)" "\<And>e s2. pinv s2 \<Longrightarrow> prel s' s2 \<Longrightarrow> expr_ok e s2 \<Longrightarrow> R e s2" for s' R
    by (rule Suc.IH) (use that s in auto)
  have build: "runs new_node s' (\<lambda>_ s. runs (unary k n asg) s R)"
    if "pinv s'" "prel s s'" "length (tk s') < length (tk s)" "\<And>e s2. pinv s2 \<Longrightarrow> prel s' s2 \<Longrightarrow> expr_ok e s2 \<Longrightarrow> R e s2" for s' R
    by (auto intro!: runs_new_node deeper that) (use that in \<open>auto simp: prel_def\<close>)
  have szof: "runs (gets (\<lambda>s. is_punct (tk s) ''('' \<and> looks_like_type s (tl (tk s)))) s' (\<lambda>b s. runs (if b then
         seqn advance (\<lambda>_. seqn (declspec n) (\<lambda>t. seqn (expect '')'') (\<lambda>_.
         seqn (gets (\<lambda>s. size_of s (Some t))) (\<lambda>sz. new_num (of_int sz)))))
       else seqn (unary k n asg) (\<lambda>e. seqn (gets (\<lambda>s. size_of s (nd_ty e))) (\<lambda>sz. new_num (of_int sz)))) s Q)"
    if "pinv s'" "prel s s'" "length (tk s') < length (tk s)" for s'
    using s that fuel at_word [of "tk s'" "''(''"]
    by (auto intro!: runs_advance runs_declspec runs_expect runs_new_num deeper Q simp: prel_def)
  have amp: "runs (ty_ptr_to (nd_ty e)) s' (\<lambda>t s. Q (ND_ADDR (Some t) e) s)" if a: "pinv s'" "prel s s'" "expr_ok e s'" for s' e
  proof -
    obtain t where "nd_ty e = Some t" "t < nt s'" using a(3) by (rule expr_ty)
    then show ?thesis using a by (auto intro!: runs_ty_ptr_to Q simp: prel_def expr_ok_def)
  qed
  show ?case unfolding unary.simps
  proof (intro runs_consume_if s(1), goal_cases)
    case (1 s')
    then show ?case by (subst wpre_simps(5)) (rule szof)
  next
    case (2 s')
    then show ?case by (auto intro!: deeper Q intro: prel_trans)
  next
    case (3 s')
    then show ?case by (auto intro!: build Q intro: prel_trans simp: expr_ok_def)
  next
    case (4 s')
    then show ?case by (auto intro!: build Q intro: prel_trans simp: expr_ok_def)
  next
    case (5 s')
    then show ?case by (auto intro!: build runs_deref_expr Q intro: prel_trans)
  next
    case (6 s')
    then show ?case by (auto intro!: build amp intro: prel_trans)
  next
    case 7
    then show ?case by (rule fineD [OF postfix_fine s(1,2)]) (rule Q)
  qed
qed simp

lemma unary_fine: "fine m (unary n n asg) expr_ok"
  by (rule fine_cps) (auto intro!: unary_runs enough)

lemma left_assoc_fine:
  assumes arg: "fine m arg expr_ok" and ops: "list_all combines (map snd fs)"
  shows "fine m (left_assoc n fs arg) expr_ok"
proof -
  have op: "runs (consume_op gs) s Q"
    if "pinv s" "list_all combines (map snd gs)" "Q None s"
      "\<And>f s'. pinv s' \<Longrightarrow> prel s s' \<Longrightarrow> length (tk s') < length (tk s) \<Longrightarrow> combines f \<Longrightarrow> Q (Some f) s'" for gs s Q
    using that by (induction gs) (auto intro!: runs_consume)
  have loop: "runs (left_loop k fs arg e) s Q"
    if "pinv s" "length (tk s) \<le> m" "length (tk s) \<le> k" "expr_ok e s" "\<And>e s'. pinv s' \<Longrightarrow> prel s s' \<Longrightarrow> expr_ok e s' \<Longrightarrow> Q e s'" for k s e Q
    using that
  proof (induction k arbitrary: s e)
    case (Suc k)
    note s = Suc.prems(1-4) and Q = Suc.prems(5)
    have round: "runs arg s' (\<lambda>a s. runs (f e a) s (\<lambda>e s. runs (left_loop k fs arg e) s Q))"
      if f: "pinv s'" "prel s s'" "length (tk s') < length (tk s)" "combines f" for f s'
      by (rule fineD [OF arg f(1)], use s f in simp, rule combinesD [OF f(4)])
        (use s f in \<open>auto intro!: Suc.IH Q simp: prel_def expr_ok_def\<close>)
    show ?case using s by (auto intro!: op [OF _ ops] round Q)
  qed simp
  show ?thesis unfolding left_assoc_def
    by (rule fine_cps) (auto intro!: fineD [OF arg] loop enough simp: prel_def)
qed

lemma logor_fine: "fine m (logor n asg) expr_ok"
  unfolding logor_def logand_def equality_def relational_def add_expr_def mul_def
  by (intro left_assoc_fine unary_fine) (simp_all add: combines_binary combines_new_add combines_new_sub combines_swap)

end

lemma assign_fine: "2 * m \<le> n \<Longrightarrow> fine m (assign n) expr_ok"
proof (induction n arbitrary: m)
  case 0
  then show ?case by (simp add: fine_def)
next
  case (Suc n)
  have "expr_parser (assign n) n m"
  proof
    show "fine (m - 1) (assign n) expr_ok" using Suc.prems by (intro Suc.IH) linarith
  qed (use Suc.prems in simp)
  note lo = expr_parser.logor_fine [OF this]
  show ?case
  proof (rule fine_cps)
    fix s Q assume s: "pinv s" "length (tk s) \<le> m" and Q: "\<And>e s'. pinv s' \<Longrightarrow> prel s s' \<Longrightarrow> expr_ok e s' \<Longrightarrow> Q e s'"
    have rhs: "runs new_node s' (\<lambda>_ s. runs (assign n) s (\<lambda>r s. Q (ND_ASSIGN (nd_ty l) l r) s))"
      if s': "pinv s'" "prel s s'" "length (tk s') < length (tk s)" "expr_ok l s'" for l s'
    proof -
      obtain t where t: "nd_ty l = Some t" "t < nt s'" using s'(4) by (rule expr_ty)
      have fn: "fine (length (tk s')) (assign n) expr_ok" using s s' Suc.prems by (intro Suc.IH) linarith
      show ?thesis
        by (auto intro!: runs_new_node fineD [OF fn] Q) (use s' t in \<open>auto simp: prel_def expr_ok_def\<close>)
    qed
    show "runs (assign (Suc n)) s Q"
      by (auto intro!: fineD [OF lo s] runs_consume rhs Q intro: prel_trans) (auto simp: prel_def expr_ok_def)
  qed
qed

interpretation assign_level: expr_parser "assign n" n "Suc n div 2" for n
proof
  show "fine (Suc n div 2 - 1) (assign n) expr_ok" by (rule assign_fine) simp
qed simp

lemma runs_expr:
  assumes "pinv s" "2 * length (tk s) \<le> n" "\<And>e s'. pinv s' \<Longrightarrow> prel s s' \<Longrightarrow> expr_ok e s' \<Longrightarrow> Q e s'"
  shows "runs (expr n) s Q" "runs (assign n) s Q"
  unfolding expr_def by (rule fineD [OF assign_fine [OF assms(2)] assms(1)]; use assms(3) in simp)+

section \<open>Statements\<close>

lemma runs_new_local:
  assumes s: "pinv s" and t: "ty_ok t s" and Q: "\<And>v s'. pinv s' \<Longrightarrow> prel s s' \<Longrightarrow> v < nv s' \<Longrightarrow> tk s' = tk s \<Longrightarrow> Q v s'"
  shows "runs (new_local x t) s Q"
  unfolding new_local_def wpre_simps
proof (rule runs_palloc [OF s], elim exE)
  fix a s' c m assume s': "pinv s'" "prel s s'" "s' = s\<lparr>pcc := c, a_mem := m\<rparr>"
  let ?s = "s'\<lparr>p_vars := p_vars s' @ [\<lparr>v_name = x, v_ty = t, v_offset = 0, is_global = False, v_gaddr = 0\<rparr>], cur_locals := nv s' # cur_locals s'\<rparr>"
  have "pinv ?s" using s'(1,3) t by (auto simp: pinv_def store_ok_def ty_ok_def intro: less_SucI)
  moreover have "prel s ?s" using s'(2) by (simp add: prel_def)
  ultimately show "Q (nv s') ?s" using s'(3) by (intro Q) auto
qed

lemma runs_new_global:
  assumes s: "pinv s" and t: "ty_ok t s" and Q: "\<And>v s'. pinv s' \<Longrightarrow> prel s s' \<Longrightarrow> tk s' = tk s \<Longrightarrow> Q v s'"
  shows "runs (new_global x t) s Q"
  unfolding new_global_def wpre_simps
proof (rule runs_palloc [OF s], rule runs_palloc, assumption, elim exE)
  fix a a' s1 s' c m c' m'
  assume s': "pinv s'" "prel s s1" "prel s1 s'" "s' = s1\<lparr>pcc := c', a_mem := m'\<rparr>" "s1 = s\<lparr>pcc := c, a_mem := m\<rparr>"
  let ?s = "s'\<lparr>p_vars := p_vars s' @ [\<lparr>v_name = x, v_ty = t, v_offset = 0, is_global = True, v_gaddr = a'\<rparr>], g_globals := nv s' # g_globals s'\<rparr>"
  have "pinv ?s" using s'(1,4,5) t by (auto simp: pinv_def store_ok_def ty_ok_def intro: less_SucI)
  moreover have "prel s ?s" using s'(2,3) by (simp add: prel_def)
  ultimately show "Q (nv s') ?s" using s'(4,5) by (intro Q) auto
qed

definition nodes_ok :: "node_t list \<Rightarrow> pst \<Rightarrow> bool" where
  "nodes_ok ns s = (list_all stmt_wf ns \<and> mx tneed ns \<le> nt s \<and> mx vneed ns \<le> nv s)"

lemma nodes_ok_snoc [simp]: "nodes_ok (ns @ [e]) s = (nodes_ok ns s \<and> stmt_ok e s)"
  by (auto simp: nodes_ok_def stmt_ok_def)

lemma nodes_ok_Nil [simp]: "nodes_ok [] s"
  by (simp add: nodes_ok_def)

lemma nodes_ok_prel: "nodes_ok ns s \<Longrightarrow> prel s s' \<Longrightarrow> nodes_ok ns s'"
  by (auto simp: nodes_ok_def prel_def)

lemma runs_init_stmt:
  assumes "pinv s" "v < nv s" "2 * length (tk s) \<le> n" "\<And>e s'. pinv s' \<Longrightarrow> prel s s' \<Longrightarrow> stmt_ok e s' \<Longrightarrow> Q e s'"
  shows "runs (init_stmt n v) s Q"
proof -
  have "v_ty (p_vars s ! v) < nt s" by (rule store_facts(6) [OF assms(1,2)])
  then show ?thesis unfolding init_stmt_def
    by (auto intro!: runs_new_node runs_expr(2) assms(4)) (use assms(1-3) in \<open>auto simp: prel_def stmt_ok_def expr_ok_def\<close>)
qed

lemma runs_declarators:
  assumes "pinv s" "2 * length (tk s) \<le> n" "length (tk s) \<le> k" "ty_ok t s" "nodes_ok as s"
    "\<And>as s'. pinv s' \<Longrightarrow> prel s s' \<Longrightarrow> nodes_ok as s' \<Longrightarrow> Q as s'"
  shows "runs (declarators k n t as) s Q"
  using assms
proof (induction k arbitrary: s as)
  case (Suc k)
  note s = Suc.prems(1-5) and Q = Suc.prems(6)
  have tail: "runs failed s' (\<lambda>f s. runs (if f then ret as else seqn (consume '','') (\<lambda>b. if b then declarators k n t as else ret as)) s Q)"
    if "pinv s'" "prel s s'" "length (tk s') < length (tk s)" "nodes_ok as s'" for s' as
    using that s by (auto intro!: runs_failed runs_consume Suc.IH Q intro: nodes_ok_prel simp: prel_def ty_ok_def)
  have init: "runs (consume ''='') s' (\<lambda>b s. runs (if b then seqn (init_stmt n v) (\<lambda>e. ret (as @ [e])) else ret as) s (\<lambda>as s.
      runs failed s (\<lambda>f s. runs (if f then ret as else seqn (consume '','') (\<lambda>b. if b then declarators k n t as else ret as)) s Q)))"
    if s': "pinv s'" "prel s s'" "length (tk s') < length (tk s)" "v < nv s'" for s' v
    apply (rule runs_consume [OF s'(1)])
    subgoal for s2
      by (auto intro!: runs_init_stmt tail simp del: wpre_if) (use s s' in \<open>auto simp: prel_def intro: nodes_ok_prel\<close>)
    subgoal using s' s by (auto intro!: tail intro: nodes_ok_prel simp del: wpre_if)
    done
  have name: "runs advance s (\<lambda>_ s. runs (array_suffix t) s (\<lambda>ty s. runs (new_local x ty) s (\<lambda>v s.
      runs (consume ''='') s (\<lambda>b s. runs (if b then seqn (init_stmt n v) (\<lambda>e. ret (as @ [e])) else ret as) s (\<lambda>as s.
      runs failed s (\<lambda>f s. runs (if f then ret as else seqn (consume '','') (\<lambda>b. if b then declarators k n t as else ret as)) s Q))))))"
    if "hd (tk s) = TK_IDENT x" for x
    by (auto intro!: runs_advance runs_array_suffix runs_new_local init simp del: wpre_if)
      (use s that in \<open>auto simp: prel_def ty_ok_def\<close>)
  show ?case unfolding declarators.simps wpre_simps
    by (rule runs_peek [OF s(1)]) (use s name in \<open>auto intro!: runs_perror Q intro: nodes_ok_prel split: token_t.split simp del: wpre_if\<close>)
qed simp

lemma runs_declaration:
  assumes "pinv s" "2 * length (tk s) \<le> n"
    "\<And>e s'. pinv s' \<Longrightarrow> prel s s' \<Longrightarrow> stmt_ok e s' \<Longrightarrow> g_err (pcc s') \<or> length (tk s') < length (tk s) \<Longrightarrow> Q e s'"
  shows "runs (cc_declaration n) s Q"
  unfolding cc_declaration_def wpre_simps
  by (intro runs_declspec [OF assms(1,2)] runs_new_node runs_declarators runs_expect assms(3))
    (use assms(2) in \<open>auto simp: prel_def ty_ok_def nodes_ok_def stmt_ok_def\<close>)

lemma runs_signed_const:
  assumes "pinv s" "\<And>v s'. pinv s' \<Longrightarrow> prel s s' \<Longrightarrow> Q v s'"
  shows "runs (signed_const msg) s Q"
proof -
  have k: "runs peek s' (\<lambda>t s. runs (if \<not> is_num t then seqn (perror msg) (\<lambda>_. ret 0)
      else seqn advance (\<lambda>_. ret (if neg then - tok_val t else tok_val t))) s Q)" if "pinv s'" "prel s s'" for s' neg
  proof (rule runs_peek [OF that(1)])
    fix t assume "hd (tk s') = t"
    then have "hd (tk s') \<noteq> TK_EOF" if "is_num t" using that by (auto simp: is_num_def)
    then show "runs (if \<not> is_num t then seqn (perror msg) (\<lambda>_. ret 0) else seqn advance (\<lambda>_. ret (if neg then - tok_val t else tok_val t))) s' Q"
      using that by (auto intro!: runs_perror runs_advance assms(2) intro: prel_trans simp del: wpre_if)
  qed
  show ?thesis unfolding signed_const_def wpre_simps
    by (rule runs_at_punct) (use assms(1) in \<open>auto intro!: runs_advance k simp del: wpre_if\<close>)
qed

lemma pinv_switch [simp]: "pinv (s\<lparr>cur_switch := c\<rparr>) = pinv s" "pinv (s\<lparr>p_ncase := i\<rparr>) = pinv s"
  by (simp_all add: pinv_def store_ok_def)

lemma prel_switch [simp]:
  "prel s (s'\<lparr>cur_switch := c\<rparr>) = prel s s'" "prel (s\<lparr>cur_switch := c\<rparr>) s' = prel s s'"
  "prel s (s'\<lparr>p_ncase := i\<rparr>) = prel s s'"
  by (simp_all add: prel_def)

lemma stmt_ok_switch [simp]: "stmt_ok e (s\<lparr>cur_switch := c\<rparr>) = stmt_ok e s" "expr_ok e (s\<lparr>cur_switch := c\<rparr>) = expr_ok e s"
  by (simp_all add: stmt_ok_def expr_ok_def)

lemma runs_add_case:
  assumes "pinv s" "\<And>i s'. pinv s' \<Longrightarrow> prel s s' \<Longrightarrow> tk s' = tk s \<Longrightarrow> Q i s'"
  shows "runs (add_case d v) s Q"
  unfolding add_case_def wpre_simps using assms(1)
  by (rule runs_new_node) (rule assms(2), auto)

lemma runs_outside_switch:
  assumes "pinv s" "\<And>s'. pinv s' \<Longrightarrow> prel s s' \<Longrightarrow> Q () s'" shows "runs (outside_switch msg) s Q"
  unfolding outside_switch_def using assms by (auto intro!: runs_perror)

lemma runs_paren_expr:
  assumes "pinv s" "2 * length (tk s) \<le> n" "\<And>e s'. pinv s' \<Longrightarrow> prel s s' \<Longrightarrow> expr_ok e s' \<Longrightarrow> Q e s'"
  shows "runs (paren_expr n) s Q"
  unfolding paren_expr_def wpre_simps
  by (intro runs_expect runs_expr assms(1,3)) (use assms(2) in \<open>auto simp: prel_def expr_ok_def\<close>)

lemma runs_opt_expr:
  assumes "pinv s" "2 * length (tk s) \<le> n"
    "\<And>e s'. pinv s' \<Longrightarrow> prel s s' \<Longrightarrow> pred_option expr_wf e \<and> mo tneed e \<le> nt s' \<and> mo vneed e \<le> nv s' \<Longrightarrow> Q e s'"
  shows "runs (opt_expr n w) s Q"
  unfolding opt_expr_def using assms(1,2) by (auto intro!: runs_at_punct runs_expr assms(3) simp: expr_ok_def)

lemma runs_block_loop:
  assumes st: "\<And>m. 2 * m < n \<Longrightarrow> uses_token m st stmt_ok"
    and "pinv s" "2 * length (tk s) < n" "length (tk s) \<le> k" "nodes_ok ns s"
    "\<And>ns s'. pinv s' \<Longrightarrow> prel s s' \<Longrightarrow> nodes_ok ns s' \<Longrightarrow> Q ns s'"
  shows "runs (block_loop k n st ns) s Q"
  using assms(2-)
proof (induction k arbitrary: s ns)
  case (Suc k)
  note s = Suc.prems(1-4) and Q = Suc.prems(5)
  have again: "runs failed s' (\<lambda>f s. runs (if f then ret (ns @ [x]) else block_loop k n st (ns @ [x])) s Q)"
    if "pinv s'" "prel s s'" "stmt_ok x s'" "g_err (pcc s') \<or> length (tk s') < length (tk s)" for x s'
    by (rule runs_failed) (use that s in \<open>auto intro!: Suc.IH Q intro: nodes_ok_prel prel_trans\<close>)
  have item: "runs (if d then cc_declaration n else st) s (\<lambda>x s. runs failed s (\<lambda>f s. runs (if f then ret (ns @ [x]) else block_loop k n st (ns @ [x])) s Q))" for d
    using s by (cases d) (auto intro!: runs_declaration uses_tokenD [OF st] again simp del: wpre_if)
  show ?case unfolding block_loop.simps wpre_simps
    by (rule runs_at_punct) (use s item in \<open>auto intro!: runs_peek Q simp del: wpre_if\<close>)
qed simp

lemma stmt_fine: "2 * m < n \<Longrightarrow> uses_token m (stmt n) stmt_ok"
proof (induction n arbitrary: m)
  case (Suc n)
  show ?case
  proof (rule uses_token_cps)
    fix s Q assume s: "pinv s" "length (tk s) \<le> m"
      and Q: "\<And>e s'. pinv s' \<Longrightarrow> prel s s' \<Longrightarrow> stmt_ok e s' \<Longrightarrow> g_err (pcc s') \<or> length (tk s') < length (tk s) \<Longrightarrow> Q e s'"
    define L where "L = length (tk s)"
    have L: "2 * L \<le> n" using s(2) Suc.prems by (simp add: L_def)
    have sub: "runs (stmt n) s' R" if "pinv s'" "length (tk s') < L" "\<And>e s2. pinv s2 \<Longrightarrow> prel s' s2 \<Longrightarrow> stmt_ok e s2 \<Longrightarrow> R e s2" for s' R
      by (rule uses_tokenD [OF Suc.IH that(1) order.refl]) (use that L in auto)
    have Q': "Q e s'" if "pinv s'" "prel s s'" "stmt_ok e s'" "length (tk s') < L" for e s'
      using that by (intro Q) (auto simp: L_def)
    note E = runs_expr(1) runs_paren_expr runs_opt_expr runs_new_node runs_expect sub Q'
    note S = prel_def stmt_ok_def expr_ok_def L_def
    show "runs (stmt (Suc n)) s Q"
      unfolding stmt.simps
    proof (intro runs_consume_if s(1), goal_cases)
      case (1 s')
      then show ?case unfolding wpre_simps by (intro E) (use L in \<open>auto simp: S\<close>)
    next
      case (2 s')
      then show ?case unfolding wpre_simps by (intro E runs_if_rules) (use L in \<open>auto simp: S\<close>)
    next
      case (3 s')
      then show ?case unfolding wpre_simps by (intro E) (use L in \<open>auto simp: S\<close>)
    next
      case (4 s')
      then show ?case unfolding wpre_simps by (intro E runs_if_rules) (use L in \<open>auto simp: S option.pred_set\<close>)
    next
      case (5 s')
      then show ?case unfolding wpre_simps by (intro E) (use L in \<open>auto simp: S\<close>)
    next
      case (6 s')
      then show ?case unfolding wpre_simps by (intro E runs_outside_switch runs_signed_const runs_add_case) (use L in \<open>auto simp: S\<close>)
    next
      case (7 s')
      then show ?case unfolding wpre_simps by (intro E runs_outside_switch runs_add_case) (use L in \<open>auto simp: S\<close>)
    next
      case (8 s')
      then show ?case unfolding wpre_simps by (intro E) (use L in \<open>auto simp: S\<close>)
    next
      case (9 s')
      then show ?case unfolding wpre_simps by (intro E) (use L in \<open>auto simp: S\<close>)
    next
      case 10
      show ?case
      proof (rule runs_at_punct_if)
        assume "hd (tk s) \<noteq> TK_EOF"
        then show "runs (seqn advance (\<lambda>_. seqn new_node (\<lambda>_. seqn (block_loop n n (stmt n) []) (\<lambda>ns. seqn (expect ''}'') (\<lambda>_. ret (ND_BLOCK ns)))))) s Q"
          unfolding wpre_simps by (intro E runs_advance runs_block_loop Suc.IH s(1)) (use L in \<open>auto simp: S nodes_ok_def\<close>)
      next
        show "runs (expr_stmt n) s Q" unfolding expr_stmt_def wpre_simps
          by (intro runs_new_node runs_expr(1) runs_expect Q s(1)) (use L in \<open>auto simp: S\<close>)
      qed
    qed
  qed
qed (simp add: uses_token_def)

section \<open>Programs\<close>

text \<open>A function the parser built: at most eight parameters, which are variables of the program like
  the locals, and a body that is a well-formed statement.\<close>

definition func_ok :: "nat \<Rightarrow> nat \<Rightarrow> func_t \<Rightarrow> bool" where
  "func_ok t v f =
     (f_ret f < t \<and> length (f_params f) \<le> 8 \<and> list_all (\<lambda>p. p < v) (f_params f) \<and> list_all (\<lambda>p. p < v) (f_locals f) \<and>
      (case f_body f of None \<Rightarrow> True | Some b \<Rightarrow> stmt_wf b \<and> tneed b \<le> t \<and> vneed b \<le> v))"

lemma func_ok_mono: "func_ok t v f \<Longrightarrow> t \<le> t' \<Longrightarrow> v \<le> v' \<Longrightarrow> func_ok t' v' f"
  by (auto simp: func_ok_def list_all_iff split: option.splits)

lemma vars_prel: "list_all (\<lambda>p. p < nv s) ps \<Longrightarrow> prel s s' \<Longrightarrow> list_all (\<lambda>p. p < nv s') ps"
  by (auto simp: prel_def list_all_iff intro: less_le_trans)

lemma runs_param_loop:
  assumes "pinv s" "2 * length (tk s) \<le> n" "length (tk s) \<le> k" "list_all (\<lambda>p. p < nv s) ps"
    "\<And>ps s'. pinv s' \<Longrightarrow> prel s s' \<Longrightarrow> list_all (\<lambda>p. p < nv s') ps \<Longrightarrow> Q ps s'"
  shows "runs (param_loop k n ps) s Q"
  using assms
proof (induction k arbitrary: s ps)
  case (Suc k)
  note s = Suc.prems(1-4) and Q = Suc.prems(5)
  have old: "list_all (\<lambda>p. p < nv s') ps" if "prel s s'" for s'
    using s(4) that by (rule vars_prel)
  have name: "runs advance s' (\<lambda>_ s. runs (new_local x t) s (\<lambda>v s. runs (consume '','') s (\<lambda>b s.
      runs (if b then param_loop k n (ps @ [v]) else ret (ps @ [v])) s Q)))"
    if s': "pinv s'" "prel s s'" "ty_ok t s'" "hd (tk s') = TK_IDENT x" for s' t x
    apply (intro runs_advance runs_new_local runs_if_rules Suc.IH Q s'(1))
    using s s' old by (auto simp: prel_def ty_ok_def list_all_iff intro: less_le_trans)
  show ?case unfolding param_loop.simps wpre_simps
    by (intro runs_declspec runs_peek s(1,2)) (use name in \<open>auto intro!: runs_perror Q old intro: prel_trans split: token_t.split simp del: wpre_if\<close>)
qed simp

lemma runs_function_body:
  assumes s: "pinv s" "2 * length (tk s) < n" and f: "func_ok (nt s) (nv s) f"
    and Q: "\<And>f s'. pinv s' \<Longrightarrow> prel s s' \<Longrightarrow> func_ok (nt s') (nv s') f \<Longrightarrow> Q f s'"
  shows "runs (function_body n f) s Q"
proof -
  have keep: "func_ok (nt s') (nv s') f" if "prel s s'" for s'
    by (rule func_ok_mono [OF f]) (use that in \<open>auto simp: prel_def\<close>)
  have body: "Q (f\<lparr>f_locals := cur_locals s', f_body := Some b\<rparr>) s'" if "pinv s'" "prel s s'" "stmt_ok b s'" for b s'
  proof -
    have "list_all (\<lambda>v. v < nv s') (cur_locals s')" using that(1) by (auto simp: pinv_def store_ok_def list_all_iff)
    then have "func_ok (nt s') (nv s') (f\<lparr>f_locals := cur_locals s', f_body := Some b\<rparr>)"
      using keep [OF that(2)] that(3) by (simp add: func_ok_def stmt_ok_def)
    then show ?thesis by (intro Q that(1,2))
  qed
  show ?thesis unfolding function_body_def
    using s by (auto intro!: runs_at_punct runs_perror Q keep body uses_tokenD [OF stmt_fine [OF s(2)]])
qed

lemma runs_function_rest:
  assumes "pinv s" "2 * length (tk s) < n" "ty_ok rt s"
    "\<And>f s'. pinv s' \<Longrightarrow> prel s s' \<Longrightarrow> func_ok (nt s') (nv s') f \<Longrightarrow> Q f s'"
  shows "runs (function_rest n rt x) s Q"
  unfolding function_rest_def wpre_simps
proof (rule runs_palloc [OF assms(1)], elim exE)
  fix a s1 c m assume s1: "pinv s1" "prel s s1"
  let ?s = "s1\<lparr>cur_locals := []\<rparr>"
  have p: "pinv ?s" "prel s ?s" using s1 by (auto simp: pinv_def store_ok_def prel_def)
  have fn: "func_ok (nt s') (nv s') \<lparr>f_name = x, f_ret = rt, f_params = take 8 ps, f_locals = [], f_body = None\<rparr>"
    if "prel s s'" "list_all (\<lambda>p. p < nv s') ps" for s' ps
  proof -
    have "list_all (\<lambda>p. p < nv s') (take 8 ps)" using that(2) by (meson in_set_takeD list_all_iff)
    moreover have "rt < nt s'" using assms(3) that(1) by (simp add: ty_ok_def prel_def)
    ultimately show ?thesis by (simp add: func_ok_def)
  qed
  have rest: "runs (if 8 < length ps then perror ''too many parameters (max 8)'' else ret ()) s' (\<lambda>_ s.
      runs (function_body n \<lparr>f_name = x, f_ret = rt, f_params = take 8 ps, f_locals = [], f_body = None\<rparr>) s Q)"
    if s': "pinv s'" "prel s s'" "list_all (\<lambda>p. p < nv s') ps" for s' ps
  proof -
    have fb: "runs (function_body n \<lparr>f_name = x, f_ret = rt, f_params = take 8 ps, f_locals = [], f_body = None\<rparr>) s2 Q"
      if s2: "pinv s2" "prel s' s2" for s2
    proof -
      have p: "prel s s2" by (rule prel_trans [OF s'(2) s2(2)])
      have "list_all (\<lambda>p. p < nv s2) ps" by (rule vars_prel [OF s'(3) s2(2)])
      then have "func_ok (nt s2) (nv s2) \<lparr>f_name = x, f_ret = rt, f_params = take 8 ps, f_locals = [], f_body = None\<rparr>"
        by (rule fn [OF p])
      then show ?thesis using p assms(2) s2(1)
        by (intro runs_function_body assms(4)) (auto simp: prel_def)
    qed
    show ?thesis using s' by (intro if_both [where P = "\<lambda>f. runs f s' _"]) (auto intro!: runs_perror fb simp del: take_all take_all_iff)
  qed
  have args: "runs (if b then ret [] else param_loop n n []) s' (\<lambda>ps s. runs (expect '')'') s (\<lambda>_ s.
      runs (if 8 < length ps then perror ''too many parameters (max 8)'' else ret ()) s (\<lambda>_ s.
      runs (function_body n \<lparr>f_name = x, f_ret = rt, f_params = take 8 ps, f_locals = [], f_body = None\<rparr>) s Q)))"
    if "pinv s'" "prel s s'" for b s'
  proof -
    have "2 * length (tk s') \<le> n" "length (tk s') \<le> n" using that(2) assms(2) by (auto simp: prel_def)
    moreover have "runs (function_body n \<lparr>f_name = x, f_ret = rt, f_params = [], f_locals = [], f_body = None\<rparr>) s2 Q"
      if "pinv s2" "prel s' s2" for s2
      using rest [of s2 "[]"] that prel_trans [OF \<open>prel s s'\<close>] by simp
    ultimately show ?thesis using that
      by (cases b) (auto intro!: runs_param_loop runs_expect rest intro: vars_prel prel_trans simp del: wpre_if)
  qed
  show "runs (expect ''('') ?s (\<lambda>_ s. runs (at_punct '')'') s (\<lambda>b s. runs (if b then ret [] else param_loop n n []) s (\<lambda>ps s.
      runs (expect '')'') s (\<lambda>_ s. runs (if 8 < length ps then perror ''too many parameters (max 8)'' else ret ()) s (\<lambda>_ s.
      runs (function_body n \<lparr>f_name = x, f_ret = rt, f_params = take 8 ps, f_locals = [], f_body = None\<rparr>) s Q)))))"
    by (intro runs_expect runs_at_punct args p(1)) (use p(2) prel_trans in blast)+
qed

lemma runs_global_decl:
  assumes "pinv s" "ty_ok t s" "\<And>s'. pinv s' \<Longrightarrow> prel s s' \<Longrightarrow> Q () s'"
  shows "runs (global_decl n t x) s Q"
proof -
  have st: "pinv (s\<lparr>a_mem := m\<rparr>) = pinv s" "prel s' (s\<lparr>a_mem := m\<rparr>) = prel s' s" for s s' :: pst and m
    by (simp_all add: pinv_def prel_def)
  show ?thesis unfolding global_decl_def
    by (auto intro!: runs_array_suffix runs_new_global runs_consume runs_signed_const runs_expect assms simp: st Let_def prel_def)
qed

lemma runs_typedef_decl:
  assumes "pinv s" "2 * length (tk s) \<le> n" "\<And>b s'. pinv s' \<Longrightarrow> prel s s' \<Longrightarrow> (\<not> b \<Longrightarrow> g_err (pcc s')) \<Longrightarrow> Q b s'"
  shows "runs (typedef_decl n) s Q"
  unfolding typedef_decl_def using assms(1,2)
  by (auto intro!: runs_declspec runs_peek runs_register_struct(2) runs_advance runs_expect runs_perror assms(3)
      split: token_t.split simp: prel_def)

lemma funcs_prel: "list_all (func_ok (nt s) (nv s)) fs \<Longrightarrow> prel s s' \<Longrightarrow> list_all (func_ok (nt s') (nv s')) fs"
  by (auto simp: list_all_iff prel_def intro: func_ok_mono)

lemma runs_definition_of:
  assumes "pinv s" "2 * length (tk s) < n" "ty_ok t s" "list_all (func_ok (nt s) (nv s)) fs"
    "\<And>fs s'. pinv s' \<Longrightarrow> prel s s' \<Longrightarrow> list_all (func_ok (nt s') (nv s')) fs \<Longrightarrow> Q fs s'"
  shows "runs (definition_of n t x fs) s Q"
  unfolding definition_of_def using assms(1-4)
  by (auto intro!: runs_at_punct runs_function_rest runs_global_decl assms(5) intro: funcs_prel)

lemma runs_parse_loop:
  assumes "pinv s" "2 * length (tk s) < n" "length (tk s) \<le> k" "list_all (func_ok (nt s) (nv s)) fs"
    "\<And>r s'. pinv s' \<Longrightarrow> prel s s' \<Longrightarrow> (case r of None \<Rightarrow> g_err (pcc s') | Some fs \<Rightarrow> list_all (func_ok (nt s') (nv s')) fs) \<Longrightarrow> Q r s'"
  shows "runs (parse_loop k n fs) s Q"
  using assms
proof (induction k arbitrary: s fs)
  case (Suc k)
  note s = Suc.prems(1-4) and Q = Suc.prems(5)
  have small: "2 * length (tk s') \<le> n" "2 * length (tk s') < n" if "prel s s'" for s' using that s(2) by (auto simp: prel_def)
  have again: "runs (parse_loop k n gs) s' Q"
    if "pinv s'" "prel s s'" "length (tk s') < length (tk s)" "list_all (func_ok (nt s') (nv s')) gs" for gs s'
    by (rule Suc.IH) (use that s in \<open>auto intro!: Q intro: prel_trans\<close>)
  have stop: "runs (perror msg) s' (\<lambda>_ s. Q None s)" if "pinv s'" "prel s s'" for s' msg
    using that by (auto intro!: runs_perror Q intro: prel_trans)
  have td: "runs (seqn (typedef_decl n) (\<lambda>ok. if ok then parse_loop k n fs else ret None)) s' Q"
    if "pinv s'" "prel s s'" "length (tk s') < length (tk s)" for s'
    using that by (auto intro!: runs_typedef_decl again Q small intro: prel_trans funcs_prel [OF s(4)] simp: prel_def)
  have defn: "runs (definition_of n t x fs) s' (\<lambda>gs s. runs failed s (\<lambda>e s. runs (if e then ret None else parse_loop k n gs) s Q))"
    if "pinv s'" "prel s s'" "length (tk s') < length (tk s)" "ty_ok t s'" for s' t x
    using that by (auto intro!: runs_definition_of runs_failed again Q small intro: prel_trans funcs_prel [OF s(4)] simp: prel_def)
  have decl: "runs (seqn peek (\<lambda>x. case x of TK_IDENT name \<Rightarrow> seqn advance (\<lambda>_. seqn (definition_of n t name fs) (\<lambda>fs.
           seqn failed (\<lambda>e. if e then ret None else parse_loop k n fs)))
       | _ \<Rightarrow> seqn (perror ''expected identifier at top level'') (\<lambda>_. ret None))) s1 Q"
    if s1: "pinv s1" "prel s s1" "ty_ok t s1" for t s1
    unfolding wpre_simps using s1
    by (intro runs_peek) (auto intro!: runs_advance defn stop intro: prel_trans ty_ok_prel split: token_t.split simp: prel_def simp del: wpre_if)
  have top: "runs (declspec n) s (\<lambda>t s. runs (seqn (consume '';'') (\<lambda>b. if b then parse_loop k n fs else
      seqn peek (\<lambda>x. case x of TK_IDENT name \<Rightarrow> seqn advance (\<lambda>_. seqn (definition_of n t name fs) (\<lambda>fs.
           seqn failed (\<lambda>e. if e then ret None else parse_loop k n fs)))
       | _ \<Rightarrow> seqn (perror ''expected identifier at top level'') (\<lambda>_. ret None)))) s Q)"
    by (intro runs_declspec [OF s(1)] runs_consume_if decl again) (use s(2) funcs_prel [OF s(4)] in \<open>auto simp: prel_def\<close>)
  show ?case unfolding parse_loop.simps
  proof (subst wpre_simps(5), subst wpre_simps(3), rule if_both [where P = "\<lambda>f. runs f s Q"])
    show "runs (ret (Some fs)) s Q" using s by (auto intro!: Q)
  qed (rule runs_consume_if [OF s(1) td], assumption+, subst wpre_simps(5), rule top)
qed simp

lemma cc_parse_runs:
  assumes "tok_inv ts" "parse_fuel ts \<le> n" "store_ok s"
  shows "runs (cc_parse n ts) s (\<lambda>r s'. store_ok s' \<and> (arena_ok s \<longrightarrow> arena_ok s') \<and>
    (case r of None \<Rightarrow> g_err (pcc s') | Some fs \<Rightarrow> list_all (func_ok (nt s') (nv s')) fs))"
  unfolding cc_parse_def wpre_simps
proof (rule runs_parse_loop)
  let ?s = "s\<lparr>tk := ts, g_globals := [], g_structs := [], g_typedefs := []\<rparr>"
  show "pinv ?s" using assms(1,3) by (auto simp: pinv_def store_ok_def)
  show "2 * length (tk ?s) < n" "length (tk ?s) \<le> n" using assms(2) by (simp_all add: parse_fuel_def)
qed (auto simp: pinv_def prel_def)

text \<open>The lexer changes only the arena.\<close>

lemma palloc_more: "palloc n s = Inr (a, s') \<Longrightarrow> arena.more s' = arena.more s"
  by (auto simp: palloc_def Let_def split: prod.splits option.splits)

lemma dup_n_more: "dup_n cs s = Inr (a, s') \<Longrightarrow> arena.more s' = arena.more s"
  by (auto simp: dup_n_def seqn_def upd_def ret_def split: sum.splits prod.splits dest: palloc_more)

lemma palloc_arena: "palloc n s = Inr (a, s') \<Longrightarrow> arena_ok s \<Longrightarrow> arena_ok s'"
  by (auto simp: palloc_def cc_alloc_def arena_ok_def Let_def split: if_splits)

lemma dup_n_arena: "dup_n cs s = Inr (a, s') \<Longrightarrow> arena_ok s \<Longrightarrow> arena_ok s'"
  by (auto simp: dup_n_def seqn_def upd_def ret_def split: sum.splits prod.splits dest: palloc_arena)

lemma lex_token_arena: "lex_token x s = Inr (r, s') \<Longrightarrow> arena_ok s \<Longrightarrow> arena_ok s'"
  by (cases x) (auto simp: lex_token_def new_tok_def new_text_def perror_def seqn_def upd_def ret_def halt_def
      split: sum.splits prod.splits dest!: palloc_arena dup_n_arena)

lemma lex_loop_arena: "lex_loop p ts s = Inr (us, s') \<Longrightarrow> arena_ok s \<Longrightarrow> arena_ok s'"
proof (induction p ts arbitrary: s rule: lex_loop.induct)
  case (1 ts)
  then show ?case by (auto simp: new_tok_def seqn_def ret_def split: sum.splits prod.splits dest: palloc_arena)
next
  case (2 c p ts)
  then show ?case
    by (auto simp: seqn_def ret_def split: sum.splits prod.splits option.splits dest: lex_token_arena)
qed

lemma lex_token_more: "lex_token x s = Inr (r, s') \<Longrightarrow> arena.more s' = arena.more s"
  by (cases x) (auto simp: lex_token_def new_tok_def new_text_def perror_def seqn_def upd_def ret_def halt_def
      split: sum.splits prod.splits dest!: palloc_more dup_n_more)

lemma lex_loop_more: "lex_loop p ts s = Inr (us, s') \<Longrightarrow> arena.more s' = arena.more s"
proof (induction p ts arbitrary: s rule: lex_loop.induct)
  case (1 ts)
  then show ?case by (auto simp: new_tok_def seqn_def ret_def split: sum.splits prod.splits dest: palloc_more)
next
  case (2 c p ts)
  then show ?case
    by (auto simp: seqn_def ret_def split: sum.splits prod.splits option.splits dest: lex_token_more)
qed

lemma store_ok_more: "arena.more s' = arena.more s \<Longrightarrow> store_ok s' = store_ok s"
  by (cases s; cases s') (simp add: store_ok_def)

lemma toks_inv: "toks_ok ts \<Longrightarrow> brk_ok ts \<Longrightarrow> tok_inv ts"
  by (simp add: toks_ok_def tok_inv_def)

lemma cc_front_runs:
  assumes "src_ok src" "afits (80 * length src + 63) s" "store_ok s"
  shows "\<exists>ts s1. cc_lex src s = Inr (ts, s1) \<and>
    (brk_ok ts \<longrightarrow> runs (cc_front src) s (\<lambda>r s'. store_ok s' \<and> (arena_ok s \<longrightarrow> arena_ok s') \<and>
      (case r of None \<Rightarrow> g_err (pcc s') | Some fs \<Rightarrow> list_all (func_ok (nt s') (nv s')) fs)))"
proof -
  let ?P = "\<lambda>us s'. if us = [] then g_err (pcc s') else toks_ok us \<and> g_err (pcc s') = g_err (pcc s)"
  have "wpre {} (cc_lex src) s ?P" unfolding cc_lex_def by (rule lex_loop_total [OF assms(1,2)]) simp
  then obtain ts s1 where l: "cc_lex src s = Inr (ts, s1)" "?P ts s1" by (auto simp: wpre_def split: sum.splits)
  have st: "store_ok s1" using lex_loop_more [OF l(1) [unfolded cc_lex_def]] assms(3) store_ok_more by blast
  have ar: "arena_ok s \<longrightarrow> arena_ok s1" using lex_loop_arena [OF l(1) [unfolded cc_lex_def]] by blast
  have "runs (cc_front src) s (\<lambda>r s'. store_ok s' \<and> (arena_ok s \<longrightarrow> arena_ok s') \<and>
      (case r of None \<Rightarrow> g_err (pcc s') | Some fs \<Rightarrow> list_all (func_ok (nt s') (nv s')) fs))" if "brk_ok ts"
  proof (cases "g_err (pcc s1)")
    case True
    then show ?thesis using l(1) st ar
      by (simp add: wpre_def cc_front_def seqn_def failed_def gets_def ret_def cc_failed_def)
  next
    case False
    then have "tok_inv ts" using l(2) that by (auto intro: toks_inv split: if_splits)
    note run = cc_parse_runs [OF this order.refl st]
    show ?thesis using run l(1) False ar
      by (auto simp: wpre_def cc_front_def seqn_def failed_def gets_def cc_failed_def split: sum.splits)
  qed
  then show ?thesis using l(1) by blast
qed

definition pst_boot :: pst where
  "pst_boot = \<lparr>pcc = arena_init CC_ARENA \<lparr>g_err = False, g_errbuf = [], g_acap = 0, g_apos = 0\<rparr>, g_arena = 0x200000, a_mem = (\<lambda>_. 0),
     tk = [], cur_locals = [], g_globals = [], cur_switch = None, g_structs = [], g_typedefs = [],
     p_types = [g_int, g_char], p_vars = [], p_ncase = 0\<rparr>"

definition sample_src :: string where "sample_src = ''int f(int a){return a+1;}''"

definition sample_prog :: "token_t list" where
  "sample_prog = [TK_KW ''int'', TK_IDENT ''f'', TK_PUNCT ''('', TK_KW ''int'', TK_IDENT ''a'', TK_PUNCT '')'', TK_PUNCT ''{'',
     TK_KW ''return'', TK_IDENT ''a'', TK_PUNCT ''+'', TK_NUM 1, TK_PUNCT '';'', TK_PUNCT ''}'', TK_EOF]"

lemma pst_boot_ok: "store_ok pst_boot" "afits (80 * length sample_src + 63) pst_boot"
  by (simp_all add: store_ok_def type_ok_def g_int_def g_char_def pst_boot_def afits_def arena_init_def CC_ARENA_def sample_src_def)

lemma sample_lexes: "(case cc_lex sample_src pst_boot of Inr (ts, s) \<Rightarrow> ts = sample_prog | _ \<Rightarrow> False)"
  by code_simp

lemma sample_parses: "(case cc_front sample_src pst_boot of Inr (Some fs, s) \<Rightarrow> length fs = 1 | _ \<Rightarrow> False)"
  by code_simp



text \<open>C14: the parser builds only well-formed programs. Whenever it returns functions, each has at most
  eight parameters, its parameters, locals and every variable in its body are variables of the
  program, every expression carries a type of the type store, and expressions and statements stand
  only where the code generator expects them.\<close>

theorem parsed_program_typed:
  assumes "tok_inv ts" "store_ok s" "cc_parse (parse_fuel ts) ts s = Inr (Some fs, s')" "f \<in> set fs"
  shows "func_ok (nt s') (nv s') f"
  using wpre_result [OF cc_parse_runs [OF assms(1) order.refl assms(2)] assms(3)] assms(4) by (simp add: list_all_iff)

theorem parsed_program_typed_witness:
  "\<exists>f s'. cc_parse (parse_fuel sample_prog) sample_prog pst_boot = Inr (Some [f], s') \<and> func_ok (length (p_types s')) (length (p_vars s')) f"
proof -
  have "(case cc_parse (parse_fuel sample_prog) sample_prog pst_boot of Inr (Some fs, s) \<Rightarrow> length fs = 1 | _ \<Rightarrow> False)"
    by code_simp
  then obtain fs s' where p: "cc_parse (parse_fuel sample_prog) sample_prog pst_boot = Inr (Some fs, s')" "length fs = 1"
    by (auto split: sum.splits option.splits)
  then obtain f where f: "fs = [f]" by (auto simp: length_Suc_conv)
  have "tok_inv sample_prog" by (simp add: tok_inv_def sample_prog_def opens_def)
  from parsed_program_typed [OF this pst_boot_ok(1) p(1)] show ?thesis using p(1) f by auto
qed

text \<open>The bracket matters: at the end of the source the code skips the end marker and reads the token
  behind it through a null pointer.\<close>

lemma open_bracket_null_deref: "cc_front ''struct{int a['' pst_boot = Inl NULL_DEREF"
  by code_simp

end
