(* ===== verification/Compile.thy ===== *)
theory Compile
  imports Codegen_Link Cc_Parse_Safe
begin

text \<open>
  The compiler driver of \<open>cc/cc.c\<close>: \<open>cc_compile\<close> runs lexer, parser and code generator on a copy of the
  source in the arena, \<open>cc_compile_blob\<close> saves the result as an executable form, and \<open>cc_run_blob\<close> restores
  it. Function pointers into the code are addresses, 0 for a null pointer; the addresses of the kernel
  functions that compiled code may call (\<open>cc_resolve_extern\<close>) are an argument. The instruction cache is
  not modelled.
\<close>

section \<open>State\<close>

definition CC_CODECAP :: nat where "CC_CODECAP = 256 * 1024"

record ccdrv =
  d_pst :: pst
  d_cg :: cgen
  d_fns :: "func_t list"
  g_codebuf :: bytes
  d_code :: u64
  d_arena :: u64
  g_cc_entry :: nat
  g_cc_ready :: bool
  g_res_loaded :: bool
  g_dispatch :: u64
  g_res_methodid :: u64
  g_res_objcls :: u64
  g_res_clsname :: u64
  g_apply :: u64
  g_nwx :: nat
  g_wx_port :: int
  g_futn :: nat
  g_fut_used :: "nat \<Rightarrow> bool"

definition FUT_MAX :: nat where "FUT_MAX = 8"

definition cc_web_reset :: "ccdrv \<Rightarrow> ccdrv" where "cc_web_reset d = d\<lparr>g_nwx := 0, g_wx_port := 0\<rparr>"

definition cc_future_reset :: "ccdrv \<Rightarrow> ccdrv" where
  "cc_future_reset d = d\<lparr>g_futn := 0, g_fut_used := (\<lambda>i. if i < FUT_MAX then False else g_fut_used d i)\<rparr>"

definition drv_env :: "(string \<Rightarrow> u64) \<Rightarrow> ccdrv \<Rightarrow> cenv" where
  "drv_env ext d = \<lparr>types = (\<lambda>i. p_types (d_pst d) ! i), cc_resolve_extern = ext, g_funcs = d_fns d\<rparr>"

section \<open>Compiling\<close>

text \<open>The steps all drivers share: reset of the arena and of the error, the copy of the source, lexing,
  parsing, and code generation unless there was an error. The result is the code length, -1 if there is
  none, and the offset of \<open>main\<close>. The offsets of the local variables are stored in the variable
  objects.\<close>

definition arena_start :: "ccdrv \<Rightarrow> pst" where
  "arena_start d =
     (d_pst d)\<lparr>pcc := (arena_init CC_ARENA (pcc (d_pst d)))\<lparr>g_err := False, g_errbuf := []\<rparr>, g_arena := d_arena d\<rparr>"

definition c_string :: "string \<Rightarrow> string" where "c_string src = takeWhile (\<lambda>c. c \<noteq> CHR 0x00) src"

definition compile_source :: "(string \<Rightarrow> u64) \<Rightarrow> string \<Rightarrow> (ccdrv, int \<times> nat) cm" where
  "compile_source ext src d =
     (case seqn (dup_n src) (\<lambda>_. cc_front (c_string src)) (arena_start d) of
        Inl e \<Rightarrow> Inl e
      | Inr (r, s) \<Rightarrow>
          if cc_failed (pcc s) then Inr ((-1, 0), d\<lparr>d_pst := s\<rparr>)
          else let d = d\<lparr>d_pst := s, d_fns := (case r of None \<Rightarrow> [] | Some fs \<Rightarrow> fs)\<rparr>;
                   (len, entry, g) = cc_codegen (drv_env ext d) (g_codebuf d) (d_code d) CC_CODECAP
                     ((d_cg d)\<lparr>cvars := (\<lambda>v. p_vars s ! v), cst := pcc s\<rparr>)
               in Inr ((len, case entry of None \<Rightarrow> 0 | Some e \<Rightarrow> e),
                    d\<lparr>d_pst := s\<lparr>pcc := cst g, p_vars := map (cvars g) [0..<length (p_vars s)]\<rparr>, d_cg := g, g_codebuf := g_buf g\<rparr>))"

definition fun_ptr :: "string \<Rightarrow> ccdrv \<Rightarrow> u64" where
  "fun_ptr name d =
     (let off = cc_func_offset (drv_env (\<lambda>_. 0) d) name (d_cg d) in if off \<ge> 0 then d_code d + of_int off else 0)"

definition cc_compile :: "(string \<Rightarrow> u64) \<Rightarrow> string \<Rightarrow> (ccdrv, int) cm" where
  "cc_compile ext src d =
     (let d = d\<lparr>g_cc_ready := False, g_res_loaded := False, g_dispatch := 0, g_res_methodid := 0, g_res_objcls := 0, g_res_clsname := 0\<rparr>;
          d = cc_future_reset (cc_web_reset d)
      in case compile_source ext src d of
           Inl e \<Rightarrow> Inl e
         | Inr ((len, entry), d) \<Rightarrow>
             if cc_failed (pcc (d_pst d)) \<or> len < 0 then Inr (-1, d)
             else Inr (0, d\<lparr>g_cc_entry := entry, g_cc_ready := True, g_dispatch := fun_ptr ''dispatch'' d\<rparr>))"

section \<open>Executable form\<close>

definition XJX_MAGIC :: u32 where "XJX_MAGIC = 0x31584a58"

record xjx_hdr =
  x_magic :: u32
  x_entry :: u32
  x_apply_off :: u32
  x_dispatch_off :: u32
  x_codelen :: u32
  x_arenalen :: u32

definition le32 :: "u32 \<Rightarrow> bytes" where "le32 w = word_bytes w"

definition hdr_bytes :: "xjx_hdr \<Rightarrow> bytes" where
  "hdr_bytes h = le32 (x_magic h) @ le32 (x_entry h) @ le32 (x_apply_off h) @ le32 (x_dispatch_off h) @
     le32 (x_codelen h) @ le32 (x_arenalen h)"

definition read_hdr :: "bytes \<Rightarrow> xjx_hdr" where
  "read_hdr b = \<lparr>x_magic = fetch32 b 0, x_entry = fetch32 b 4, x_apply_off = fetch32 b 8, x_dispatch_off = fetch32 b 12,
     x_codelen = fetch32 b 16, x_arenalen = fetch32 b 20\<rparr>"

text \<open>The first \<open>n\<close> bytes of the arena.\<close>

definition arena_bytes :: "ccdrv \<Rightarrow> nat \<Rightarrow> bytes" where
  "arena_bytes d n = map (\<lambda>i. a_mem (d_pst d) (d_arena d + of_nat i)) [0..<n]"

definition free_arena :: "ccdrv \<Rightarrow> ccdrv" where
  "free_arena d = d\<lparr>d_pst := (d_pst d)\<lparr>pcc := arena_free (pcc (d_pst d)), g_arena := 0\<rparr>\<rparr>"

text \<open>The output buffer is its capacity, or \<open>None\<close> for a null pointer; the blob written is the second
  result.\<close>

definition cc_compile_blob :: "(string \<Rightarrow> u64) \<Rightarrow> string \<Rightarrow> int option \<Rightarrow> (ccdrv, int \<times> bytes) cm" where
  "cc_compile_blob ext src out d =
     (case compile_source ext src (d\<lparr>g_res_loaded := False, g_dispatch := 0\<rparr>) of
        Inl e \<Rightarrow> Inl e
      | Inr ((len, entry), d) \<Rightarrow>
          if cc_failed (pcc (d_pst d)) \<or> len < 0 then Inr ((-1, []), free_arena d)
          else let aoff = cc_func_offset (drv_env (\<lambda>_. 0) d) ''apply'' (d_cg d);
                   doff = cc_func_offset (drv_env (\<lambda>_. 0) d) ''dispatch'' (d_cg d);
                   arenalen = g_apos (pcc (d_pst d));
                   total = 24 + len + int (unat (ucast arenalen :: u32))
               in if out = None \<or> total > the out
                  then Inr ((-3, []), free_arena (d\<lparr>d_pst := (d_pst d)\<lparr>pcc := cc_error ''program too large for the executable buffer'' (pcc (d_pst d))\<rparr>\<rparr>))
                  else let h = \<lparr>x_magic = XJX_MAGIC, x_entry = of_nat entry, x_apply_off = of_int aoff, x_dispatch_off = of_int doff,
                                x_codelen = of_int len, x_arenalen = ucast arenalen\<rparr>
                       in Inr ((total, hdr_bytes h @ take (nat len) (g_codebuf d) @ arena_bytes d (unat (x_arenalen h))), free_arena d))"

text \<open>The checks and the restoration of \<open>cc_run_blob\<close>, up to the call of the entry point: the result is -1
  for a rejected blob, and otherwise 0 and the address that is called.\<close>

definition restore_blob :: "bytes \<Rightarrow> ccdrv \<Rightarrow> (int \<times> u64) \<times> ccdrv" where
  "restore_blob blob d =
     (if length blob < 24 then ((-1, 0), d)
      else let h = read_hdr blob; codelen = unat (x_codelen h); arenalen = unat (x_arenalen h)
           in if x_magic h \<noteq> XJX_MAGIC \<or> codelen > CC_CODECAP \<or> arenalen > unat CC_ARENA \<or> 24 + codelen + arenalen > length blob
              then ((-1, 0), d)
              else let p = drop 24 blob; q = drop codelen p
                   in ((0, d_code d + ucast (x_entry h)),
                       d\<lparr>g_codebuf := take codelen p @ drop codelen (g_codebuf d),
                         d_pst := (d_pst d)\<lparr>a_mem := (\<lambda>x. if unat (x - d_arena d) < arenalen then q ! unat (x - d_arena d) else a_mem (d_pst d) x)\<rparr>,
                         g_apply := (if x_apply_off h \<noteq> 0xffffffff then d_code d + ucast (x_apply_off h) else 0),
                         g_dispatch := (if x_dispatch_off h \<noteq> 0xffffffff then d_code d + ucast (x_dispatch_off h) else 0)\<rparr>))"

section \<open>What the code generator leaves behind\<close>

text \<open>Whatever happens, overflow included, labels and positions stay inside the buffer and the types of the
  variables are unchanged.\<close>

definition in_buffer :: "nat \<Rightarrow> (varid \<Rightarrow> tid) \<Rightarrow> u64 \<times> u64 \<Rightarrow> cgen \<Rightarrow> bool" where
  "in_buffer c T A g \<longleftrightarrow> (\<forall>l. 4 dvd lab_off g l \<and> lab_off g l \<le> c) \<and> g_pos g \<le> c \<and> 4 dvd g_pos g \<and> g_cap g = c \<and>
     length (g_buf g) = c \<and> (\<forall>v. v_ty (cvars g v) = T v) \<and> (g_apos (cst g), g_acap (cst g)) = A"

lemma in_buffer_emit: "in_buffer c T A g \<Longrightarrow> in_buffer c T A (emit w g)"
  by (auto simp: in_buffer_def emit_def put32_def)

interpretation buffer: code_invariant "in_buffer c T A" E for c T A E
proof unfold_locales
  show "in_buffer c T A g \<Longrightarrow> in_buffer c T A (emit w (add_bfx l k cc g))" for g w l k cc
    by (rule in_buffer_emit) (simp add: in_buffer_def add_bfx_def)
  show "in_buffer c T A g \<Longrightarrow> in_buffer c T A (call_func E name g)" for g name
    by (auto simp: call_func_def emit_blr_def emit_loadimm_def split: option.split intro!: in_buffer_emit)
      (simp_all add: in_buffer_def cg_error_def cc_error_def)
  show "in_buffer c T A g \<Longrightarrow> in_buffer c T A (emit w g)" for g w by (rule in_buffer_emit)
qed (simp_all add: in_buffer_def cg_error_def cc_error_def push_brk_def push_cont_def pop_brk_def pop_cont_def place_def)

lemma in_buffer_cong:
  "in_buffer c T A g \<Longrightarrow> lab_off h = lab_off g \<Longrightarrow> g_pos h = g_pos g \<Longrightarrow> g_cap h = g_cap g \<Longrightarrow> length (g_buf h) = length (g_buf g) \<Longrightarrow>
   (\<And>v. v_ty (cvars h v) = v_ty (cvars g v)) \<Longrightarrow>
   g_apos (cst h) = g_apos (cst g) \<Longrightarrow> g_acap (cst h) = g_acap (cst g) \<Longrightarrow> in_buffer c T A h"
  by (simp add: in_buffer_def)

lemma assign_types: "v_ty (cvars (snd (assign_loop E vs off g)) v) = v_ty (cvars g v)"
  by (induction vs arbitrary: off g) (simp_all add: Let_def)

lemma assign_cst: "cst (snd (assign_loop E vs off g)) = cst g"
  by (induction vs arbitrary: off g) (simp_all add: Let_def)

lemma entry_types: "v_ty (cvars (snd (func_entry E i g)) v) = v_ty (cvars g v)" "cst (snd (func_entry E i g)) = cst g"
  by (simp_all add: func_entry_def assign_offsets_def split_def Let_def newlabel_def MAXLAB_def assign_types assign_cst)

lemma resolve_vars: "cvars (resolve_branches h) = cvars h" "cst (resolve_branches h) = cst h"
proof -
  have "cvars (fold (\<lambda>b g. put32 (bf_site b) (branch_word b (lab_off g)) g) bs h) = cvars h \<and>
    cst (fold (\<lambda>b g. put32 (bf_site b) (branch_word b (lab_off g)) g) bs h) = cst h" for bs
    by (induction bs arbitrary: h) (simp_all add: put32_def)
  then show "cvars (resolve_branches h) = cvars h" "cst (resolve_branches h) = cst h" by (simp_all add: resolve_branches_def)
qed

lemma in_buffer_func: assumes "in_buffer c T A g" shows "in_buffer c T A (gen_func E i g)"
proof -
  have "in_buffer c T A (snd (func_entry E i g))"
    by (rule in_buffer_cong [OF assms]) (simp_all add: func_entry_fields entry_types)
  then have "in_buffer c T A (func_tail E i (fst (func_entry E i g)) (emit_prologue_stp (snd (func_entry E i g))))"
    by (intro buffer.keep_tail buffer.keep_emitters)
  then show ?thesis unfolding gen_func_eq by (rule in_buffer_cong) (simp_all add: resolve_fields resolve_vars)
qed

lemma in_buffer_funcs: "in_buffer c T A g \<Longrightarrow> in_buffer c T A (snd (gen_funcs E is g))"
proof (induction "is" arbitrary: g)
  case (Cons i "is")
  have "in_buffer c T A (cg_error msg h)" if "in_buffer c T A h" for msg h by (rule buffer.keep_fields(2) [OF that])
  then show ?case using Cons.IH in_buffer_func [OF Cons.prems, of E i] by (simp add: Let_def)
qed simp

lemma patch_vars: "cvars (fold patch_call cs g) = cvars g" "cst (fold patch_call cs g) = cst g" "lab_off (fold patch_call cs g) = lab_off g"
  "g_cap (fold patch_call cs g) = g_cap g"
proof -
  have "cvars (fold patch_call cs g) = cvars g \<and> cst (fold patch_call cs g) = cst g \<and> lab_off (fold patch_call cs g) = lab_off g \<and>
    g_cap (fold patch_call cs g) = g_cap g"
    by (induction cs arbitrary: g) (simp_all add: patch_call_def patch_loadimm_def put32_def split_def)
  then show "cvars (fold patch_call cs g) = cvars g" "cst (fold patch_call cs g) = cst g" "lab_off (fold patch_call cs g) = lab_off g"
    "g_cap (fold patch_call cs g) = g_cap g" by simp_all
qed

text \<open>Either there is code and an entry point and no error, or the length is -1 and there is an error.\<close>

lemma gen_funcs_error: "gen_funcs E is g = (ok, h) \<Longrightarrow> \<not> cc_failed (cst g) \<Longrightarrow> cc_failed (cst h) = (\<not> ok)"
proof (induction "is" arbitrary: g)
  case (Cons i "is")
  then show ?case by (auto simp: Let_def cg_error_def cc_error_def cc_failed_def split: if_splits)
qed simp

lemma cc_codegen_result:
  assumes "cc_codegen E buf base c g = (len, entry, g')" "\<not> cc_failed (cst g)" "length buf = c" "4 dvd c"
    "\<forall>l. 4 dvd lab_off g l \<and> lab_off g l \<le> c"
  shows "in_buffer c (\<lambda>v. v_ty (cvars g v)) (g_apos (cst g), g_acap (cst g)) g'"
    "entry = None \<and> len = -1 \<and> cc_failed (cst g') \<or> (\<exists>e. entry = Some e) \<and> 0 \<le> len \<and> \<not> cc_failed (cst g')"
proof -
  let ?T = "\<lambda>v. v_ty (cvars g v)" and ?A = "(g_apos (cst g), g_acap (cst g))" and ?i = "cg_init E buf base c g"
  obtain ok h where h: "gen_funcs E [0..<length (g_funcs E)] ?i = (ok, h)" by fastforce
  have "in_buffer c ?T ?A ?i" using assms(3,5) by (simp add: in_buffer_def cg_init_def)
  then have b: "in_buffer c ?T ?A h" using in_buffer_funcs [of c ?T ?A ?i E] h by (metis snd_conv)
  have e: "cc_failed (cst h) = (\<not> ok)" using gen_funcs_error [OF h] assms(2) by (simp add: cg_init_def)
  have p: "in_buffer c ?T ?A (fold patch_call (cfx h) h)"
    by (rule in_buffer_cong [OF b]) (simp_all add: patch_fields patch_vars)
  have err: "in_buffer c ?T ?A (cg_error msg f) \<and> cc_failed (cst (cg_error msg f))" if "in_buffer c ?T ?A f" for msg f
    using that by (simp add: in_buffer_def cg_error_def cc_error_def cc_failed_def)
  have r: "(len, entry, g') = (if ok then let g = fold patch_call (cfx h) h in
      (case find_func E ''main'' of None \<Rightarrow> (-1, None, cg_error ''no main() function'' g) | Some m \<Rightarrow> (int (g_pos g), Some (code_off g m), g))
      else (-1, None, h))"
    using assms(1) h by (cases ok) (simp_all add: cc_codegen_def patch_call_def)
  show "in_buffer c ?T ?A g'" using r b p err [OF p] by (auto simp: Let_def split: if_splits option.splits)
  show "entry = None \<and> len = -1 \<and> cc_failed (cst g') \<or> (\<exists>e. entry = Some e) \<and> 0 \<le> len \<and> \<not> cc_failed (cst g')"
    using r e err [OF p] by (auto simp: Let_def patch_vars split: if_splits option.splits)
qed

section \<open>The compiler as a whole\<close>

text \<open>What holds between two compilations, and what a successful one leaves: the code generator has
  produced a linked program with the given length and entry point from well-formed functions.\<close>

definition drv_ok :: "ccdrv \<Rightarrow> bool" where
  "drv_ok d \<longleftrightarrow> store_ok (d_pst d) \<and> length (g_codebuf d) = CC_CODECAP \<and>
     (\<forall>l. 4 dvd lab_off (d_cg d) l \<and> lab_off (d_cg d) l \<le> CC_CODECAP)"

definition compiled :: "(string \<Rightarrow> u64) \<Rightarrow> ccdrv \<Rightarrow> int \<Rightarrow> nat \<Rightarrow> ccdrv \<Rightarrow> bool" where
  "compiled ext d len entry d' \<longleftrightarrow>
     list_all (func_ok (nt (d_pst d')) (nv (d_pst d'))) (d_fns d') \<and> g_codebuf d' = g_buf (d_cg d') \<and>
     len = int (g_pos (d_cg d')) \<and> g_pos (d_cg d') \<le> CC_CODECAP \<and>
     (\<exists>m. find_func (drv_env ext d') ''main'' = Some m \<and> entry = code_off (d_cg d') m) \<and>
     (\<exists>g. cc_codegen (drv_env ext d') (g_codebuf d) (d_code d) CC_CODECAP g = (len, Some entry, d_cg d') \<and>
        program_ok (drv_env ext d') (d_code d)
          (func_states (drv_env ext d') (cg_init (drv_env ext d') (g_codebuf d) (d_code d) CC_CODECAP g)) (d_cg d'))"

lemma front_runs:
  assumes "store_ok s" "src_ok (c_string src)" "afits (81 * length src + 79) s" "arena_ok s"
    "\<forall>ts s1. seqn (dup_n src) (\<lambda>_. cc_lex (c_string src)) s = Inr (ts, s1) \<longrightarrow> brk_ok ts"
  shows "runs (seqn (dup_n src) (\<lambda>_. cc_front (c_string src))) s (\<lambda>r s'. store_ok s' \<and> arena_ok s' \<and>
    (case r of None \<Rightarrow> g_err (pcc s') | Some fs \<Rightarrow> list_all (func_ok (nt s') (nv s')) fs))"
proof -
  have "afits (length src + 16 + (80 * length src + 63)) s" using assms(3) by (simp add: afits_def)
  then have "wpre {} (dup_n src) s (\<lambda>_. afits (80 * length src + 63))" by (rule dup_n_fits)
  then obtain a s1 where d: "dup_n src s = Inr (a, s1)" "afits (80 * length src + 63) s1" by (auto simp: wpre_def split: sum.splits)
  have "length (c_string src) \<le> length src" by (simp add: c_string_def length_takeWhile_le)
  then have f: "afits (80 * length (c_string src) + 63) s1" using d(2) by (simp add: afits_def)
  have st: "store_ok s1" "arena_ok s1" using dup_n_more [OF d(1)] store_ok_more assms(1) dup_n_arena [OF d(1)] assms(4) by blast+
  obtain ts s2 where l: "cc_lex (c_string src) s1 = Inr (ts, s2)"
    "brk_ok ts \<longrightarrow> runs (cc_front (c_string src)) s1 (\<lambda>r s'. store_ok s' \<and> (arena_ok s1 \<longrightarrow> arena_ok s') \<and>
      (case r of None \<Rightarrow> g_err (pcc s') | Some fs \<Rightarrow> list_all (func_ok (nt s') (nv s')) fs))"
    using cc_front_runs [OF assms(2) f st(1)] by blast
  have "brk_ok ts" using assms(5) d(1) l(1) by (simp add: seqn_def)
  then have "runs (cc_front (c_string src)) s1 (\<lambda>r s'. store_ok s' \<and> arena_ok s' \<and>
      (case r of None \<Rightarrow> g_err (pcc s') | Some fs \<Rightarrow> list_all (func_ok (nt s') (nv s')) fs))"
    using l(2) st(2) by (auto elim: wpre_mono)
  then show ?thesis unfolding wpre_simps by (simp add: wpre_def [of _ "dup_n src"] d(1))
qed

lemma compile_source_runs:
  assumes d: "drv_ok d" and src: "src_ok (c_string src)" "length src \<le> 25000"
    and brk: "\<forall>ts s. seqn (dup_n src) (\<lambda>_. cc_lex (c_string src)) (arena_start d) = Inr (ts, s) \<longrightarrow> brk_ok ts"
  shows "wpre {ARENA_EXHAUSTED} (compile_source ext src) d (\<lambda>(len, entry) d'.
    drv_ok d' \<and> arena_ok (d_pst d') \<and> d_code d' = d_code d \<and> d_arena d' = d_arena d \<and> g_cc_ready d' = g_cc_ready d \<and>
    (len = -1 \<and> cc_failed (pcc (d_pst d')) \<or> 0 \<le> len \<and> \<not> cc_failed (pcc (d_pst d')) \<and> compiled ext d len entry d'))"
proof -
  let ?s = "arena_start d"
  have s: "store_ok ?s" "afits (81 * length src + 79) ?s" "arena_ok ?s"
    using d src(2) by (simp_all add: drv_ok_def arena_start_def store_ok_def afits_def arena_init_def arena_ok_def CC_ARENA_def)
  note front = front_runs [OF s(1) src(1) s(2,3) brk]
  show ?thesis
  proof (cases "seqn (dup_n src) (\<lambda>_. cc_front (c_string src)) ?s")
    case (Inl e)
    then show ?thesis using front by (simp add: wpre_def compile_source_def)
  next
    case (Inr x)
    obtain r s1 where x: "x = (r, s1)" by (cases x)
    have s1: "store_ok s1" "arena_ok s1" "case r of None \<Rightarrow> g_err (pcc s1) | Some fs \<Rightarrow> list_all (func_ok (nt s1) (nv s1)) fs"
      using front Inr x by (simp_all add: wpre_def)
    show ?thesis
    proof (cases "cc_failed (pcc s1)")
      case True
      then show ?thesis using Inr x s1 d by (simp add: wpre_def compile_source_def drv_ok_def)
    next
      case False
      define d1 where "d1 = d\<lparr>d_pst := s1, d_fns := (case r of None \<Rightarrow> [] | Some fs \<Rightarrow> fs)\<rparr>"
      define g0 where "g0 = (d_cg d)\<lparr>cvars := (\<lambda>v. p_vars s1 ! v), cst := pcc s1\<rparr>"
      obtain len entry g where g: "cc_codegen (drv_env ext d1) (g_codebuf d) (d_code d) CC_CODECAP g0 = (len, entry, g)" by (metis prod_cases3)
      have cap: "4 dvd CC_CODECAP" "CC_CODECAP < 2 ^ 20" by (simp_all add: CC_CODECAP_def)
      have buf: "length (g_codebuf d) = CC_CODECAP" and lab: "\<forall>l. 4 dvd lab_off g0 l \<and> lab_off g0 l \<le> CC_CODECAP"
        and nf: "\<not> cc_failed (cst g0)" using d False by (simp_all add: drv_ok_def g0_def)
      note res = cc_codegen_result [OF g nf buf cap(1) lab]
      define d2 where "d2 = d1\<lparr>d_pst := s1\<lparr>pcc := cst g, p_vars := map (cvars g) [0..<length (p_vars s1)]\<rparr>, d_cg := g, g_codebuf := g_buf g\<rparr>"
      have E: "drv_env ext d2 = drv_env ext d1" by (simp add: drv_env_def d2_def d1_def)
      have out: "compile_source ext src d = Inr ((len, case entry of None \<Rightarrow> 0 | Some e \<Rightarrow> e), d2)"
        using Inr x False g by (simp add: compile_source_def d1_def g0_def d2_def)
      have ty: "v_ty (cvars g v) = v_ty (p_vars s1 ! v)" for v using res(1) by (simp add: in_buffer_def g0_def)
      have "arena_ok (d_pst d2)" using res(1) s1(2) by (simp add: arena_ok_def d2_def in_buffer_def g0_def)
      moreover have "v_ty (cvars g v) < nt s1" if "v < nv s1" for v
        using s1(1) that nth_mem [OF that] unfolding ty store_ok_def by blast
      then have "store_ok (d_pst d2)" using s1(1) by (auto simp: d2_def store_ok_def)
      then have "drv_ok d2" using res(1) by (simp add: drv_ok_def d2_def in_buffer_def)
      moreover have "compiled ext d len e d2" if e: "entry = Some e" for e
        using codegen_linked [OF buf cap(2) lab g [unfolded e]] g e s1(3) False unfolding compiled_def E
        by (auto simp: d2_def d1_def cc_failed_def split: option.splits)
      ultimately show ?thesis using res(2) out by (auto simp: wpre_def d2_def d1_def)
    qed
  qed
qed

text \<open>C0: compiling is safe and complete from the source text to the linked machine code. Take any source of
  at most 25000 characters that does not end in a backslash or a quote and does not leave an array bracket
  open at its end, malformed or not, and any state left by earlier compilations. cc_compile then returns, or
  the arena is exhausted. It returns 0 or -1; after -1 the error is recorded and nothing is marked ready.
  After 0 the program is ready: its functions are well formed, the code fits into the code buffer, the
  entry is the offset of main, every function starts with its prologue, every recorded call loads the
  address of its function and branches there, and every recorded branch has the distance to its label.
  Either way the state is fit for the next compilation.\<close>

theorem cc_compile_correct:
  assumes "drv_ok d" "src_ok (c_string src)" "length src \<le> 25000"
    and "\<forall>ts s. seqn (dup_n src) (\<lambda>_. cc_lex (c_string src)) (arena_start d) = Inr (ts, s) \<longrightarrow> brk_ok ts"
  shows "case cc_compile ext src d of
      Inl e \<Rightarrow> e = ARENA_EXHAUSTED
    | Inr (rc, d') \<Rightarrow> drv_ok d' \<and>
        (rc = -1 \<and> \<not> g_cc_ready d' \<and> cc_failed (pcc (d_pst d')) \<or>
         rc = 0 \<and> g_cc_ready d' \<and> (\<exists>len. compiled ext d len (g_cc_entry d') d'))"
proof -
  define d0 where "d0 = cc_future_reset (cc_web_reset (d\<lparr>g_cc_ready := False, g_res_loaded := False, g_dispatch := 0,
    g_res_methodid := 0, g_res_objcls := 0, g_res_clsname := 0\<rparr>))"
  have f: "d_pst d0 = d_pst d" "d_cg d0 = d_cg d" "g_codebuf d0 = g_codebuf d" "d_code d0 = d_code d" "d_arena d0 = d_arena d" "\<not> g_cc_ready d0"
    by (simp_all add: d0_def cc_future_reset_def cc_web_reset_def)
  then have eq: "drv_ok d0 = drv_ok d" "arena_start d0 = arena_start d" "compiled ext d0 = compiled ext d"
    by (simp_all add: drv_ok_def arena_start_def compiled_def fun_eq_iff)
  have c: "compiled ext d len e (d'\<lparr>g_cc_entry := n, g_cc_ready := r, g_dispatch := p\<rparr>) = compiled ext d len e d'" for len e d' n r p
    by (simp add: compiled_def drv_env_def)
  have k: "drv_ok (d'\<lparr>g_cc_entry := n, g_cc_ready := r, g_dispatch := p\<rparr>) = drv_ok d'" for d' n r p by (simp add: drv_ok_def)
  have "drv_ok d0" "\<forall>ts s. seqn (dup_n src) (\<lambda>_. cc_lex (c_string src)) (arena_start d0) = Inr (ts, s) \<longrightarrow> brk_ok ts"
    using assms(1,4) eq by simp_all
  note compile_source_runs [OF this(1) assms(2,3) this(2), of ext]
  then show ?thesis unfolding cc_compile_def Let_def d0_def [symmetric] using f(6) eq(3)
    by (auto simp: wpre_def c k split: sum.splits)
qed

section \<open>The executable form\<close>

lemma fetch_app: "length xs = i \<Longrightarrow> fetch32 (xs @ word_bytes w @ ys) i = w"
proof -
  assume "length xs = i"
  moreover have "length (word_bytes w) = 4" by (simp add: word_bytes_def)
  ultimately have "fetch32 (xs @ word_bytes w @ ys) i = fetch32 (word_bytes w) 0"
    by (intro fetch32_cong) (auto simp: nth_append)
  then show ?thesis by (simp add: fetch_word_bytes)
qed

lemma length_hdr [simp]: "length (hdr_bytes h) = 24" by (simp add: hdr_bytes_def le32_def word_bytes_def)

lemma read_hdr_bytes: "read_hdr (hdr_bytes h @ r) = h"
proof -
  let ?w = word_bytes
  have l: "length (?w w) = 4" for w by (simp add: word_bytes_def)
  have b: "hdr_bytes h @ r = ?w (x_magic h) @ ?w (x_entry h) @ ?w (x_apply_off h) @ ?w (x_dispatch_off h) @ ?w (x_codelen h) @ ?w (x_arenalen h) @ r"
    by (simp add: hdr_bytes_def le32_def)
  have "fetch32 (hdr_bytes h @ r) 0 = x_magic h" unfolding b using fetch_app [of "[]" 0] by simp
  moreover have "fetch32 (hdr_bytes h @ r) 4 = x_entry h" unfolding b by (rule fetch_app) (simp add: l)
  moreover have "fetch32 (hdr_bytes h @ r) 8 = x_apply_off h" unfolding b
    using fetch_app [of "?w (x_magic h) @ ?w (x_entry h)" 8] by (simp add: l)
  moreover have "fetch32 (hdr_bytes h @ r) 12 = x_dispatch_off h" unfolding b
    using fetch_app [of "?w (x_magic h) @ ?w (x_entry h) @ ?w (x_apply_off h)" 12] by (simp add: l)
  moreover have "fetch32 (hdr_bytes h @ r) 16 = x_codelen h" unfolding b
    using fetch_app [of "?w (x_magic h) @ ?w (x_entry h) @ ?w (x_apply_off h) @ ?w (x_dispatch_off h)" 16] by (simp add: l)
  moreover have "fetch32 (hdr_bytes h @ r) 20 = x_arenalen h" unfolding b
    using fetch_app [of "?w (x_magic h) @ ?w (x_entry h) @ ?w (x_apply_off h) @ ?w (x_dispatch_off h) @ ?w (x_codelen h)" 20] by (simp add: l)
  ultimately show ?thesis by (simp add: read_hdr_def)
qed

text \<open>A header offset gives the pointer it was made from.\<close>

lemma offset_pointer:
  assumes "off = -1 \<or> 0 \<le> off \<and> off < 2 ^ 31"
  shows "(if (of_int off :: u32) \<noteq> 0xffffffff then base + ucast (of_int off :: u32) else 0) =
    (if off \<ge> 0 then base + of_int off else (0 :: u64))"
proof (cases "off = -1")
  case False
  then obtain n where n: "off = int n" "n < 2 ^ 31" using assms by (metis nat_0_le of_nat_less_iff of_nat_numeral of_nat_power)
  have u: "unat (of_nat n :: u32) = n" using n(2) by (simp add: unat_of_nat)
  then have "unat (of_nat n :: u32) \<noteq> unat (0xffffffff :: u32)" using n(2) by simp
  then have "(of_nat n :: u32) \<noteq> 0xffffffff" by metis
  moreover have "ucast (of_nat n :: u32) = (of_nat n :: u64)" using u by (simp add: unsigned_of_nat)
  ultimately have "(of_nat n :: u32) \<noteq> 0xffffffff" "ucast (of_nat n :: u32) = (of_nat n :: u64)" .
  then show ?thesis using n(1) by simp
qed simp

lemma func_offset_range:
  assumes "compiled ext d len entry d'"
  shows "cc_func_offset (drv_env ext' d') name (d_cg d') = -1 \<or>
    0 \<le> cc_func_offset (drv_env ext' d') name (d_cg d') \<and> cc_func_offset (drv_env ext' d') name (d_cg d') < 2 ^ 31"
proof (cases "find_func (drv_env ext' d') name")
  case (Some f)
  have same: "g_funcs (drv_env ext d') = g_funcs (drv_env ext' d')" by (simp add: drv_env_def)
  have "f < length (g_funcs (drv_env ext d'))" using find_func_less [OF Some] same by simp
  then have "code_off (d_cg d') f + 4 \<le> g_pos (d_cg d')" using assms by (auto simp: compiled_def program_ok_def)
  then have "code_off (d_cg d') f \<le> CC_CODECAP" using assms by (simp add: compiled_def)
  then show ?thesis using Some by (simp add: cc_func_offset_def CC_CODECAP_def)
qed (simp add: cc_func_offset_def)

lemma restore_saved:
  assumes h: "h = \<lparr>x_magic = XJX_MAGIC, x_entry = of_nat entry, x_apply_off = of_int aoff, x_dispatch_off = of_int doff,
      x_codelen = of_nat (length img), x_arenalen = of_nat (length ar)\<rparr>"
    and len: "length img \<le> CC_CODECAP" "length ar \<le> unat CC_ARENA" "entry < 2 ^ 31"
    and off: "aoff = -1 \<or> 0 \<le> aoff \<and> aoff < 2 ^ 31" "doff = -1 \<or> 0 \<le> doff \<and> doff < 2 ^ 31"
    and d: "restore_blob (hdr_bytes h @ img @ ar) d = (r, d')"
  shows "r = (0, d_code d + of_nat entry)" "g_codebuf d' = img @ drop (length img) (g_codebuf d)"
    "i < length ar \<Longrightarrow> a_mem (d_pst d') (d_arena d + of_nat i) = ar ! i"
    "g_apply d' = (if aoff \<ge> 0 then d_code d + of_int aoff else 0)" "g_dispatch d' = (if doff \<ge> 0 then d_code d + of_int doff else 0)"
proof -
  have cap: "CC_CODECAP < 2 ^ 31" "unat CC_ARENA < 2 ^ 31" by (simp_all add: CC_CODECAP_def CC_ARENA_def)
  have n: "unat (of_nat (length img) :: u32) = length img" "unat (of_nat (length ar) :: u32) = length ar"
    "ucast (of_nat entry :: u32) = (of_nat entry :: u64)"
    using len cap by (simp_all add: unat_of_nat) (simp add: word_eq_iff_unsigned unsigned_of_nat take_bit_nat_eq_self)
  have x: "x_magic h = XJX_MAGIC" "x_codelen h = of_nat (length img)" "x_arenalen h = of_nat (length ar)" "x_entry h = of_nat entry"
    "x_apply_off h = of_int aoff" "x_dispatch_off h = of_int doff" by (simp_all add: h)
  have e: "restore_blob (hdr_bytes h @ img @ ar) d = ((0, d_code d + of_nat entry),
      d\<lparr>g_codebuf := img @ drop (length img) (g_codebuf d),
        d_pst := (d_pst d)\<lparr>a_mem := (\<lambda>x. if unat (x - d_arena d) < length ar then ar ! unat (x - d_arena d) else a_mem (d_pst d) x)\<rparr>,
        g_apply := (if (of_int aoff :: u32) \<noteq> 0xffffffff then d_code d + ucast (of_int aoff :: u32) else 0),
        g_dispatch := (if (of_int doff :: u32) \<noteq> 0xffffffff then d_code d + ucast (of_int doff :: u32) else 0)\<rparr>)"
    using len by (simp add: restore_blob_def read_hdr_bytes x n Let_def drop_append cong: if_cong)
  show "r = (0, d_code d + of_nat entry)" "g_codebuf d' = img @ drop (length img) (g_codebuf d)" using d e by auto
  show "a_mem (d_pst d') (d_arena d + of_nat i) = ar ! i" if "i < length ar"
  proof -
    have "unat (of_nat i :: u64) = i" using that len(2) cap(2) by (simp add: unat_of_nat)
    then show ?thesis using d e that by auto
  qed
  show "g_apply d' = (if aoff \<ge> 0 then d_code d + of_int aoff else 0)" "g_dispatch d' = (if doff \<ge> 0 then d_code d + of_int doff else 0)"
    using d e offset_pointer [OF off(1), of "d_code d"] offset_pointer [OF off(2), of "d_code d"] by auto
qed

lemma blob_result:
  assumes "compile_source ext src (d\<lparr>g_res_loaded := False, g_dispatch := 0\<rparr>) = Inr ((len, entry), d')"
    "\<not> cc_failed (pcc (d_pst d'))" "\<not> len < 0" "cc_compile_blob ext src out d = Inr ((n, blob), d1)" "0 \<le> n"
  shows "n = 24 + len + int (unat (ucast (g_apos (pcc (d_pst d'))) :: u32))"
    "blob = hdr_bytes \<lparr>x_magic = XJX_MAGIC, x_entry = of_nat entry,
        x_apply_off = of_int (cc_func_offset (drv_env (\<lambda>_. 0) d') ''apply'' (d_cg d')),
        x_dispatch_off = of_int (cc_func_offset (drv_env (\<lambda>_. 0) d') ''dispatch'' (d_cg d')),
        x_codelen = of_int len, x_arenalen = ucast (g_apos (pcc (d_pst d')))\<rparr> @
      take (nat len) (g_codebuf d') @ arena_bytes d' (unat (ucast (g_apos (pcc (d_pst d'))) :: u32))"
  using assms(2-5) unfolding cc_compile_blob_def assms(1) sum.case prod.case Let_def if_False
  by (simp_all split: if_splits)

text \<open>C0: a saved program is restored exactly. When cc_compile_blob succeeds for a source as above, the result
  is the length of the blob, and at any later time, whatever the code buffer and the arena hold then,
  restoring the blob at the same addresses accepts it and puts back every byte of the machine code and
  every byte the compiler took from the arena (string literals and globals), calls main at its address, and
  wires the dispatch and apply functions to where the compiler put them, or to null when the program has
  none.\<close>

theorem blob_roundtrip:
  assumes d: "drv_ok d" and src: "src_ok (c_string src)" "length src \<le> 25000"
    and brk: "\<forall>ts s. seqn (dup_n src) (\<lambda>_. cc_lex (c_string src)) (arena_start d) = Inr (ts, s) \<longrightarrow> brk_ok ts"
    and blob: "cc_compile_blob ext src out d = Inr ((n, blob), d1)" "0 \<le> n"
    and later: "d_code d2 = d_code d" "d_arena d2 = d_arena d" "restore_blob blob d2 = (r, d3)"
  shows "\<exists>len m d'. compile_source ext src (d\<lparr>g_res_loaded := False, g_dispatch := 0\<rparr>) = Inr ((int len, code_off (d_cg d') m), d') \<and>
    find_func (drv_env ext d') ''main'' = Some m \<and> n = int (length blob) \<and>
    r = (0, d_code d + of_nat (code_off (d_cg d') m)) \<and> take len (g_codebuf d3) = take len (g_codebuf d') \<and>
    arena_bytes d3 (unat (g_apos (pcc (d_pst d')))) = arena_bytes d' (unat (g_apos (pcc (d_pst d')))) \<and>
    g_apply d3 = fun_ptr ''apply'' d' \<and> g_dispatch d3 = fun_ptr ''dispatch'' d'"
proof -
  let ?d = "d\<lparr>g_res_loaded := False, g_dispatch := 0\<rparr>"
  have "drv_ok ?d" "\<forall>ts s. seqn (dup_n src) (\<lambda>_. cc_lex (c_string src)) (arena_start ?d) = Inr (ts, s) \<longrightarrow> brk_ok ts"
    using d brk by (simp_all add: drv_ok_def arena_start_def)
  note run = compile_source_runs [OF this(1) src this(2), of ext]
  obtain len entry d' where c: "compile_source ext src ?d = Inr ((len, entry), d')" "\<not> cc_failed (pcc (d_pst d'))" "\<not> len < 0"
    using blob by (auto simp: cc_compile_blob_def split: sum.splits if_splits)
  have ok: "drv_ok d'" "arena_ok (d_pst d')" "d_code d' = d_code d" "d_arena d' = d_arena d" "compiled ext ?d len entry d'"
    using run c by (auto simp: wpre_def)
  obtain m where m: "find_func (drv_env ext d') ''main'' = Some m" "entry = code_off (d_cg d') m" using ok(5) by (auto simp: compiled_def)
  let ?a = "g_apos (pcc (d_pst d'))"
  have "unat ?a \<le> unat CC_ARENA" using ok(2) by (simp add: arena_ok_def word_le_nat_alt)
  then have a: "unat ?a \<le> unat CC_ARENA" "unat (ucast ?a :: u32) = unat ?a"
    by (simp_all add: CC_ARENA_def unsigned_ucast_eq take_bit_nat_eq_self)
  define img ar where "img = take (nat len) (g_codebuf d')" and "ar = arena_bytes d' (unat ?a)"
  have len: "length img = nat len" "length img \<le> CC_CODECAP" "length ar = unat ?a" "length ar \<le> unat CC_ARENA"
    using ok(1,5) a(1) by (auto simp: img_def ar_def arena_bytes_def compiled_def drv_ok_def)
  define ao dof where "ao = cc_func_offset (drv_env (\<lambda>_. 0) d') ''apply'' (d_cg d')" and "dof = cc_func_offset (drv_env (\<lambda>_. 0) d') ''dispatch'' (d_cg d')"
  define h where "h = \<lparr>x_magic = XJX_MAGIC, x_entry = of_nat entry, x_apply_off = of_int ao, x_dispatch_off = of_int dof,
      x_codelen = of_nat (length img), x_arenalen = of_nat (length ar)\<rparr>"
  have h: "h = \<lparr>x_magic = XJX_MAGIC, x_entry = of_nat entry, x_apply_off = of_int ao, x_dispatch_off = of_int dof,
      x_codelen = of_int len, x_arenalen = ucast ?a\<rparr>" using c(3) len(1,3) by (simp add: h_def)
  have b: "n = 24 + len + int (unat ?a)" "blob = hdr_bytes h @ img @ ar"
    using blob_result [OF c blob] unfolding h ao_def dof_def img_def ar_def a(2) .
  have "m < length (g_funcs (drv_env ext d'))" using find_func_less [OF m(1)] .
  then have e: "entry < 2 ^ 31" using ok(5) m(2) by (auto simp: compiled_def program_ok_def CC_CODECAP_def)
  note off = func_offset_range [OF ok(5), of "\<lambda>_. 0"]
  note res = restore_saved [OF h_def len(2,4) e off [of "''apply''", folded ao_def] off [of "''dispatch''", folded dof_def] later(3) [unfolded b(2)]]
  have "take (nat len) (g_codebuf d3) = img" using res(2) len(1) by simp
  moreover have "d_arena d3 = d_arena d2" using later(3) by (auto simp: restore_blob_def Let_def split: if_splits)
  then have "arena_bytes d3 (unat ?a) = ar"
    using res(3) len(3) later(2) by (intro nth_equalityI) (auto simp: arena_bytes_def)
  moreover have "int (length blob) = n" using b len(1,3) c(3) by simp
  ultimately show ?thesis using c(1,3) m res(1,4,5) later(1) ok(3)
    by (intro exI [of _ "nat len"] exI [of _ m] exI [of _ d']) (simp add: fun_ptr_def ao_def dof_def img_def ar_def)
qed

text \<open>Compiling a blob and restoring one replace the code but leave the mark and the entry point of an earlier
  \<open>cc_compile\<close> in place: \<open>cc_exec_compiled\<close> would then jump to the old offset in the new code.\<close>

lemma stale_entry:
  "cc_compile_blob ext src out d = Inr (x, d') \<Longrightarrow> g_cc_ready d' = g_cc_ready d \<and> g_cc_entry d' = g_cc_entry d"
  "restore_blob blob d = (y, d') \<Longrightarrow> g_cc_ready d' = g_cc_ready d \<and> g_cc_entry d' = g_cc_entry d"
proof -
  have c: "compile_source ext src d = Inr (x, d') \<Longrightarrow> g_cc_ready d' = g_cc_ready d \<and> g_cc_entry d' = g_cc_entry d" for x d d'
    by (auto simp: compile_source_def Let_def split: sum.splits if_splits prod.splits)
  show "cc_compile_blob ext src out d = Inr (x, d') \<Longrightarrow> g_cc_ready d' = g_cc_ready d \<and> g_cc_entry d' = g_cc_entry d"
    by (auto simp: cc_compile_blob_def Let_def free_arena_def split: sum.splits if_splits dest!: c)
  show "restore_blob blob d = (y, d') \<Longrightarrow> g_cc_ready d' = g_cc_ready d \<and> g_cc_entry d' = g_cc_entry d"
    by (auto simp: restore_blob_def Let_def split: if_splits)
qed

section \<open>An example\<close>

definition demo_prog :: string where "demo_prog = ''int main(){return 0;}''"

definition demo_main :: func_t where
  "demo_main = \<lparr>f_name = ''main'', f_ret = 0, f_params = [], f_locals = [], f_body = Some (ND_BLOCK [ND_RETURN (ND_NUM (Some 0) 0)])\<rparr>"

definition demo_drv :: ccdrv where
  "demo_drv = \<lparr>d_pst = pst_boot, d_cg = cg_blank 0, d_fns = [], g_codebuf = replicate CC_CODECAP 0, d_code = 0x80000, d_arena = 0x200000,
     g_cc_entry = 0, g_cc_ready = False, g_res_loaded = False, g_dispatch = 0, g_res_methodid = 0, g_res_objcls = 0, g_res_clsname = 0,
     g_apply = 0, g_nwx = 0, g_wx_port = 0, g_futn = 0, g_fut_used = (\<lambda>_. False)\<rparr>"

lemma demo_start: "arena_start demo_drv = pst_boot"
  by (simp add: arena_start_def demo_drv_def pst_boot_def arena_init_def)

lemma demo_front: "(case seqn (dup_n demo_prog) (\<lambda>_. cc_front (c_string demo_prog)) pst_boot of
    Inr (r, s) \<Rightarrow> r = Some [demo_main] \<and> \<not> cc_failed (pcc s) | Inl _ \<Rightarrow> False)"
  by code_simp

lemma demo_lex: "(case seqn (dup_n demo_prog) (\<lambda>_. cc_lex (c_string demo_prog)) pst_boot of Inr (ts, s) \<Rightarrow> brk_ok ts | Inl _ \<Rightarrow> False)"
  by code_simp

lemma demo_ok: "drv_ok demo_drv" "src_ok (c_string demo_prog)" "length demo_prog \<le> 25000"
  "\<forall>ts s. seqn (dup_n demo_prog) (\<lambda>_. cc_lex (c_string demo_prog)) (arena_start demo_drv) = Inr (ts, s) \<longrightarrow> brk_ok ts"
proof -
  show "drv_ok demo_drv" by (simp only: drv_ok_def demo_drv_def ccdrv.simps pst_boot_ok length_replicate) (simp add: cg_blank_def)
  show "src_ok (c_string demo_prog)" "length demo_prog \<le> 25000" by (simp_all add: src_ok_def c_string_def demo_prog_def)
  show "\<forall>ts s. seqn (dup_n demo_prog) (\<lambda>_. cc_lex (c_string demo_prog)) (arena_start demo_drv) = Inr (ts, s) \<longrightarrow> brk_ok ts"
    using demo_lex unfolding demo_start by (auto split: sum.splits)
qed

text \<open>The generator finishes the example: 12 words.\<close>

lemma demo_func:
  assumes "\<not> g_oom g" "g_pos g = 0" "g_cap g = CC_CODECAP" "\<not> g_err (cst g)" "g_funcs E = [demo_main]"
  shows "\<not> g_oom (gen_func E 0 g)" "\<not> g_err (cst (gen_func E 0 g))"
proof -
  have f: "g_funcs E ! 0 = demo_main" using assms(5) by simp
  have flds: "f_locals demo_main = []" "f_params demo_main = []" "f_body demo_main = Some (ND_BLOCK [ND_RETURN (ND_NUM (Some 0) 0)])"
    by (simp_all add: demo_main_def)
  have a: "assign_offsets E demo_main h = (0, h)" for h by (simp add: assign_offsets_def flds align_up_def)
  show "\<not> g_oom (gen_func E 0 g)" "\<not> g_err (cst (gen_func E 0 g))"
    unfolding gen_func_def f a flds Let_def prod.case using assms(1-4)
    by (simp_all add: gen_frame_def newlabel_def MAXLAB_def resolve_fields resolve_vars gen_stmt_rules gen_expr_rules
        gen_stmt.simps [of _ "ND_BLOCK ns" for ns, unfolded node_t.case] place_def
        emitter_defs emit_loadimm_def emit_b_def emit_fits emit_other_fields add_bfx_fields cc_failed_def MAXBFX_def CC_CODECAP_def)
qed

lemma demo_source:
  assumes "arena_start d = pst_boot"
  shows "\<exists>len entry d'. compile_source ext demo_prog d = Inr ((len, entry), d') \<and> 0 \<le> len \<and> \<not> cc_failed (pcc (d_pst d')) \<and>
    d_fns d' = [demo_main]"
proof -
  obtain s where s: "seqn (dup_n demo_prog) (\<lambda>_. cc_front (c_string demo_prog)) pst_boot = Inr (Some [demo_main], s)" "\<not> cc_failed (pcc s)"
    using demo_front by (auto split: sum.splits)
  define d1 where "d1 = d\<lparr>d_pst := s, d_fns := [demo_main]\<rparr>"
  define g0 where "g0 = (d_cg d)\<lparr>cvars := (\<lambda>v. p_vars s ! v), cst := pcc s\<rparr>"
  define E i where "E = drv_env ext d1" and "i = cg_init E (g_codebuf d) (d_code d) CC_CODECAP g0"
  define h where "h = gen_func E 0 i"
  define g where "g = fold patch_call (cfx h) h"
  have E: "g_funcs E = [demo_main]" by (simp add: E_def drv_env_def d1_def)
  have i: "\<not> g_oom i" "g_pos i = 0" "g_cap i = CC_CODECAP" "\<not> g_err (cst i)" using s(2) by (simp_all add: i_def cg_init_def g0_def cc_failed_def)
  note f = demo_func [OF i E, folded h_def]
  have "gen_funcs E [0..<length (g_funcs E)] i = (True, h)" using f by (simp add: E Let_def cc_failed_def h_def)
  moreover have "find_func E ''main'' = Some 0" by (simp add: find_func_def E demo_main_def)
  ultimately have "cc_codegen E (g_codebuf d) (d_code d) CC_CODECAP g0 = (int (g_pos g), Some (code_off g 0), g)"
    by (simp add: cc_codegen_def i_def [symmetric] g_def patch_call_def Let_def)
  moreover have "\<not> g_err (cst g)" using f(2) by (simp add: g_def patch_vars)
  ultimately show ?thesis using s assms by (simp add: compile_source_def cc_failed_def E_def d1_def g0_def)
qed

theorem cc_compile_correct_witness:
  "\<exists>d'. cc_compile (\<lambda>_. 0) demo_prog demo_drv = Inr (0, d') \<and> g_cc_ready d' \<and> d_fns d' = [demo_main] \<and>
     (\<exists>len. compiled (\<lambda>_. 0) demo_drv len (g_cc_entry d') d')"
proof -
  let ?d = "cc_future_reset (cc_web_reset (demo_drv\<lparr>g_cc_ready := False, g_res_loaded := False, g_dispatch := 0,
    g_res_methodid := 0, g_res_objcls := 0, g_res_clsname := 0\<rparr>))"
  have "arena_start ?d = arena_start demo_drv" by (simp add: arena_start_def cc_future_reset_def cc_web_reset_def)
  then obtain len entry d' where c: "compile_source (\<lambda>_. 0) demo_prog ?d = Inr ((len, entry), d')" "0 \<le> len" "\<not> cc_failed (pcc (d_pst d'))"
    "d_fns d' = [demo_main]" using demo_source [of ?d "\<lambda>_. 0"] demo_start by auto
  then obtain d2 where d2: "cc_compile (\<lambda>_. 0) demo_prog demo_drv = Inr (0, d2)" "d_fns d2 = [demo_main]" by (simp add: cc_compile_def)
  then show ?thesis using cc_compile_correct [OF demo_ok, of "\<lambda>_. 0"] by simp
qed

theorem blob_roundtrip_witness:
  "\<exists>n blob d1 e d3. cc_compile_blob (\<lambda>_. 0) demo_prog (Some 3000000) demo_drv = Inr ((n, blob), d1) \<and> n = int (length blob) \<and> 0 < n \<and>
     restore_blob blob demo_drv = ((0, 0x80000 + of_nat e), d3)"
proof -
  let ?d = "demo_drv\<lparr>g_res_loaded := False, g_dispatch := 0\<rparr>"
  have st: "arena_start ?d = arena_start demo_drv" "drv_ok ?d" using demo_ok(1) by (simp_all add: arena_start_def drv_ok_def)
  then obtain len entry d' where c: "compile_source (\<lambda>_. 0) demo_prog ?d = Inr ((len, entry), d')" "0 \<le> len" "\<not> cc_failed (pcc (d_pst d'))"
    using demo_source [of ?d "\<lambda>_. 0"] demo_start by auto
  have "arena_ok (d_pst d')" "compiled (\<lambda>_. 0) ?d len entry d'"
    using compile_source_runs [OF st(2) demo_ok(2,3), unfolded st(1), OF demo_ok(4), of "\<lambda>_. 0"] c by (simp_all add: wpre_def)
  then have "len \<le> 262144" "unat (g_apos (pcc (d_pst d'))) \<le> 2097152"
    by (auto simp: compiled_def CC_CODECAP_def arena_ok_def CC_ARENA_def word_le_nat_alt)
  moreover from this have "unat (ucast (g_apos (pcc (d_pst d'))) :: u32) = unat (g_apos (pcc (d_pst d')))"
    by (simp add: unsigned_ucast_eq take_bit_nat_eq_self)
  ultimately have "24 + len + int (unat (ucast (g_apos (pcc (d_pst d'))) :: u32)) \<le> 3000000" by linarith
  moreover have "0 < 24 + len + int (unat (ucast (g_apos (pcc (d_pst d'))) :: u32))" using c(2) by linarith
  ultimately obtain n blob d1 where b: "cc_compile_blob (\<lambda>_. 0) demo_prog (Some 3000000) demo_drv = Inr ((n, blob), d1)" "0 < n"
    using c by (simp add: cc_compile_blob_def Let_def)
  obtain r d3 where r: "restore_blob blob demo_drv = (r, d3)" by fastforce
  have "0 \<le> n" "d_code demo_drv = 0x80000" using b(2) by (simp_all add: demo_drv_def)
  then show ?thesis using blob_roundtrip [OF demo_ok b(1) _ refl refl r] b r by auto
qed

end
