(* ===== verification/Tcp.thy ===== *)
theory Tcp
  imports Responder
begin

text \<open>
  The TCP server of \<open>system/tcp_server.c\<close>: the single connection slot, segment construction, the send
  buffer with its pump, acknowledgements, the retransmission timer, the reaper, the receive handler,
  and the request parser \<open>http_complete\<close>. The code of other parts that the server calls is an argument,
  the record \<open>tcp_env\<close>: the transmit drivers (the result of the n-th call), the free-running counter
  (\<open>cntpct_el0\<close> at its n-th read, and the frequency \<open>cntfrq_el0\<close>), the addresses of the wireless interface, and the route
  table \<open>http_build\<close> (the response to the n-th request; it leaves the variables of the server alone).
  Frames handed to a driver are collected in
  \<open>tx_log\<close>, console output in \<open>uart\<close>. Sequence numbers are the 64-bit \<open>unsigned long\<close> of the code.
\<close>

section \<open>State\<close>

datatype tcp_state = TCP_CLOSED | TCP_LISTEN | TCP_SYN_RCVD | TCP_ESTABLISHED | TCP_FIN_WAIT_1 | TCP_LAST_ACK

definition TCP_FLAG_FIN :: u8 where "TCP_FLAG_FIN = 0x01"
definition TCP_FLAG_SYN :: u8 where "TCP_FLAG_SYN = 0x02"
definition TCP_FLAG_RST :: u8 where "TCP_FLAG_RST = 0x04"
definition TCP_FLAG_PSH :: u8 where "TCP_FLAG_PSH = 0x08"
definition TCP_FLAG_ACK :: u8 where "TCP_FLAG_ACK = 0x10"

definition TCP_MSS :: nat where "TCP_MSS = 1460"
definition TCP_SND_BUF :: nat where "TCP_SND_BUF = 16384"
definition TCP_MAX_INFLIGHT :: nat where "TCP_MAX_INFLIGHT = 4 * TCP_MSS"
definition TCP_RTO_MS :: u64 where "TCP_RTO_MS = 500"
definition TCP_MAX_RETRIES :: nat where "TCP_MAX_RETRIES = 6"
definition TCP_HALFOPEN_TIMEOUT_MS :: u64 where "TCP_HALFOPEN_TIMEOUT_MS = 5000"
definition TCP_ESTAB_TIMEOUT_MS :: u64 where "TCP_ESTAB_TIMEOUT_MS = 60000"
definition REQ_CAP :: nat where "REQ_CAP = 65536"

record tcp_env =
  e_tx :: "nat \<Rightarrow> bool \<Rightarrow> bytes \<Rightarrow> int"
  e_ct :: "nat \<Rightarrow> u64"
  e_hz :: u64
  e_wifi_mac :: bytes
  e_wifi_ip :: bytes
  e_http :: "nat \<Rightarrow> bytes \<Rightarrow> bytes"

text \<open>The connection \<open>g_conn\<close>; the array \<open>snd\<close> of the code is a function of the offset.\<close>

record tcp_conn =
  c_state :: tcp_state
  peer_mac :: bytes
  peer_ip :: bytes
  peer_port :: u16
  my_seq :: u64
  peer_seq :: u64
  greeted :: bool
  c_via :: bool
  last_ms :: u64
  snd_arr :: "nat \<Rightarrow> u8"
  snd_len :: nat
  snd_una :: nat
  snd_nxt :: nat
  snd_seq0 :: u64
  snd_last_tx_ms :: u64
  snd_retries :: nat
  snd_fin_pending :: bool
  peer_fin :: bool
  fin_acked :: bool
  peer_win :: u16

text \<open>The other variables of the file. \<open>g_req\<close> holds the first \<open>g_reqlen\<close> bytes of the request array,
  which the code always terminates with a zero byte.\<close>

record tcp = tcp_conn +
  g_req :: bytes
  g_rx_via :: bool
  t_my_mac :: bytes
  t_my_ip :: bytes
  g_listen_port :: u16
  g_isn_seed :: u64
  g_tcp_any :: u64
  g_seg_rx :: u64
  g_syn_seen :: u64
  g_synack_sent :: u64
  g_estab :: u64
  g_txfail :: u64
  g_retrans :: u64
  g_reaped :: u64
  g_pump_calls :: u64
  g_segs_tx :: u64
  g_ack_calls :: u64
  g_tick_calls :: u64
  g_last_ip :: bytes
  g_last_port :: u16
  g_snap :: "nat \<times> nat \<times> nat \<times> u16 \<times> tcp_state"
  t_uart :: string
  tx_log :: "(bool \<times> bytes) list"
  now_calls :: nat
  http_calls :: nat

definition tcp_set_mac :: "bytes \<Rightarrow> tcp \<Rightarrow> tcp" where
  "tcp_set_mac mac s = s\<lparr>t_my_mac := take 6 mac\<rparr>"

definition tcp_set_ip :: "bytes \<Rightarrow> tcp \<Rightarrow> tcp" where
  "tcp_set_ip ip s = s\<lparr>t_my_ip := take 4 ip\<rparr>"

definition tcp_listen :: "u16 \<Rightarrow> tcp \<Rightarrow> tcp" where
  "tcp_listen port s = s\<lparr>g_listen_port := port, c_state := TCP_LISTEN, greeted := False\<rparr>"

text \<open>The counter in milliseconds at its n-th read; the product wraps at 64 bits.\<close>

definition e_now :: "tcp_env \<Rightarrow> nat \<Rightarrow> u64" where
  "e_now e n = (if e_hz e = 0 then 0 else e_ct e n * 1000 div e_hz e)"

definition now_ms :: "tcp_env \<Rightarrow> tcp \<Rightarrow> u64 \<times> tcp" where
  "now_ms e s = (e_now e (now_calls s), s\<lparr>now_calls := now_calls s + 1\<rparr>)"

definition say :: "string \<Rightarrow> tcp \<Rightarrow> tcp" where
  "say msg s = s\<lparr>t_uart := t_uart s @ msg\<rparr>"

text \<open>The digits are written into a 12-byte array, which holds every value below \<open>10 ^ 12\<close>: all ports,
  and the counters for the first \<open>10 ^ 12\<close> events.\<close>

definition puts_u32_dec :: "u64 \<Rightarrow> string" where
  "puts_u32_dec v = (if v = 0 then ''0'' else rev (dec_digits v))"

section \<open>Segments\<close>

text \<open>The TCP checksum: the sum of the pseudo header and of the segment.\<close>

definition tcp_sum :: "bytes \<Rightarrow> bytes \<Rightarrow> bytes \<Rightarrow> u64" where
  "tcp_sum src_ip dst_ip seg =
     fold16 (sum16 seg (sum16 dst_ip (sum16 src_ip 0) + 6 + of_nat (length seg)))"

definition tcp_checksum :: "bytes \<Rightarrow> bytes \<Rightarrow> bytes \<Rightarrow> u16" where
  "tcp_checksum src_ip dst_ip seg = ucast (NOT (tcp_sum src_ip dst_ip seg) AND 0xFFFF)"

definition src_mac :: "tcp_env \<Rightarrow> tcp \<Rightarrow> bytes" where
  "src_mac e s = (if c_via s then e_wifi_mac e else t_my_mac s)"

definition src_ip :: "tcp_env \<Rightarrow> tcp \<Rightarrow> bytes" where
  "src_ip e s = (if c_via s then e_wifi_ip e else t_my_ip s)"

definition ip_header :: "bytes \<Rightarrow> bytes \<Rightarrow> nat \<Rightarrow> bytes" where
  "ip_header src dst ip_total =
     (let ih = [0x45, 0, hi8 (of_nat ip_total), lo8 (of_nat ip_total), 0, 0, 0, 0, 64, 6, 0, 0] @ src @ dst;
          ipsum = ip_checksum ih
      in ih[10 := hi8 ipsum, 11 := lo8 ipsum])"

definition put_be32 :: "u64 \<Rightarrow> bytes" where
  "put_be32 v = [ucast (drop_bit 24 v), ucast (drop_bit 16 v), ucast (drop_bit 8 v), ucast v]"

definition tcp_segment :: "tcp_env \<Rightarrow> u8 \<Rightarrow> bytes \<Rightarrow> tcp \<Rightarrow> bytes" where
  "tcp_segment e flags payload s =
     (let th = [hi8 (g_listen_port s), lo8 (g_listen_port s), hi8 (peer_port s), lo8 (peer_port s)] @
               put_be32 (my_seq s) @ put_be32 (peer_seq s) @ [0x50, flags, 0x20, 0, 0, 0, 0, 0] @ payload;
          ucs = tcp_checksum (src_ip e s) (peer_ip s) th
      in th[16 := hi8 ucs, 17 := lo8 ucs])"

definition tcp_frame :: "tcp_env \<Rightarrow> u8 \<Rightarrow> bytes \<Rightarrow> tcp \<Rightarrow> bytes" where
  "tcp_frame e flags payload s =
     peer_mac s @ src_mac e s @ [0x08, 0x00] @
     ip_header (src_ip e s) (peer_ip s) (40 + length payload) @
     tcp_segment e flags payload s @ replicate (6 - length payload) 0"

definition tcp_send :: "tcp_env \<Rightarrow> u8 \<Rightarrow> bytes \<Rightarrow> tcp \<Rightarrow> int \<times> tcp" where
  "tcp_send e flags payload s =
     (if 54 + length payload > 1518 then (-1, s)
      else let f = tcp_frame e flags payload s
           in (e_tx e (length (tx_log s)) (c_via s) f, s\<lparr>tx_log := tx_log s @ [(c_via s, f)]\<rparr>))"

lemma tcp_send_state:
  "tcp_send e flags payload s = (r, s') \<Longrightarrow> s' = s\<lparr>tx_log := tx_log s'\<rparr>"
  by (auto simp: tcp_send_def Let_def split: if_splits)

section \<open>The send path\<close>

definition pump_limit :: "tcp \<Rightarrow> nat" where
  "pump_limit s =
     (let limit = (if peer_win s \<noteq> 0 \<and> unat (peer_win s) < TCP_MAX_INFLIGHT then unat (peer_win s) else TCP_MAX_INFLIGHT)
      in if limit < TCP_MSS then TCP_MSS else limit)"

text \<open>The bytes \<open>snd[i .. i + n)\<close>.\<close>

definition snd_slice :: "tcp \<Rightarrow> nat \<Rightarrow> nat \<Rightarrow> bytes" where
  "snd_slice s i n = map (snd_arr s) [i ..< i + n]"

function pump_loop :: "tcp_env \<Rightarrow> nat \<Rightarrow> tcp \<Rightarrow> tcp" where
  "pump_loop e limit s =
     (if \<not> snd_nxt s < snd_len s \<or> int (snd_nxt s) - int (snd_una s) \<ge> int limit then s
      else let n = min (snd_len s - snd_nxt s) TCP_MSS;
               s1 = s\<lparr>my_seq := snd_seq0 s + of_nat (snd_nxt s)\<rparr>;
               (r, s2) = tcp_send e (TCP_FLAG_PSH OR TCP_FLAG_ACK) (snd_slice s (snd_nxt s) n) s1
           in if r < 0 then s2\<lparr>g_txfail := g_txfail s2 + 1\<rparr>
              else let s3 = s2\<lparr>snd_nxt := snd_nxt s + n, g_segs_tx := g_segs_tx s2 + 1\<rparr>;
                       (t, s4) = now_ms e s3
                   in pump_loop e limit (s4\<lparr>snd_last_tx_ms := t\<rparr>))"
  by auto
termination
  by (relation "measure (\<lambda>(_, _, s). snd_len s - snd_nxt s)")
    (auto simp: now_ms_def TCP_MSS_def tcp_send_def Let_def split: if_splits)

declare pump_loop.simps [simp del]

definition pump_fin :: "tcp_env \<Rightarrow> tcp \<Rightarrow> tcp" where
  "pump_fin e s =
     (if snd_fin_pending s \<and> snd_nxt s \<ge> snd_len s
      then let s1 = s\<lparr>my_seq := snd_seq0 s + of_nat (snd_len s)\<rparr>;
               (r, s2) = tcp_send e (TCP_FLAG_FIN OR TCP_FLAG_ACK) [] s1
           in if r \<ge> 0
              then let s3 = s2\<lparr>my_seq := my_seq s2 + 1, snd_fin_pending := False,
                               c_state := (if peer_fin s2 then TCP_LAST_ACK else TCP_FIN_WAIT_1)\<rparr>;
                       (t, s4) = now_ms e s3
                   in s4\<lparr>snd_last_tx_ms := t\<rparr>
              else s2
      else s)"

definition tcp_pump :: "tcp_env \<Rightarrow> tcp \<Rightarrow> tcp" where
  "tcp_pump e s =
     (let s = s\<lparr>g_pump_calls := g_pump_calls s + 1\<rparr>
      in if c_state s \<noteq> TCP_ESTABLISHED \<and> c_state s \<noteq> TCP_FIN_WAIT_1 then s
         else let s = pump_loop e (pump_limit s) s;
                  s = (if snd_len s > 0 then s\<lparr>my_seq := snd_seq0 s + of_nat (snd_nxt s)\<rparr> else s)
              in pump_fin e s)"

definition tcp_send_response :: "tcp_env \<Rightarrow> bytes \<Rightarrow> tcp \<Rightarrow> tcp" where
  "tcp_send_response e body s =
     (let len = min (length body) TCP_SND_BUF;
          s = s\<lparr>snd_arr := (\<lambda>i. if i < len then body ! i else snd_arr s i), snd_len := len, snd_una := 0,
                snd_nxt := 0, snd_seq0 := my_seq s, snd_retries := 0, snd_fin_pending := True\<rparr>;
          (t, s) = now_ms e s
      in tcp_pump e (s\<lparr>snd_last_tx_ms := t\<rparr>))"

text \<open>\<open>(int)acked > c->snd_una\<close> is read after \<open>acked\<close> is known to be at most \<open>snd_len\<close>, where the
  conversion is exact.\<close>

definition tcp_on_ack :: "tcp_env \<Rightarrow> u64 \<Rightarrow> tcp \<Rightarrow> tcp" where
  "tcp_on_ack e ack s =
     (let s = s\<lparr>g_ack_calls := g_ack_calls s + 1\<rparr>;
          acked = ack - snd_seq0 s;
          s = (if snd_len s > 0 \<and> acked \<le> of_nat (snd_len s) \<and> unat acked > snd_una s
               then s\<lparr>snd_una := unat acked, snd_retries := 0\<rparr> else s)
      in tcp_pump e s)"

definition tcp_retransmit_tick :: "tcp_env \<Rightarrow> tcp \<Rightarrow> tcp" where
  "tcp_retransmit_tick e s =
     (let s = s\<lparr>g_tick_calls := g_tick_calls s + 1\<rparr>
      in if snd_una s \<ge> snd_len s \<and> \<not> snd_fin_pending s then s
         else if c_state s \<noteq> TCP_ESTABLISHED \<and> c_state s \<noteq> TCP_FIN_WAIT_1 then s
         else let (now, s) = now_ms e s
              in if snd_last_tx_ms s = 0 \<or> now < snd_last_tx_ms s then s\<lparr>snd_last_tx_ms := now\<rparr>
                 else if now - snd_last_tx_ms s < TCP_RTO_MS then s
                 else let s = s\<lparr>snd_retries := snd_retries s + 1\<rparr>
                      in if snd_retries s > TCP_MAX_RETRIES
                         then s\<lparr>snd_len := 0, snd_una := 0, snd_nxt := 0, snd_fin_pending := False\<rparr>
                         else tcp_pump e (s\<lparr>snd_nxt := snd_una s, g_retrans := g_retrans s + 1\<rparr>))"

definition tcp_conn_reap :: "tcp_env \<Rightarrow> tcp \<Rightarrow> tcp" where
  "tcp_conn_reap e s =
     (if c_state s = TCP_CLOSED \<or> c_state s = TCP_LISTEN then s
      else let (now, s) = now_ms e s;
               limit = (if c_state s = TCP_ESTABLISHED then TCP_ESTAB_TIMEOUT_MS else TCP_HALFOPEN_TIMEOUT_MS)
           in if last_ms s = 0 \<or> now < last_ms s then s\<lparr>last_ms := now\<rparr>
              else if now - last_ms s < limit then s
              else s\<lparr>c_state := TCP_LISTEN, greeted := False, g_req := [], g_reaped := g_reaped s + 1\<rparr>)"

section \<open>Request framing\<close>

definition CRLFCRLF :: bytes where "CRLFCRLF = [13, 10, 13, 10]"

text \<open>The offset behind the first blank line: the first \<open>i\<close> with \<open>i + 3 < len\<close> that matches.\<close>

fun header_end :: "bytes \<Rightarrow> nat \<Rightarrow> nat option" where
  "header_end (a # b # c # d # rest) i =
     (if [a, b, c, d] = CRLFCRLF then Some (i + 4) else header_end (b # c # d # rest) (i + 1))"
| "header_end _ _ = None"

definition to_lower :: "u8 \<Rightarrow> u8" where
  "to_lower c = (if 65 \<le> c \<and> c \<le> 90 then c + 32 else c)"

definition content_length_name :: bytes where
  "content_length_name = map (of_char) ''content-length:''"

text \<open>\<open>while (digit) cl = cl * 10 + d\<close> on a 64-bit integer.\<close>

fun digits_value :: "bytes \<Rightarrow> u64 \<Rightarrow> u64" where
  "digits_value (c # cs) cl = (if 48 \<le> c \<and> c \<le> 57 then digits_value cs (cl * 10 + (ucast c - 48)) else cl)"
| "digits_value [] cl = cl"

text \<open>The loop over \<open>i + 15 < he\<close>; the argument is the buffer from offset \<open>i\<close> on and the bound.\<close>

fun find_content_length :: "bytes \<Rightarrow> nat \<Rightarrow> u64 option" where
  "find_content_length buf 0 = None"
| "find_content_length buf (Suc n) =
     (if map to_lower (take 15 buf) = content_length_name
      then Some (digits_value (dropWhile (\<lambda>c. c = 32) (drop 15 buf)) 0)
      else find_content_length (tl buf) n)"

definition http_complete :: "bytes \<Rightarrow> bool" where
  "http_complete buf =
     (case header_end buf 0 of
        None \<Rightarrow> False
      | Some he \<Rightarrow>
          (case find_content_length buf (he - 15) of
             None \<Rightarrow> True
           | Some cl \<Rightarrow> if sint cl < 0 then True
                        else int (length buf) \<ge> sint (of_nat he + ucast cl :: u32)))"

section \<open>The receive handler\<close>

definition has :: "u8 \<Rightarrow> u8 \<Rightarrow> bool" where "has flags f = (flags AND f \<noteq> 0)"

record rseg =
  r_mac :: bytes
  r_ip :: bytes
  r_sport :: u16
  r_seq :: u64
  r_ack :: u64
  r_flags :: u8
  r_win :: u16
  r_data :: bytes

definition rd32 :: "bytes \<Rightarrow> u64" where
  "rd32 b = push_bit 24 (ucast (b ! 0)) OR push_bit 16 (ucast (b ! 1)) OR push_bit 8 (ucast (b ! 2)) OR ucast (b ! 3)"

text \<open>\<open>LISTEN\<close>: a SYN captures the peer and is answered.\<close>

definition tcp_open :: "tcp_env \<Rightarrow> rseg \<Rightarrow> tcp \<Rightarrow> tcp" where
  "tcp_open e g s =
     (if \<not> has (r_flags g) TCP_FLAG_SYN then s
      else let s = s\<lparr>c_via := g_rx_via s, peer_mac := r_mac g, peer_ip := r_ip g, peer_port := r_sport g,
                     peer_seq := r_seq g + 1, my_seq := g_isn_seed s, g_isn_seed := g_isn_seed s + 0x100,
                     greeted := False,
                     g_snap := (snd_len s, snd_nxt s, snd_una s, peer_win s, c_state s),
                     snd_len := 0, snd_una := 0, snd_nxt := 0, snd_fin_pending := False, snd_retries := 0,
                     peer_fin := False, fin_acked := False, g_req := []\<rparr>;
               s = say (''tcp: SYN from '' @ puts_ip (peer_ip s) @ '':'' @ puts_u32_dec (ucast (r_sport g)) @
                        '' -> SYN+ACK'' @ newline) s;
               s = s\<lparr>g_syn_seen := g_syn_seen s + 1\<rparr>;
               (r, s) = tcp_send e (TCP_FLAG_SYN OR TCP_FLAG_ACK) [] s;
               s = (if r < 0 then s\<lparr>g_txfail := g_txfail s + 1\<rparr> else s\<lparr>g_synack_sent := g_synack_sent s + 1\<rparr>)
           in s\<lparr>my_seq := my_seq s + 1, c_state := TCP_SYN_RCVD\<rparr>)"

definition tcp_syn_rcvd :: "rseg \<Rightarrow> tcp \<Rightarrow> tcp" where
  "tcp_syn_rcvd g s =
     (if has (r_flags g) TCP_FLAG_RST then s\<lparr>c_state := TCP_LISTEN\<rparr>
      else if has (r_flags g) TCP_FLAG_ACK \<and> r_ack g = my_seq s
      then say (''tcp: ESTABLISHED (await HTTP request)'' @ newline)
             (s\<lparr>c_state := TCP_ESTABLISHED, g_req := [], g_estab := g_estab s + 1\<rparr>)
      else s)"

text \<open>Data on an established connection: accumulate what is in order, acknowledge, and answer a
  complete request.\<close>

definition tcp_data :: "tcp_env \<Rightarrow> rseg \<Rightarrow> tcp \<Rightarrow> tcp" where
  "tcp_data e g s =
     (let s = (if r_seq g = peer_seq s
               then s\<lparr>g_req := take (REQ_CAP - 1) (g_req s @ r_data g),
                      peer_seq := r_seq g + of_nat (length (r_data g))\<rparr> else s);
          (_, s) = tcp_send e TCP_FLAG_ACK [] s
      in if http_complete (g_req s)
         then let resp = e_http e (http_calls s) (g_req s);
                  s = s\<lparr>http_calls := http_calls s + 1, g_req := []\<rparr>
              in say (''http: served request'' @ newline) (tcp_send_response e resp s)
         else s)"

definition tcp_peer_fin :: "tcp_env \<Rightarrow> rseg \<Rightarrow> tcp \<Rightarrow> tcp" where
  "tcp_peer_fin e g s =
     (let s = s\<lparr>peer_seq := r_seq g + 1, peer_fin := True\<rparr>
      in if snd_nxt s < snd_len s \<or> snd_fin_pending s
         then let (_, s) = tcp_send e TCP_FLAG_ACK [] s in tcp_pump e s
         else let (_, s) = tcp_send e (TCP_FLAG_FIN OR TCP_FLAG_ACK) [] s
              in say (''tcp: peer FIN, sent FIN+ACK'' @ newline)
                   (s\<lparr>my_seq := my_seq s + 1, c_state := TCP_LAST_ACK\<rparr>))"

definition tcp_established :: "tcp_env \<Rightarrow> rseg \<Rightarrow> tcp \<Rightarrow> tcp" where
  "tcp_established e g s =
     (if has (r_flags g) TCP_FLAG_RST then (say (''tcp: RST -> CLOSED'' @ newline) s)\<lparr>c_state := TCP_LISTEN\<rparr>
      else let s = (if r_data g \<noteq> [] then tcp_data e g s else s)
           in if has (r_flags g) TCP_FLAG_FIN then tcp_peer_fin e g s else s)"

definition tcp_fin_wait :: "tcp_env \<Rightarrow> rseg \<Rightarrow> tcp \<Rightarrow> tcp" where
  "tcp_fin_wait e g s =
     (let s = (if has (r_flags g) TCP_FLAG_ACK \<and> r_ack g = my_seq s then s\<lparr>fin_acked := True\<rparr> else s);
          s = (if has (r_flags g) TCP_FLAG_FIN
               then snd (tcp_send e TCP_FLAG_ACK [] (s\<lparr>peer_seq := r_seq g + 1, peer_fin := True\<rparr>)) else s)
      in if fin_acked s then say (''tcp: closed (back to LISTEN)'' @ newline) (s\<lparr>c_state := TCP_LISTEN\<rparr>) else s)"

definition tcp_last_ack :: "rseg \<Rightarrow> tcp \<Rightarrow> tcp" where
  "tcp_last_ack g s =
     (if has (r_flags g) TCP_FLAG_ACK \<and> r_ack g = my_seq s
      then say (''tcp: LAST_ACK -> LISTEN'' @ newline) (s\<lparr>c_state := TCP_LISTEN\<rparr>) else s)"

text \<open>The branch on the state of the connection.\<close>

definition tcp_dispatch :: "tcp_env \<Rightarrow> rseg \<Rightarrow> tcp \<Rightarrow> tcp" where
  "tcp_dispatch e g s =
     (if c_state s = TCP_CLOSED \<or> c_state s = TCP_LISTEN then tcp_open e g s
      else if peer_port s \<noteq> r_sport g \<or> peer_ip s \<noteq> r_ip g then s
      else case c_state s of
             TCP_SYN_RCVD \<Rightarrow> tcp_syn_rcvd g s
           | TCP_ESTABLISHED \<Rightarrow> tcp_established e g s
           | TCP_FIN_WAIT_1 \<Rightarrow> tcp_fin_wait e g s
           | TCP_LAST_ACK \<Rightarrow> tcp_last_ack g s
           | _ \<Rightarrow> s)"

text \<open>What the handler does with a well-formed segment for the listening port.\<close>

definition tcp_receive :: "tcp_env \<Rightarrow> rseg \<Rightarrow> tcp \<Rightarrow> tcp" where
  "tcp_receive e g s =
     (let (t, s) = now_ms e s;
          s = s\<lparr>last_ms := t, peer_win := r_win g\<rparr>;
          s = (if has (r_flags g) TCP_FLAG_ACK \<and> snd_len s > 0 then tcp_on_ack e (r_ack g) s else s)
      in tcp_dispatch e g s)"

text \<open>The part of the handler behind the port check: the remaining header fields and their
  validation.\<close>

definition tcp_parse :: "tcp_env \<Rightarrow> bytes \<Rightarrow> nat \<Rightarrow> u16 \<Rightarrow> tcp \<Rightarrow> (int \<times> tcp) option" where
  "tcp_parse e frame ihl sport s =
    do {
      seq \<leftarrow> rd_seg frame (14 + ihl + 4) 4;
      ack \<leftarrow> rd_seg frame (14 + ihl + 8) 4;
      off \<leftarrow> rd frame (14 + ihl + 12);
      fl \<leftarrow> rd frame (14 + ihl + 13);
      l0 \<leftarrow> rd frame 16; l1 \<leftarrow> rd frame 17;
      let data_off = unat (drop_bit 4 off) * 4;
      let total_len = unat (be16 l0 l1);
      if data_off < 20 \<or> total_len < ihl + data_off \<or> total_len > length frame - 14 then Some (1, s)
      else do {
        w0 \<leftarrow> rd frame (14 + ihl + 14); w1 \<leftarrow> rd frame (14 + ihl + 15);
        mac \<leftarrow> rd_seg frame 6 6;
        ip \<leftarrow> rd_seg frame 26 4;
        data \<leftarrow> rd_seg frame (14 + ihl + data_off) (total_len - ihl - data_off);
        Some (1, tcp_receive e \<lparr>r_mac = mac, r_ip = ip, r_sport = sport, r_seq = rd32 seq, r_ack = rd32 ack,
                                r_flags = fl AND 0x3F, r_win = be16 w0 w1, r_data = data\<rparr> s)
      }
    }"

definition tcp_handle_packet_via :: "tcp_env \<Rightarrow> bytes \<Rightarrow> bool \<Rightarrow> tcp \<Rightarrow> (int \<times> tcp) option" where
  "tcp_handle_packet_via e frame via s =
    (let s = s\<lparr>g_rx_via := via\<rparr> in
     if length frame < 14 + 20 + 20 then Some (0, s) else do {
      t0 \<leftarrow> rd frame 12; t1 \<leftarrow> rd frame 13;
      v \<leftarrow> rd frame 14;
      p \<leftarrow> rd frame 23;
      dst \<leftarrow> rd_seg frame 30 4;
      let ihl = unat (v AND 0x0F) * 4;
      if t0 \<noteq> 0x08 \<or> t1 \<noteq> 0x00 \<or> drop_bit 4 v \<noteq> 4 \<or> p \<noteq> 6 \<or>
         (dst \<noteq> t_my_ip s \<and> \<not> (via \<and> dst = e_wifi_ip e)) then Some (0, s)
      else do {
        ports \<leftarrow> rd_seg frame (14 + ihl) 4;
        ip \<leftarrow> rd_seg frame 26 4;
        let sport = be16 (ports ! 0) (ports ! 1);
        let dport = be16 (ports ! 2) (ports ! 3);
        let s = s\<lparr>g_tcp_any := g_tcp_any s + 1, g_last_ip := ip, g_last_port := sport\<rparr>;
        if dport \<noteq> g_listen_port s then Some (0, s)
        else tcp_parse e frame ihl sport (s\<lparr>g_seg_rx := g_seg_rx s + 1\<rparr>)
      }
    })"

definition tcp_handle_packet :: "tcp_env \<Rightarrow> bytes \<Rightarrow> tcp \<Rightarrow> (int \<times> tcp) option" where
  "tcp_handle_packet e frame s = tcp_handle_packet_via e frame False s"

definition tcp_state_str :: "tcp \<Rightarrow> string" where
  "tcp_state_str s = (case c_state s of TCP_CLOSED \<Rightarrow> ''CLOSED'' | TCP_LISTEN \<Rightarrow> ''LISTEN''
     | TCP_SYN_RCVD \<Rightarrow> ''SYN_RCVD'' | TCP_ESTABLISHED \<Rightarrow> ''ESTAB'' | TCP_FIN_WAIT_1 \<Rightarrow> ''FINWAIT1''
     | TCP_LAST_ACK \<Rightarrow> ''LASTACK'')"

definition tcp_dump_state :: "tcp \<Rightarrow> tcp" where
  "tcp_dump_state s =
     (let st = (case c_state s of TCP_CLOSED \<Rightarrow> ''CLOSED'' | TCP_LISTEN \<Rightarrow> ''LISTEN''
          | TCP_SYN_RCVD \<Rightarrow> ''SYN_RCVD'' | TCP_ESTABLISHED \<Rightarrow> ''ESTABLISHED''
          | TCP_FIN_WAIT_1 \<Rightarrow> ''FIN_WAIT_1'' | TCP_LAST_ACK \<Rightarrow> ''LAST_ACK'')
      in say (''tcp: state='' @ st @ '' listen_port='' @ puts_u32_dec (ucast (g_listen_port s)) @ newline @
              ''     any='' @ puts_u32_dec (g_tcp_any s) @ '' seg_rx='' @ puts_u32_dec (g_seg_rx s) @
              '' syn='' @ puts_u32_dec (g_syn_seen s) @ '' synack='' @ puts_u32_dec (g_synack_sent s) @
              '' estab='' @ puts_u32_dec (g_estab s) @ '' txfail='' @ puts_u32_dec (g_txfail s) @
              '' reaped='' @ puts_u32_dec (g_reaped s) @ newline @ ''     last_peer='' @
              (if g_last_port s \<noteq> 0 then puts_ip (g_last_ip s) @ '':'' @ puts_u32_dec (ucast (g_last_port s))
               else ''(none)'') @ newline) s)"

end
