(* ===== verification/Tcp_Stream.thy ===== *)
theory Tcp_Stream
  imports Tcp
begin

text \<open>
  The byte stream the TCP server delivers. The server of the theory \<open>Tcp\<close> runs against a peer over a
  network that may lose, duplicate, delay and reorder every frame in both directions.
\<close>

section \<open>What a frame of the server says\<close>

definition frame_seq :: "bytes \<Rightarrow> u64" where "frame_seq f = rd32 (segm f 38 4)"
definition frame_payload :: "bytes \<Rightarrow> bytes" where
  "frame_payload f = segm f 54 (unat (be16 (f ! 16) (f ! 17)) - 40)"

definition addr_ok :: "tcp_env \<Rightarrow> tcp \<Rightarrow> bool" where
  "addr_ok e s \<longleftrightarrow> length (peer_mac s) = 6 \<and> length (peer_ip s) = 4 \<and> length (src_mac e s) = 6 \<and> length (src_ip e s) = 4"

lemma be16_hi8_lo8 [simp]: "be16 (hi8 c) (lo8 c) = c"
proof (rule bit_word_eqI)
  fix n assume "n < LENGTH(16)"
  have m: "(0xFF :: u16) = mask 8" by (simp add: mask_eq_exp_minus_1)
  show "bit (be16 (hi8 c) (lo8 c)) n = bit c n"
    using \<open>n < LENGTH(16)\<close> unfolding be16_def hi8_def lo8_def m by (auto simp: bit_simps)
qed

lemma rd32_put_be32 [simp]: "rd32 (put_be32 v) = take_bit 32 v"
proof (rule bit_word_eqI)
  fix n assume "n < LENGTH(64)"
  show "bit (rd32 (put_be32 v)) n = bit (take_bit 32 v) n"
    using \<open>n < LENGTH(64)\<close> unfolding rd32_def put_be32_def
    by (cases "16 \<le> n"; cases "24 \<le> n"; cases "8 \<le> n") (auto simp: bit_simps)
qed

lemma length_put_be32 [simp]: "length (put_be32 v) = 4" by (simp add: put_be32_def)

lemma length_ip_header [simp]: "length src = 4 \<Longrightarrow> length dst = 4 \<Longrightarrow> length (ip_header src dst n) = 20"
  by (simp add: ip_header_def Let_def)

lemma length_tcp_segment [simp]: "length (tcp_segment e flags p s) = 20 + length p"
  by (simp add: tcp_segment_def Let_def)

lemma segm_append_right: "length xs \<le> i \<Longrightarrow> segm (xs @ ys) i n = segm ys (i - length xs) n"
  by (simp add: segm_def)

lemma segm_append_left: "i + n \<le> length xs \<Longrightarrow> segm (xs @ ys) i n = segm xs i n"
  by (simp add: segm_def)

lemma segm_update: "k < i \<or> i + n \<le> k \<Longrightarrow> segm (xs[k := v]) i n = segm xs i n"
  by (auto simp: segm_def take_update_cancel drop_update_cancel drop_update_swap)

lemma tcp_segment_fields:
  shows "segm (tcp_segment e flags p s) 4 4 = put_be32 (my_seq s)"
    and "segm (tcp_segment e flags p s) 20 (length p) = p"
  by (simp_all add: tcp_segment_def Let_def segm_update) (simp_all add: segm_def)

lemma frame_head:
  assumes "addr_ok e s"
  shows "tcp_frame e flags p s ! 16 = hi8 (of_nat (40 + length p))"
    and "tcp_frame e flags p s ! 17 = lo8 (of_nat (40 + length p))"
  using assms by (simp_all add: tcp_frame_def addr_ok_def ip_header_def Let_def nth_append)

lemma frame_tail:
  assumes "addr_ok e s"
  shows "34 \<le> i \<Longrightarrow> i + n \<le> 54 + length p \<Longrightarrow> segm (tcp_frame e flags p s) i n = segm (tcp_segment e flags p s) (i - 34) n"
proof -
  assume i: "34 \<le> i" "i + n \<le> 54 + length p"
  define h where "h = peer_mac s @ src_mac e s @ [0x08, 0x00] @ ip_header (src_ip e s) (peer_ip s) (40 + length p)"
  have h: "length h = 34" using assms by (simp add: h_def addr_ok_def)
  have "tcp_frame e flags p s = h @ tcp_segment e flags p s @ replicate (6 - length p) 0"
    by (simp add: tcp_frame_def h_def)
  then show "segm (tcp_frame e flags p s) i n = segm (tcp_segment e flags p s) (i - 34) n"
    using i h by (simp add: segm_append_right segm_append_left)
qed

lemma frame_reads:
  assumes "addr_ok e s" "length p \<le> 1464"
  shows "frame_seq (tcp_frame e flags p s) = take_bit 32 (my_seq s)"
    and "frame_payload (tcp_frame e flags p s) = p"
proof -
  show "frame_seq (tcp_frame e flags p s) = take_bit 32 (my_seq s)"
    using frame_tail [OF assms(1), of 38 4 p flags] by (simp add: frame_seq_def tcp_segment_fields)
  have "unat (of_nat (40 + length p) :: u16) = 40 + length p"
    using assms(2) by (simp add: unat_of_nat take_bit_nat_eq_self del: of_nat_add)
  then have "unat (be16 (tcp_frame e flags p s ! 16) (tcp_frame e flags p s ! 17)) - 40 = length p"
    by (simp only: frame_head [OF assms(1)] be16_hi8_lo8)
  then show "frame_payload (tcp_frame e flags p s) = p"
    unfolding frame_payload_def
    by (simp add: frame_tail [OF assms(1)] tcp_segment_fields)
qed

section \<open>The pump sends slices of the response\<close>

text \<open>The state the send path leaves alone.\<close>

definition conn_kept :: "tcp \<Rightarrow> tcp \<Rightarrow> bool" where
  "conn_kept s s' \<longleftrightarrow> snd_arr s' = snd_arr s \<and> snd_len s' = snd_len s \<and> snd_una s' = snd_una s \<and> snd_seq0 s' = snd_seq0 s \<and>
     snd_retries s' = snd_retries s \<and> peer_mac s' = peer_mac s \<and> peer_ip s' = peer_ip s \<and> peer_port s' = peer_port s \<and>
     peer_seq s' = peer_seq s \<and> peer_win s' = peer_win s \<and> peer_fin s' = peer_fin s \<and> fin_acked s' = fin_acked s \<and>
     c_via s' = c_via s \<and> t_my_mac s' = t_my_mac s \<and> t_my_ip s' = t_my_ip s \<and> g_listen_port s' = g_listen_port s \<and>
     g_reaped s' = g_reaped s \<and> g_req s' = g_req s \<and> g_isn_seed s' = g_isn_seed s \<and> last_ms s' = last_ms s"

lemma conn_kept_refl [simp]: "conn_kept s s" by (simp add: conn_kept_def)

lemma conn_kept_trans [trans]: "conn_kept s t \<Longrightarrow> conn_kept t u \<Longrightarrow> conn_kept s u" by (simp add: conn_kept_def)

lemma kept_addr_ok: "conn_kept s s' \<Longrightarrow> addr_ok e s' = addr_ok e s"
  by (simp add: conn_kept_def addr_ok_def src_mac_def src_ip_def)

lemma addr_ok_cong:
  "peer_mac s' = peer_mac s \<Longrightarrow> peer_ip s' = peer_ip s \<Longrightarrow> c_via s' = c_via s \<Longrightarrow> t_my_mac s' = t_my_mac s \<Longrightarrow>
   t_my_ip s' = t_my_ip s \<Longrightarrow> addr_ok e s' = addr_ok e s"
  by (simp add: addr_ok_def src_mac_def src_ip_def)

lemma snd_slice_kept: "conn_kept s s' \<Longrightarrow> snd_slice s' i n = snd_slice s i n"
  by (simp add: conn_kept_def snd_slice_def)

definition response :: "tcp \<Rightarrow> bytes" where "response s = snd_slice s 0 (snd_len s)"

lemma length_snd_slice [simp]: "length (snd_slice s i n) = n" by (simp add: snd_slice_def)

lemma length_response [simp]: "length (response s) = snd_len s" by (simp add: response_def)

lemma segm_response: "k + n \<le> snd_len s \<Longrightarrow> segm (response s) k n = snd_slice s k n"
  by (rule nth_equalityI) (auto simp: response_def snd_slice_def nth_segm)

text \<open>A frame that carries nothing or the bytes of the response at its sequence number.\<close>

definition slice_of :: "u64 \<Rightarrow> bytes \<Rightarrow> bytes \<Rightarrow> bool" where
  "slice_of q body f \<longleftrightarrow> frame_payload f = [] \<or>
     (\<exists>k n. k + n \<le> length body \<and> frame_seq f = take_bit 32 (q + of_nat k) \<and> frame_payload f = segm body k n)"

text \<open>The peer: it appends what a frame carries beyond the bytes it already has.\<close>

definition peer_rx :: "u64 \<Rightarrow> bytes \<Rightarrow> bytes \<Rightarrow> bytes" where
  "peer_rx q f got =
     (let k = unat (ucast (frame_seq f - q) :: u32)
      in if k \<le> length got then got @ drop (length got - k) (frame_payload f) else got)"

lemma word_of_int_mod64: "(word_of_int (x mod 18446744073709551616) :: u32) = word_of_int x"
proof -
  have "(word_of_int (x mod 2 ^ 64) :: u32) = word_of_int x"
    by (simp only: take_bit_eq_mod [symmetric] word_of_int_eq_iff take_bit_take_bit) simp
  then show ?thesis by simp
qed

lemma ucast32_add: "(ucast (a + b) :: u32) = ucast a + ucast b" for a b :: u64
  unfolding ucast_eq uint_word_ariths(1) by (simp add: word_of_int_mod64)

lemma ucast32_diff: "(ucast (a - b) :: u32) = ucast a - ucast b" for a b :: u64
  unfolding ucast_eq uint_word_ariths(2) by (simp add: word_of_int_mod64)

lemma ucast32_of_nat: "(ucast (of_nat k :: u64) :: u32) = of_nat k"
  by (rule bit_word_eqI) (auto simp: bit_simps)

lemma ucast32_take_bit: "(ucast (take_bit 32 a) :: u32) = ucast a" for a :: u64
  by (rule bit_word_eqI) (auto simp: bit_simps)

lemma unat_seq_diff:
  assumes "k < 4294967296"
  shows "unat (ucast (take_bit 32 (q + of_nat k) - q :: u64) :: u32) = k"
  using assms by (simp add: ucast32_diff ucast32_take_bit ucast32_add ucast32_of_nat unat_of_nat take_bit_nat_eq_self)

definition prefix_of :: "bytes \<Rightarrow> bytes \<Rightarrow> bool" where "prefix_of body got \<longleftrightarrow> got = take (length got) body"

lemma prefix_of_length: "prefix_of body got \<Longrightarrow> length got \<le> length body"
  unfolding prefix_of_def by (metis length_take min.cobounded1)

lemma prefix_of_full: "prefix_of body got \<Longrightarrow> length got = length body \<Longrightarrow> got = body"
  by (simp add: prefix_of_def)

lemma peer_rx_grows: "length got \<le> length (peer_rx q f got)"
  by (simp add: peer_rx_def Let_def)

text \<open>A slice extends a prefix to a prefix, and to the end of the slice when it starts within it.\<close>

lemma peer_rx_slice:
  assumes "frame_seq f = take_bit 32 (q + of_nat k)" "frame_payload f = segm body k n" "k + n \<le> length body"
    and "length body \<le> 16384" "prefix_of body got"
  shows "prefix_of body (peer_rx q f got)" "k \<le> length got \<Longrightarrow> k + n \<le> length (peer_rx q f got)"
proof -
  have k: "unat (ucast (frame_seq f - q) :: u32) = k" using assms(1,3,4) unat_seq_diff [of k q] by simp
  have "got @ drop (length got - k) (segm body k n) = take (max (length got) (k + n)) body" if "k \<le> length got"
  proof -
    have "drop (length got - k) (segm body k n) = take (k + n - length got) (drop (length got) body)"
      using that by (simp add: segm_def drop_take add.commute)
    then have "got @ drop (length got - k) (segm body k n) = take (length got + (k + n - length got)) body"
      using assms(5) by (simp add: prefix_of_def take_add)
    then show ?thesis by (simp add: max_def)
  qed
  then show "prefix_of body (peer_rx q f got)"
    using assms(2,3,5) prefix_of_length [OF assms(5)] by (auto simp: peer_rx_def k prefix_of_def Let_def)
  show "k \<le> length got \<Longrightarrow> k + n \<le> length (peer_rx q f got)"
    using assms(2,3) by (simp add: peer_rx_def k Let_def)
qed

lemma peer_rx_prefix:
  "slice_of q body f \<Longrightarrow> length body \<le> 16384 \<Longrightarrow> prefix_of body got \<Longrightarrow> prefix_of body (peer_rx q f got)"
  by (auto simp: slice_of_def intro: peer_rx_slice) (simp add: peer_rx_def Let_def)

text \<open>One segment of the pump.\<close>

definition sent_one :: "tcp_env \<Rightarrow> tcp \<Rightarrow> tcp" where
  "sent_one e s =
     (let s1 = s\<lparr>my_seq := snd_seq0 s + of_nat (snd_nxt s)\<rparr>;
          p = snd_slice s (snd_nxt s) (min (snd_len s - snd_nxt s) TCP_MSS)
      in s1\<lparr>tx_log := tx_log s @ [(c_via s, tcp_frame e (TCP_FLAG_PSH OR TCP_FLAG_ACK) p s1)]\<rparr>)"

definition moved_on :: "tcp_env \<Rightarrow> tcp \<Rightarrow> tcp" where
  "moved_on e s = (let s2 = sent_one e s
     in s2\<lparr>snd_nxt := snd_nxt s + min (snd_len s - snd_nxt s) TCP_MSS, g_segs_tx := g_segs_tx s + 1,
           now_calls := now_calls s + 1, snd_last_tx_ms := e_now e (now_calls s)\<rparr>)"

definition window_full :: "nat \<Rightarrow> tcp \<Rightarrow> bool" where
  "window_full limit s \<longleftrightarrow> \<not> snd_nxt s < snd_len s \<or> int (snd_nxt s) - int (snd_una s) \<ge> int limit"

lemma pump_loop_stop: "window_full limit s \<Longrightarrow> pump_loop e limit s = s"
  by (simp add: pump_loop.simps [of e limit s] window_full_def)

lemma pump_loop_step:
  assumes "\<not> window_full limit s"
  shows "pump_loop e limit s =
    (if e_tx e (length (tx_log s)) (c_via s) (snd (last (tx_log (sent_one e s)))) < 0
     then (sent_one e s)\<lparr>g_txfail := g_txfail s + 1\<rparr> else pump_loop e limit (moved_on e s))"
  using assms by (simp add: pump_loop.simps [of e limit s] window_full_def tcp_send_def sent_one_def moved_on_def
      TCP_MSS_def now_ms_def Let_def)

lemma kept_sent [simp]: "conn_kept s (sent_one e s)" "conn_kept s (moved_on e s)"
    "conn_kept s ((sent_one e s)\<lparr>g_txfail := n\<rparr>)"
  by (simp_all add: conn_kept_def sent_one_def moved_on_def Let_def)

lemma sent_fields [simp]:
  "snd_nxt (sent_one e s) = snd_nxt s" "c_state (sent_one e s) = c_state s" "snd_fin_pending (sent_one e s) = snd_fin_pending s"
  "snd_nxt (moved_on e s) = snd_nxt s + min (snd_len s - snd_nxt s) TCP_MSS"
  "c_state (moved_on e s) = c_state s" "snd_fin_pending (moved_on e s) = snd_fin_pending s"
  "tx_log (moved_on e s) = tx_log (sent_one e s)" "http_calls (moved_on e s) = http_calls s" "http_calls (sent_one e s) = http_calls s"
  "now_calls (moved_on e s) = now_calls s + 1"
  by (simp_all add: sent_one_def moved_on_def Let_def)

lemma sent_one_log:
  assumes "addr_ok e s" "snd_nxt s \<le> snd_len s"
  shows "\<exists>f. tx_log (sent_one e s) = tx_log s @ [(c_via s, f)] \<and>
     frame_seq f = take_bit 32 (snd_seq0 s + of_nat (snd_nxt s)) \<and>
     frame_payload f = segm (response s) (snd_nxt s) (min (snd_len s - snd_nxt s) TCP_MSS)"
proof -
  have "addr_ok e (s\<lparr>my_seq := q\<rparr>)" for q
    using assms(1) kept_addr_ok [of s "s\<lparr>my_seq := q\<rparr>" e] by (simp add: conn_kept_def)
  then show ?thesis using assms(2)
    by (simp add: sent_one_def Let_def frame_reads TCP_MSS_def segm_response)
qed

text \<open>The loop as a whole: the frames it adds are slices, a peer that has everything before \<open>snd_nxt\<close>
  and receives them has everything before the new \<open>snd_nxt\<close>, and with a working driver it stops only
  at the end of the response or with a full window.\<close>

definition driver_ok :: "tcp_env \<Rightarrow> bool" where "driver_ok e \<longleftrightarrow> (\<forall>n v f. 0 \<le> e_tx e n v f)"

definition flight :: "tcp \<Rightarrow> tcp \<Rightarrow> (bool \<times> bytes) list \<Rightarrow> bool" where
  "flight s s' fs \<longleftrightarrow> tx_log s' = tx_log s @ fs \<and> (\<forall>x \<in> set fs. slice_of (snd_seq0 s) (response s) (snd x)) \<and>
     (\<forall>got. prefix_of (response s) got \<longrightarrow> snd_nxt s \<le> length got \<longrightarrow>
        snd_nxt s' \<le> length (fold (\<lambda>x. peer_rx (snd_seq0 s) (snd x)) fs got))"

lemma response_kept: "conn_kept s s' \<Longrightarrow> response s' = response s"
  by (simp add: response_def snd_slice_kept) (simp add: conn_kept_def)

lemma flight_cons:
  assumes "addr_ok e s" "snd_nxt s \<le> snd_len s" "snd_len s \<le> TCP_SND_BUF" and "flight (moved_on e s) s' fs"
  shows "\<exists>fs. flight s s' fs"
proof -
  obtain f where f: "tx_log (sent_one e s) = tx_log s @ [(c_via s, f)]"
     "frame_seq f = take_bit 32 (snd_seq0 s + of_nat (snd_nxt s))"
     "frame_payload f = segm (response s) (snd_nxt s) (min (snd_len s - snd_nxt s) TCP_MSS)"
    using sent_one_log [OF assms(1,2)] by blast
  let ?n = "min (snd_len s - snd_nxt s) TCP_MSS"
  have r: "response (moved_on e s) = response s" by (rule response_kept) simp
  have q: "snd_seq0 (moved_on e s) = snd_seq0 s" using kept_sent(2) [of s e] unfolding conn_kept_def by simp
  have len: "snd_nxt s + ?n \<le> length (response s)" "length (response s) \<le> 16384"
    using assms(2,3) by (auto simp: TCP_SND_BUF_def)
  have sl: "slice_of (snd_seq0 s) (response s) f" using f(2,3) len unfolding slice_of_def by blast
  have "flight s s' ((c_via s, f) # fs)"
    using assms(4) f sl peer_rx_slice [OF f(2,3) len] unfolding flight_def r q by (auto simp: f(1))
  then show ?thesis by blast
qed

lemma pump_loop_spec:
  assumes "addr_ok e s" "snd_nxt s \<le> snd_len s" "snd_len s \<le> TCP_SND_BUF"
  shows "conn_kept s (pump_loop e limit s) \<and> c_state (pump_loop e limit s) = c_state s \<and>
     snd_fin_pending (pump_loop e limit s) = snd_fin_pending s \<and>
     snd_nxt s \<le> snd_nxt (pump_loop e limit s) \<and> snd_nxt (pump_loop e limit s) \<le> snd_len s \<and>
     (driver_ok e \<longrightarrow> window_full limit (pump_loop e limit s)) \<and> (\<exists>fs. flight s (pump_loop e limit s) fs)"
  using assms
proof (induction "snd_len s - snd_nxt s" arbitrary: s rule: less_induct)
  case less
  have len: "snd_len (moved_on e s) = snd_len s" using kept_sent(2) [of s e] unfolding conn_kept_def by simp
  consider (stop) "window_full limit s"
    | (failed) "\<not> window_full limit s" "e_tx e (length (tx_log s)) (c_via s) (snd (last (tx_log (sent_one e s)))) < 0"
    | (sent) "\<not> window_full limit s" "\<not> e_tx e (length (tx_log s)) (c_via s) (snd (last (tx_log (sent_one e s)))) < 0"
    by blast
  then show ?case
  proof cases
    case stop
    have "flight s s []" by (simp add: flight_def)
    with stop less.prems show ?thesis by (auto simp: pump_loop_stop)
  next
    case failed
    let ?s = "(sent_one e s)\<lparr>g_txfail := g_txfail s + 1\<rparr>"
    have eq: "pump_loop e limit s = ?s" using failed by (simp add: pump_loop_step)
    have nd: "\<not> driver_ok e" using failed(2) unfolding driver_ok_def by (meson not_le)
    have "flight (moved_on e s) (?s\<lparr>snd_nxt := snd_nxt (moved_on e s)\<rparr>) []" by (simp add: flight_def)
    then obtain fs where "flight s (?s\<lparr>snd_nxt := snd_nxt (moved_on e s)\<rparr>) fs"
      using flight_cons less.prems by blast
    then have "flight s ?s fs" by (fastforce simp: flight_def)
    with eq nd less.prems show ?thesis by auto
  next
    case sent
    have eq: "pump_loop e limit s = pump_loop e limit (moved_on e s)" using sent by (simp add: pump_loop_step)
    have dec: "snd_len (moved_on e s) - snd_nxt (moved_on e s) < snd_len s - snd_nxt s"
      using sent(1) len by (auto simp: window_full_def TCP_MSS_def)
    have "addr_ok e (moved_on e s)" using less.prems(1) kept_addr_ok [OF kept_sent(2)] by simp
    moreover have "snd_nxt (moved_on e s) \<le> snd_len (moved_on e s)" using less.prems(2) len by simp
    moreover have "snd_len (moved_on e s) \<le> TCP_SND_BUF" using less.prems(3) len by simp
    note less.hyps [OF dec calculation this]
    then obtain fs where
      IH: "conn_kept (moved_on e s) (pump_loop e limit (moved_on e s))"
        "c_state (pump_loop e limit (moved_on e s)) = c_state s"
        "snd_fin_pending (pump_loop e limit (moved_on e s)) = snd_fin_pending s"
        "snd_nxt (moved_on e s) \<le> snd_nxt (pump_loop e limit (moved_on e s))"
        "snd_nxt (pump_loop e limit (moved_on e s)) \<le> snd_len s"
        "driver_ok e \<longrightarrow> window_full limit (pump_loop e limit (moved_on e s))"
        "flight (moved_on e s) (pump_loop e limit (moved_on e s)) fs"
      unfolding len by auto
    moreover have "snd_nxt s \<le> snd_nxt (moved_on e s)" by simp
    ultimately show ?thesis
      unfolding eq using conn_kept_trans [OF kept_sent(2) IH(1)] flight_cons [OF less.prems IH(7)] le_trans by blast
  qed
qed

lemma fold_peer_rx_prefix:
  assumes "\<forall>x \<in> set fs. slice_of q body (snd x)" "length body \<le> 16384" "prefix_of body got"
  shows "prefix_of body (fold (\<lambda>x. peer_rx q (snd x)) fs got)"
  using assms by (induction fs arbitrary: got) (auto intro: peer_rx_prefix)

lemma fold_peer_rx_grows: "length got \<le> length (fold (\<lambda>x. peer_rx q (snd x)) fs got)"
proof (induction fs arbitrary: got)
  case (Cons x fs)
  show ?case using le_trans [OF peer_rx_grows Cons.IH] by simp
qed simp

lemma flight_trans:
  assumes "conn_kept s t" "snd_len s \<le> TCP_SND_BUF" "flight s t fs" "flight t u gs"
  shows "flight s u (fs @ gs)"
proof -
  have r: "response t = response s" "snd_seq0 t = snd_seq0 s"
    using response_kept [OF assms(1)] assms(1) by (simp_all add: conn_kept_def)
  have l: "length (response s) \<le> 16384" using assms(2) by (simp add: TCP_SND_BUF_def)
  have p: "prefix_of (response s) (fold (\<lambda>x. peer_rx (snd_seq0 s) (snd x)) fs got)" if "prefix_of (response s) got" for got
    using assms(3) l that by (intro fold_peer_rx_prefix) (auto simp: flight_def)
  show ?thesis using assms(3,4) p unfolding flight_def r by (auto simp: ball_Un)
qed

lemma flight_quiet:
  assumes "tx_log s' = tx_log s" "snd_nxt s' \<le> snd_nxt s"
  shows "flight s s' []"
  using assms by (simp add: flight_def)

text \<open>A segment without payload.\<close>

lemma send_empty:
  assumes "addr_ok e s" "tcp_send e flags [] s = (r, s')"
  shows "s' = s\<lparr>tx_log := tx_log s'\<rparr>" "driver_ok e \<Longrightarrow> 0 \<le> r" "\<exists>fs. flight s s' fs"
proof -
  let ?f = "tcp_frame e flags [] s"
  have s': "r = e_tx e (length (tx_log s)) (c_via s) ?f" "s' = s\<lparr>tx_log := tx_log s @ [(c_via s, ?f)]\<rparr>"
    using assms(2) by (simp_all add: tcp_send_def Let_def)
  show "s' = s\<lparr>tx_log := tx_log s'\<rparr>" "driver_ok e \<Longrightarrow> 0 \<le> r" using s' by (simp_all add: driver_ok_def)
  have "slice_of q body ?f" for q body using frame_reads(2) [OF assms(1), of "[]"] by (simp add: slice_of_def)
  then have "flight s s' [(c_via s, ?f)]" using s'(2) le_trans [OF _ peer_rx_grows] by (simp add: flight_def)
  then show "\<exists>fs. flight s s' fs" by blast
qed

definition pumped :: "tcp_env \<Rightarrow> tcp \<Rightarrow> tcp \<Rightarrow> bool" where
  "pumped e s s' \<longleftrightarrow> conn_kept s s' \<and> snd_nxt s \<le> snd_nxt s' \<and> snd_nxt s' \<le> snd_len s \<and>
     (driver_ok e \<longrightarrow> snd_nxt s' = snd_len s \<or> snd_una s + TCP_MSS \<le> snd_nxt s') \<and> (\<exists>fs. flight s s' fs) \<and>
     (c_state s' = c_state s \<and> snd_fin_pending s' = snd_fin_pending s \<and>
        (0 < snd_len s \<longrightarrow> my_seq s' = snd_seq0 s + of_nat (snd_nxt s')) \<or>
      c_state s' = (if peer_fin s then TCP_LAST_ACK else TCP_FIN_WAIT_1) \<and> snd_fin_pending s \<and> \<not> snd_fin_pending s' \<and>
        snd_nxt s' = snd_len s \<and> my_seq s' = snd_seq0 s + of_nat (snd_len s) + 1)"

lemma pump_fin_spec:
  assumes "addr_ok e s" "snd_nxt s \<le> snd_len s" "0 < snd_len s \<longrightarrow> my_seq s = snd_seq0 s + of_nat (snd_nxt s)"
  shows "conn_kept s (pump_fin e s) \<and> snd_nxt (pump_fin e s) = snd_nxt s \<and> (\<exists>fs. flight s (pump_fin e s) fs) \<and>
     (c_state (pump_fin e s) = c_state s \<and> snd_fin_pending (pump_fin e s) = snd_fin_pending s \<and>
        (0 < snd_len s \<longrightarrow> my_seq (pump_fin e s) = snd_seq0 s + of_nat (snd_nxt s)) \<or>
      c_state (pump_fin e s) = (if peer_fin s then TCP_LAST_ACK else TCP_FIN_WAIT_1) \<and> snd_fin_pending s \<and>
        \<not> snd_fin_pending (pump_fin e s) \<and> snd_nxt s = snd_len s \<and> my_seq (pump_fin e s) = snd_seq0 s + of_nat (snd_len s) + 1)"
proof (cases "snd_fin_pending s \<and> snd_nxt s \<ge> snd_len s")
  case True
  let ?s1 = "s\<lparr>my_seq := snd_seq0 s + of_nat (snd_len s)\<rparr>"
  obtain r s2 where snd: "tcp_send e (TCP_FLAG_FIN OR TCP_FLAG_ACK) [] ?s1 = (r, s2)" by fastforce
  have a: "addr_ok e ?s1" using assms(1) kept_addr_ok [of s ?s1 e] by (simp add: conn_kept_def)
  obtain fs where f: "flight ?s1 s2 fs" using send_empty(3) [OF a snd] by blast
  obtain lg where s2: "s2 = ?s1\<lparr>tx_log := lg\<rparr>" using send_empty(1) [OF a snd] by blast
  have n: "snd_nxt s = snd_len s" using True assms(2) by simp
  define s' where "s' = pump_fin e s"
  have s': "s' = (if r \<ge> 0 then s2\<lparr>my_seq := my_seq s2 + 1, snd_fin_pending := False,
       c_state := (if peer_fin s2 then TCP_LAST_ACK else TCP_FIN_WAIT_1), now_calls := now_calls s2 + 1,
       snd_last_tx_ms := e_now e (now_calls s2)\<rparr> else s2)"
    using True by (simp add: s'_def pump_fin_def snd now_ms_def Let_def)
  have e: "tx_log s' = tx_log s2" "snd_nxt s' = snd_nxt s2" by (simp_all add: s')
  have "flight s s' fs" using f unfolding flight_def e by (simp add: response_def snd_slice_def)
  moreover have "conn_kept s s'" by (simp add: s' s2 conn_kept_def)
  moreover have "snd_nxt s' = snd_nxt s" using e(2) by (simp add: s2)
  moreover have "my_seq s2 = snd_seq0 s + of_nat (snd_len s)" "peer_fin s2 = peer_fin s" "c_state s2 = c_state s"
    "snd_fin_pending s2 = snd_fin_pending s" by (simp_all add: s2)
  ultimately show ?thesis unfolding s'_def [symmetric] using True n by (cases "0 \<le> r") (auto simp: s')
next
  case False
  then have "pump_fin e s = s" by (auto simp: pump_fin_def)
  then show ?thesis using assms flight_quiet [of s s] by auto
qed

lemma pump_limit_mss: "TCP_MSS \<le> pump_limit s" by (simp add: pump_limit_def Let_def)

lemma tcp_pump_spec:
  assumes "addr_ok e s" "snd_nxt s \<le> snd_len s" "snd_len s \<le> TCP_SND_BUF"
    and "c_state s = TCP_ESTABLISHED \<or> c_state s = TCP_FIN_WAIT_1"
  shows "pumped e s (tcp_pump e s)"
proof -
  define s0 where "s0 = s\<lparr>g_pump_calls := g_pump_calls s + 1\<rparr>"
  define s1 where "s1 = pump_loop e (pump_limit s0) s0"
  define s2 where "s2 = (if snd_len s1 > 0 then s1\<lparr>my_seq := snd_seq0 s1 + of_nat (snd_nxt s1)\<rparr> else s1)"
  have eq: "tcp_pump e s = pump_fin e s2"
    using assms(4) by (auto simp: tcp_pump_def s0_def s1_def s2_def Let_def)
  have k0: "conn_kept s s0" and f0: "flight s s0 []" by (simp_all add: s0_def conn_kept_def flight_def)
  have a0: "addr_ok e s0" using assms(1) kept_addr_ok [OF k0] by simp
  have "snd_nxt s0 \<le> snd_len s0" "snd_len s0 \<le> TCP_SND_BUF" using assms(2,3) by (simp_all add: s0_def)
  note L = pump_loop_spec [OF a0 this, of "pump_limit s0", folded s1_def]
  obtain fs1 where f1: "flight s0 s1 fs1" using L by blast
  have k1: "conn_kept s s1" using L conn_kept_trans [OF k0] by blast
  have k2: "conn_kept s1 s2" and f2: "flight s1 s2 []" by (simp_all add: s2_def conn_kept_def flight_def)
  have k02: "conn_kept s s2" by (rule conn_kept_trans [OF k1 k2])
  have st: "c_state s2 = c_state s" "snd_fin_pending s2 = snd_fin_pending s" "snd_nxt s2 = snd_nxt s1"
    using L by (simp_all add: s2_def s0_def)
  have a2: "addr_ok e s2" using assms(1) kept_addr_ok [OF k02] by simp
  have n: "snd_nxt s \<le> snd_nxt s2" "snd_nxt s2 \<le> snd_len s" using L st by (simp_all add: s0_def)
  have kf: "snd_len s2 = snd_len s" "snd_seq0 s2 = snd_seq0 s" "peer_fin s2 = peer_fin s" "snd_una s2 = snd_una s"
    "snd_len s1 = snd_len s" "snd_una s1 = snd_una s"
    using k02 k1 by (simp_all add: conn_kept_def)
  have m: "0 < snd_len s2 \<longrightarrow> my_seq s2 = snd_seq0 s2 + of_nat (snd_nxt s2)" by (simp add: s2_def)
  note F = pump_fin_spec [OF a2 _ m]
  have F: "conn_kept s2 (pump_fin e s2)" "snd_nxt (pump_fin e s2) = snd_nxt s2" "\<exists>fs. flight s2 (pump_fin e s2) fs"
    using F n kf by simp_all
  have "flight s s2 ([] @ fs1 @ [])"
    using flight_trans [OF k0 assms(3) f0] flight_trans [OF _ _ f1 f2] L \<open>snd_len s0 \<le> TCP_SND_BUF\<close> by blast
  then have fl: "\<exists>fs. flight s (pump_fin e s2) fs" using flight_trans [OF k02 assms(3)] F(3) by blast
  have w: "snd_nxt s2 = snd_len s \<or> snd_una s + TCP_MSS \<le> snd_nxt s2" if "driver_ok e"
    using L that pump_limit_mss [of s0] st(3) n(2) kf by (auto simp: window_full_def)
  show ?thesis
    unfolding pumped_def eq
    using conn_kept_trans [OF k02 F(1)] F(2) n w fl pump_fin_spec [OF a2 _ m] kf st by auto
qed

section \<open>Frames of the peer\<close>

text \<open>The frame of a peer with the given addresses, ports, sequence numbers, flags, window and data; the
  server reads neither checksum.\<close>

definition peer_frame ::
  "bytes \<Rightarrow> bytes \<Rightarrow> bytes \<Rightarrow> u16 \<Rightarrow> u16 \<Rightarrow> u64 \<Rightarrow> u64 \<Rightarrow> u8 \<Rightarrow> u16 \<Rightarrow> bytes \<Rightarrow> bytes" where
  "peer_frame macs sip dip sport dport seq ack flags win data =
     macs @ [8, 0, 0x45, 0, hi8 (of_nat (40 + length data)), lo8 (of_nat (40 + length data)), 0, 0, 0, 0, 64, 6, 0, 0] @
     sip @ dip @ [hi8 sport, lo8 sport, hi8 dport, lo8 dport] @ put_be32 seq @ put_be32 ack @
     [0x50, flags, hi8 win, lo8 win, 0, 0, 0, 0] @ data"

definition noted :: "bool \<Rightarrow> bytes \<Rightarrow> u16 \<Rightarrow> tcp \<Rightarrow> tcp" where
  "noted via ip sport s = s\<lparr>g_rx_via := via, g_tcp_any := g_tcp_any s + 1, g_last_ip := ip, g_last_port := sport,
     g_seg_rx := g_seg_rx s + 1\<rparr>"

lemma peer_frame_reads:
  fixes macs sip dip data :: bytes and sport dport win :: u16 and seq ack :: u64 and flags :: u8
  assumes "length macs = 12" "length sip = 4" "length dip = 4"
  defines "f \<equiv> peer_frame macs sip dip sport dport seq ack flags win data"
  shows "length f = 54 + length data" "f ! 12 = 8" "f ! 13 = 0" "f ! 14 = 0x45" "f ! 23 = 6"
    "f ! 16 = hi8 (of_nat (40 + length data))" "f ! 17 = lo8 (of_nat (40 + length data))"
    "f ! 46 = 0x50" "f ! 47 = flags" "f ! 48 = hi8 win" "f ! 49 = lo8 win"
    "segm f 6 6 = drop 6 macs" "segm f 26 4 = sip" "segm f 30 4 = dip"
    "segm f 34 4 = [hi8 sport, lo8 sport, hi8 dport, lo8 dport]"
    "segm f 38 4 = put_be32 seq" "segm f 42 4 = put_be32 ack" "segm f 54 (length data) = data"
  using assms(1-3) by (simp_all add: f_def peer_frame_def nth_append segm_def)

lemma handle_peer_frame:
  assumes "length macs = 12" "length sip = 4" "length dip = 4" "length data \<le> 1460"
    and "dip = t_my_ip s \<or> via \<and> dip = e_wifi_ip e"
  shows "tcp_handle_packet_via e (peer_frame macs sip dip sport (g_listen_port s) seq ack flags win data) via s =
    Some (1, tcp_receive e \<lparr>r_mac = drop 6 macs, r_ip = sip, r_sport = sport, r_seq = take_bit 32 seq,
       r_ack = take_bit 32 ack, r_flags = flags AND 0x3F, r_win = win, r_data = data\<rparr> (noted via sip sport s))"
proof -
  define f where "f = peer_frame macs sip dip sport (g_listen_port s) seq ack flags win data"
  note R = peer_frame_reads [OF assms(1-3), of sport "g_listen_port s" seq ack flags win data, folded f_def]
  have t: "unat (of_nat (40 + length data) :: u16) = 40 + length data"
    using assms(4) by (simp add: unat_of_nat take_bit_nat_eq_self del: of_nat_add)
  have p: "tcp_parse e f 20 sport (noted via sip sport s) =
    Some (1, tcp_receive e \<lparr>r_mac = drop 6 macs, r_ip = sip, r_sport = sport, r_seq = take_bit 32 seq,
       r_ack = take_bit 32 ack, r_flags = flags AND 0x3F, r_win = win, r_data = data\<rparr> (noted via sip sport s))"
    using assms(4) by (simp add: tcp_parse_def R t del: of_nat_add)
  have "\<not> (dip \<noteq> t_my_ip s \<and> (via \<longrightarrow> dip \<noteq> e_wifi_ip e))" using assms(5) by blast
  then show ?thesis
    using p unfolding f_def [symmetric] by (auto simp: tcp_handle_packet_via_def Let_def R noted_def)
qed

section \<open>Delivery of a response over an unreliable network\<close>

text \<open>
  One response from the call of \<open>tcp_send_response\<close> on: the timers of the server run at any time, every
  frame the server has sent since may reach the peer at any time, again or never, and the server
  may receive any acknowledgement the peer can have sent: of a prefix it had received at some time,
  or of the FIN behind the whole response. \<open>got\<close> is what the peer has assembled.
\<close>

inductive transfer :: "tcp_env \<Rightarrow> bytes \<Rightarrow> tcp \<Rightarrow> tcp \<Rightarrow> bytes \<Rightarrow> bool" for e body s0 where
  start: "transfer e body s0 (tcp_send_response e body s0) []"
| tick: "transfer e body s0 s got \<Longrightarrow> transfer e body s0 (tcp_retransmit_tick e s) got"
| reap: "transfer e body s0 s got \<Longrightarrow> transfer e body s0 (tcp_conn_reap e s) got"
| deliver: "transfer e body s0 s got \<Longrightarrow> (v, f) \<in> set (drop (length (tx_log s0)) (tx_log s)) \<Longrightarrow>
    transfer e body s0 s (peer_rx (my_seq s0) f got)"
| ack: "transfer e body s0 s got \<Longrightarrow> a \<le> length got \<or> a = length body + 1 \<and> got = body \<Longrightarrow>
    length macs = 12 \<Longrightarrow> length dip = 4 \<Longrightarrow> dip = t_my_ip s \<or> via \<and> dip = e_wifi_ip e \<Longrightarrow>
    tcp_handle_packet_via e (peer_frame macs (peer_ip s) dip (peer_port s) (g_listen_port s) seq
      (my_seq s0 + of_nat a) TCP_FLAG_ACK win []) via s = Some (r, s') \<Longrightarrow>
    transfer e body s0 s' got"

text \<open>What holds at every moment of a transfer.\<close>

definition in_window :: "tcp_env \<Rightarrow> tcp \<Rightarrow> bool" where
  "in_window e s \<longleftrightarrow> snd_nxt s \<le> snd_len s \<and> 
     (driver_ok e \<and> c_state s \<noteq> TCP_LISTEN \<longrightarrow> snd_nxt s = snd_len s \<or> snd_una s + TCP_MSS \<le> snd_nxt s)"

definition xcore :: "tcp_env \<Rightarrow> bytes \<Rightarrow> tcp \<Rightarrow> tcp \<Rightarrow> bytes \<Rightarrow> bool" where
  "xcore e body s0 s got \<longleftrightarrow>
     addr_ok e s \<and> snd_seq0 s = my_seq s0 \<and> (\<forall>i < length body. snd_arr s i = body ! i) \<and> prefix_of body got \<and>
     (\<exists>fs. tx_log s = tx_log s0 @ fs \<and> (\<forall>x \<in> set fs. slice_of (my_seq s0) body (snd x))) \<and>
     \<not> peer_fin s \<and> (fin_acked s \<longrightarrow> c_state s = TCP_LISTEN) \<and>
     c_state s \<in> {TCP_ESTABLISHED, TCP_FIN_WAIT_1, TCP_LISTEN} \<and>
     (c_state s \<noteq> TCP_LISTEN \<longrightarrow> g_reaped s = g_reaped s0)"

definition xinv :: "tcp_env \<Rightarrow> bytes \<Rightarrow> tcp \<Rightarrow> tcp \<Rightarrow> bytes \<Rightarrow> bool" where
  "xinv e body s0 s got \<longleftrightarrow> xcore e body s0 s got \<and>
     (snd_len s = length body \<and> snd_una s \<le> length got \<and> in_window e s \<or> snd_len s = 0 \<and> snd_una s = 0 \<and> snd_nxt s = 0 \<and> \<not> snd_fin_pending s) \<and>
     (driver_ok e \<and> c_state s = TCP_LISTEN \<and> g_reaped s = g_reaped s0 \<and> snd_len s \<noteq> 0 \<longrightarrow> got = body)"

lemma response_body:
  assumes "\<forall>i < length body. snd_arr s i = body ! i" "snd_len s = length body"
  shows "response s = body"
  using assms by (intro nth_equalityI) (simp_all add: response_def snd_slice_def)

lemma xinv_pumped:
  assumes x: "xcore e body s0 s got" and t: "conn_kept (s\<lparr>snd_una := u, snd_retries := r, last_ms := lm, peer_win := pw\<rparr>) t"
      "c_state t = c_state s" "tx_log t = tx_log s" "snd_nxt t \<le> snd_len s"
    and l: "snd_len s = length body" "length body \<le> TCP_SND_BUF" "u \<le> length got" "c_state s \<noteq> TCP_LISTEN"
    and p: "pumped e t t'"
  shows "xinv e body s0 t' got"
proof -
  have eqs: "snd_arr t = snd_arr s" "snd_len t = snd_len s" "snd_seq0 t = snd_seq0 s" "snd_una t = u" "peer_fin t = peer_fin s"
    "fin_acked t = fin_acked s" "g_reaped t = g_reaped s"
    using t(1) by (simp_all add: conn_kept_def)
  have at: "addr_ok e t" using x t(1) addr_ok_cong [of t s e] by (simp add: xcore_def conn_kept_def)
  have k: "conn_kept t t'" using p by (simp add: pumped_def)
  have "response t = body" using x l eqs by (intro response_body) (simp_all add: xcore_def)
  moreover obtain fs where "flight t t' fs" using p by (auto simp: pumped_def)
  ultimately have fs: "tx_log t' = tx_log s @ fs" "\<forall>x \<in> set fs. slice_of (my_seq s0) body (snd x)"
    using x t(3) eqs by (simp_all add: flight_def xcore_def)
  obtain fs0 where fs0: "tx_log s = tx_log s0 @ fs0" "\<forall>x \<in> set fs0. slice_of (my_seq s0) body (snd x)"
    using x unfolding xcore_def by blast
  have log: "\<exists>fs. tx_log t' = tx_log s0 @ fs \<and> (\<forall>x \<in> set fs. slice_of (my_seq s0) body (snd x))"
    using fs fs0 by (intro exI [of _ "fs0 @ fs"]) auto
  have st: "c_state t' \<in> {TCP_ESTABLISHED, TCP_FIN_WAIT_1}"
    using p x t(2) l(4) eqs by (auto simp: pumped_def xcore_def)
  have w: "snd_len t' = length body \<and> snd_una t' \<le> length got \<and> in_window e t'"
    using p k l eqs by (auto simp: pumped_def in_window_def conn_kept_def)
  show ?thesis
    unfolding xinv_def xcore_def using x k at kept_addr_ok [OF k, of e] log st w l(4) eqs
    by (auto simp: xcore_def conn_kept_def)
qed

definition can_send :: "tcp_env \<Rightarrow> bytes \<Rightarrow> tcp \<Rightarrow> bool" where
  "can_send e body s \<longleftrightarrow> c_state s = TCP_ESTABLISHED \<and> addr_ok e s \<and> \<not> peer_fin s \<and> \<not> fin_acked s \<and>
     body \<noteq> [] \<and> length body \<le> TCP_SND_BUF \<and> unat (my_seq s) + length body + 1 < 4294967296"

lemma xinv_start:
  assumes "can_send e body s0"
  shows "xinv e body s0 (tcp_send_response e body s0) []"
proof -
  define t where "t = s0\<lparr>snd_arr := (\<lambda>i. if i < length body then body ! i else snd_arr s0 i), snd_len := length body,
     snd_una := 0, snd_nxt := 0, snd_seq0 := my_seq s0, snd_retries := 0, snd_fin_pending := True,
     now_calls := now_calls s0 + 1, snd_last_tx_ms := e_now e (now_calls s0)\<rparr>"
  have eq: "tcp_send_response e body s0 = tcp_pump e t"
    using assms by (simp add: tcp_send_response_def t_def now_ms_def can_send_def Let_def)
  have a: "addr_ok e t" using assms addr_ok_cong [of t s0 e] by (simp add: can_send_def t_def)
  have p: "pumped e t (tcp_pump e t)"
    using assms by (intro tcp_pump_spec a) (simp_all add: t_def can_send_def)
  have c: "xcore e body s0 t []" using assms a by (simp add: xcore_def t_def can_send_def prefix_of_def)
  have k: "conn_kept (t\<lparr>snd_una := 0, snd_retries := 0, last_ms := last_ms t, peer_win := peer_win t\<rparr>) t"
    by (simp add: conn_kept_def t_def)
  show ?thesis
    unfolding eq using assms by (intro xinv_pumped [OF c k _ _ _ _ _ _ _ p]) (simp_all add: t_def can_send_def)
qed

lemma xinv_tick:
  assumes x: "xinv e body s0 s got" and l: "length body \<le> TCP_SND_BUF"
  shows "xinv e body s0 (tcp_retransmit_tick e s) got"
proof -
  have c: "xcore e body s0 s got" using x by (simp add: xinv_def)
  have quiet: "xinv e body s0 (s\<lparr>g_tick_calls := t, now_calls := n, snd_last_tx_ms := m, snd_retries := r\<rparr>) got" for t n m r
    using x addr_ok_cong [of "s\<lparr>g_tick_calls := t, now_calls := n, snd_last_tx_ms := m, snd_retries := r\<rparr>" s e]
    by (simp add: xinv_def xcore_def in_window_def)
  note q = quiet [where t = "g_tick_calls s + 1" and n = "now_calls s" and m = "snd_last_tx_ms s" and r = "snd_retries s", simplified]
    quiet [where t = "g_tick_calls s + 1" and n = "now_calls s + 1" and r = "snd_retries s", simplified]
    quiet [where t = "g_tick_calls s + 1" and n = "now_calls s + 1" and m = "snd_last_tx_ms s" and r = "snd_retries s", simplified]
  define t where "t = s\<lparr>g_tick_calls := g_tick_calls s + 1, now_calls := now_calls s + 1, snd_retries := snd_retries s + 1\<rparr>"
  have gu: "xinv e body s0 (t\<lparr>snd_len := 0, snd_una := 0, snd_nxt := 0, snd_fin_pending := False\<rparr>) got"
    using c addr_ok_cong [of "t\<lparr>snd_len := 0, snd_una := 0, snd_nxt := 0, snd_fin_pending := False\<rparr>" s e]
    by (simp add: xinv_def xcore_def t_def)
  let ?t = "t\<lparr>snd_nxt := snd_una s, g_retrans := g_retrans s + 1\<rparr>"
  have go: "xinv e body s0 (tcp_pump e ?t) got" if st: "c_state s = TCP_ESTABLISHED \<or> c_state s = TCP_FIN_WAIT_1"
    and n: "\<not> (snd_una s \<ge> snd_len s \<and> \<not> snd_fin_pending s)"
  proof -
    have b: "snd_len s = length body" "snd_una s \<le> length got" using n x by (auto simp: xinv_def)
    have u: "snd_una s \<le> snd_len s" using b c prefix_of_length [of body got] by (simp add: xcore_def)
    have a: "addr_ok e ?t" using c addr_ok_cong [of ?t s e] by (simp add: t_def xcore_def)
    have p: "pumped e ?t (tcp_pump e ?t)"
      using b st l u by (intro tcp_pump_spec a) (auto simp: t_def)
    have k: "conn_kept (s\<lparr>snd_una := snd_una s, snd_retries := snd_retries s + 1, last_ms := last_ms s, peer_win := peer_win s\<rparr>) ?t"
      by (simp add: conn_kept_def t_def)
    show ?thesis
      using b st l u by (intro xinv_pumped [OF c k _ _ _ _ _ _ _ p]) (auto simp: t_def)
  qed
  show ?thesis
    using q gu go unfolding t_def by (auto simp: tcp_retransmit_tick_def now_ms_def Let_def)
qed

lemma xinv_reap:
  assumes x: "xinv e body s0 s got"
  shows "xinv e body s0 (tcp_conn_reap e s) got"
proof -
  have q: "xinv e body s0 (s\<lparr>now_calls := n, last_ms := m\<rparr>) got" for n m
    using x addr_ok_cong [of "s\<lparr>now_calls := n, last_ms := m\<rparr>" s e] by (simp add: xinv_def xcore_def in_window_def)
  note q' = q [where m = "last_ms s", simplified]
  have r: "xinv e body s0 (s\<lparr>now_calls := n, c_state := TCP_LISTEN, greeted := False, g_req := [], g_reaped := g_reaped s + 1\<rparr>) got"
    if "c_state s \<noteq> TCP_LISTEN" for n
  proof -
    have "addr_ok e (s\<lparr>now_calls := n, c_state := TCP_LISTEN, greeted := False, g_req := [], g_reaped := g_reaped s + 1\<rparr>)"
      using x addr_ok_cong [of "s\<lparr>now_calls := n, c_state := TCP_LISTEN, greeted := False, g_req := [], g_reaped := g_reaped s + 1\<rparr>" s e]
      by (simp add: xinv_def xcore_def)
    then show ?thesis using x that by (auto simp: xinv_def xcore_def in_window_def)
  qed
  show ?thesis using x q q' r by (auto simp: tcp_conn_reap_def now_ms_def Let_def)
qed

lemma xinv_more:
  assumes "xinv e body s0 s got" "prefix_of body got'" "length got \<le> length got'"
  shows "xinv e body s0 s got'"
proof -
  have "got' = body" if "got = body"
    using assms(3) unfolding that by (intro prefix_of_full [OF assms(2)] le_antisym prefix_of_length [OF assms(2)])
  moreover have "snd_una s \<le> length got \<Longrightarrow> snd_una s \<le> length got'" using assms(3) by simp
  ultimately show ?thesis using assms(1,2) unfolding xinv_def xcore_def by blast
qed

lemma xinv_deliver:
  assumes x: "xinv e body s0 s got" and l: "length body \<le> TCP_SND_BUF"
    and f: "(v, f) \<in> set (drop (length (tx_log s0)) (tx_log s))"
  shows "xinv e body s0 s (peer_rx (my_seq s0) f got)"
proof -
  obtain fs where fs: "tx_log s = tx_log s0 @ fs" "\<forall>x \<in> set fs. slice_of (my_seq s0) body (snd x)"
    using x unfolding xinv_def xcore_def by blast
  have "slice_of (my_seq s0) body f" using fs f by fastforce
  moreover have "prefix_of body got" using x by (simp add: xinv_def xcore_def)
  ultimately have p: "prefix_of body (peer_rx (my_seq s0) f got)" using l by (intro peer_rx_prefix) (simp_all add: TCP_SND_BUF_def)
  show ?thesis by (rule xinv_more [OF x p peer_rx_grows])
qed

lemma seq_eq_iff:
  assumes "a < 4294967296" "b < 4294967296"
  shows "(q :: u64) + of_nat a = q + of_nat b \<longleftrightarrow> a = b"
proof
  assume "q + of_nat a = q + of_nat b"
  then have "unat (of_nat a :: u64) = unat (of_nat b :: u64)" by simp
  then show "a = b" using assms by (simp add: unat_of_nat take_bit_nat_eq_self)
qed simp

lemma take_bit_seq:
  assumes "unat (q :: u64) + a < 4294967296"
  shows "take_bit 32 (q + of_nat a) = q + of_nat a"
proof -
  have "unat (of_nat a :: u64) = a" using assms by (simp add: unat_of_nat take_bit_nat_eq_self)
  then have "unat (q + of_nat a) < 2 ^ 32" using assms by (subst unat_add64) simp_all
  then have "unat (take_bit 32 (q + of_nat a)) = unat (q + of_nat a)"
    by (simp only: unsigned_take_bit_eq take_bit_nat_eq_self)
  then show ?thesis by (simp only: word_unat_eq_iff)
qed

text \<open>The acknowledgement of the peer reaching an open connection.\<close>

definition acked_to :: "nat \<Rightarrow> u64 \<Rightarrow> u16 \<Rightarrow> tcp_env \<Rightarrow> tcp \<Rightarrow> tcp" where
  "acked_to a t win e s =
     (let s = s\<lparr>now_calls := now_calls s + 1, last_ms := t, peer_win := win, g_ack_calls := g_ack_calls s + 1\<rparr>
      in if a \<le> snd_len s \<and> a > snd_una s then s\<lparr>snd_una := a, snd_retries := 0\<rparr> else s)"

lemma on_ack_eq:
  assumes "unat (snd_seq0 s) + a < 4294967296" "0 < snd_len s" "snd_len s \<le> TCP_SND_BUF"
  shows "tcp_on_ack e (take_bit 32 (snd_seq0 s + of_nat a)) (s\<lparr>now_calls := now_calls s + 1, last_ms := t, peer_win := win\<rparr>) =
    tcp_pump e (acked_to a t win e s)"
proof -
  have a: "unat (of_nat a :: u64) = a" using assms(1) by (simp add: unat_of_nat take_bit_nat_eq_self)
  have "unat (of_nat (snd_len s) :: u64) = snd_len s"
    using assms(3) by (simp add: unat_of_nat take_bit_nat_eq_self TCP_SND_BUF_def)
  with a have "(of_nat a :: u64) \<le> of_nat (snd_len s) \<longleftrightarrow> a \<le> snd_len s" by (simp only: word_le_nat_alt)
  then show ?thesis
    using assms(2) a unfolding take_bit_seq [OF assms(1)] by (simp add: tcp_on_ack_def acked_to_def Let_def)
qed

lemma has_ack_only [simp]:
  "has (TCP_FLAG_ACK AND 0x3F) TCP_FLAG_ACK" "\<not> has (TCP_FLAG_ACK AND 0x3F) TCP_FLAG_SYN"
  "\<not> has (TCP_FLAG_ACK AND 0x3F) TCP_FLAG_RST" "\<not> has (TCP_FLAG_ACK AND 0x3F) TCP_FLAG_FIN"
  by (simp_all add: has_def TCP_FLAG_ACK_def TCP_FLAG_SYN_def TCP_FLAG_RST_def TCP_FLAG_FIN_def)

text \<open>What a pure acknowledgement does to the connection once the window has moved.\<close>

definition after_ack :: "tcp_env \<Rightarrow> u64 \<Rightarrow> tcp \<Rightarrow> tcp" where
  "after_ack e ack s =
     (if c_state s = TCP_FIN_WAIT_1 \<and> (fin_acked s \<or> ack = my_seq s)
      then say (''tcp: closed (back to LISTEN)'' @ newline) (s\<lparr>fin_acked := True, c_state := TCP_LISTEN\<rparr>) else s)"

lemma receive_ack:
  assumes "r_flags g = TCP_FLAG_ACK AND 0x3F" "r_data g = []" "r_sport g = peer_port s" "r_ip g = peer_ip s"
    and "c_state s \<in> {TCP_ESTABLISHED, TCP_FIN_WAIT_1, TCP_LISTEN}" "\<not> peer_fin s"
    and "c_state s = TCP_FIN_WAIT_1 \<longrightarrow> \<not> fin_acked s"
    and "s1 = s\<lparr>now_calls := now_calls s + 1, last_ms := e_now e (now_calls s), peer_win := r_win g\<rparr>"
    and "s2 = (if snd_len s > 0 then tcp_on_ack e (r_ack g) s1 else s1)"
    and "c_state s2 \<in> {TCP_ESTABLISHED, TCP_FIN_WAIT_1, TCP_LISTEN}" "peer_port s2 = peer_port s" "peer_ip s2 = peer_ip s"
    and "\<not> fin_acked s2 \<or> c_state s2 = TCP_LISTEN"
  shows "tcp_receive e g s = after_ack e (r_ack g) s2"
proof -
  have "tcp_receive e g s = tcp_dispatch e g s2"
    using assms(1,8,9) by (simp add: tcp_receive_def now_ms_def Let_def)
  then show ?thesis
    using assms(1-4,10-13)
    by (auto simp: tcp_dispatch_def tcp_open_def tcp_established_def tcp_fin_wait_def after_ack_def Let_def)
qed

lemma xinv_after_ack:
  assumes x: "xinv e body s0 s got"
    and closes: "driver_ok e \<Longrightarrow> c_state s = TCP_FIN_WAIT_1 \<Longrightarrow> ack = my_seq s \<Longrightarrow> snd_len s \<noteq> 0 \<Longrightarrow> got = body"
  shows "xinv e body s0 (after_ack e ack s) got"
proof (cases "c_state s = TCP_FIN_WAIT_1 \<and> (fin_acked s \<or> ack = my_seq s)")
  case True
  let ?s = "say (''tcp: closed (back to LISTEN)'' @ newline) (s\<lparr>fin_acked := True, c_state := TCP_LISTEN\<rparr>)"
  have eq: "after_ack e ack s = ?s" using True by (simp add: after_ack_def)
  have "addr_ok e ?s = addr_ok e s" by (rule addr_ok_cong) (simp_all add: say_def)
  moreover have "\<not> fin_acked s" using x True by (auto simp: xinv_def xcore_def)
  ultimately show ?thesis unfolding eq using x True closes by (auto simp: xinv_def xcore_def in_window_def say_def)
qed (use x in \<open>auto simp: after_ack_def\<close>)

lemma pumped_close:
  assumes p: "pumped e t t'" and l: "snd_len t = length body" "body \<noteq> []" "length body \<le> TCP_SND_BUF" and g: "prefix_of body got"
    and a: "a \<le> length got \<or> a = length body + 1 \<and> got = body" "a \<le> length body \<Longrightarrow> a \<le> snd_una t"
    and d: "driver_ok e" "snd_seq0 t + of_nat a = my_seq t'"
  shows "got = body"
proof -
  have n: "snd_nxt t' \<le> length body" using p l(1) by (simp add: pumped_def)
  have b: "length body \<le> 16384" using l(3) by (simp add: TCP_SND_BUF_def)
  have la: "length got \<le> length body" "a \<le> length body + 1" using prefix_of_length [OF g] a(1) by auto
  consider (seg) "my_seq t' = snd_seq0 t + of_nat (snd_nxt t')" | (fin) "my_seq t' = snd_seq0 t + of_nat (length body + 1)"
    using p l by (auto simp: pumped_def ac_simps)
  then show ?thesis
  proof cases
    case seg
    then have an: "a = snd_nxt t'" using d(2) la b n seq_eq_iff [of a "snd_nxt t'" "snd_seq0 t"] by simp
    then have "a \<le> snd_una t" using a(2) n by simp
    then have "a = length body" using p d(1) l(1) an by (auto simp: pumped_def TCP_MSS_def)
    then show ?thesis using a(1) la g by (auto intro: prefix_of_full)
  next
    case fin
    then have "a = length body + 1" using d(2) la b seq_eq_iff [of a "length body + 1" "snd_seq0 t"] by simp
    then show ?thesis using a(1) la by simp
  qed
qed

lemma xinv_cong:
  assumes "xinv e body s0 s got" "conn_kept (s\<lparr>last_ms := lm, peer_win := pw\<rparr>) s'" "c_state s' = c_state s"
    "snd_nxt s' = snd_nxt s" "tx_log s' = tx_log s" "snd_fin_pending s' = snd_fin_pending s"
  shows "xinv e body s0 s' got"
  using assms addr_ok_cong [of s' s e] by (simp add: xinv_def xcore_def in_window_def conn_kept_def)

lemma xinv_ack:
  assumes x: "xinv e body s0 s got" and c: "can_send e body s0"
    and a: "a \<le> length got \<or> a = length body + 1 \<and> got = body"
    and m: "length macs = 12" "length dip = 4" "dip = t_my_ip s \<or> via \<and> dip = e_wifi_ip e"
    and h: "tcp_handle_packet_via e (peer_frame macs (peer_ip s) dip (peer_port s) (g_listen_port s) seq
      (my_seq s0 + of_nat a) TCP_FLAG_ACK win []) via s = Some (r, s')"
  shows "xinv e body s0 s' got"
    and "snd_una s < a \<Longrightarrow> a \<le> length body \<Longrightarrow> snd_len s > 0 \<Longrightarrow> c_state s \<noteq> TCP_LISTEN \<Longrightarrow>
      snd_una s' = a \<and> snd_retries s' = 0 \<and> snd_len s' = snd_len s \<and> g_reaped s' = g_reaped s"
proof -
  define n where "n = noted via (peer_ip s) (peer_port s) s"
  define g where "g = \<lparr>r_mac = drop 6 macs, r_ip = peer_ip s, r_sport = peer_port s, r_seq = take_bit 32 seq,
       r_ack = take_bit 32 (my_seq s0 + of_nat a), r_flags = TCP_FLAG_ACK AND 0x3F, r_win = win, r_data = []\<rparr>"
  have ip: "length (peer_ip s) = 4" using x by (simp add: xinv_def xcore_def addr_ok_def)
  have s': "s' = tcp_receive e g n"
    using h handle_peer_frame [OF m(1) ip m(2) _ m(3), of "[]" "peer_port s" seq "my_seq s0 + of_nat a" TCP_FLAG_ACK win]
    by (simp add: n_def g_def)
  have xn: "xinv e body s0 n got" by (rule xinv_cong [OF x, where lm = "last_ms s" and pw = "peer_win s"]) (simp_all add: n_def noted_def conn_kept_def)
  have nf: "peer_ip n = peer_ip s" "peer_port n = peer_port s" by (simp_all add: n_def noted_def)
  define s1 where "s1 = n\<lparr>now_calls := now_calls n + 1, last_ms := e_now e (now_calls n), peer_win := win\<rparr>"
  have x1: "xinv e body s0 s1 got" by (rule xinv_cong [OF xn, where lm = "e_now e (now_calls n)" and pw = win]) (simp_all add: s1_def conn_kept_def)
  define s2 where "s2 = (if snd_len n > 0 then tcp_on_ack e (r_ack g) s1 else s1)"
  have st: "c_state n \<in> {TCP_ESTABLISHED, TCP_FIN_WAIT_1, TCP_LISTEN}" "\<not> peer_fin n" "snd_seq0 n = my_seq s0"
    "c_state n = TCP_FIN_WAIT_1 \<longrightarrow> \<not> fin_acked n" "prefix_of body got"
    using xn by (auto simp: xinv_def xcore_def)
  have lb: "length body \<le> TCP_SND_BUF" "body \<noteq> []" "length got \<le> length body"
    using c prefix_of_length [OF st(5)] by (simp_all add: can_send_def)
  have sm: "unat (my_seq s0) + a < 4294967296" using c a lb(3) by (auto simp: can_send_def)
  have ack: "r_ack g = my_seq s0 + of_nat a" by (simp add: g_def take_bit_seq [OF sm])
  have main: "xinv e body s0 s2 got \<and> peer_port s2 = peer_port s \<and> peer_ip s2 = peer_ip s \<and>
     (driver_ok e \<longrightarrow> c_state s2 = TCP_FIN_WAIT_1 \<longrightarrow> r_ack g = my_seq s2 \<longrightarrow> snd_len s2 \<noteq> 0 \<longrightarrow> got = body) \<and>
     (snd_una n < a \<longrightarrow> a \<le> length body \<longrightarrow> snd_len n > 0 \<longrightarrow> c_state n \<noteq> TCP_LISTEN \<longrightarrow>
        snd_una s2 = a \<and> snd_retries s2 = 0 \<and> snd_len s2 = snd_len n \<and> g_reaped s2 = g_reaped n)"
  proof (cases "snd_len n > 0")
    case False
    then show ?thesis using x1 by (simp add: s2_def s1_def nf)
  next
    case True
    then have len: "snd_len n = length body" "snd_una n \<le> length got" "snd_nxt n \<le> snd_len n"
      using xn by (auto simp: xinv_def in_window_def)
    define t where "t = acked_to a (e_now e (now_calls n)) win e n"
    have eq: "s2 = tcp_pump e t"
      using True on_ack_eq [of n a e win "e_now e (now_calls n)"] sm st(3) len(1) lb(1)
      by (simp add: s2_def s1_def g_def t_def)
    have u: "snd_una t \<le> length got" "a \<le> length body \<Longrightarrow> a \<le> snd_una t"
      using a len lb(3) by (auto simp: t_def acked_to_def Let_def)
    have tf: "c_state t = c_state n" "tx_log t = tx_log n" "snd_nxt t = snd_nxt n" "snd_len t = snd_len n" "snd_seq0 t = snd_seq0 n"
      "peer_port t = peer_port n" "peer_ip t = peer_ip n" "snd_arr t = snd_arr n" "peer_fin t = peer_fin n" "fin_acked t = fin_acked n"
      "g_reaped t = g_reaped n" "snd_fin_pending t = snd_fin_pending n"
      by (simp_all add: t_def acked_to_def Let_def)
    have at: "addr_ok e t" using xn addr_ok_cong [of t n e] by (simp add: t_def acked_to_def Let_def xinv_def xcore_def)
    show ?thesis
    proof (cases "c_state n = TCP_LISTEN")
      case True
      have pt: "tcp_pump e t = t\<lparr>g_pump_calls := g_pump_calls t + 1\<rparr>" using True tf by (simp add: tcp_pump_def)
      have "addr_ok e (t\<lparr>g_pump_calls := g_pump_calls t + 1\<rparr>)"
        using at addr_ok_cong [of "t\<lparr>g_pump_calls := g_pump_calls t + 1\<rparr>" t e] by simp
      then show ?thesis
        unfolding eq pt using xn True tf u nf len by (auto simp: xinv_def xcore_def in_window_def)
    next
      case False
      have p: "pumped e t (tcp_pump e t)" using False st(1) tf len lb by (intro tcp_pump_spec at) auto
      have k: "conn_kept (n\<lparr>snd_una := snd_una t, snd_retries := snd_retries t, last_ms := last_ms t, peer_win := peer_win t\<rparr>) t"
        by (simp add: conn_kept_def t_def acked_to_def Let_def)
      have "xcore e body s0 n got" using xn by (simp add: xinv_def)
      then have "xinv e body s0 (tcp_pump e t) got"
        using tf len lb u False by (intro xinv_pumped [OF _ k _ _ _ _ _ _ _ p]) simp_all
      moreover have "got = body" if "driver_ok e" "r_ack g = my_seq (tcp_pump e t)"
        using that ack tf st(3,5) len lb u by (intro pumped_close [OF p _ _ _ _ a]) simp_all
      moreover have "snd_una t = a \<and> snd_retries t = 0" if "snd_una n < a" "a \<le> length body"
        using that len by (simp add: t_def acked_to_def)
      ultimately show ?thesis unfolding eq using p tf nf by (auto simp: pumped_def conn_kept_def)
    qed
  qed
  then have "c_state s2 \<in> {TCP_ESTABLISHED, TCP_FIN_WAIT_1, TCP_LISTEN}" "\<not> fin_acked s2 \<or> c_state s2 = TCP_LISTEN"
    by (auto simp: xinv_def xcore_def)
  then have r: "s' = after_ack e (r_ack g) s2"
    unfolding s' using st main by (intro receive_ack [of g n s1 e s2]) (simp_all add: g_def nf s1_def s2_def)
  then show "xinv e body s0 s' got" using main xinv_after_ack by blast
  have "snd_una s' = snd_una s2" "snd_retries s' = snd_retries s2" "snd_len s' = snd_len s2" "g_reaped s' = g_reaped s2"
    by (simp_all add: r after_ack_def say_def)
  moreover have "snd_una n = snd_una s" "snd_len n = snd_len s" "c_state n = c_state s" "g_reaped n = g_reaped s"
    by (simp_all add: n_def noted_def)
  ultimately show "snd_una s < a \<Longrightarrow> a \<le> length body \<Longrightarrow> snd_len s > 0 \<Longrightarrow> c_state s \<noteq> TCP_LISTEN \<Longrightarrow>
      snd_una s' = a \<and> snd_retries s' = 0 \<and> snd_len s' = snd_len s \<and> g_reaped s' = g_reaped s" using main by simp
qed

lemma transfer_invariant:
  assumes "transfer e body s0 s got" "can_send e body s0"
  shows "xinv e body s0 s got"
  using assms
proof (induction rule: transfer.induct)
  case start
  then show ?case by (rule xinv_start)
next
  case (ack s got a macs dip via seq win r s')
  then show ?case by (blast intro: xinv_ack(1))
qed (auto intro: xinv_tick xinv_reap xinv_deliver simp: can_send_def)


section \<open>Progress\<close>

text \<open>A round in which the network works: the timer fires, the frames it sends arrive in order, and the
  acknowledgement of the peer arrives.\<close>

definition good_round :: "tcp_env \<Rightarrow> u64 \<Rightarrow> bytes \<Rightarrow> u16 \<Rightarrow> tcp \<times> bytes \<Rightarrow> tcp \<times> bytes" where
  "good_round e q macs win = (\<lambda>(s, got).
     let s1 = tcp_retransmit_tick e s;
         got1 = fold (\<lambda>x. peer_rx q (snd x)) (drop (length (tx_log s)) (tx_log s1)) got
     in case tcp_handle_packet_via e (peer_frame macs (peer_ip s1) (src_ip e s1) (peer_port s1) (g_listen_port s1) 0
               (q + of_nat (length got1)) TCP_FLAG_ACK win []) (c_via s1) s1 of
          Some (_, s2) \<Rightarrow> (s2, got1)
        | None \<Rightarrow> (s1, got1))"

definition timer_expired :: "tcp_env \<Rightarrow> tcp \<Rightarrow> bool" where
  "timer_expired e s \<longleftrightarrow> snd_last_tx_ms s \<noteq> 0 \<and> snd_last_tx_ms s \<le> e_now e (now_calls s) \<and>
     TCP_RTO_MS \<le> e_now e (now_calls s) - snd_last_tx_ms s"

definition progress :: "tcp_env \<Rightarrow> bytes \<Rightarrow> tcp \<Rightarrow> nat \<Rightarrow> tcp \<Rightarrow> bytes \<Rightarrow> bool" where
  "progress e body s0 k s got \<longleftrightarrow> xinv e body s0 s got \<and>
     (got = body \<or> c_state s \<noteq> TCP_LISTEN \<and> snd_len s = length body \<and> snd_retries s < TCP_MAX_RETRIES \<and> k \<le> snd_una s)"

lemma slices_in_log:
  assumes "xinv e body s0 s got" "length (tx_log s0) \<le> m"
  shows "\<forall>x \<in> set (drop m (tx_log s)). slice_of (my_seq s0) body (snd x)"
proof -
  obtain fs where fs: "tx_log s = tx_log s0 @ fs" "\<forall>x \<in> set fs. slice_of (my_seq s0) body (snd x)"
    using assms(1) unfolding xinv_def xcore_def by blast
  then have "drop m (tx_log s) = drop (m - length (tx_log s0)) fs" using assms(2) by simp
  then show ?thesis using fs(2) in_set_dropD by fastforce
qed

lemma log_grows: "xinv e body s0 s got \<Longrightarrow> length (tx_log s0) \<le> length (tx_log s)"
  unfolding xinv_def xcore_def by auto

lemma tick_fires:
  assumes x: "xinv e body s0 s got" and l: "length body \<le> TCP_SND_BUF" and t: "timer_expired e s"
    and n: "c_state s \<noteq> TCP_LISTEN" "snd_len s = length body" "snd_retries s < TCP_MAX_RETRIES" "snd_una s < length body"
  shows "\<exists>s'. pumped e s' (tcp_retransmit_tick e s) \<and> tx_log s' = tx_log s \<and> snd_nxt s' = snd_una s \<and> snd_una s' = snd_una s \<and>
     snd_len s' = snd_len s \<and> snd_seq0 s' = my_seq s0 \<and> response s' = body \<and> \<not> peer_fin s' \<and> c_state s' = c_state s"
proof -
  let ?t = "s\<lparr>g_tick_calls := g_tick_calls s + 1, now_calls := now_calls s + 1, snd_retries := snd_retries s + 1,
     snd_nxt := snd_una s, g_retrans := g_retrans s + 1\<rparr>"
  have c: "xcore e body s0 s got" and st: "c_state s = TCP_ESTABLISHED \<or> c_state s = TCP_FIN_WAIT_1"
    using x n(1) by (auto simp: xinv_def xcore_def)
  have eq: "tcp_retransmit_tick e s = tcp_pump e ?t"
    using t n st by (auto simp: tcp_retransmit_tick_def now_ms_def timer_expired_def Let_def)
  have a: "addr_ok e ?t" using c addr_ok_cong [of ?t s e] by (simp add: xcore_def)
  have p: "pumped e ?t (tcp_pump e ?t)" using n l st by (intro tcp_pump_spec a) auto
  have "response ?t = body" using c n(2) by (intro response_body) (simp_all add: xcore_def)
  then show ?thesis using p c eq by (intro exI [of _ ?t]) (simp add: xcore_def)
qed

lemma round_progress:
  assumes pr: "progress e body s0 k s got" and c: "can_send e body s0" and d: "driver_ok e" and m: "length macs = 12"
    and t: "timer_expired e s" and r: "good_round e (my_seq s0) macs win (s, got) = (s', got')"
  shows "progress e body s0 (k + TCP_MSS) s' got'"
proof -
  define s1 where "s1 = tcp_retransmit_tick e s"
  have l: "length body \<le> TCP_SND_BUF" and b: "body \<noteq> []" using c by (simp_all add: can_send_def)
  have x: "xinv e body s0 s got" using pr by (simp add: progress_def)
  have x1: "xinv e body s0 s1 got" unfolding s1_def by (rule xinv_tick [OF x l])
  define fs where "fs = drop (length (tx_log s)) (tx_log s1)"
  define got1 where "got1 = fold (\<lambda>x. peer_rx (my_seq s0) (snd x)) fs got"
  have p1: "prefix_of body got1"
    unfolding got1_def fs_def using slices_in_log [OF x1 log_grows [OF x]] l x
    by (intro fold_peer_rx_prefix) (simp_all add: TCP_SND_BUF_def xinv_def xcore_def)
  have g1: "length got \<le> length got1" unfolding got1_def by (rule fold_peer_rx_grows)
  have x1': "xinv e body s0 s1 got1" by (rule xinv_more [OF x1 p1 g1])
  have ok: "length (peer_ip s1) = 4" "length (src_ip e s1) = 4" using x1 by (simp_all add: xinv_def xcore_def addr_ok_def)
  have dip: "src_ip e s1 = t_my_ip s1 \<or> c_via s1 \<and> src_ip e s1 = e_wifi_ip e" by (simp add: src_ip_def)
  obtain s2 where h: "tcp_handle_packet_via e (peer_frame macs (peer_ip s1) (src_ip e s1) (peer_port s1) (g_listen_port s1) 0
      (my_seq s0 + of_nat (length got1)) TCP_FLAG_ACK win []) (c_via s1) s1 = Some (1, s2)"
    using handle_peer_frame [OF m ok _ dip, of "[]" "peer_port s1" 0 "my_seq s0 + of_nat (length got1)" TCP_FLAG_ACK win] by simp
  have eqs: "s' = s2" "got' = got1"
    using r h by (simp_all add: good_round_def s1_def [symmetric] fs_def [symmetric] got1_def [symmetric])
  note A = xinv_ack [OF x1' c disjI1 [OF order.refl] m ok(2) dip h]
  show ?thesis
  proof (cases "got1 = body")
    case True
    then show ?thesis using A(1) by (simp add: progress_def eqs)
  next
    case False
    have gl: "length got1 < length body"
      using False prefix_of_length [OF p1] prefix_of_full [OF p1] by linarith
    then have ng: "got \<noteq> body" using g1 by auto
    have n: "c_state s \<noteq> TCP_LISTEN" "snd_len s = length body" "snd_retries s < TCP_MAX_RETRIES" "k \<le> snd_una s"
      using pr ng by (auto simp: progress_def)
    have u: "snd_una s \<le> length got" using x n(2) b by (auto simp: xinv_def)
    then have "snd_una s < length body" using g1 gl by simp
    from tick_fires [OF x l t n(1-3) this] obtain s'' where
      f: "pumped e s'' s1" "tx_log s'' = tx_log s" "snd_nxt s'' = snd_una s" "snd_una s'' = snd_una s" "snd_len s'' = snd_len s"
      "snd_seq0 s'' = my_seq s0" "response s'' = body" "\<not> peer_fin s''" "c_state s'' = c_state s"
      unfolding s1_def by blast
    obtain fs' where fs': "flight s'' s1 fs'" using f(1) by (auto simp: pumped_def)
    then have "fs' = fs" using f(2) by (simp add: flight_def fs_def)
    then have "snd_nxt s1 \<le> length got1"
      using fs' f u x unfolding flight_def got1_def by (simp add: xinv_def xcore_def)
    then have w: "snd_una s + TCP_MSS \<le> length got1"
      using f(1,4,5) d gl n(2) by (auto simp: pumped_def)
    have st1: "c_state s1 \<noteq> TCP_LISTEN" "snd_una s1 = snd_una s" "snd_len s1 = length body"
      using f n by (auto simp: pumped_def conn_kept_def)
    have B: "snd_una s2 = length got1 \<and> snd_retries s2 = 0 \<and> snd_len s2 = snd_len s1 \<and> g_reaped s2 = g_reaped s1"
      using w st1 gl b by (intro A(2)) (auto simp: TCP_MSS_def)
    have "g_reaped s1 = g_reaped s0" using x1 st1(1) by (simp add: xinv_def xcore_def)
    then have "c_state s2 \<noteq> TCP_LISTEN" using A(1) B d False st1(3) b by (auto simp: xinv_def)
    then show ?thesis using A(1) B st1 w n(4) by (simp add: progress_def eqs TCP_MAX_RETRIES_def)
  qed
qed

lemma rounds_progress:
  assumes "progress e body s0 0 s got" "can_send e body s0" "driver_ok e" "length macs = 12"
    and "\<forall>i < n. timer_expired e (fst ((good_round e (my_seq s0) macs win ^^ i) (s, got)))"
  shows "progress e body s0 (n * TCP_MSS) (fst ((good_round e (my_seq s0) macs win ^^ n) (s, got)))
     (snd ((good_round e (my_seq s0) macs win ^^ n) (s, got)))"
  using assms(5)
proof (induction n)
  case 0
  show ?case using assms(1) by simp
next
  case (Suc n)
  let ?p = "(good_round e (my_seq s0) macs win ^^ n) (s, got)"
  have "progress e body s0 (n * TCP_MSS) (fst ?p) (snd ?p)" "timer_expired e (fst ?p)" using Suc by simp_all
  from round_progress [OF this(1) assms(2-4) this(2), of win]
  show ?case by (simp add: add.commute)
qed


text \<open>A response of at most one segment leaves in one flight: the data, then the FIN.\<close>

lemma pump_fin_sends:
  assumes "driver_ok e" "snd_fin_pending u" "snd_len u \<le> snd_nxt u" "\<not> peer_fin u"
  shows "\<exists>g. pump_fin e u = u\<lparr>my_seq := snd_seq0 u + of_nat (snd_len u) + 1, snd_fin_pending := False,
     c_state := TCP_FIN_WAIT_1, now_calls := now_calls u + 1, snd_last_tx_ms := e_now e (now_calls u),
     tx_log := tx_log u @ [(c_via u, g)]\<rparr>"
  using assms by (intro exI [of _ "tcp_frame e (TCP_FLAG_FIN OR TCP_FLAG_ACK) [] (u\<lparr>my_seq := snd_seq0 u + of_nat (snd_len u)\<rparr>)"])
    (simp add: pump_fin_def tcp_send_def now_ms_def driver_ok_def Let_def)

lemma short_response:
  assumes c: "can_send e body s0" and d: "driver_ok e" and l: "length body \<le> TCP_MSS"
  defines "s \<equiv> tcp_send_response e body s0"
  shows "c_state s = TCP_FIN_WAIT_1" "snd_len s = length body" "snd_retries s = 0" "now_calls s = now_calls s0 + 3"
    "snd_last_tx_ms s = e_now e (now_calls s0 + 2)" "snd_una s = 0" "snd_nxt s = length body" "\<not> fin_acked s \<and> \<not> snd_fin_pending s"
    "my_seq s = my_seq s0 + of_nat (length body) + 1" "snd_seq0 s = my_seq s0" "conn_kept (s0\<lparr>snd_arr := snd_arr s, snd_len := snd_len s,
       snd_una := 0, snd_seq0 := my_seq s0, snd_retries := 0\<rparr>) s"
    "\<exists>f g. tx_log s = tx_log s0 @ [(c_via s0, f), (c_via s0, g)] \<and> frame_seq f = take_bit 32 (my_seq s0) \<and> frame_payload f = body"
proof -
  define t where "t = s0\<lparr>snd_arr := (\<lambda>i. if i < length body then body ! i else snd_arr s0 i), snd_len := length body,
     snd_una := 0, snd_nxt := 0, snd_seq0 := my_seq s0, snd_retries := 0, snd_fin_pending := True,
     now_calls := now_calls s0 + 1, snd_last_tx_ms := e_now e (now_calls s0), g_pump_calls := g_pump_calls s0 + 1\<rparr>"
  have b: "0 < length body" "c_state s0 = TCP_ESTABLISHED" "\<not> peer_fin s0" "\<not> fin_acked s0" "length body \<le> TCP_SND_BUF"
    using c by (auto simp: can_send_def)
  have w: "\<not> window_full (pump_limit t) t" using b pump_limit_mss [of t] by (simp add: window_full_def t_def TCP_MSS_def)
  have w': "window_full (pump_limit t) (moved_on e t)" using l kept_sent(2) [of t e] by (simp add: window_full_def t_def conn_kept_def)
  have L: "pump_loop e (pump_limit t) t = moved_on e t"
  proof -
    have "\<not> e_tx e (length (tx_log t)) (c_via t) (snd (last (tx_log (sent_one e t)))) < 0"
      using d by (simp add: driver_ok_def not_less)
    then show ?thesis using w by (simp add: pump_loop_step pump_loop_stop [OF w'])
  qed
  have s: "s = pump_fin e ((moved_on e t)\<lparr>my_seq := my_seq s0 + of_nat (length body)\<rparr>)"
    using b l L unfolding s_def tcp_send_response_def tcp_pump_def
    by (simp add: now_ms_def t_def [symmetric] Let_def) (simp add: t_def moved_on_def sent_one_def Let_def)
  let ?u = "(moved_on e t)\<lparr>my_seq := my_seq s0 + of_nat (length body)\<rparr>"
  have u: "snd_len ?u = length body" "snd_nxt ?u = length body" "\<not> peer_fin ?u" "snd_fin_pending ?u" "snd_seq0 ?u = my_seq s0"
    "now_calls ?u = now_calls s0 + 2" "c_via ?u = c_via s0" "tx_log ?u = tx_log (sent_one e t)"
    using b l by (simp_all add: t_def moved_on_def sent_one_def Let_def)
  obtain g where "pump_fin e ?u = ?u\<lparr>my_seq := my_seq s0 + of_nat (length body) + 1, snd_fin_pending := False,
     c_state := TCP_FIN_WAIT_1, now_calls := now_calls s0 + 2 + 1, snd_last_tx_ms := e_now e (now_calls s0 + 2),
     tx_log := tx_log (sent_one e t) @ [(c_via s0, g)]\<rparr>"
    using pump_fin_sends [OF d u(4) _ u(3)] unfolding u by auto
  then have s': "s = (moved_on e t)\<lparr>my_seq := my_seq s0 + of_nat (length body) + 1, snd_fin_pending := False,
     c_state := TCP_FIN_WAIT_1, now_calls := now_calls s0 + 3, snd_last_tx_ms := e_now e (now_calls s0 + 2),
     tx_log := tx_log (sent_one e t) @ [(c_via s0, g)]\<rparr>"
    unfolding s by (simp add: numeral_3_eq_3)
  have a: "addr_ok e t" using c addr_ok_cong [of t s0 e] by (simp add: can_send_def t_def)
  have r: "response t = body" by (rule response_body) (simp_all add: t_def)
  have n: "snd_nxt t = 0" "snd_len t = length body" "snd_seq0 t = my_seq s0" "c_via t = c_via s0" "tx_log t = tx_log s0"
    by (simp_all add: t_def)
  from sent_one_log [OF a] obtain f where
    "tx_log (sent_one e t) = tx_log s0 @ [(c_via s0, f)]" "frame_seq f = take_bit 32 (my_seq s0)" "frame_payload f = body"
    using l by (auto simp: r n segm_def)
  then show "\<exists>f g. tx_log s = tx_log s0 @ [(c_via s0, f), (c_via s0, g)] \<and> frame_seq f = take_bit 32 (my_seq s0) \<and> frame_payload f = body"
    by (simp add: s')
  show "c_state s = TCP_FIN_WAIT_1" "snd_len s = length body" "snd_retries s = 0" "now_calls s = now_calls s0 + 3"
    "snd_last_tx_ms s = e_now e (now_calls s0 + 2)" "snd_una s = 0" "snd_nxt s = length body" "\<not> fin_acked s \<and> \<not> snd_fin_pending s"
    "my_seq s = my_seq s0 + of_nat (length body) + 1" "snd_seq0 s = my_seq s0" "conn_kept (s0\<lparr>snd_arr := snd_arr s, snd_len := snd_len s,
       snd_una := 0, snd_seq0 := my_seq s0, snd_retries := 0\<rparr>) s"
    using b l by (simp_all add: s' moved_on_def sent_one_def t_def conn_kept_def Let_def)
qed

section \<open>An example connection\<close>

definition demo_env :: tcp_env where
  "demo_env = \<lparr>e_tx = \<lambda>_ _ _. 0, e_ct = \<lambda>n. of_nat (n + 1), e_hz = 1, e_wifi_mac = [2, 0, 0, 0, 0, 3], e_wifi_ip = [10, 0, 0, 4], e_http = \<lambda>_ _. []\<rparr>"

definition demo_conn :: tcp where
  "demo_conn = \<lparr>c_state = TCP_ESTABLISHED, peer_mac = [2, 0, 0, 0, 0, 1], peer_ip = [192, 168, 3, 1], peer_port = 40000,
     my_seq = 0xDEADBEF0, peer_seq = 7, greeted = False, c_via = False, last_ms = 1, snd_arr = \<lambda>_. 0, snd_len = 0,
     snd_una = 0, snd_nxt = 0, snd_seq0 = 0, snd_last_tx_ms = 0, snd_retries = 0, snd_fin_pending = False, peer_fin = False,
     fin_acked = False, peer_win = 8192, g_req = [], g_rx_via = False, t_my_mac = [2, 0, 0, 0, 0, 2], t_my_ip = [192, 168, 3, 100],
     g_listen_port = 23, g_isn_seed = 0xDEADBFEF, g_tcp_any = 0, g_seg_rx = 0, g_syn_seen = 1, g_synack_sent = 1, g_estab = 1,
     g_txfail = 0, g_retrans = 0, g_reaped = 0, g_pump_calls = 0, g_segs_tx = 0, g_ack_calls = 0, g_tick_calls = 0,
     g_last_ip = [], g_last_port = 0, g_snap = (0, 0, 0, 0, TCP_LISTEN), t_uart = [], tx_log = [], now_calls = 0, http_calls = 0\<rparr>"

definition demo_body :: bytes where "demo_body = [104, 105, 10]"

lemma demo_can_send: "can_send demo_env demo_body demo_conn"
  by (simp add: can_send_def addr_ok_def src_mac_def src_ip_def demo_conn_def demo_body_def TCP_SND_BUF_def)

lemma demo_driver_ok: "driver_ok demo_env"
  by (simp add: driver_ok_def demo_env_def e_now_def)

lemma demo_short: "length demo_body \<le> TCP_MSS" "0 < length demo_body" by (simp_all add: demo_body_def TCP_MSS_def)

lemmas demo_response = short_response [OF demo_can_send demo_driver_ok demo_short(1)]



section \<open>The checksums of a frame\<close>

lemma tcp_fill:
  assumes "length src = 4" "length dst = 4" "length seg \<le> 65535" "even k" "k + 1 < length seg"
    and "seg ! k = 0" "seg ! (k + 1) = 0" and "c = tcp_checksum src dst seg"
  shows "tcp_sum src dst (seg[k := hi8 c, k + 1 := lo8 c]) = 0xFFFF"
proof -
  define W where "W = wsum 256 1 src + wsum 256 1 dst + 6 + length seg + wsum 256 1 seg"
  have sum: "unat (tcp_sum src dst seg') = ones (wsum 256 1 src + wsum 256 1 dst + 6 + length seg' + wsum 256 1 seg')"
    if "length seg' \<le> 65535" for seg'
    using unat_pseudo_sum [OF assms(1,2) that, of 6] by (simp add: tcp_sum_def)
  have s: "unat (tcp_sum src dst seg) = ones W" using sum [OF assms(3)] by (simp add: W_def)
  have c: "unat c = 65535 - ones W"
    using s ones_le [of W] unat_complement [of "tcp_sum src dst seg"] by (simp add: assms(8) tcp_checksum_def)
  obtain q where q: "W = ones W + 65535 * q" using ones_split by blast
  have w: "W + unat c = 65535 * (q + 1)" unfolding c by (rule complement_sum [OF q ones_le])
  have "wsum 256 1 (seg[k := hi8 c, k + 1 := lo8 c]) = wsum 256 1 seg + unat c"
    using wsum_put [OF assms(4-7)] inet.stored [of c] by simp
  then have "unat (tcp_sum src dst (seg[k := hi8 c, k + 1 := lo8 c])) = ones (W + unat c)"
    using sum [of "seg[k := hi8 c, k + 1 := lo8 c]"] assms(3) by (simp add: W_def add.assoc)
  also have "\<dots> = ones (65535 * (q + 1))" by (simp only: w)
  also have "\<dots> = 65535" by (intro ones_full [of _ "q + 1"]) simp_all
  finally show ?thesis by (simp add: u64_eq_iff_unat)
qed

text \<open>C18: Every segment the server builds is a well-formed Ethernet frame of at least 60 bytes: the IP
  header and the TCP segment with its pseudo header both verify under the Internet checksum, the
  addresses, ports and flags are those of the connection, and the sequence number and the payload a receiver
  reads are the ones that were sent.\<close>

theorem tcp_frame_wellformed:
  assumes "addr_ok e s" "length p \<le> 1464" "f = tcp_frame e flags p s"
  shows "length f = max 60 (54 + length p) \<and> ip_checksum (segm f 14 20) = 0 \<and>
    tcp_sum (src_ip e s) (peer_ip s) (segm f 34 (20 + length p)) = 0xFFFF \<and>
    segm f 0 12 = peer_mac s @ src_mac e s \<and> segm f 26 8 = src_ip e s @ peer_ip s \<and>
    segm f 34 4 = [hi8 (g_listen_port s), lo8 (g_listen_port s), hi8 (peer_port s), lo8 (peer_port s)] \<and>
    f ! 47 = flags \<and> frame_seq f = take_bit 32 (my_seq s) \<and> frame_payload f = p"
proof -
  have l: "length (peer_mac s) = 6" "length (src_mac e s) = 6" "length (peer_ip s) = 4" "length (src_ip e s) = 4"
    using assms(1) by (simp_all add: addr_ok_def)
  define ih where "ih = [0x45, 0, hi8 (of_nat (40 + length p)), lo8 (of_nat (40 + length p)), 0, 0, 0, 0, 64, 6, 0, 0] @ src_ip e s @ peer_ip s"
  define th where "th = [hi8 (g_listen_port s), lo8 (g_listen_port s), hi8 (peer_port s), lo8 (peer_port s)] @
               put_be32 (my_seq s) @ put_be32 (peer_seq s) @ [0x50, flags, 0x20, 0, 0, 0, 0, 0] @ p"
  define ci where "ci = ip_checksum ih"
  define ct where "ct = tcp_checksum (src_ip e s) (peer_ip s) th"
  define ih' where "ih' = ih[10 := hi8 ci, 11 := lo8 ci]"
  define th' where "th' = th[16 := hi8 ct, 17 := lo8 ct]"
  have lh: "length ih = 20" "length ih' = 20" "length th = 20 + length p" "length th' = 20 + length p"
    using l by (simp_all add: ih_def ih'_def th_def th'_def)
  have f: "f = (peer_mac s @ src_mac e s) @ [8, 0] @ ih' @ th' @ replicate (6 - length p) 0"
    by (simp add: assms(3) tcp_frame_def ip_header_def tcp_segment_def ih_def th_def ih'_def th'_def ci_def ct_def Let_def)
  have i: "ip_checksum ih' = 0"
    unfolding ih'_def ci_def using inet.fill_verifies [of ih 10] lh by (simp add: ih_def)
  have t: "tcp_sum (src_ip e s) (peer_ip s) th' = 0xFFFF"
    unfolding th'_def using tcp_fill [OF l(4,3), of th 16 ct] lh assms(2) by (simp add: th_def put_be32_def ct_def)
  have "segm f 14 20 = ih'" "segm f 34 (20 + length p) = th'" "segm f 0 12 = peer_mac s @ src_mac e s"
    "segm f 34 4 = segm th' 0 4" "segm f 26 8 = segm ih' 12 8" "f ! 47 = th' ! 13"
    using l lh by (simp_all add: f segm_def nth_append)
  moreover have "segm th' 0 4 = [hi8 (g_listen_port s), lo8 (g_listen_port s), hi8 (peer_port s), lo8 (peer_port s)]"
    "segm ih' 12 8 = src_ip e s @ peer_ip s" "th' ! 13 = flags"
    using l by (simp_all add: th'_def th_def ih'_def ih_def segm_update put_be32_def) (simp_all add: segm_def)
  moreover have "length f = max 60 (54 + length p)" using l lh by (simp add: f max_def)
  ultimately show ?thesis using i t frame_reads [OF assms(1,2), of flags] by (simp add: assms(3))
qed

theorem tcp_frame_wellformed_witness:
  "ip_checksum (segm (tcp_frame demo_env TCP_FLAG_ACK demo_body demo_conn) 14 20) = 0 \<and>
   frame_payload (tcp_frame demo_env TCP_FLAG_ACK demo_body demo_conn) = demo_body"
proof -
  have "addr_ok demo_env demo_conn" using demo_can_send by (simp add: can_send_def)
  moreover have "length demo_body \<le> 1464" by (simp add: demo_body_def)
  ultimately show ?thesis using tcp_frame_wellformed [OF _ _ refl, of demo_env demo_conn demo_body TCP_FLAG_ACK] by blast
qed

end
