(* ===== verification/Tcp_Limits.thy ===== *)
theory Tcp_Limits
  imports Tcp_Stream
begin

text \<open>
  The TCP server under arbitrary input: runs of the receive handler, the retransmission timer and the
  reaper on any frames. The theorems give the bounds of the buffers and three limits of the code, each a
  behaviour that differs from what its comments promise.
\<close>

section \<open>Runs\<close>

datatype tcp_event = Rx bytes bool | Tick | Reap

fun tcp_step :: "tcp_env \<Rightarrow> tcp_event \<Rightarrow> tcp \<Rightarrow> tcp option" where
  "tcp_step e (Rx frame via) s = map_option snd (tcp_handle_packet_via e frame via s)"
| "tcp_step e Tick s = Some (tcp_retransmit_tick e s)"
| "tcp_step e Reap s = Some (tcp_conn_reap e s)"

fun tcp_run :: "tcp_env \<Rightarrow> tcp_event list \<Rightarrow> tcp \<Rightarrow> tcp option" where
  "tcp_run e [] s = Some s"
| "tcp_run e (ev # evs) s = (case tcp_step e ev s of None \<Rightarrow> None | Some s \<Rightarrow> tcp_run e evs s)"

text \<open>What a received frame can do: nothing but note the sender, or deliver a segment whose sequence
  numbers have 32 bits and whose addresses have their lengths.\<close>

definition seg_ok :: "rseg \<Rightarrow> bool" where
  "seg_ok g \<longleftrightarrow> length (r_mac g) = 6 \<and> length (r_ip g) = 4 \<and> unat (r_seq g) < 4294967296 \<and> unat (r_ack g) < 4294967296"

definition same_conn :: "tcp \<Rightarrow> tcp \<Rightarrow> bool" where
  "same_conn s s' \<longleftrightarrow> (\<exists>v n ip p m. s' = s\<lparr>g_rx_via := v, g_tcp_any := n, g_last_ip := ip, g_last_port := p, g_seg_rx := m\<rparr>)"

lemma unat_rd32: "unat (rd32 b) < 4294967296"
proof -
  have "n < 32" if "bit (rd32 b) n" for n
    using that unfolding rd32_def
    by (auto simp: bit_or_iff bit_push_bit_iff bit_ucast_iff dest!: bit_imp_le_length)
  then have "take_bit 32 (rd32 b) = rd32 b" by (intro bit_word_eqI) (auto simp: bit_take_bit_iff)
  then have "unat (rd32 b) = take_bit 32 (unat (rd32 b))" by (metis unsigned_take_bit_eq)
  also have "\<dots> < 2 ^ 32" by (rule take_bit_nat_less_exp)
  finally show ?thesis by simp
qed

lemma rd_seg_length: "rd_seg b i n = Some x \<Longrightarrow> length x = n"
  by (auto simp: rd_seg_def split: if_splits)

lemma tcp_parse_cases:
  assumes "tcp_parse e frame ihl sport s = Some (r, s')"
  shows "s' = s \<or> (\<exists>g. seg_ok g \<and> r_sport g = sport \<and> s' = tcp_receive e g s)"
proof (cases "s' = s")
  case False
  then obtain mac ip seq ack fl w0 w1 data where
    "s' = tcp_receive e \<lparr>r_mac = mac, r_ip = ip, r_sport = sport, r_seq = rd32 seq, r_ack = rd32 ack,
       r_flags = fl AND 0x3F, r_win = be16 w0 w1, r_data = data\<rparr> s"
    "rd_seg frame 6 6 = Some mac" "rd_seg frame 26 4 = Some ip"
    using assms unfolding tcp_parse_def Let_def by (auto simp: bind_eq_Some_conv split: if_splits)
  then show ?thesis
    by (intro disjI2 exI [of _ "\<lparr>r_mac = mac, r_ip = ip, r_sport = sport, r_seq = rd32 seq, r_ack = rd32 ack,
       r_flags = fl AND 0x3F, r_win = be16 w0 w1, r_data = data\<rparr>"]) (simp add: seg_ok_def unat_rd32 rd_seg_length)
qed simp

lemma same_connI: "same_conn s (s\<lparr>g_rx_via := v\<rparr>)"
    "same_conn s (s\<lparr>g_rx_via := v, g_tcp_any := n, g_last_ip := ip, g_last_port := p\<rparr>)"
    "same_conn s (s\<lparr>g_rx_via := v, g_tcp_any := n, g_last_ip := ip, g_last_port := p, g_seg_rx := m\<rparr>)"
  unfolding same_conn_def
  by (rule exI [of _ v], rule exI [of _ "g_tcp_any s"], rule exI [of _ "g_last_ip s"], rule exI [of _ "g_last_port s"],
      rule exI [of _ "g_seg_rx s"], simp)
    (rule exI [of _ v], rule exI [of _ n], rule exI [of _ ip], rule exI [of _ p], rule exI [of _ "g_seg_rx s"], simp, blast)

lemma tcp_handle_cases:
  assumes "tcp_handle_packet_via e frame via s = Some (r, s')"
  shows "\<exists>s1. same_conn s s1 \<and> (s' = s1 \<or> (\<exists>g. seg_ok g \<and> s' = tcp_receive e g s1))"
proof -
  consider (quiet) "same_conn s s'"
    | (seg) ihl sport s1 where "same_conn s s1" "tcp_parse e frame ihl sport s1 = Some (r, s')"
    using assms unfolding tcp_handle_packet_via_def Let_def
    by (auto simp: bind_eq_Some_conv intro: same_connI split: if_splits)
  then show ?thesis by cases (use tcp_parse_cases in blast)+
qed

section \<open>The initial sequence number is never reduced to 32 bits\<close>

definition dead :: "tcp \<Rightarrow> bool" where
  "dead s \<longleftrightarrow> 4294967296 \<le> unat (g_isn_seed s) \<and>
     (c_state s \<in> {TCP_CLOSED, TCP_LISTEN} \<or> c_state s = TCP_SYN_RCVD \<and> 4294967296 \<le> unat (my_seq s))"

definition silent :: "tcp \<Rightarrow> tcp \<Rightarrow> bool" where
  "silent s s' \<longleftrightarrow> c_state s' = c_state s \<and> my_seq s' = my_seq s \<and> g_isn_seed s' = g_isn_seed s \<and> g_estab s' = g_estab s \<and>
     http_calls s' = http_calls s"

lemma silent_trans: "silent s t \<Longrightarrow> silent t u \<Longrightarrow> silent s u" by (simp add: silent_def)

lemma silent_on_ack:
  assumes "c_state s \<notin> {TCP_ESTABLISHED, TCP_FIN_WAIT_1}"
  shows "silent s (tcp_on_ack e a s)"
  using assms by (simp add: silent_def tcp_on_ack_def tcp_pump_def Let_def)

lemma dead_open:
  assumes "dead s" "c_state s \<in> {TCP_CLOSED, TCP_LISTEN}" "unat (g_isn_seed s) + 512 < 18446744073709551616"
  shows "dead (tcp_open e g s) \<and> unat (g_isn_seed (tcp_open e g s)) \<le> unat (g_isn_seed s) + 256 \<and>
    g_estab (tcp_open e g s) = g_estab s \<and> http_calls (tcp_open e g s) = http_calls s"
proof -
  have "unat (g_isn_seed s + 0x100) = unat (g_isn_seed s) + 256" "unat (g_isn_seed s + 1) = unat (g_isn_seed s) + 1"
    using assms(3) by (simp_all add: unat_add64)
  then show ?thesis using assms(1,2)
    by (auto simp: tcp_open_def tcp_send_def say_def dead_def Let_def)
qed

lemma dead_receive:
  assumes "dead s" "seg_ok g" "unat (g_isn_seed s) + 512 < 18446744073709551616"
  shows "dead (tcp_receive e g s) \<and> unat (g_isn_seed (tcp_receive e g s)) \<le> unat (g_isn_seed s) + 256 \<and>
    g_estab (tcp_receive e g s) = g_estab s \<and> http_calls (tcp_receive e g s) = http_calls s"
proof -
  define s1 where "s1 = s\<lparr>now_calls := now_calls s + 1, last_ms := e_now e (now_calls s), peer_win := r_win g\<rparr>"
  define s2 where "s2 = (if has (r_flags g) TCP_FLAG_ACK \<and> snd_len s > 0 then tcp_on_ack e (r_ack g) s1 else s1)"
  have eq: "tcp_receive e g s = tcp_dispatch e g s2"
    by (simp add: tcp_receive_def now_ms_def s1_def s2_def Let_def)
  have "silent s s1" by (simp add: silent_def s1_def)
  moreover have "silent s1 s2" using assms(1) silent_on_ack [of s1] by (auto simp: s2_def s1_def dead_def silent_def)
  ultimately have sl: "silent s s2" by (rule silent_trans)
  then have d: "dead s2" using assms(1) by (simp add: dead_def silent_def)
  show ?thesis
  proof (cases "c_state s2 \<in> {TCP_CLOSED, TCP_LISTEN}")
    case True
    then have "tcp_dispatch e g s2 = tcp_open e g s2" by (auto simp: tcp_dispatch_def)
    then show ?thesis using dead_open [OF d True] assms(3) sl unfolding eq by (simp add: silent_def)
  next
    case False
    have "r_ack g \<noteq> my_seq s2" using d False assms(2) by (auto simp: dead_def seg_ok_def)
    then have "tcp_dispatch e g s2 = s2 \<or> tcp_dispatch e g s2 = s2\<lparr>c_state := TCP_LISTEN\<rparr>"
      using False d by (auto simp: tcp_dispatch_def tcp_syn_rcvd_def dead_def)
    then show ?thesis using d sl unfolding eq by (auto simp: dead_def silent_def)
  qed
qed

lemma dead_step:
  assumes "dead s" "unat (g_isn_seed s) + 512 < 18446744073709551616" "tcp_step e ev s = Some s'"
  shows "dead s' \<and> unat (g_isn_seed s') \<le> unat (g_isn_seed s) + 256 \<and> g_estab s' = g_estab s \<and> http_calls s' = http_calls s"
proof (cases ev)
  case (Rx frame via)
  then obtain r where "tcp_handle_packet_via e frame via s = Some (r, s')" using assms(3) by auto
  from tcp_handle_cases [OF this] obtain s1 where
    s1: "same_conn s s1" "s' = s1 \<or> (\<exists>g. seg_ok g \<and> s' = tcp_receive e g s1)" by blast
  then have "silent s s1" by (auto simp: same_conn_def silent_def)
  then have "dead s1" "g_isn_seed s1 = g_isn_seed s" "g_estab s1 = g_estab s" "http_calls s1 = http_calls s"
    using assms(1) by (auto simp: dead_def silent_def)
  then show ?thesis using s1(2) dead_receive [of s1] assms(2) by auto
next
  case Tick
  then have "silent s s'" using assms(1,3)
    by (auto simp: tcp_retransmit_tick_def silent_def dead_def Let_def)
  then show ?thesis using assms(1) by (simp add: dead_def silent_def)
next
  case Reap
  then show ?thesis using assms(1,3) by (auto simp: tcp_conn_reap_def dead_def now_ms_def Let_def split: if_splits)
qed

text \<open>C38: The initial sequence number of a connection is a 64-bit counter that is compared unreduced
  with the 32-bit acknowledgement number of the peer. Once it has passed \<open>2^32\<close>, which takes 2183746
  connections from its start value, the server is closed for good: whatever frames arrive and whenever
  the timers run, no connection is ever established and no request is ever served, until the counter
  itself wraps at \<open>2^64\<close>.\<close>

theorem tcp_isn_exhaustion:
  assumes "c_state s \<in> {TCP_CLOSED, TCP_LISTEN}" "4294967296 \<le> unat (g_isn_seed s)"
    and "unat (g_isn_seed s) + 256 * length evs + 256 < 18446744073709551616"
    and "tcp_run e evs s = Some s'"
  shows "c_state s' \<in> {TCP_CLOSED, TCP_LISTEN, TCP_SYN_RCVD} \<and> g_estab s' = g_estab s \<and> http_calls s' = http_calls s"
proof -
  have "dead s" using assms(1,2) by (auto simp: dead_def)
  then have "dead s' \<and> g_estab s' = g_estab s \<and> http_calls s' = http_calls s"
    using assms(3,4)
  proof (induction evs arbitrary: s)
    case (Cons ev evs)
    then obtain s1 where s1: "tcp_step e ev s = Some s1" "tcp_run e evs s1 = Some s'" by (auto split: option.splits)
    have b: "unat (g_isn_seed s) + 512 < 18446744073709551616" using Cons.prems(2) by simp
    from dead_step [OF Cons.prems(1) b s1(1)] have "dead s1" "unat (g_isn_seed s1) \<le> unat (g_isn_seed s) + 256"
      "g_estab s1 = g_estab s" "http_calls s1 = http_calls s" by auto
    then show ?case using Cons.IH [of s1] Cons.prems(2) s1(2) by simp
  qed simp
  then show ?thesis by (auto simp: dead_def)
qed

definition late_server :: tcp where
  "late_server = demo_conn\<lparr>c_state := TCP_LISTEN, g_isn_seed := 0x100000000, http_calls := 2183746\<rparr>"

definition client_syn :: bytes where
  "client_syn = peer_frame (replicate 12 2) [192, 168, 3, 1] [192, 168, 3, 100] 40001 23 1000 0 TCP_FLAG_SYN 8192 []"

definition client_ack :: "u64 \<Rightarrow> bytes" where
  "client_ack n = peer_frame (replicate 12 2) [192, 168, 3, 1] [192, 168, 3, 100] 40001 23 1001 n TCP_FLAG_ACK 8192 []"

lemma late_server_syn:
  "\<exists>s1. tcp_handle_packet_via demo_env client_syn False late_server = Some (1, s1) \<and>
     t_my_ip s1 = [192, 168, 3, 100] \<and> g_listen_port s1 = 23"
proof -
  have ip: "t_my_ip late_server = [192, 168, 3, 100]" "g_listen_port late_server = 23" by (simp_all add: late_server_def demo_conn_def)
  show ?thesis
    using handle_peer_frame [where macs = "replicate 12 2" and sip = "[192, 168, 3, 1]" and dip = "[192, 168, 3, 100]" and data = "[]"
      and s = late_server and via = False and e = demo_env and sport = 40001 and seq = 1000 and ack = 0 and flags = TCP_FLAG_SYN and win = 8192]
    by (simp add: ip client_syn_def tcp_receive_def tcp_dispatch_def tcp_open_def tcp_send_def noted_def now_ms_def say_def
        late_server_def demo_conn_def has_def TCP_FLAG_SYN_def TCP_FLAG_ACK_def Let_def)
qed

theorem tcp_isn_exhaustion_witness:
  "\<exists>s'. tcp_run demo_env [Rx client_syn False, Rx (client_ack 0x100000001) False] late_server = Some s' \<and>
     c_state s' \<in> {TCP_CLOSED, TCP_LISTEN, TCP_SYN_RCVD} \<and> http_calls s' = 2183746"
proof -
  obtain s1 where s1: "tcp_handle_packet_via demo_env client_syn False late_server = Some (1, s1)"
    "t_my_ip s1 = [192, 168, 3, 100]" "g_listen_port s1 = 23" using late_server_syn by blast
  obtain s' where "tcp_handle_packet_via demo_env (client_ack 0x100000001) False s1 = Some (1, s')"
    using handle_peer_frame [where macs = "replicate 12 2" and sip = "[192, 168, 3, 1]" and dip = "[192, 168, 3, 100]" and data = "[]"
      and s = s1 and via = False and e = demo_env and sport = 40001 and seq = 1001 and ack = "0x100000001" and flags = TCP_FLAG_ACK and win = 8192]
    by (simp add: s1 client_ack_def)
  with s1 have r: "tcp_run demo_env [Rx client_syn False, Rx (client_ack 0x100000001) False] late_server = Some s'" by simp
  have "c_state s' \<in> {TCP_CLOSED, TCP_LISTEN, TCP_SYN_RCVD} \<and> g_estab s' = g_estab late_server \<and> http_calls s' = http_calls late_server"
    by (rule tcp_isn_exhaustion [OF _ _ _ r]) (simp_all add: late_server_def)
  with r show ?thesis by (simp add: late_server_def)
qed

section \<open>An acknowledgement of the data and the FIN in one segment is not recognised\<close>

definition fin_ack :: "bytes \<Rightarrow> tcp \<Rightarrow> bytes \<Rightarrow> bool" where
  "fin_ack body s0 f \<longleftrightarrow> (\<exists>macs seq flags win. length macs = 12 \<and> flags \<in> {TCP_FLAG_ACK, TCP_FLAG_FIN OR TCP_FLAG_ACK} \<and>
     f = peer_frame macs (peer_ip s0) (t_my_ip s0) (peer_port s0) (g_listen_port s0) seq (my_seq s0 + of_nat (length body + 1)) flags win [])"

definition stuck :: "bytes \<Rightarrow> tcp \<Rightarrow> tcp \<Rightarrow> bool" where
  "stuck body s0 s \<longleftrightarrow> c_state s = TCP_FIN_WAIT_1 \<and> snd_len s = length body \<and> snd_nxt s = length body \<and> snd_seq0 s = my_seq s0 \<and>
     \<not> snd_fin_pending s \<and> \<not> fin_acked s \<and> peer_ip s = peer_ip s0 \<and> t_my_ip s = t_my_ip s0 \<and> peer_port s = peer_port s0 \<and>
     g_listen_port s = g_listen_port s0"

lemma pump_done:
  assumes "c_state s = TCP_FIN_WAIT_1" "snd_nxt s = snd_len s" "\<not> snd_fin_pending s" "0 < snd_len s"
  shows "tcp_pump e s = s\<lparr>g_pump_calls := g_pump_calls s + 1, my_seq := snd_seq0 s + of_nat (snd_len s)\<rparr>"
  using assms by (simp add: tcp_pump_def pump_loop_stop window_full_def pump_fin_def)

lemma stuck_receive:
  assumes st: "stuck body s0 s" and b: "body \<noteq> []" "length body \<le> TCP_SND_BUF" "unat (my_seq s0) + length body + 1 < 4294967296"
    and g: "r_ack g = my_seq s0 + of_nat (length body + 1)" "r_data g = []"
      "has (r_flags g) TCP_FLAG_ACK" "r_sport g = peer_port s0" "r_ip g = peer_ip s0"
  shows "stuck body s0 (tcp_receive e g s)"
proof -
  define s1 where "s1 = acked_to (length body + 1) (e_now e (now_calls s)) (r_win g) e s"
  have a: "take_bit 32 (my_seq s0 + of_nat (length body + 1)) = my_seq s0 + of_nat (length body + 1)"
    using b(3) by (intro take_bit_seq) simp
  have s1: "stuck body s0 s1" "\<not> has (r_flags g) TCP_FLAG_ACK \<or> snd_len s1 = snd_len s"
    using st by (simp_all add: stuck_def s1_def acked_to_def Let_def)
  define s2 where "s2 = tcp_pump e s1"
  have s2: "s2 = s1\<lparr>g_pump_calls := g_pump_calls s1 + 1, my_seq := my_seq s0 + of_nat (length body)\<rparr>"
    using s1(1) b(1) pump_done [of s1 e] by (simp add: s2_def stuck_def)
  have oa: "tcp_on_ack e (r_ack g) (s\<lparr>now_calls := now_calls s + 1, last_ms := e_now e (now_calls s), peer_win := r_win g\<rparr>) = s2"
    using on_ack_eq [of s "length body + 1" e "r_win g" "e_now e (now_calls s)"] st b a g(1) by (simp add: stuck_def s2_def s1_def)
  have "tcp_receive e g s = tcp_dispatch e g s2"
    using oa st b(1) g(3) by (simp add: tcp_receive_def now_ms_def stuck_def)
  also have "\<dots> = tcp_fin_wait e g s2" using s1 g by (simp add: tcp_dispatch_def s2 stuck_def)
  finally have eq: "tcp_receive e g s = tcp_fin_wait e g s2" .
  have "r_ack g \<noteq> my_seq s2"
    unfolding g(1) s2 using b(2) seq_eq_iff [of "length body + 1" "length body" "my_seq s0"] by (simp add: TCP_SND_BUF_def)
  then show ?thesis
    unfolding eq tcp_fin_wait_def using s1(1) by (auto simp: s2 stuck_def tcp_send_def Let_def)
qed

lemma stuck_step:
  assumes st: "stuck body s0 s" and c: "can_send e body s0" and ip: "length (t_my_ip s0) = 4" and f: "fin_ack body s0 f"
  shows "\<exists>s'. tcp_step e (Rx f via) s = Some s' \<and> stuck body s0 s'"
proof -
  obtain macs seq flags win where m: "length macs = 12" "flags \<in> {TCP_FLAG_ACK, TCP_FLAG_FIN OR TCP_FLAG_ACK}"
    "f = peer_frame macs (peer_ip s0) (t_my_ip s0) (peer_port s0) (g_listen_port s) seq (my_seq s0 + of_nat (length body + 1)) flags win []"
    using f st by (auto simp: fin_ack_def stuck_def)
  have q: "take_bit 32 (my_seq s0 + of_nat (length body + 1)) = my_seq s0 + of_nat (length body + 1)"
    using c by (intro take_bit_seq) (simp add: can_send_def)
  have pip: "length (peer_ip s0) = 4" and t: "t_my_ip s0 = t_my_ip s \<or> via \<and> t_my_ip s0 = e_wifi_ip e"
    using c st by (simp_all add: can_send_def addr_ok_def stuck_def)
  have h: "has (flags AND 0x3F) TCP_FLAG_ACK"
    using m(2) by (auto simp: has_def TCP_FLAG_ACK_def TCP_FLAG_FIN_def)
  have n: "stuck body s0 (noted via (peer_ip s0) (peer_port s0) s)" using st by (simp add: stuck_def noted_def)
  show ?thesis
    unfolding m(3) using handle_peer_frame [OF m(1) pip ip _ t, of "[]"] c
    by (simp add: q [simplified]) (rule stuck_receive [OF n], simp_all add: can_send_def h)
qed



section \<open>Anyone can acknowledge\<close>

text \<open>C40: The send window moves before the sender of a segment is compared with the peer of the
  connection. A segment of any other host or port with an acknowledgement number inside the response
  marks its bytes as delivered, and when it covers the whole response behind a sent FIN, the
  retransmission timer sends nothing any more, whatever the real peer is missing.\<close>

theorem tcp_foreign_ack:
  assumes "c_state s = TCP_ESTABLISHED \<or> c_state s = TCP_FIN_WAIT_1" "addr_ok e s" "snd_nxt s \<le> snd_len s" "snd_len s \<le> TCP_SND_BUF"
    and "snd_una s < a" "a \<le> snd_len s" "unat (snd_seq0 s) + a < 4294967296"
    and "length macs = 12" "length sip = 4" "length (t_my_ip s) = 4" "sip \<noteq> peer_ip s \<or> sport \<noteq> peer_port s"
  shows "\<exists>s'. tcp_handle_packet_via e (peer_frame macs sip (t_my_ip s) sport (g_listen_port s) seq (snd_seq0 s + of_nat a)
      TCP_FLAG_ACK win []) via s = Some (1, s') \<and> snd_una s' = a \<and>
     (a = snd_len s \<and> \<not> snd_fin_pending s \<longrightarrow> tx_log (tcp_retransmit_tick e s') = tx_log s')"
proof -
  define n where "n = noted via sip sport s"
  define g where "g = \<lparr>r_mac = drop 6 macs, r_ip = sip, r_sport = sport, r_seq = take_bit 32 seq,
     r_ack = take_bit 32 (snd_seq0 s + of_nat a), r_flags = TCP_FLAG_ACK AND 0x3F, r_win = win, r_data = []\<rparr>"
  define t where "t = acked_to a (e_now e (now_calls n)) win e n"
  have h: "tcp_handle_packet_via e (peer_frame macs sip (t_my_ip s) sport (g_listen_port s) seq (snd_seq0 s + of_nat a)
      TCP_FLAG_ACK win []) via s = Some (1, tcp_receive e g n)"
    using handle_peer_frame [OF assms(8-10), of "[]"] by (simp add: g_def n_def)
  have nf: "snd_seq0 n = snd_seq0 s" "snd_len n = snd_len s" "c_state n = c_state s" "snd_una n = snd_una s" "snd_nxt n = snd_nxt s"
    "peer_ip n = peer_ip s" "peer_port n = peer_port s" "snd_fin_pending n = snd_fin_pending s"
    by (simp_all add: n_def noted_def)
  have tf: "snd_una t = a" "c_state t = c_state s" "snd_nxt t = snd_nxt s" "snd_len t = snd_len s" "peer_ip t = peer_ip s"
    "peer_port t = peer_port s" "snd_fin_pending t = snd_fin_pending s"
    using assms(5,6) nf by (simp_all add: t_def acked_to_def Let_def)
  have at: "addr_ok e t" using assms(2) addr_ok_cong [of t s e] by (simp add: t_def acked_to_def n_def noted_def Let_def)
  have p: "pumped e t (tcp_pump e t)" using assms(1,3,4) tf by (intro tcp_pump_spec at) auto
  have o: "tcp_on_ack e (take_bit 32 (snd_seq0 n + of_nat a))
      (n\<lparr>now_calls := now_calls n + 1, last_ms := e_now e (now_calls n), peer_win := win\<rparr>) = tcp_pump e t"
    unfolding t_def by (rule on_ack_eq) (use nf assms(4-7) in simp_all)
  have "r_ack g = take_bit 32 (snd_seq0 n + of_nat a)" "r_win g = win" "has (r_flags g) TCP_FLAG_ACK" "0 < snd_len n"
    using nf assms(5,6) by (simp_all add: g_def)
  with o have r: "tcp_receive e g n = tcp_dispatch e g (tcp_pump e t)"
    by (simp add: tcp_receive_def now_ms_def)
  have k: "peer_ip (tcp_pump e t) = peer_ip s" "peer_port (tcp_pump e t) = peer_port s" "snd_una (tcp_pump e t) = a" "snd_len (tcp_pump e t) = snd_len s"
    using p tf by (simp_all add: pumped_def conn_kept_def)
  have st: "c_state (tcp_pump e t) \<notin> {TCP_CLOSED, TCP_LISTEN}" "\<not> snd_fin_pending s \<longrightarrow> \<not> snd_fin_pending (tcp_pump e t)"
    using p assms(1) unfolding pumped_def tf by (elim conjE disjE; simp split: if_splits)+
  have "tcp_dispatch e g (tcp_pump e t) = tcp_pump e t" using assms(11) k st by (auto simp: tcp_dispatch_def g_def)
  moreover have "tx_log (tcp_retransmit_tick e (tcp_pump e t)) = tx_log (tcp_pump e t)" if "a = snd_len s" "\<not> snd_fin_pending s"
    using that k st by (simp add: tcp_retransmit_tick_def Let_def)
  ultimately show ?thesis using h r k by auto
qed

theorem tcp_foreign_ack_witness:
  "\<exists>s'. tcp_handle_packet_via demo_env (peer_frame (replicate 12 2) [10, 0, 0, 66] [192, 168, 3, 100] 9 23 0
       (snd_seq0 (tcp_send_response demo_env demo_body demo_conn) + of_nat 3) TCP_FLAG_ACK 0 []) False
       (tcp_send_response demo_env demo_body demo_conn) = Some (1, s') \<and> snd_una s' = 3 \<and>
     tx_log (tcp_retransmit_tick demo_env s') = tx_log s'"
proof -
  let ?s = "tcp_send_response demo_env demo_body demo_conn"
  note R = demo_response
  have k: "peer_ip ?s = [192, 168, 3, 1]" "peer_port ?s = 40000" "t_my_ip ?s = [192, 168, 3, 100]" "g_listen_port ?s = 23"
    using R(11) by (simp_all add: conn_kept_def demo_conn_def)
  have a: "addr_ok demo_env ?s"
    using R(11) addr_ok_cong [of ?s demo_conn demo_env] demo_can_send by (simp add: conn_kept_def can_send_def)
  have l: "length demo_body = 3" "my_seq demo_conn = 0xDEADBEF0" by (simp_all add: demo_body_def demo_conn_def)
  show ?thesis
    using tcp_foreign_ack [of ?s demo_env 3 "replicate 12 2" "[10, 0, 0, 66]" 9 0 0 False] R a k l
    by (simp add: TCP_SND_BUF_def)
qed

section \<open>Bounds\<close>

definition wire_ok :: "bool \<times> bytes \<Rightarrow> bool" where "wire_ok x \<longleftrightarrow> 60 \<le> length (snd x) \<and> length (snd x) \<le> 1518"

definition bnd :: "tcp_env \<Rightarrow> tcp \<Rightarrow> bool" where
  "bnd e s \<longleftrightarrow> snd_nxt s \<le> snd_len s \<and> snd_una s \<le> snd_len s \<and> snd_len s \<le> TCP_SND_BUF \<and> length (g_req s) < REQ_CAP \<and>
     (\<forall>x \<in> set (tx_log s). wire_ok x) \<and> length (peer_mac s) = 6 \<and> length (peer_ip s) = 4 \<and> length (t_my_mac s) = 6 \<and>
     length (t_my_ip s) = 4 \<and> length (e_wifi_mac e) = 6 \<and> length (e_wifi_ip e) = 4"

lemma bnd_addr_ok: "bnd e s \<Longrightarrow> addr_ok e s"
  by (simp add: bnd_def addr_ok_def src_mac_def src_ip_def)

lemma bnd_send:
  assumes "bnd e s"
  shows "bnd e (snd (tcp_send e fl p s))"
proof -
  have "wire_ok (v, tcp_frame e fl p s)" if "length p \<le> 1464" for v
    using bnd_addr_ok [OF assms] that by (cases "length p \<le> 6") (simp_all add: wire_ok_def tcp_frame_def addr_ok_def)
  then show ?thesis using assms by (auto simp: tcp_send_def bnd_def Let_def)
qed

lemma bnd_loop: "bnd e s \<Longrightarrow> bnd e (pump_loop e limit s)"
proof (induction "snd_len s - snd_nxt s" arbitrary: s rule: less_induct)
  case less
  have l: "snd_nxt s \<le> snd_len s" using less.prems by (simp add: bnd_def)
  let ?m = "s\<lparr>my_seq := snd_seq0 s + of_nat (snd_nxt s)\<rparr>"
  have "bnd e ?m" using less.prems by (simp add: bnd_def)
  from bnd_send [OF this, of "TCP_FLAG_PSH OR TCP_FLAG_ACK" "snd_slice s (snd_nxt s) (min (snd_len s - snd_nxt s) TCP_MSS)"]
  have b: "bnd e (sent_one e s)" by (simp add: tcp_send_def sent_one_def TCP_MSS_def Let_def)
  then have b': "bnd e (moved_on e s)" "bnd e ((sent_one e s)\<lparr>g_txfail := g_txfail s + 1\<rparr>)"
    using l by (simp_all add: bnd_def moved_on_def Let_def) (simp_all add: sent_one_def Let_def)
  show ?case
  proof (cases "window_full limit s")
    case True
    then show ?thesis using less.prems by (simp add: pump_loop_stop)
  next
    case False
    have "snd_len (moved_on e s) - snd_nxt (moved_on e s) < snd_len s - snd_nxt s"
      using False kept_sent(2) [of s e] by (auto simp: window_full_def TCP_MSS_def conn_kept_def)
    from less.hyps [OF this b'(1)] show ?thesis using b'(2) False by (simp add: pump_loop_step)
  qed
qed

lemma bnd_pump_fin:
  assumes "bnd e s"
  shows "bnd e (pump_fin e s)"
proof -
  let ?u = "s\<lparr>my_seq := snd_seq0 s + of_nat (snd_len s)\<rparr>"
  have "bnd e ?u" using assms by (simp add: bnd_def)
  from bnd_send [OF this, of "TCP_FLAG_FIN OR TCP_FLAG_ACK" "[]"] show ?thesis
    using assms by (auto simp: pump_fin_def now_ms_def bnd_def split_def Let_def)
qed

lemma bnd_pump:
  assumes "bnd e s"
  shows "bnd e (tcp_pump e s)"
proof -
  define s0 where "s0 = s\<lparr>g_pump_calls := g_pump_calls s + 1\<rparr>"
  define l where "l = pump_loop e (pump_limit s0) s0"
  have b0: "bnd e s0" using assms by (simp add: bnd_def s0_def)
  have b1: "bnd e l" unfolding l_def by (rule bnd_loop [OF b0])
  have b2: "bnd e (l\<lparr>my_seq := snd_seq0 l + of_nat (snd_nxt l)\<rparr>)" using b1 by (simp add: bnd_def)
  have "tcp_pump e s = s0 \<or> tcp_pump e s = pump_fin e l \<or> tcp_pump e s = pump_fin e (l\<lparr>my_seq := snd_seq0 l + of_nat (snd_nxt l)\<rparr>)"
    unfolding tcp_pump_def s0_def [symmetric] l_def by (simp add: Let_def)
  then show ?thesis using b0 bnd_pump_fin [OF b1] bnd_pump_fin [OF b2] by auto
qed

lemma bnd_response: "bnd e s \<Longrightarrow> bnd e (tcp_send_response e body s)"
  unfolding tcp_send_response_def now_ms_def Let_def prod.case
  by (rule bnd_pump) (simp add: bnd_def)

lemma bnd_on_ack:
  assumes "bnd e s"
  shows "bnd e (tcp_on_ack e a s)"
proof -
  have "unat (of_nat (snd_len s) :: u64) = snd_len s"
    using assms by (simp add: bnd_def TCP_SND_BUF_def unat_of_nat take_bit_nat_eq_self)
  then have "unat (a - snd_seq0 s) \<le> snd_len s" if "a - snd_seq0 s \<le> of_nat (snd_len s)"
    using that by (simp only: word_le_nat_alt)
  then show ?thesis unfolding tcp_on_ack_def Let_def using assms by (intro bnd_pump) (simp add: bnd_def)
qed

lemma bnd_tick:
  assumes "bnd e s"
  shows "bnd e (tcp_retransmit_tick e s)"
proof -
  let ?s = "s\<lparr>g_tick_calls := g_tick_calls s + 1\<rparr>"
  let ?n = "?s\<lparr>now_calls := now_calls s + 1\<rparr>"
  have "bnd e ?s" "bnd e ?n" "bnd e (?n\<lparr>snd_last_tx_ms := e_now e (now_calls s)\<rparr>)"
    "bnd e (?n\<lparr>snd_retries := snd_retries s + 1, snd_len := 0, snd_una := 0, snd_nxt := 0, snd_fin_pending := False\<rparr>)"
    using assms by (simp_all add: bnd_def)
  moreover have "bnd e (tcp_pump e (?n\<lparr>snd_retries := snd_retries s + 1, snd_nxt := snd_una s, g_retrans := g_retrans s + 1\<rparr>))"
    by (rule bnd_pump) (use assms in \<open>simp add: bnd_def\<close>)
  ultimately show ?thesis by (simp add: tcp_retransmit_tick_def now_ms_def Let_def)
qed

lemma bnd_reap: "bnd e s \<Longrightarrow> bnd e (tcp_conn_reap e s)"
  by (auto simp: tcp_conn_reap_def now_ms_def bnd_def REQ_CAP_def Let_def split: if_splits)

lemma bnd_open:
  assumes "bnd e s" "seg_ok g"
  shows "bnd e (tcp_open e g s)"
proof (cases "has (r_flags g) TCP_FLAG_SYN")
  case True
  define u where "u = (say (''tcp: SYN from '' @ puts_ip (r_ip g) @ '':'' @ puts_u32_dec (ucast (r_sport g)) @ '' -> SYN+ACK'' @ newline)
    (s\<lparr>c_via := g_rx_via s, peer_mac := r_mac g, peer_ip := r_ip g, peer_port := r_sport g,
                     peer_seq := r_seq g + 1, my_seq := g_isn_seed s, g_isn_seed := g_isn_seed s + 0x100,
                     greeted := False, g_snap := (snd_len s, snd_nxt s, snd_una s, peer_win s, c_state s),
                     snd_len := 0, snd_una := 0, snd_nxt := 0, snd_fin_pending := False, snd_retries := 0,
                     peer_fin := False, fin_acked := False, g_req := []\<rparr>))\<lparr>g_syn_seen := g_syn_seen s + 1\<rparr>"
  have "bnd e u" using assms by (simp add: u_def say_def bnd_def seg_ok_def REQ_CAP_def)
  then have b: "bnd e (snd (tcp_send e (TCP_FLAG_SYN OR TCP_FLAG_ACK) [] u))" by (rule bnd_send)
  obtain r v where v: "tcp_send e (TCP_FLAG_SYN OR TCP_FLAG_ACK) [] u = (r, v)" by fastforce
  have "tcp_open e g s = (if r < 0 then v\<lparr>g_txfail := g_txfail v + 1\<rparr> else v\<lparr>g_synack_sent := g_synack_sent v + 1\<rparr>)
      \<lparr>my_seq := my_seq v + 1, c_state := TCP_SYN_RCVD\<rparr>"
    using True v by (simp add: tcp_open_def u_def say_def Let_def)
  then show ?thesis using b v by (simp add: bnd_def)
qed (use assms in \<open>simp add: tcp_open_def\<close>)

lemma bnd_say: "bnd e (say m s) = bnd e s" by (simp add: bnd_def say_def)

lemma bnd_data:
  assumes "bnd e s"
  shows "bnd e (tcp_data e g s)"
proof -
  define u where "u = (if r_seq g = peer_seq s then s\<lparr>g_req := take (REQ_CAP - 1) (g_req s @ r_data g),
    peer_seq := r_seq g + of_nat (length (r_data g))\<rparr> else s)"
  have "bnd e u" using assms by (auto simp: u_def bnd_def REQ_CAP_def)
  then have b: "bnd e (snd (tcp_send e TCP_FLAG_ACK [] u))" (is "bnd e ?v") by (rule bnd_send)
  then have "bnd e (?v\<lparr>http_calls := http_calls ?v + 1, g_req := []\<rparr>)" by (simp add: bnd_def REQ_CAP_def)
  then show ?thesis
    using b unfolding tcp_data_def u_def [symmetric] by (simp add: split_def bnd_say bnd_response Let_def)
qed

lemma bnd_peer_fin:
  assumes "bnd e s"
  shows "bnd e (tcp_peer_fin e g s)"
proof -
  let ?u = "s\<lparr>peer_seq := r_seq g + 1, peer_fin := True\<rparr>"
  have "bnd e ?u" using assms by (simp add: bnd_def)
  then have b: "bnd e (snd (tcp_send e fl [] ?u))" for fl by (rule bnd_send)
  then have "bnd e (tcp_pump e (snd (tcp_send e TCP_FLAG_ACK [] ?u)))" by (intro bnd_pump)
  moreover have "bnd e ((snd (tcp_send e fl [] ?u))\<lparr>my_seq := q, c_state := st\<rparr>)" for fl q st
    using b [of fl] by (simp add: bnd_def)
  ultimately show ?thesis by (simp add: tcp_peer_fin_def split_def bnd_say Let_def)
qed

lemma bnd_established: "bnd e s \<Longrightarrow> bnd e (tcp_established e g s)"
  using bnd_data [of e s g] bnd_peer_fin [of e s g] bnd_peer_fin [of e "tcp_data e g s" g]
  by (auto simp: tcp_established_def Let_def) (simp_all add: bnd_def say_def)

lemma bnd_fin_wait:
  assumes "bnd e s"
  shows "bnd e (tcp_fin_wait e g s)"
proof -
  define u where "u = (if has (r_flags g) TCP_FLAG_ACK \<and> r_ack g = my_seq s then s\<lparr>fin_acked := True\<rparr> else s)"
  define v where "v = (if has (r_flags g) TCP_FLAG_FIN
     then snd (tcp_send e TCP_FLAG_ACK [] (u\<lparr>peer_seq := r_seq g + 1, peer_fin := True\<rparr>)) else u)"
  have u: "bnd e u" "bnd e (u\<lparr>peer_seq := r_seq g + 1, peer_fin := True\<rparr>)" using assms by (auto simp: u_def bnd_def)
  then have "bnd e v" using bnd_send by (simp add: v_def)
  moreover have "tcp_fin_wait e g s = (if fin_acked v then say (''tcp: closed (back to LISTEN)'' @ newline) (v\<lparr>c_state := TCP_LISTEN\<rparr>) else v)"
    by (simp add: tcp_fin_wait_def u_def v_def Let_def)
  ultimately show ?thesis by (simp add: bnd_say) (simp add: bnd_def)
qed

lemma bnd_dispatch:
  assumes "bnd e s" "seg_ok g"
  shows "bnd e (tcp_dispatch e g s)"
  using assms bnd_open bnd_established [of e s g] bnd_fin_wait [of e s g]
  by (auto simp: tcp_dispatch_def tcp_syn_rcvd_def tcp_last_ack_def bnd_say split: tcp_state.splits)
    (simp_all add: bnd_def REQ_CAP_def)

lemma bnd_receive:
  assumes "bnd e s" "seg_ok g"
  shows "bnd e (tcp_receive e g s)"
proof -
  let ?s = "s\<lparr>now_calls := now_calls s + 1, last_ms := e_now e (now_calls s), peer_win := r_win g\<rparr>"
  have "bnd e ?s" using assms(1) by (simp add: bnd_def)
  then show ?thesis using assms(2) bnd_on_ack [of e ?s "r_ack g"]
    by (simp add: tcp_receive_def now_ms_def bnd_dispatch Let_def)
qed

lemma bnd_step:
  assumes "bnd e s" "tcp_step e ev s = Some s'"
  shows "bnd e s'"
proof (cases ev)
  case (Rx frame via)
  then obtain r where "tcp_handle_packet_via e frame via s = Some (r, s')" using assms(2) by auto
  from tcp_handle_cases [OF this] obtain s1 where
    s1: "same_conn s s1" "s' = s1 \<or> (\<exists>g. seg_ok g \<and> s' = tcp_receive e g s1)" by blast
  then have "bnd e s1" using assms(1) by (auto simp: same_conn_def bnd_def)
  then show ?thesis using s1(2) bnd_receive by blast
qed (use assms bnd_tick bnd_reap in auto)



section \<open>Reads of a received frame\<close>

text \<open>Every read of the handler lies in the frame when the IP header and 14 more bytes do. The handler
  does not check this: it requires 54 bytes, and an IP header may have 60.\<close>

lemma tcp_handle_reads:
  assumes "54 \<le> length frame" "28 + unat (frame ! 14 AND 0x0F) * 4 \<le> length frame"
  shows "\<exists>r. tcp_handle_packet_via e frame via s = Some r"
proof -
  define ihl where "ihl = unat (frame ! 14 AND 0x0F) * 4"
  have "\<exists>r. tcp_parse e frame ihl sport s = Some r" for sport s
    using assms unfolding tcp_parse_def by (auto simp: ihl_def [symmetric] Let_def)
  then show ?thesis
    using assms unfolding tcp_handle_packet_via_def by (auto simp: ihl_def [symmetric] Let_def)
qed

lemma tcp_handle_overread:
  "tcp_handle_packet_via demo_env
     (replicate 12 0 @ [8, 0, 0x4F, 0, 0, 40, 0, 0, 0, 0, 64, 6, 0, 0, 192, 168, 3, 1, 192, 168, 3, 100] @ replicate 20 0)
     False demo_conn = None"
  by code_simp

end
