(* ===== verification/Spec2Isabelle.thy ===== *)
theory Spec2Isabelle
  imports Kmalloc Proc Compat Dhcp Fat32 Vfs Compile Tcp_Limits
begin

text \<open>
  Verification of the xinu-rpi5 kernel, a small operating system for the Raspberry Pi 5: a heap, a
  process scheduler for four cores, a network responder with a DHCP client and an HTTP server over its
  own TCP, two file systems, and a C compiler that runs on the machine. The theories translate the C
  code of these parts into executable HOL functions and prove what makes each part correct.

  \<^bold>\<open>The program and how its parts interact.\<close> \<open>loader/main.c\<close> initialises the heap (\<open>mem/\<close>), the process
  table (\<open>system/proc.c\<close>, whose stacks come from the heap), the second-level schedulers of the other cores
  (\<open>system/smpsched.c\<close>, over the spinlocks of \<open>system/spinlock.c\<close>), the drivers and the file systems
  (\<open>fs/\<close>, FAT32 over the SD card driver). Its receive loop hands every Ethernet frame to the responder
  (\<open>system/net_responder.c\<close>: ARP and ping), the DHCP client (\<open>system/dhcp_client.c\<close>) and the TCP server
  (\<open>system/tcp_server.c\<close>), which collects an HTTP request, asks the route table \<open>http_build\<close> for a
  response and delivers it; from the same loop run the retransmission timer and the reaper. Programs
  sent over HTTP or found on the card go through the compiler (\<open>cc/parse.c\<close>, \<open>cc/codegen.c\<close>,
  \<open>cc/cc.c\<close>). The ported network stack (\<open>network/\<close>) runs on the interface of \<open>system/xinu_compat.c\<close>.

  \<^bold>\<open>Conventions.\<close> Unsigned C integers are words of their width (\<open>u8\<close>, \<open>u16\<close>, \<open>u32\<close>, \<open>u64\<close>) and wrap;
  indices and lengths that the code bounds are natural numbers. Global variables of a file are one
  record, each function maps it to its new value. Code outside the modelled part is an argument: block
  devices, transmit drivers, counters, allocators. Reads and writes of buffers are checked: the value
  \<open>None\<close> (in the compiler a named stop) is an access outside the buffer, so that a theorem that a function
  returns is memory safety. Loops with a bound are terminating functions; loops along pointers in a
  store are \<open>partial_function (option)\<close>, and their theorems prove that they return.

  \<^bold>\<open>Theories, sources and results.\<close>
  \<^item> \<open>Prelude\<close>: machine integers, nullable pointers, lists linked in a store (\<open>chain\<close>), byte buffers.
  \<^item> \<open>Memory\<close> (\<open>mem/memory.c\<close>): \<open>mem_init\<close>, \<open>getmem\<close>, \<open>freemem\<close> and the statistics on a store of cells in
    which free-list headers and client data alias. The pointer code is shown to be first fit on the abstract
    list of free blocks; the list stays sorted, aligned, coalesced and accounted for; in every history the
    live blocks and the free bytes partition the heap. The locale \<open>heap_allocator\<close> is the contract clients use.
  \<^item> \<open>Kmalloc\<close> (\<open>mem/kmalloc.c\<close>): object headers in the same cells; histories with client stores keep
    objects disjoint and counters exact, and a second \<open>kfree\<close> of an object is recognised.
  \<^item> \<open>Spinlock\<close> (\<open>system/spinlock.c\<close>): ticket and bakery lock as interleavings of single shared accesses;
    mutual exclusion through the locale \<open>spin_mutex\<close>, the self test for both, and the loss of exclusion
    when a bakery number wraps.
  \<^item> \<open>Proc\<close> (\<open>system/proc.c\<close>, \<open>system/ctxsw.S\<close>, the dispatcher of \<open>system/smpsched.c\<close>): process table, ready
    list, creation, blocking, timed sleep, preemption, exit, with register frames in stack memory. In every
    interleaving of the four cores the ready list holds exactly the ready processes and no process runs
    twice; dispatch order is the stable sort by priority; a context switch and back restores all registers.
  \<^item> \<open>Kprintf\<close>, \<open>Compat\<close> (\<open>system/xinu_compat.c\<close>): formatted output; semaphores, mailboxes (a bounded queue,
    locale \<open>bounded_fifo\<close>) and buffer pools (buffers are conserved).
  \<^item> \<open>Checksum\<close> (\<open>ip_checksum\<close>, \<open>udp_checksum\<close>, \<open>network/net/netChksum.c\<close>): one's complement sums at machine
    width; a filled field verifies (locale \<open>inet_checksum\<close>), a single changed byte is detected, and the
    little-endian routine is the byte swap of the big-endian one.
  \<^item> \<open>Responder\<close> (\<open>system/net_responder.c\<close>): no frame of any content or length makes the handler leave its
    buffers; replies are exactly the ones the protocols ask for.
  \<^item> \<open>Dhcp\<close> (\<open>system/dhcp_client.c\<close>): frame builder, option parser and state machine; the packets are well
    formed, the parser is safe on every packet, and a lease the client holds came from an acknowledgement
    of its own transaction.
  \<^item> \<open>Tcp\<close> (\<open>system/tcp_server.c\<close>): the connection slot, segments, send buffer, pump, acknowledgements,
    retransmission, reaper, receive handler and request framing. \<open>Tcp_Stream\<close> runs the server against a
    peer over a network that loses, duplicates, delays and reorders frames: what the peer assembles is always
    a prefix of the response, an acknowledged close means it has all of it, and enough undisturbed rounds
    deliver it. \<open>Tcp_Limits\<close> bounds all buffers and frames under arbitrary input and proves three defects of
    the state machine.
  \<^item> \<open>Fat32\<close> (\<open>fs/fat32.c\<close>): mounting, cluster chains, names, reading and both writers over a block device that
    may fail at any access; a file written is read back, and all clusters and FAT entries outside it
    and its directory are unchanged.
  \<^item> \<open>Vfs\<close> (\<open>fs/vfs.c\<close>): the node store with its pointers; creation and lookup of paths, contents, and a tree
    walk that visits every node once.
  \<^item> \<open>Cc\<close>, \<open>Cc_Lex\<close>, \<open>Cc_Parse\<close> (\<open>cc/ccpriv.h\<close>, \<open>cc/cc.c\<close>, \<open>cc/parse.c\<close>): tokens, types, trees, arena, lexer and
    recursive-descent parser. Printed tokens lex back to themselves. \<open>Cc_Parse_Safe\<close> proves that the front
    end returns on every source text, follows no null token, and builds only well-typed trees.
  \<^item> \<open>Codegen\<close> (\<open>cc/codegen.c\<close>), \<open>Arm64\<close> (the instructions as the architecture defines them): \<open>Codegen_Sem\<close> proves
    that executing the words emitted for an expression computes its value on the memory and leaves stack and
    frame in place. \<open>Codegen_Branch\<close> carries invariants of the output through the generator (locale
    \<open>code_invariant\<close>) and proves that every branch has the distance to its label; \<open>Codegen_Link\<close> that after
    linking every call loads the address of its function and no patch damages another word.
  \<^item> \<open>Compile\<close> (the driver in \<open>cc/cc.c\<close>): \<open>cc_compile\<close> from source text to linked code, and the executable form
    that is saved and restored byte for byte.

  \<^bold>\<open>Bounds and fuel.\<close> The parser runs on fuel \<open>2 * tokens + 1\<close>, which is proved to be enough for every token
  list. The lexer needs at most 80 bytes of the 2 MiB arena per
  source character; the parser may exhaust it, and then stops.
  Branch theorems assume code below 1 MiB, the reach of a conditional branch; the code buffer has 256 KiB.
  The driver theorems assume at most 25000 characters of source, for which the lexer fits into the arena. The stream theorems assume that
  the sequence numbers of one response stay below \<open>2 ^ 32\<close>; \<open>Tcp_Limits\<close> shows what happens above. Bakery
  exclusion assumes that no ticket number wraps. Delivery needs one round per 1460 bytes of response.

  \<^bold>\<open>Not modelled.\<close> Device drivers (Ethernet, wireless, USB, SD, display, timers, interrupt controller): register
  access, their calls are arguments. The route table \<open>http_build\<close>: it prints and calls every other part; the
  server takes its response as an argument. The ARP, IPv4 and ICMP modules of \<open>network/\<close>: this kernel
  links but does not start them; their checksum and their kernel interface are modelled. The AIPL
  translator, browser, BASIC, actor bytecode machine, language model, shell, robot arm and boot code:
  applications over the drivers, or floating point, or assembly that sets up the machine. Weak memory: the
  locks are verified for sequentially consistent accesses, the barrier instructions have no state.
\<close>

end
